(* ===== verification/Prelude.thy ===== *)
theory Prelude
  imports Main "HOL-Library.Word" "HOL-Library.Monad_Syntax"
begin

text \<open>
  Shared vocabulary of the development: machine integers, byte memory and the generic lemmas
  the components use.

  C integers of a fixed width are either words (where the code works bit by bit) or \<open>int\<close>
  and \<open>nat\<close> with the wrap-around written out by \<open>wrap_u\<close> and \<open>wrap_s\<close>.

  A block of C memory is a list of cells. A cell is \<open>None\<close> until the program writes it, so
  reading freshly allocated memory before writing it, and every access out of bounds, makes the
  operation return \<open>None\<close>. A theorem that an operation returns \<open>Some\<close> therefore says that
  it makes only valid, initialised accesses.
\<close>

unbundle bit_operations_syntax

type_synonym u8 = "8 word"
type_synonym u16 = "16 word"
type_synonym u32 = "32 word"
type_synonym u64 = "64 word"
type_synonym cell = "u8 option"
type_synonym mem = "cell list"

named_theorems mem_defs \<open>definitions of the memory primitives\<close>

section \<open>Integer conversions\<close>

text \<open>Conversion of a mathematical integer to an unsigned or a two's complement C integer of
  \<open>w\<close> bits.\<close>

definition wrap_u :: "nat \<Rightarrow> int \<Rightarrow> int" where
  "wrap_u w v = v mod 2 ^ w"

definition wrap_s :: "nat \<Rightarrow> int \<Rightarrow> int" where
  "wrap_s w v = (v + 2 ^ (w - 1)) mod 2 ^ w - 2 ^ (w - 1)"

abbreviation in_s :: "nat \<Rightarrow> int \<Rightarrow> bool" where
  "in_s w v \<equiv> - (2 ^ (w - 1)) \<le> v \<and> v < 2 ^ (w - 1)"

abbreviation in_u :: "nat \<Rightarrow> int \<Rightarrow> bool" where
  "in_u w v \<equiv> 0 \<le> v \<and> v < 2 ^ w"

section \<open>Byte memory\<close>

definition mem_read :: "mem \<Rightarrow> nat \<Rightarrow> nat \<Rightarrow> u8 list option" where
  [mem_defs]: "mem_read m off n =
     (if off + n \<le> length m then those (take n (drop off m)) else None)"

definition mem_write :: "mem \<Rightarrow> nat \<Rightarrow> u8 list \<Rightarrow> mem option" where
  [mem_defs]: "mem_write m off bs =
     (if off + length bs \<le> length m
      then Some (take off m @ map Some bs @ drop (off + length bs) m) else None)"

text \<open>\<open>memmove\<close>: the regions may overlap and the cells may be uninitialised.\<close>

definition mem_move :: "mem \<Rightarrow> nat \<Rightarrow> nat \<Rightarrow> nat \<Rightarrow> mem option" where
  [mem_defs]: "mem_move m dst src n =
     (if src + n \<le> length m \<and> dst + n \<le> length m
      then Some (take dst m @ take n (drop src m) @ drop (dst + n) m) else None)"

definition mem_realloc :: "mem \<Rightarrow> nat \<Rightarrow> mem" where
  [mem_defs]: "mem_realloc m n = take n m @ replicate (n - length m) None"

text \<open>Single elements of a buffer that is initialised throughout.\<close>

definition byte_at :: "'a list \<Rightarrow> nat \<Rightarrow> 'a option" where
  [mem_defs]: "byte_at xs i = (if i < length xs then Some (xs ! i) else None)"

definition byte_put :: "'a list \<Rightarrow> nat \<Rightarrow> 'a \<Rightarrow> 'a list option" where
  [mem_defs]: "byte_put xs i v = (if i < length xs then Some (xs[i := v]) else None)"

section \<open>Little-endian integers\<close>

fun le_bytes :: "nat \<Rightarrow> int \<Rightarrow> u8 list" where
  "le_bytes 0 v = []"
| "le_bytes (Suc n) v = word_of_int v # le_bytes n (v div 256)"

fun le_uint :: "u8 list \<Rightarrow> int" where
  "le_uint [] = 0"
| "le_uint (b # bs) = uint b + 256 * le_uint bs"

definition le_sint :: "u8 list \<Rightarrow> int" where
  "le_sint bs = wrap_s (8 * length bs) (le_uint bs)"

section \<open>Generic lemmas\<close>

lemma wrap_u_id [simp]: "in_u w v \<Longrightarrow> wrap_u w v = v"
  by (simp add: wrap_u_def)

lemma wrap_s_id [simp]: "0 < w \<Longrightarrow> in_s w v \<Longrightarrow> wrap_s w v = v"
proof -
  assume "0 < w" and v: "in_s w v"
  then have "(2::int) ^ w = 2 * 2 ^ (w - 1)"
    by (metis Suc_diff_1 power_Suc)
  with v show ?thesis by (simp add: wrap_s_def)
qed

lemma wrap_s_mod [simp]: "wrap_s w (v mod 2 ^ w) = wrap_s w v"
  by (simp add: wrap_s_def mod_add_left_eq)

lemma wrap_s_range: "0 < w \<Longrightarrow> in_s w (wrap_s w v)"
proof -
  assume "0 < w"
  then have "(2::int) ^ w = 2 * 2 ^ (w - 1)"
    by (metis Suc_diff_1 power_Suc)
  moreover have "0 \<le> (v + 2 ^ (w - 1)) mod 2 ^ w" and "(v + 2 ^ (w - 1)) mod 2 ^ w < 2 ^ w"
    by simp_all
  ultimately show ?thesis unfolding wrap_s_def by linarith
qed

lemma those_map_Some [simp]: "those (map Some xs) = Some xs"
  by (induction xs) auto

lemma length_le_bytes [simp]: "length (le_bytes n v) = n"
  by (induction n arbitrary: v) auto

lemma le_uint_le_bytes [simp]: "le_uint (le_bytes n v) = v mod 256 ^ n"
proof (induction n arbitrary: v)
  case 0
  then show ?case by simp
next
  case (Suc n)
  have "v mod 256 + 256 * ((v div 256) mod 256 ^ n) = v mod (256 * 256 ^ n)"
    by (simp add: zmod_zmult2_eq)
  with Suc show ?case by (simp add: uint_word_of_int take_bit_eq_mod)
qed

lemma le_sint_le_bytes: "le_sint (le_bytes n v) = wrap_s (8 * n) v"
proof -
  have "(256::int) ^ n = 2 ^ (8 * n)"
    by (simp add: power_mult)
  then show ?thesis by (simp add: le_sint_def)
qed

lemma le_sint_le_bytes_id [simp]:
  "0 < n \<Longrightarrow> in_s (8 * n) v \<Longrightarrow> le_sint (le_bytes n v) = v"
  by (simp add: le_sint_le_bytes)

lemma le_uint_range: "0 \<le> le_uint bs \<and> le_uint bs < 256 ^ length bs"
proof (induction bs)
  case Nil
  then show ?case by simp
next
  case (Cons b bs)
  moreover have "0 \<le> uint b" and "uint b < 256"
    using uint_lt2p [of b] by auto
  ultimately show ?case by auto
qed

lemma u8_256: "256 * x = (0 :: u8)"
proof -
  have "(256 :: u8) = 0" by simp
  then show ?thesis by (simp only: mult_zero_left)
qed

lemma le_bytes_le_uint [simp]: "le_bytes (length bs) (le_uint bs) = bs"
proof (induction bs)
  case Nil
  then show ?case by simp
next
  case (Cons b bs)
  have "0 \<le> uint b" and "uint b < 256"
    using uint_lt2p [of b] by auto
  then have "(uint b + 256 * le_uint bs) div 256 = le_uint bs"
    by simp
  with Cons show ?case by (simp add: u8_256)
qed

text \<open>Tables of fixed-width records stored one after the other.\<close>

lemma length_concat_chunks:
  "\<forall>x\<in>set xs. length (f x) = k \<Longrightarrow> length (concat (map f xs)) = length xs * k"
  by (induction xs) auto

lemma take_concat_chunks:
  "\<forall>x\<in>set xs. length (f x) = k \<Longrightarrow>
   take (i * k) (concat (map f xs)) = concat (map f (take i xs))"
proof (induction xs arbitrary: i)
  case Nil
  then show ?case by simp
next
  case (Cons x xs)
  then show ?case by (cases i) auto
qed

lemma drop_concat_chunks:
  "\<forall>x\<in>set xs. length (f x) = k \<Longrightarrow>
   drop (i * k) (concat (map f xs)) = concat (map f (drop i xs))"
proof (induction xs arbitrary: i)
  case Nil
  then show ?case by simp
next
  case (Cons x xs)
  then show ?case by (cases i) auto
qed

lemma nth_concat_chunks:
  assumes "\<forall>x\<in>set xs. length (f x) = k" and "i < length xs"
  shows "take k (drop (i * k) (concat (map f xs))) = f (xs ! i)"
proof -
  have "drop i xs = xs ! i # drop (Suc i) xs"
    using assms(2) by (simp add: Cons_nth_drop_Suc)
  moreover have "length (f (xs ! i)) = k"
    using assms by simp
  ultimately show ?thesis
    using assms(1) by (simp add: drop_concat_chunks)
qed

text \<open>The memory primitives on memory that is given in parts.\<close>

lemma mem_read_part:
  assumes "off = length p" and "n = length bs"
  shows "mem_read (p @ map Some bs @ q) off n = Some bs"
  using assms by (simp add: mem_read_def)

lemma mem_write_part:
  assumes "off + length bs = length p"
  shows "mem_write (p @ q) off bs = Some (take off p @ map Some bs @ q)"
  using assms by (simp add: mem_write_def)

lemma mem_move_part:
  assumes "src = length p" and "n = length t" and "dst + n \<le> length p + length t + length q"
  shows "mem_move (p @ t @ q) dst src n =
         Some (take dst (p @ t @ q) @ t @ drop (dst + n) (p @ t @ q))"
  using assms by (simp add: mem_move_def)

lemma le_bytes_mod: "le_bytes n (v mod 256 ^ n) = le_bytes n v"
  by (metis le_bytes_le_uint le_uint_le_bytes length_le_bytes)

lemma le_bytes_wrap_s: "0 < n \<Longrightarrow> le_bytes n (wrap_s (8 * n) v) = le_bytes n v"
proof -
  assume "0 < n"
  have "(256::int) ^ n = 2 ^ (8 * n)" by (simp add: power_mult)
  moreover have "wrap_s (8 * n) v mod 2 ^ (8 * n) = v mod 2 ^ (8 * n)"
    by (simp add: wrap_s_def mod_diff_left_eq)
  ultimately show ?thesis by (metis le_bytes_mod)
qed

lemma le_bytes_le_sint: "bs \<noteq> [] \<Longrightarrow> le_bytes (length bs) (le_sint bs) = bs"
  by (simp add: le_sint_def le_bytes_wrap_s)

end
