(* ===== verification/Interfaces.thy ===== *)
theory Interfaces
  imports Prelude
begin

text \<open>
  The interfaces between components. A provider is a type of states with an invariant, an abstraction
  function and operations that may fail (\<open>None\<close>: invalid access, failed assertion). The laws say
  when an operation succeeds and what it does to the abstract value. The client lemmas of an
  interface are proved once, in its locale; each provider's theory interprets the locale on the
  definitions that model the code.
\<close>

section \<open>Sets\<close>

text \<open>The loop that adds a list of members and counts the new ones, over any \<open>add\<close>: the body
  of \<^verbatim>\<open>saddCommand\<close>.\<close>

fun sadd_loop :: "('s \<Rightarrow> 'a \<Rightarrow> ('s \<times> bool) option) \<Rightarrow> 's \<Rightarrow> 'a list \<Rightarrow> nat \<Rightarrow> ('s \<times> nat) option" where
  "sadd_loop add s [] added = Some (s, added)"
| "sadd_loop add s (x # xs) added =
     Option.bind (add s x) (\<lambda>(s', b). sadd_loop add s' xs (if b then added + 1 else added))"

text \<open>\<open>cap\<close> bounds the number of members up to which the provider promises its laws. A lookup may
  change the state (a hash table moves a bucket) but not the members.\<close>

locale set_ops =
  fixes add :: "'s \<Rightarrow> 'a \<Rightarrow> ('s \<times> bool) option"
    and remove :: "'s \<Rightarrow> 'a \<Rightarrow> ('s \<times> bool) option"
    and find :: "'s \<Rightarrow> 'a \<Rightarrow> ('s \<times> bool) option"
    and elems :: "'s \<Rightarrow> 'a set"
    and invar :: "'s \<Rightarrow> bool"
    and valid :: "'a \<Rightarrow> bool"
    and cap :: nat
  assumes fin: "invar s \<Longrightarrow> finite (elems s)"
    and add_ok: "invar s \<Longrightarrow> card (elems s) < cap \<Longrightarrow> valid x \<Longrightarrow>
      \<exists>s'. add s x = Some (s', x \<notin> elems s) \<and> invar s' \<and> elems s' = insert x (elems s)"
    and remove_ok: "invar s \<Longrightarrow> card (elems s) < cap \<Longrightarrow> valid x \<Longrightarrow>
      \<exists>s'. remove s x = Some (s', x \<in> elems s) \<and> invar s' \<and> elems s' = elems s - {x}"
    and find_ok: "invar s \<Longrightarrow> card (elems s) < cap \<Longrightarrow> valid x \<Longrightarrow>
      \<exists>s'. find s x = Some (s', x \<in> elems s) \<and> invar s' \<and> elems s' = elems s"
begin

lemma find_after_add:
  assumes "invar s" and "card (elems s) + 1 < cap" and "valid x" and "valid y"
  shows "\<exists>s' b s''. add s x = Some (s', b) \<and> find s' y = Some (s'', y = x \<or> y \<in> elems s)"
proof -
  obtain s' where s': "add s x = Some (s', x \<notin> elems s)" "invar s'"
      "elems s' = insert x (elems s)"
    using add_ok [of s x] assms by auto
  have "card (elems s') < cap"
    using s'(3) assms(2) fin [OF assms(1)] by (simp add: card_insert_if)
  then show ?thesis using s' find_ok [of s' y] assms(4) by fastforce
qed

lemma remove_after_add:
  assumes "invar s" and "card (elems s) + 1 < cap" and "valid x" and "x \<notin> elems s"
  shows "\<exists>s' s''. add s x = Some (s', True) \<and> remove s' x = Some (s'', True)
    \<and> invar s'' \<and> elems s'' = elems s"
proof -
  obtain s' where s': "add s x = Some (s', True)" "invar s'" "elems s' = insert x (elems s)"
    using add_ok [of s x] assms by auto
  have "card (elems s') < cap"
    using s'(3) assms(2) fin [OF assms(1)] by (simp add: card_insert_if)
  then obtain s'' where "remove s' x = Some (s'', x \<in> elems s')" "invar s''"
      "elems s'' = elems s' - {x}"
    using remove_ok [of s' x] s'(2) assms(3) by auto
  with s' assms(4) show ?thesis by auto
qed

text \<open>Adding a list of members: all of them are in the result and the counter is the growth of
  the set.\<close>

lemma sadd_loop_correct:
  "invar s \<Longrightarrow> card (elems s) + length xs \<le> cap \<Longrightarrow> \<forall>x\<in>set xs. valid x \<Longrightarrow>
   \<exists>s'. sadd_loop add s xs n = Some (s', n + (card (elems s') - card (elems s)))
     \<and> invar s' \<and> elems s' = elems s \<union> set xs"
proof (induction xs arbitrary: s n)
  case Nil
  then show ?case by simp
next
  case (Cons x xs)
  obtain s1 where s1: "add s x = Some (s1, x \<notin> elems s)" "invar s1"
      "elems s1 = insert x (elems s)"
    using add_ok [of s x] Cons.prems by auto
  let ?n = "if x \<notin> elems s then n + 1 else n"
  have c1: "card (elems s1) = (if x \<notin> elems s then card (elems s) + 1 else card (elems s))"
    using s1(3) fin [OF Cons.prems(1)] by (simp add: card_insert_if)
  obtain s' where s': "sadd_loop add s1 xs ?n
        = Some (s', ?n + (card (elems s') - card (elems s1)))"
      "invar s'" "elems s' = elems s1 \<union> set xs"
    using Cons.IH [of s1 ?n] s1 c1 Cons.prems by (auto split: if_splits)
  have "card (elems s1) \<le> card (elems s')"
    using s'(3) fin [OF s'(2)] by (intro card_mono) auto
  then have "?n + (card (elems s') - card (elems s1)) = n + (card (elems s') - card (elems s))"
    using c1 by (auto split: if_splits)
  with s1 s' show ?case by auto
qed

end

text \<open>A provider that can also create an empty set.\<close>

locale set_store = set_ops +
  fixes new :: 's
  assumes new_ok: "invar new" "elems new = {}"
begin

lemma sadd_new:
  assumes "length xs \<le> cap" and "\<forall>x\<in>set xs. valid x"
  shows "\<exists>s'. sadd_loop add new xs 0 = Some (s', card (set xs)) \<and> invar s' \<and> elems s' = set xs"
  using sadd_loop_correct [of new xs 0] new_ok assms by auto

end

section \<open>Maps\<close>

text \<open>The operations on a map as a client issues them, and the results. \<open>MTick\<close> is work in the
  background that must not be visible.\<close>

datatype ('k, 'v) map_op =
    MAdd 'k 'v
  | MReplace 'k 'v
  | MRemove 'k
  | MFetch 'k
  | MTick nat

datatype 'x map_res = RBool bool | RVal "'x option" | RNone

text \<open>The abstract map: keys are compared through \<open>norm\<close>, and \<open>put\<close> is what a value becomes when
  it is stored.\<close>

fun spec_do :: "('k \<Rightarrow> 'c) \<Rightarrow> ('v \<Rightarrow> 'x) \<Rightarrow> ('k, 'v) map_op \<Rightarrow> ('c \<rightharpoonup> 'x) \<Rightarrow> 'x map_res \<times> ('c \<rightharpoonup> 'x)" where
  "spec_do norm put (MAdd k v) m =
     (RBool (m (norm k) = None), if m (norm k) = None then m(norm k \<mapsto> put v) else m)"
| "spec_do norm put (MReplace k v) m = (RBool (m (norm k) = None), m(norm k \<mapsto> put v))"
| "spec_do norm put (MRemove k) m = (RBool (m (norm k) \<noteq> None), m(norm k := None))"
| "spec_do norm put (MFetch k) m = (RVal (m (norm k)), m)"
| "spec_do norm put (MTick n) m = (RNone, m)"

fun spec_run :: "('k \<Rightarrow> 'c) \<Rightarrow> ('v \<Rightarrow> 'x) \<Rightarrow> ('e \<times> ('k, 'v) map_op) list \<Rightarrow> ('c \<rightharpoonup> 'x) \<Rightarrow>
    'x map_res list \<times> ('c \<rightharpoonup> 'x)" where
  "spec_run norm put [] m = ([], m)"
| "spec_run norm put ((e, op) # ops) m =
     (let (r, m1) = spec_do norm put op m; (rs, m2) = spec_run norm put ops m1 in (r # rs, m2))"

text \<open>The same operations on a provider. Each operation runs in an environment \<open>e\<close> of settings that
  may differ from one operation to the next.\<close>

fun map_do :: "('e \<Rightarrow> 's \<Rightarrow> 'k \<Rightarrow> 'v \<Rightarrow> (bool \<times> 's) option) \<Rightarrow> ('e \<Rightarrow> 's \<Rightarrow> 'k \<Rightarrow> 'v \<Rightarrow> (bool \<times> 's) option) \<Rightarrow>
    ('e \<Rightarrow> 's \<Rightarrow> 'k \<Rightarrow> (bool \<times> 's) option) \<Rightarrow> ('e \<Rightarrow> 's \<Rightarrow> 'k \<Rightarrow> ('x option \<times> 's) option) \<Rightarrow>
    ('e \<Rightarrow> 's \<Rightarrow> nat \<Rightarrow> (bool \<times> 's) option) \<Rightarrow> 'e \<Rightarrow> ('k, 'v) map_op \<Rightarrow> 's \<Rightarrow> ('x map_res \<times> 's) option" where
  "map_do add replace remove fetch tick e (MAdd k v) s = map_option (\<lambda>(b, s). (RBool b, s)) (add e s k v)"
| "map_do add replace remove fetch tick e (MReplace k v) s =
     map_option (\<lambda>(b, s). (RBool b, s)) (replace e s k v)"
| "map_do add replace remove fetch tick e (MRemove k) s = map_option (\<lambda>(b, s). (RBool b, s)) (remove e s k)"
| "map_do add replace remove fetch tick e (MFetch k) s = map_option (\<lambda>(x, s). (RVal x, s)) (fetch e s k)"
| "map_do add replace remove fetch tick e (MTick n) s = map_option (\<lambda>(b, s). (RNone, s)) (tick e s n)"

fun map_run :: "('e \<Rightarrow> ('k, 'v) map_op \<Rightarrow> 's \<Rightarrow> ('x map_res \<times> 's) option) \<Rightarrow>
    ('e \<times> ('k, 'v) map_op) list \<Rightarrow> 's \<Rightarrow> ('x map_res list \<times> 's) option" where
  "map_run act [] s = Some ([], s)"
| "map_run act ((e, op) # ops) s =
     Option.bind (act e op s) (\<lambda>(r, s1).
       Option.bind (map_run act ops s1) (\<lambda>(rs, s2). Some (r # rs, s2)))"

locale map_store =
  fixes add replace :: "'e \<Rightarrow> 's \<Rightarrow> 'k \<Rightarrow> 'v \<Rightarrow> (bool \<times> 's) option"
    and remove :: "'e \<Rightarrow> 's \<Rightarrow> 'k \<Rightarrow> (bool \<times> 's) option"
    and fetch :: "'e \<Rightarrow> 's \<Rightarrow> 'k \<Rightarrow> ('x option \<times> 's) option"
    and tick :: "'e \<Rightarrow> 's \<Rightarrow> nat \<Rightarrow> (bool \<times> 's) option"
    and abs :: "'s \<Rightarrow> 'c \<rightharpoonup> 'x"
    and invar :: "'s \<Rightarrow> bool"
    and norm :: "'k \<Rightarrow> 'c"
    and put :: "'v \<Rightarrow> 'x"
  assumes add_ok: "invar s \<Longrightarrow> \<exists>s'. add e s k v = Some (abs s (norm k) = None, s') \<and> invar s' \<and>
      abs s' = (if abs s (norm k) = None then (abs s)(norm k \<mapsto> put v) else abs s)"
    and replace_ok: "invar s \<Longrightarrow> \<exists>s'. replace e s k v = Some (abs s (norm k) = None, s') \<and> invar s' \<and>
      abs s' = (abs s)(norm k \<mapsto> put v)"
    and remove_ok: "invar s \<Longrightarrow> \<exists>s'. remove e s k = Some (abs s (norm k) \<noteq> None, s') \<and> invar s' \<and>
      abs s' = (abs s)(norm k := None)"
    and fetch_ok: "invar s \<Longrightarrow> \<exists>s'. fetch e s k = Some (abs s (norm k), s') \<and> invar s' \<and> abs s' = abs s"
    and tick_ok: "invar s \<Longrightarrow> \<exists>b s'. tick e s n = Some (b, s') \<and> invar s' \<and> abs s' = abs s"
begin

lemma do_refines:
  assumes "invar s"
  shows "\<exists>s'. map_do add replace remove fetch tick e op s = Some (fst (spec_do norm put op (abs s)), s') \<and>
    invar s' \<and> abs s' = snd (spec_do norm put op (abs s))"
proof (cases op)
  case (MAdd k v)
  then show ?thesis using add_ok [OF assms, of e k v] by auto
next
  case (MReplace k v)
  then show ?thesis using replace_ok [OF assms, of e k v] by auto
next
  case (MRemove k)
  then show ?thesis using remove_ok [OF assms, of e k] by auto
next
  case (MFetch k)
  then show ?thesis using fetch_ok [OF assms, of e k] by auto
next
  case (MTick n)
  then show ?thesis using tick_ok [OF assms, of e n] by auto
qed

text \<open>Any sequence of operations gives the results of the abstract map.\<close>

lemma run_refines:
  "invar s \<Longrightarrow> \<exists>s'. map_run (map_do add replace remove fetch tick) ops s =
      Some (fst (spec_run norm put ops (abs s)), s') \<and>
    invar s' \<and> abs s' = snd (spec_run norm put ops (abs s))"
proof (induction ops arbitrary: s)
  case Nil
  then show ?case by simp
next
  case (Cons eop ops)
  obtain e op where eop: "eop = (e, op)" by (cases eop) auto
  obtain s1 where s1: "map_do add replace remove fetch tick e op s =
        Some (fst (spec_do norm put op (abs s)), s1)"
      "invar s1" "abs s1 = snd (spec_do norm put op (abs s))"
    using do_refines [OF Cons.prems] by blast
  obtain s2 where s2: "map_run (map_do add replace remove fetch tick) ops s1 =
        Some (fst (spec_run norm put ops (abs s1)), s2)"
      "invar s2" "abs s2 = snd (spec_run norm put ops (abs s1))"
    using Cons.IH [OF s1(2)] by blast
  show ?case using s1 s2 eop by (simp add: split_beta Let_def)
qed

end

end
