(* ===== verification/Intset.thy ===== *)
theory Intset
  imports Interfaces
begin

text \<open>
  Model of \<^verbatim>\<open>intset.c\<close>: a set of 64-bit integers kept as a sorted array of 2, 4 or 8 byte
  little-endian records behind a header. The array is a block of memory cells, so the model sees
  the in-place upgrade, the overlapping moves and the reallocations byte by byte. The stored form is
  little endian on every host (the \<^verbatim>\<open>intrev32ifbe\<close> and \<^verbatim>\<open>memrevNifbe\<close> macros), hence the
  macros are the identity here.

  \<open>intset_rep s vs\<close> says that \<open>s\<close> is a well-formed intset that stores the strictly increasing
  list \<open>vs\<close>; the lemmas show that every operation returns (no invalid access) and refines the
  operation on finite sets.
\<close>

section \<open>The structure and its operations\<close>

record intset =
  is_encoding :: nat
  is_length :: nat
  is_contents :: mem

abbreviation (input) INTSET_ENC_INT16 :: nat where "INTSET_ENC_INT16 \<equiv> 2"
abbreviation (input) INTSET_ENC_INT32 :: nat where "INTSET_ENC_INT32 \<equiv> 4"
abbreviation (input) INTSET_ENC_INT64 :: nat where "INTSET_ENC_INT64 \<equiv> 8"

text \<open>\<^verbatim>\<open>sizeof(intset)\<close>: the two 32-bit header fields.\<close>

abbreviation (input) sizeof_intset :: nat where "sizeof_intset \<equiv> 8"

definition intsetValueEncoding :: "int \<Rightarrow> nat" where
  "intsetValueEncoding v =
     (if v < - (2 ^ 31) \<or> v > 2 ^ 31 - 1 then INTSET_ENC_INT64
      else if v < - (2 ^ 15) \<or> v > 2 ^ 15 - 1 then INTSET_ENC_INT32
      else INTSET_ENC_INT16)"

text \<open>The three branches of \<^verbatim>\<open>_intsetGetEncoded\<close> and \<^verbatim>\<open>_intsetSet\<close> differ in the
  record width only.\<close>

definition rec_width :: "nat \<Rightarrow> nat" where
  "rec_width enc =
     (if enc = INTSET_ENC_INT64 then 8 else if enc = INTSET_ENC_INT32 then 4 else 2)"

definition intsetGetEncoded :: "intset \<Rightarrow> int \<Rightarrow> nat \<Rightarrow> int option" where
  "intsetGetEncoded s pos enc =
     (if pos < 0 then None
      else map_option le_sint
             (mem_read (is_contents s) (nat pos * rec_width enc) (rec_width enc)))"

definition intsetGet_raw :: "intset \<Rightarrow> int \<Rightarrow> int option" where
  "intsetGet_raw s pos = intsetGetEncoded s pos (is_encoding s)"

definition intsetSet_raw :: "intset \<Rightarrow> int \<Rightarrow> int \<Rightarrow> intset option" where
  "intsetSet_raw s pos v =
     (if pos < 0 then None
      else map_option (\<lambda>m. s\<lparr>is_contents := m\<rparr>)
             (mem_write (is_contents s) (nat pos * rec_width (is_encoding s))
                (le_bytes (rec_width (is_encoding s)) v)))"

definition intsetNew :: intset where
  "intsetNew = \<lparr>is_encoding = INTSET_ENC_INT16, is_length = 0, is_contents = []\<rparr>"

text \<open>\<open>len\<close> is a 32-bit count, so the 64-bit product never passes \<^verbatim>\<open>SIZE_MAX\<close> minus the
  header and the assertion holds.\<close>

definition intsetResize :: "intset \<Rightarrow> nat \<Rightarrow> intset" where
  "intsetResize s len = s\<lparr>is_contents := mem_realloc (is_contents s) (len * is_encoding s)\<rparr>"

text \<open>The loop of \<^verbatim>\<open>intsetSearch\<close>; it returns the final \<open>(min, mid, cur)\<close>.\<close>

partial_function (option) intsetSearch_loop ::
    "intset \<Rightarrow> int \<Rightarrow> int \<Rightarrow> int \<Rightarrow> int \<Rightarrow> int \<Rightarrow> (int \<times> int \<times> int) option" where
  "intsetSearch_loop s v mn mx mid cur =
     (if mx \<ge> mn then
        let mid' = wrap_s 32 (wrap_u 32 (wrap_u 32 mn + wrap_u 32 mx) div 2) in
        Option.bind (intsetGet_raw s mid') (\<lambda>cur'.
          if v > cur' then intsetSearch_loop s v (mid' + 1) mx mid' cur'
          else if v < cur' then intsetSearch_loop s v mn (mid' - 1) mid' cur'
          else Some (mn, mid', cur'))
      else Some (mn, mid, cur))"

definition intsetSearch :: "intset \<Rightarrow> int \<Rightarrow> (bool \<times> nat) option" where
  "intsetSearch s v =
     (let mx = wrap_s 32 (int (is_length s) - 1) in
      if is_length s = 0 then Some (False, 0)
      else Option.bind (intsetGet_raw s mx) (\<lambda>vmax.
        if v > vmax then Some (False, is_length s)
        else Option.bind (intsetGet_raw s 0) (\<lambda>vmin.
          if v < vmin then Some (False, 0)
          else Option.bind (intsetSearch_loop s v 0 mx (- 1) (- 1)) (\<lambda>(mn, mid, cur).
            if v = cur then Some (True, nat mid) else Some (False, nat mn)))))"

text \<open>The loop of \<^verbatim>\<open>intsetUpgradeAndAdd\<close>, from the last record down to the first.\<close>

fun intsetUpgrade_loop :: "intset \<Rightarrow> nat \<Rightarrow> nat \<Rightarrow> nat \<Rightarrow> intset option" where
  "intsetUpgrade_loop s curenc prepend 0 = Some s"
| "intsetUpgrade_loop s curenc prepend (Suc n) =
     Option.bind (intsetGetEncoded s (int n) curenc) (\<lambda>v.
       Option.bind (intsetSet_raw s (int (n + prepend)) v) (\<lambda>s'.
         intsetUpgrade_loop s' curenc prepend n))"

definition intsetUpgradeAndAdd :: "intset \<Rightarrow> int \<Rightarrow> intset option" where
  "intsetUpgradeAndAdd s v =
     (let curenc = is_encoding s;
          newenc = intsetValueEncoding v;
          len = wrap_s 32 (int (is_length s));
          prepend = (if v < 0 then 1 else 0);
          s1 = intsetResize (s\<lparr>is_encoding := newenc\<rparr>) ((is_length s + 1) mod 2 ^ 32)
      in if len < 0 then None
         else Option.bind (intsetUpgrade_loop s1 curenc prepend (nat len)) (\<lambda>s2.
           Option.bind (if prepend = 1 then intsetSet_raw s2 0 v
                        else intsetSet_raw s2 (wrap_s 32 (int (is_length s2))) v) (\<lambda>s3.
             Some (s3\<lparr>is_length := (is_length s3 + 1) mod 2 ^ 32\<rparr>))))"

text \<open>The number of bytes is computed in a \<^verbatim>\<open>uint32_t\<close>.\<close>

definition intsetMoveTail :: "intset \<Rightarrow> nat \<Rightarrow> nat \<Rightarrow> intset option" where
  "intsetMoveTail s from to =
     (let w = rec_width (is_encoding s);
          bytes = nat (wrap_u 32 (wrap_u 32 (int (is_length s) - int from) * int w))
      in map_option (\<lambda>m. s\<lparr>is_contents := m\<rparr>)
           (mem_move (is_contents s) (to * w) (from * w) bytes))"

definition intsetAdd :: "intset \<Rightarrow> int \<Rightarrow> (intset \<times> bool) option" where
  "intsetAdd s v =
     (if intsetValueEncoding v > is_encoding s
      then map_option (\<lambda>s'. (s', True)) (intsetUpgradeAndAdd s v)
      else Option.bind (intsetSearch s v) (\<lambda>(found, pos).
        if found then Some (s, False)
        else
          let s1 = intsetResize s ((is_length s + 1) mod 2 ^ 32) in
          Option.bind (if pos < is_length s1 then intsetMoveTail s1 pos (pos + 1) else Some s1)
            (\<lambda>s2. Option.bind (intsetSet_raw s2 (wrap_s 32 (int pos)) v) (\<lambda>s3.
               Some (s3\<lparr>is_length := (is_length s3 + 1) mod 2 ^ 32\<rparr>, True)))))"

definition intsetRemove :: "intset \<Rightarrow> int \<Rightarrow> (intset \<times> bool) option" where
  "intsetRemove s v =
     (if intsetValueEncoding v \<le> is_encoding s
      then Option.bind (intsetSearch s v) (\<lambda>(found, pos).
        if found then
          let len = is_length s in
          Option.bind (if pos < len - 1 then intsetMoveTail s (pos + 1) pos else Some s)
            (\<lambda>s1. Some ((intsetResize s1 (len - 1))\<lparr>is_length := len - 1\<rparr>, True))
        else Some (s, False))
      else Some (s, False))"

definition intsetFind :: "intset \<Rightarrow> int \<Rightarrow> bool option" where
  "intsetFind s v =
     (if intsetValueEncoding v \<le> is_encoding s
      then map_option fst (intsetSearch s v) else Some False)"

text \<open>\<open>r\<close> is the value of \<^verbatim>\<open>rand()\<close>; the assertion on an empty set is the result
  \<open>None\<close>.\<close>

definition intsetRandom :: "intset \<Rightarrow> nat \<Rightarrow> int option" where
  "intsetRandom s r =
     (if is_length s = 0 then None
      else intsetGet_raw s (wrap_s 32 (int (r mod is_length s))))"

definition intsetMax :: "intset \<Rightarrow> int option" where
  "intsetMax s = intsetGet_raw s (wrap_s 32 (int (is_length s) - 1))"

definition intsetMin :: "intset \<Rightarrow> int option" where
  "intsetMin s = intsetGet_raw s 0"

text \<open>The result is \<open>Some None\<close> where the function returns 0.\<close>

definition intsetGet :: "intset \<Rightarrow> nat \<Rightarrow> int option option" where
  "intsetGet s pos =
     (if pos < is_length s then map_option Some (intsetGet_raw s (wrap_s 32 (int pos)))
      else Some None)"

definition intsetLen :: "intset \<Rightarrow> nat" where
  "intsetLen s = is_length s"

definition intsetBlobLen :: "intset \<Rightarrow> nat" where
  "intsetBlobLen s = sizeof_intset + is_length s * is_encoding s"

text \<open>The blob is the header followed by the records. A header field is read as a
  little-endian 32-bit integer.\<close>

fun validate_loop :: "intset \<Rightarrow> int \<Rightarrow> nat \<Rightarrow> nat \<Rightarrow> bool option" where
  "validate_loop s prev i 0 = Some True"
| "validate_loop s prev i (Suc n) =
     Option.bind (intsetGet_raw s (wrap_s 32 (int i))) (\<lambda>cur.
       if cur \<le> prev then Some False else validate_loop s cur (Suc i) n)"

definition intsetValidateIntegrity :: "u8 list \<Rightarrow> bool \<Rightarrow> bool option" where
  "intsetValidateIntegrity p deep =
     (if length p < sizeof_intset then Some False
      else
        let encoding = nat (le_uint (take 4 p));
            count = nat (le_uint (take 4 (drop 4 p)));
            s = \<lparr>is_encoding = encoding, is_length = count,
                 is_contents = map Some (drop sizeof_intset p)\<rparr>
        in if \<not> (encoding = INTSET_ENC_INT64 \<or> encoding = INTSET_ENC_INT32
                 \<or> encoding = INTSET_ENC_INT16) then Some False
           else if sizeof_intset + count * encoding \<noteq> length p then Some False
           else if count = 0 then Some False
           else if \<not> deep then Some True
           else Option.bind (intsetGet_raw s 0) (\<lambda>prev. validate_loop s prev 1 (count - 1)))"

section \<open>Representation\<close>

definition blob :: "nat \<Rightarrow> int list \<Rightarrow> mem" where
  "blob w vs = map Some (concat (map (le_bytes w) vs))"

definition intset_rep :: "intset \<Rightarrow> int list \<Rightarrow> bool" where
  "intset_rep s vs \<longleftrightarrow>
     is_encoding s \<in> {2, 4, 8} \<and> is_length s = length vs
     \<and> is_contents s = blob (is_encoding s) vs \<and> sorted_wrt (<) vs
     \<and> (\<forall>v\<in>set vs. in_s (8 * is_encoding s) v)"

text \<open>The records an intset stores, and the validity predicate without the list.\<close>

definition intset_elems :: "intset \<Rightarrow> int list" where
  "intset_elems s =
     map (\<lambda>i. the (intsetGet_raw s (int i))) [0..<is_length s]"

definition intset_wf :: "intset \<Rightarrow> bool" where
  "intset_wf s \<longleftrightarrow> intset_rep s (intset_elems s)"

lemma length_blob [simp]: "length (blob w vs) = length vs * w"
  by (simp add: blob_def length_concat_chunks)

lemma blob_append [simp]: "blob w (us @ vs) = blob w us @ blob w vs"
  by (simp add: blob_def)

lemma blob_Nil [simp]: "blob w [] = []"
  by (simp add: blob_def)

lemma blob_single: "blob w [v] = map Some (le_bytes w v)"
  by (simp add: blob_def)

lemma blob_split: "i < length vs \<Longrightarrow>
  blob w vs = blob w (take i vs) @ blob w [vs ! i] @ blob w (drop (Suc i) vs)"
  by (metis blob_append append_Cons append_Nil id_take_nth_drop)

lemma rec_width_id [simp]: "e \<in> {2, 4, 8} \<Longrightarrow> rec_width e = e"
  by (auto simp: rec_width_def)

lemma intsetGetEncoded_blob:
  assumes "e \<in> {2, 4, 8}" and "i < length vs" and "in_s (8 * e) (vs ! i)"
    and "is_contents s = blob e vs @ q"
  shows "intsetGetEncoded s (int i) e = Some (vs ! i)"
proof -
  have "is_contents s = blob e (take i vs) @ map Some (le_bytes e (vs ! i))
          @ blob e (drop (Suc i) vs) @ q"
    using assms(2,4) blob_split [of i vs e] by (simp add: blob_single)
  moreover have "0 < e" using assms(1) by auto
  ultimately show ?thesis
    using assms by (simp add: intsetGetEncoded_def mem_read_part)
qed

lemma intset_rep_get:
  assumes "intset_rep s vs" and "i < length vs"
  shows "intsetGet_raw s (int i) = Some (vs ! i)"
proof -
  have "in_s (8 * is_encoding s) (vs ! i)"
    using assms nth_mem unfolding intset_rep_def by blast
  then show ?thesis
    using assms intsetGetEncoded_blob [of "is_encoding s" i vs s "[]"]
    by (simp add: intset_rep_def intsetGet_raw_def)
qed

lemma intset_rep_length: "intset_rep s vs \<Longrightarrow> is_length s = length vs"
  by (simp add: intset_rep_def)

lemma intset_rep_elems: "intset_rep s vs \<Longrightarrow> intset_elems s = vs"
  by (rule nth_equalityI) (simp_all add: intset_elems_def intset_rep_get intset_rep_length)

lemma intset_rep_wf: "intset_rep s vs \<Longrightarrow> intset_wf s"
  by (simp add: intset_wf_def intset_rep_elems)

lemma wrap_s_32 [simp]: "- (2 ^ 31) \<le> v \<Longrightarrow> v < 2 ^ 31 \<Longrightarrow> wrap_s 32 v = v"
  by simp

lemma wrap_s_32_nat: "n < 2 ^ 31 \<Longrightarrow> wrap_s 32 (int n) = int n"
  by simp

section \<open>Search\<close>

lemma mid_no_overflow:
  assumes "0 \<le> mn" and "mn \<le> mx" and "mx < 2 ^ 31 - 1"
  shows "wrap_s 32 (wrap_u 32 (wrap_u 32 mn + wrap_u 32 mx) div 2) = (mn + mx) div 2"
  using assms by simp

text \<open>The loop keeps every smaller record before \<open>mn\<close> and every larger one after \<open>mx\<close>, and the
  interval shrinks in every round.\<close>

lemma intsetSearch_loop_correct:
  assumes rep: "intset_rep s vs" and len: "length vs < 2 ^ 31 - 1"
  shows "0 \<le> mn \<Longrightarrow> mx < int (length vs) \<Longrightarrow> mn \<le> mx + 1 \<Longrightarrow>
    \<forall>i<nat mn. vs ! i < v \<Longrightarrow> \<forall>i<length vs. mx < int i \<longrightarrow> v < vs ! i \<Longrightarrow>
    (mn \<le> mx \<or> cur \<noteq> v) \<Longrightarrow>
    \<exists>mn' mid' cur'. intsetSearch_loop s v mn mx mid cur = Some (mn', mid', cur') \<and>
      (if v = cur' then 0 \<le> mid' \<and> mid' < int (length vs) \<and> vs ! nat mid' = v
       else 0 \<le> mn' \<and> mn' \<le> int (length vs) \<and> (\<forall>i<nat mn'. vs ! i < v)
            \<and> (\<forall>i<length vs. mn' \<le> int i \<longrightarrow> v < vs ! i))"
proof (induction "nat (mx - mn + 1)" arbitrary: mn mx mid cur rule: less_induct)
  case less
  show ?case
  proof (cases "mn \<le> mx")
    case False
    with less.prems have "mn = mx + 1" and "cur \<noteq> v" by auto
    then show ?thesis
      using less.prems by (subst intsetSearch_loop.simps) auto
  next
    case True
    define m where "m = (mn + mx) div 2"
    have m: "mn \<le> m" "m \<le> mx" using True by (auto simp: m_def)
    have mi: "nat m < length vs" "int (nat m) = m" using m less.prems by auto
    have wrap: "wrap_s 32 (wrap_u 32 (wrap_u 32 mn + wrap_u 32 mx) div 2) = m"
      using mid_no_overflow [of mn mx] less.prems(1,2) True len by (simp add: m_def)
    have get: "intsetGet_raw s m = Some (vs ! nat m)"
      using intset_rep_get [OF rep mi(1)] mi(2) by simp
    have srt: "sorted_wrt (<) vs" using rep by (simp add: intset_rep_def)
    have unf: "intsetSearch_loop s v mn mx mid cur =
      (if v > vs ! nat m then intsetSearch_loop s v (m + 1) mx m (vs ! nat m)
       else if v < vs ! nat m then intsetSearch_loop s v mn (m - 1) m (vs ! nat m)
       else Some (mn, m, vs ! nat m))"
      using True by (subst intsetSearch_loop.simps) (simp add: wrap get Let_def)
    consider (gt) "v > vs ! nat m" | (lt) "v < vs ! nat m" | (eq) "v = vs ! nat m" by linarith
    then show ?thesis
    proof cases
      case gt
      have "\<forall>i<nat (m + 1). vs ! i < v"
      proof (intro allI impI)
        fix i assume "i < nat (m + 1)"
        then have "i = nat m \<or> i < nat m" using m less.prems(1) by linarith
        then show "vs ! i < v"
          using gt sorted_wrt_nth_less [OF srt, of i "nat m"] mi(1) by auto
      qed
      moreover have "intsetSearch_loop s v mn mx mid cur =
          intsetSearch_loop s v (m + 1) mx m (vs ! nat m)" using unf gt by simp
      ultimately show ?thesis
        using less.hyps [of mx "m + 1" "vs ! nat m" m] gt m less.prems by simp
    next
      case lt
      have "\<forall>i<length vs. m - 1 < int i \<longrightarrow> v < vs ! i"
      proof (intro allI impI)
        fix i assume "i < length vs" and "m - 1 < int i"
        then have "i = nat m \<or> nat m < i" using m less.prems(1) by linarith
        then show "v < vs ! i"
          using lt sorted_wrt_nth_less [OF srt, of "nat m" i] \<open>i < length vs\<close> by auto
      qed
      moreover have "intsetSearch_loop s v mn mx mid cur =
          intsetSearch_loop s v mn (m - 1) m (vs ! nat m)" using unf lt by simp
      ultimately show ?thesis
        using less.hyps [of "m - 1" mn "vs ! nat m" m] lt m less.prems by simp
    next
      case eq
      then show ?thesis unfolding unf using m less.prems mi by auto
    qed
  qed
qed

text \<open>What a search returns: the index of the value, or where it would go.\<close>

lemma intsetSearch_correct:
  assumes rep: "intset_rep s vs" and len: "length vs < 2 ^ 31 - 1"
  obtains found pos where "intsetSearch s v = Some (found, pos)" and "found \<longleftrightarrow> v \<in> set vs"
    and "found \<Longrightarrow> pos < length vs \<and> vs ! pos = v"
    and "\<not> found \<Longrightarrow> pos \<le> length vs \<and> (\<forall>i<pos. vs ! i < v)
           \<and> (\<forall>i<length vs. pos \<le> i \<longrightarrow> v < vs ! i)"
proof -
  have srt: "sorted_wrt (<) vs" and L: "is_length s = length vs"
    using rep by (auto simp: intset_rep_def)
  define P where "P found pos \<longleftrightarrow> (if found then pos < length vs \<and> vs ! pos = v
      else pos \<le> length vs \<and> (\<forall>i<pos. vs ! i < v) \<and> (\<forall>i<length vs. pos \<le> i \<longrightarrow> v < vs ! i))"
    for found pos
  have "\<exists>found pos. intsetSearch s v = Some (found, pos) \<and> P found pos"
  proof (cases "vs = []")
    case True
    then show ?thesis using L by (auto simp: intsetSearch_def P_def)
  next
    case False
    let ?n = "length vs"
    have mx: "wrap_s 32 (int ?n - 1) = int (?n - 1)"
      using len False by (simp add: Suc_leI)
    have gmx: "intsetGet_raw s (int (?n - 1)) = Some (vs ! (?n - 1))"
      and gmn: "intsetGet_raw s 0 = Some (vs ! 0)"
      using intset_rep_get [OF rep, of "?n - 1"] intset_rep_get [OF rep, of 0] False by auto
    have le: "i < ?n \<Longrightarrow> vs ! i \<le> vs ! (?n - 1) \<and> vs ! 0 \<le> vs ! i" for i
      using sorted_nth_mono [OF strict_sorted_imp_sorted [OF srt], of i "?n - 1"]
        sorted_nth_mono [OF strict_sorted_imp_sorted [OF srt], of 0 i] by auto
    have unf: "intsetSearch s v =
      (if v > vs ! (?n - 1) then Some (False, ?n) else if v < vs ! 0 then Some (False, 0)
       else Option.bind (intsetSearch_loop s v 0 (int (?n - 1)) (- 1) (- 1))
         (\<lambda>(mn, mid, cur). if v = cur then Some (True, nat mid) else Some (False, nat mn)))"
      using False by (simp only: intsetSearch_def L mx gmx gmn Let_def bind.simps) simp
    consider (gt) "v > vs ! (?n - 1)" | (lt) "v < vs ! 0" "\<not> v > vs ! (?n - 1)"
      | (mid) "\<not> v > vs ! (?n - 1)" "\<not> v < vs ! 0" by blast
    then show ?thesis
    proof cases
      case gt
      then have "P False ?n" using le unfolding P_def by fastforce
      with gt show ?thesis unfolding unf by auto
    next
      case lt
      then have "P False 0" using le unfolding P_def by fastforce
      with lt show ?thesis unfolding unf by auto
    next
      case mid
      have "\<forall>i<?n. int (?n - 1) < int i \<longrightarrow> v < vs ! i" by auto
      then obtain mn' mid' cur' where
        loop: "intsetSearch_loop s v 0 (int (?n - 1)) (- 1) (- 1) = Some (mn', mid', cur')" and
        res: "if v = cur' then 0 \<le> mid' \<and> mid' < int ?n \<and> vs ! nat mid' = v
              else 0 \<le> mn' \<and> mn' \<le> int ?n \<and> (\<forall>i<nat mn'. vs ! i < v)
                \<and> (\<forall>i<?n. mn' \<le> int i \<longrightarrow> v < vs ! i)"
        using intsetSearch_loop_correct [OF rep len, of 0 "int (?n - 1)" v "- 1" "- 1"] False
        by auto
      have "P (v = cur') (if v = cur' then nat mid' else nat mn')"
        using res by (auto simp: P_def nat_le_iff)
      moreover have "intsetSearch s v
          = Some (v = cur', if v = cur' then nat mid' else nat mn')"
        using mid loop unfolding unf by simp
      ultimately show ?thesis by blast
    qed
  qed
  then obtain found pos where r: "intsetSearch s v = Some (found, pos)" "P found pos" by blast
  have "found \<longleftrightarrow> v \<in> set vs"
    using r(2) by (auto simp: P_def in_set_conv_nth split: if_splits) (meson leI less_irrefl)
  with r show thesis by (intro that [of found pos]) (auto simp: P_def)
qed

section \<open>Moving, inserting and removing records\<close>

lemma intsetSet_raw_part:
  assumes "is_encoding s \<in> {2, 4, 8}" and "is_contents s = p @ q"
    and "length p = Suc i * is_encoding s"
  shows "intsetSet_raw s (int i) v =
    Some (s\<lparr>is_contents := take (i * is_encoding s) p @ blob (is_encoding s) [v] @ q\<rparr>)"
  using assms by (simp add: intsetSet_raw_def mem_write_part blob_single)

lemma intsetResize_fields [simp]:
  "is_length (intsetResize s n) = is_length s" "is_encoding (intsetResize s n) = is_encoding s"
  by (simp_all add: intsetResize_def)

lemma intsetResize_grow:
  assumes "is_contents s = blob (is_encoding s) vs"
  shows "intsetResize s (Suc (length vs)) =
    s\<lparr>is_contents := blob (is_encoding s) vs @ replicate (is_encoding s) None\<rparr>"
  using assms by (simp add: intsetResize_def mem_realloc_def)

lemma tail_bytes:
  assumes "from \<le> n" and "n < 2 ^ 29" and "e \<in> {2, 4, 8}"
  shows "nat (wrap_u 32 (wrap_u 32 (int n - int from) * int e)) = (n - from) * e"
proof -
  have "(n - from) * e < 2 ^ 32" and "n - from < 2 ^ 32"
    using assms by auto
  then have "int (n - from) * int e < 2 ^ 32" and "int (n - from) < 2 ^ 32"
    by (metis of_nat_less_numeral_power_cancel_iff of_nat_mult,
        metis of_nat_less_numeral_power_cancel_iff)
  moreover have "int n - int from = int (n - from)"
    using assms by simp
  ultimately show ?thesis
    by (simp add: nat_mult_distrib del: of_nat_diff)
qed

text \<open>Shifting the tail one record up and storing a record in the gap.\<close>

lemma intset_insert_at:
  assumes e: "is_encoding s \<in> {2, 4, 8}" and len: "is_length s = length vs" "length vs < 2 ^ 29"
    and cont: "is_contents s = blob (is_encoding s) vs" and pos: "pos \<le> length vs"
  shows "Option.bind (if pos < length vs
      then intsetMoveTail (intsetResize s (Suc (length vs))) pos (pos + 1)
      else Some (intsetResize s (Suc (length vs)))) (\<lambda>s2. intsetSet_raw s2 (int pos) v) =
    Some (s\<lparr>is_contents := blob (is_encoding s) (take pos vs @ v # drop pos vs)\<rparr>)"
proof -
  let ?e = "is_encoding s" and ?n = "length vs"
  let ?gap = "replicate ?e None"
  let ?A = "blob ?e (take pos vs)" and ?T = "blob ?e (drop pos vs)"
  have split: "blob ?e vs = ?A @ ?T"
    by (metis append_take_drop_id blob_append)
  have lens: "length ?A = pos * ?e" "length ?T = (?n - pos) * ?e"
    using pos by simp_all
  have s1: "intsetResize s (Suc ?n) = s\<lparr>is_contents := ?A @ ?T @ ?gap\<rparr>"
    using intsetResize_grow [OF cont] split by simp
  define P where "P = take (Suc pos * ?e) (?A @ ?T @ ?gap)"
  have lenP: "length P = Suc pos * ?e"
    using lens pos by (simp add: P_def min_def)
  have takeP: "take (pos * ?e) P = ?A"
    using lens(1) by (simp add: P_def del: length_blob)
  have moved: "(if pos < ?n then intsetMoveTail (intsetResize s (Suc ?n)) pos (pos + 1)
      else Some (intsetResize s (Suc ?n))) = Some (s\<lparr>is_contents := P @ ?T\<rparr>)"
  proof (cases "pos < ?n")
    case True
    have "Suc pos * ?e + (?n - pos) * ?e = Suc ?n * ?e"
      using pos by (metis Suc_diff_le add_Suc add_mult_distrib le_add_diff_inverse)
    then have "mem_move (?A @ ?T @ ?gap) (Suc pos * ?e) (pos * ?e) ((?n - pos) * ?e)
        = Some (P @ ?T)"
      using lens pos by (subst mem_move_part) (auto simp: P_def add_mult_distrib)
    then show ?thesis
      using True e tail_bytes [OF pos len(2) e] by (simp add: s1 intsetMoveTail_def len Let_def)
  next
    case False
    with pos have "?T = []" and "P = ?A @ ?gap"
      using lens by (simp_all add: P_def)
    with False show ?thesis by (simp add: s1)
  qed
  have "intsetSet_raw (s\<lparr>is_contents := P @ ?T\<rparr>) (int pos) v
      = Some (s\<lparr>is_contents := ?A @ blob ?e [v] @ ?T\<rparr>)"
    using intsetSet_raw_part [of "s\<lparr>is_contents := P @ ?T\<rparr>" P ?T pos v] e lenP takeP by simp
  then show ?thesis
    unfolding moved by (simp add: blob_append [symmetric] del: blob_append)
qed

lemma intset_remove_at:
  assumes e: "is_encoding s \<in> {2, 4, 8}" and len: "is_length s = length vs" "length vs < 2 ^ 29"
    and cont: "is_contents s = blob (is_encoding s) vs" and pos: "pos < length vs"
  shows "Option.bind (if pos < length vs - 1 then intsetMoveTail s (pos + 1) pos else Some s)
      (\<lambda>s1. Some (intsetResize s1 (length vs - 1))) =
    Some (s\<lparr>is_contents := blob (is_encoding s) (take pos vs @ drop (Suc pos) vs)\<rparr>)"
proof -
  let ?e = "is_encoding s" and ?n = "length vs"
  let ?A = "blob ?e (take pos vs)" and ?X = "blob ?e [vs ! pos]" and ?T = "blob ?e (drop (Suc pos) vs)"
  have split: "blob ?e vs = ?A @ ?X @ ?T"
    using blob_split [OF pos] by simp
  have lens: "length ?A = pos * ?e" "length ?X = ?e" "length ?T = (?n - Suc pos) * ?e"
    using pos by simp_all
  have tot: "pos * ?e + (?n - Suc pos) * ?e = (?n - 1) * ?e"
    using pos by (simp add: add_mult_distrib [symmetric])
  have "\<exists>q. (if pos < ?n - 1 then intsetMoveTail s (pos + 1) pos else Some s)
      = Some (s\<lparr>is_contents := ?A @ ?T @ q\<rparr>)"
  proof (cases "pos < ?n - 1")
    case True
    have "mem_move ((?A @ ?X) @ ?T @ []) (pos * ?e) (Suc pos * ?e) ((?n - Suc pos) * ?e)
       = Some (?A @ ?T @ drop (pos * ?e + (?n - Suc pos) * ?e) (?A @ ?X @ ?T))"
      using lens by (subst mem_move_part) auto
    then show ?thesis
      using True e pos tail_bytes [of "Suc pos" ?n, OF _ len(2) e]
      by (simp add: intsetMoveTail_def len cont split Let_def) blast
  next
    case False
    with pos have "?T = []" by simp
    then have "s = s\<lparr>is_contents := ?A @ ?T @ ?X\<rparr>"
      using cont split by simp
    with False show ?thesis by auto
  qed
  moreover define B where "B = ?A @ ?T"
  ultimately obtain q where
    "(if pos < ?n - 1 then intsetMoveTail s (pos + 1) pos else Some s)
      = Some (s\<lparr>is_contents := B @ q\<rparr>)" by (auto simp: B_def)
  moreover have "length B = (?n - 1) * ?e"
    using tot lens by (simp add: B_def del: length_blob)
  ultimately have "Option.bind (if pos < ?n - 1 then intsetMoveTail s (pos + 1) pos else Some s)
      (\<lambda>s1. Some (intsetResize s1 (?n - 1))) = Some (s\<lparr>is_contents := B\<rparr>)"
    by (simp add: intsetResize_def mem_realloc_def)
  then show ?thesis by (simp add: B_def)
qed

section \<open>Upgrading the encoding in place\<close>

text \<open>Invariant of the loop: the first \<open>n\<close> records are still there in the old width, the records
  from \<open>n\<close> on are already written in the new width, and \<open>q\<close> is the free record at the end (if
  the new value is appended). Going from the back, no write touches a record not yet read.\<close>

lemma intsetUpgrade_loop_correct:
  assumes cw: "c \<in> {2, 4, 8}" "is_encoding s \<in> {2, 4, 8}" "c \<le> is_encoding s"
    and rng: "\<forall>v\<in>set vs. in_s (8 * c) v"
    and q: "length q + p * is_encoding s = is_encoding s"
  shows "n \<le> length vs \<Longrightarrow>
    is_contents s = blob c (take n vs) @ mid @ blob (is_encoding s) (drop n vs) @ q \<Longrightarrow>
    length (is_contents s) = Suc (length vs) * is_encoding s \<Longrightarrow>
    \<exists>mid'. length mid' = p * is_encoding s \<and>
      intsetUpgrade_loop s c p n =
        Some (s\<lparr>is_contents := mid' @ blob (is_encoding s) vs @ q\<rparr>)"
  using cw(2,3) q
proof (induction n arbitrary: s mid)
  case 0
  then have "length mid = p * is_encoding s" by simp
  with 0 show ?case by (intro exI [of _ mid]) simp
next
  case (Suc n)
  let ?w = "is_encoding s"
  let ?S = "blob ?w (drop (Suc n) vs) @ q"
  let ?P = "blob c (take (Suc n) vs) @ mid"
  have n: "n < length vs" using Suc.prems(1) by simp
  have "in_s (8 * c) (vs ! n)" using rng n by simp
  then have get: "intsetGetEncoded s (int n) c = Some (vs ! n)"
    using intsetGetEncoded_blob [OF cw(1), of n "take (Suc n) vs" s "mid @ ?S"] n Suc.prems(2)
    by simp
  have "length ?P + length ?S = Suc (length vs) * ?w"
    using Suc.prems(2,3) by simp
  moreover have "length ?S = (length vs - Suc n) * ?w + length q"
    by simp
  ultimately have "length ?P + (length vs - Suc n) * ?w + ?w = Suc (length vs) * ?w + p * ?w"
    using Suc.prems(6) by linarith
  also have "\<dots> = Suc (n + p) * ?w + (length vs - Suc n) * ?w + ?w"
  proof -
    have "length vs = Suc n + (length vs - Suc n)" using n by simp
    then have "length vs * ?w = Suc n * ?w + (length vs - Suc n) * ?w"
      by (metis add_mult_distrib)
    then show ?thesis by (simp add: add_mult_distrib)
  qed
  finally have lenP: "length ?P = Suc (n + p) * ?w" by linarith
  have set: "intsetSet_raw s (int (n + p)) (vs ! n) =
      Some (s\<lparr>is_contents := take ((n + p) * ?w) ?P @ blob ?w [vs ! n] @ ?S\<rparr>)"
    using intsetSet_raw_part [of s ?P ?S "n + p" "vs ! n"] Suc.prems lenP by simp
  have "take (Suc n) vs = take n vs @ [vs ! n]"
    using n by (simp add: take_Suc_conv_app_nth)
  then have P: "?P = blob c (take n vs) @ blob c [vs ! n] @ mid" by simp
  have "n * c \<le> (n + p) * ?w" using Suc.prems(5) by (simp add: mult_le_mono)
  then have "\<exists>mid'. take ((n + p) * ?w) ?P = blob c (take n vs) @ mid'"
    unfolding P using n by simp
  then obtain mid' where mid': "take ((n + p) * ?w) ?P = blob c (take n vs) @ mid'" by blast
  let ?s = "s\<lparr>is_contents := blob c (take n vs) @ mid' @ blob ?w [vs ! n] @ ?S\<rparr>"
  have drop: "blob ?w (drop n vs) = blob ?w [vs ! n] @ blob ?w (drop (Suc n) vs)"
    using n by (metis Cons_nth_drop_Suc append_Cons append_Nil blob_append)
  have "length (take ((n + p) * ?w) ?P) = (n + p) * ?w"
    using lenP by (simp only: length_take) simp
  then have lm: "length (blob c (take n vs) @ mid') = (n + p) * ?w" unfolding mid' .
  have tot: "(n + p) * ?w + ?w + length ?S = Suc (length vs) * ?w"
    using \<open>length ?P + length ?S = _\<close> lenP by simp
  have "length (is_contents ?s) = Suc (length vs) * ?w"
    using lm tot by (simp del: length_blob append_assoc add: append_assoc [symmetric])
       (simp add: add.assoc)
  then have "\<exists>m. length m = p * ?w \<and>
      intsetUpgrade_loop ?s c p n = Some (?s\<lparr>is_contents := m @ blob ?w vs @ q\<rparr>)"
    using Suc.IH [of ?s mid'] Suc.prems n drop by simp
  moreover have "intsetSet_raw s (int (n + p)) (vs ! n) = Some ?s"
    using set unfolding mid' by simp
  ultimately show ?case using get by simp
qed

lemma value_encoding:
  "intsetValueEncoding v \<in> {2, 4, 8}"
  "in_s 64 v \<Longrightarrow> in_s (8 * intsetValueEncoding v) v"
  "e \<in> {2, 4, 8} \<Longrightarrow> in_s (8 * e) v \<Longrightarrow> intsetValueEncoding v \<le> e"
  by (auto simp: intsetValueEncoding_def)

lemma in_s_mono: "a \<le> b \<Longrightarrow> in_s a v \<Longrightarrow> in_s b v"
proof -
  assume "a \<le> b" and v: "in_s a v"
  then have "(2::int) ^ (a - 1) \<le> 2 ^ (b - 1)" by (simp add: power_increasing)
  with v show ?thesis by linarith
qed

lemma value_encoding_le:
  "e \<in> {2, 4, 8} \<Longrightarrow> in_s 64 v \<Longrightarrow> intsetValueEncoding v \<le> e \<Longrightarrow> in_s (8 * e) v"
  using in_s_mono [of "8 * intsetValueEncoding v" "8 * e" v] value_encoding(2) [of v] by simp

lemma intsetUpgradeAndAdd_correct:
  assumes rep: "intset_rep s vs" and len: "length vs < 2 ^ 31 - 1"
    and v: "in_s 64 v" "is_encoding s < intsetValueEncoding v"
  shows "\<exists>s'. intsetUpgradeAndAdd s v = Some s' \<and>
    intset_rep s' (if v < 0 then v # vs else vs @ [v])"
proof -
  let ?w = "intsetValueEncoding v" and ?c = "is_encoding s" and ?n = "length vs"
  let ?p = "if v < 0 then 1 else 0 :: nat"
  have s: "?c \<in> {2, 4, 8}" "is_length s = ?n" "is_contents s = blob ?c vs" "sorted_wrt (<) vs"
    "\<forall>u\<in>set vs. in_s (8 * ?c) u"
    using rep by (auto simp: intset_rep_def)
  have w: "?w \<in> {2, 4, 8}" "in_s (8 * ?w) v" "\<not> in_s (8 * ?c) v"
    using value_encoding(1) [of v] value_encoding(2) [of v] value_encoding(3) [of ?c v] v s(1)
    by auto
  have rng: "\<forall>u\<in>set vs. in_s (8 * ?w) u"
    using s(5) v(2) in_s_mono [of "8 * ?c" "8 * ?w"] by simp
  have out: "if v < 0 then \<forall>u\<in>set vs. v < u else \<forall>u\<in>set vs. u < v"
    using w(3) s(5) by (cases "v < 0") fastforce+
  let ?s0 = "s\<lparr>is_encoding := ?w\<rparr>"
  let ?s1 = "intsetResize ?s0 (Suc ?n)"
  let ?q = "replicate ((1 - ?p) * ?w) None"
  have ex: "\<exists>k. a + (k + x) = w + b" if "a \<le> b" and "x \<le> w" for a b x w :: nat
    using that by presburger
  have "?n * ?c \<le> ?n * ?w" using v(2) by simp
  then obtain k where k: "?n * ?c + (k + (1 - ?p) * ?w) = Suc ?n * ?w"
    using ex [of "?n * ?c" "?n * ?w" "(1 - ?p) * ?w" ?w] by auto
  have "is_contents ?s1 = blob ?c vs @ replicate (k + (1 - ?p) * ?w) None"
    using s(3) k by (simp add: intsetResize_def mem_realloc_def del: mult_Suc)
  then have cont: "is_contents ?s1 =
      blob ?c (take ?n vs) @ replicate k None @ blob ?w (drop ?n vs) @ ?q"
    by (simp add: replicate_add)
  then have lens: "length (is_contents ?s1) = Suc ?n * ?w"
    using k by simp
  have e1: "is_encoding ?s1 = ?w" by (simp add: intsetResize_def)
  have "(1 - ?p) * ?w + ?p * ?w = ?w" by simp
  then have "\<exists>mid'. length mid' = ?p * is_encoding ?s1 \<and> intsetUpgrade_loop ?s1 ?c ?p ?n
      = Some (?s1\<lparr>is_contents := mid' @ blob (is_encoding ?s1) vs @ ?q\<rparr>)"
    using w(1) v(2) s(5) cont lens
    by (intro intsetUpgrade_loop_correct [OF s(1), where mid = "replicate k None"])
       (simp_all only: e1 length_replicate less_imp_le order_refl)
  then obtain mid' where loop: "length mid' = ?p * ?w"
    "intsetUpgrade_loop ?s1 ?c ?p ?n = Some (?s1\<lparr>is_contents := mid' @ blob ?w vs @ ?q\<rparr>)"
    unfolding e1 by blast
  let ?s2 = "?s1\<lparr>is_contents := mid' @ blob ?w vs @ ?q\<rparr>"
  let ?vs = "if v < 0 then v # vs else vs @ [v]"
  have enc2: "is_encoding ?s2 = ?w" "is_length ?s2 = ?n" by (simp_all add: intsetResize_def s)
  have set: "(if ?p = 1 then intsetSet_raw ?s2 0 v
      else intsetSet_raw ?s2 (wrap_s 32 (int (is_length ?s2))) v)
      = Some (?s2\<lparr>is_contents := blob ?w ?vs\<rparr>)"
  proof (cases "v < 0")
    case True
    then show ?thesis
      using intsetSet_raw_part [of ?s2 mid' "blob ?w vs" 0 v] loop(1) w(1) enc2
      by (simp add: blob_append [of _ "[v]", symmetric] del: blob_append)
  next
    case False
    then show ?thesis
      using intsetSet_raw_part [of ?s2 "blob ?w vs @ ?q" "[]" ?n v] loop(1) w(1) enc2 len
      by simp
  qed
  have "intsetUpgradeAndAdd s v = Some (?s2\<lparr>is_contents := blob ?w ?vs, is_length := Suc ?n\<rparr>)"
  proof -
    have m1: "(?n + 1) mod 2 ^ 32 = Suc ?n" using len by simp
    have m2: "wrap_s 32 (int ?n) = int ?n" using len by simp
    have "intsetUpgradeAndAdd s v =
        Some (?s2\<lparr>is_contents := blob ?w ?vs,
          is_length := (is_length (?s2\<lparr>is_contents := blob ?w ?vs\<rparr>) + 1) mod 2 ^ 32\<rparr>)"
      by (simp only: intsetUpgradeAndAdd_def Let_def s(2) m1 m2 nat_int loop(2) set
            bind.simps of_nat_less_0_iff if_False)
    also have "(is_length (?s2\<lparr>is_contents := blob ?w ?vs\<rparr>) + 1) mod 2 ^ 32 = Suc ?n"
      using len by (simp add: s(2))
    finally show ?thesis .
  qed
  moreover have "intset_rep (?s2\<lparr>is_contents := blob ?w ?vs, is_length := Suc ?n\<rparr>) ?vs"
    using w s(4) out rng enc2 by (auto simp: intset_rep_def sorted_wrt_append)
  ultimately show ?thesis by blast
qed

section \<open>Adding, removing, finding\<close>

lemma sorted_insert_at:
  assumes "sorted_wrt (<) vs" and "pos \<le> length vs" and "\<forall>i<pos. vs ! i < v"
    and "\<forall>i<length vs. pos \<le> i \<longrightarrow> v < vs ! i"
  shows "sorted_wrt (<) (take pos vs @ v # drop pos (vs :: int list))"
proof -
  have "\<forall>x\<in>set (take pos vs). x < v"
    using assms(2,3) by (auto simp: in_set_conv_nth)
  moreover have "\<forall>x\<in>set (drop pos vs). v < x"
    using assms(2,4) by (auto simp: in_set_conv_nth)
  moreover have "sorted_wrt (<) (take pos vs)" "sorted_wrt (<) (drop pos vs)"
    using assms(1) by (simp_all add: sorted_wrt_take sorted_wrt_drop)
  ultimately show ?thesis
    by (fastforce simp: sorted_wrt_append)
qed

lemma intsetAdd_correct:
  assumes rep: "intset_rep s vs" and len: "length vs < 2 ^ 29" and v: "in_s 64 v"
  shows "\<exists>s' vs'. intsetAdd s v = Some (s', v \<notin> set vs) \<and> intset_rep s' vs'
    \<and> set vs' = insert v (set vs)"
proof -
  let ?e = "is_encoding s" and ?n = "length vs"
  have s: "?e \<in> {2, 4, 8}" "is_length s = ?n" "is_contents s = blob ?e vs" "sorted_wrt (<) vs"
    "\<forall>u\<in>set vs. in_s (8 * ?e) u"
    using rep by (auto simp: intset_rep_def)
  show ?thesis
  proof (cases "intsetValueEncoding v > ?e")
    case True
    obtain s' where s': "intsetUpgradeAndAdd s v = Some s'"
      "intset_rep s' (if v < 0 then v # vs else vs @ [v])"
      using intsetUpgradeAndAdd_correct [OF rep _ v True] len by auto
    moreover have "v \<notin> set vs"
      using value_encoding(3) [OF s(1)] s(5) True by fastforce
    ultimately show ?thesis
      using True by (auto simp: intsetAdd_def intro!: exI split: if_splits)
  next
    case False
    have len': "?n < 2 ^ 31 - 1" using len by simp
    obtain found pos where sr: "intsetSearch s v = Some (found, pos)" "found \<longleftrightarrow> v \<in> set vs"
      "\<not> found \<Longrightarrow> pos \<le> ?n \<and> (\<forall>i<pos. vs ! i < v) \<and> (\<forall>i<?n. pos \<le> i \<longrightarrow> v < vs ! i)"
      by (rule intsetSearch_correct [OF rep len', of v]) blast
    show ?thesis
    proof (cases found)
      case True
      with sr False rep show ?thesis by (auto simp: intsetAdd_def intro!: exI)
    next
      case nf: False
      with sr have pos: "pos \<le> ?n" "\<forall>i<pos. vs ! i < v" "\<forall>i<?n. pos \<le> i \<longrightarrow> v < vs ! i"
        by auto
      let ?vs = "take pos vs @ v # drop pos vs"
      let ?s' = "s\<lparr>is_contents := blob ?e ?vs, is_length := Suc ?n\<rparr>"
      have m: "Suc ?n mod 4294967296 = Suc ?n" "wrap_s 32 (int pos) = int pos"
        using len pos(1) by simp_all
      have L: "is_length (intsetResize s (Suc ?n)) = ?n" using s(2) by simp
      have "intsetAdd s v = Option.bind (Option.bind
          (if pos < ?n then intsetMoveTail (intsetResize s (Suc ?n)) pos (pos + 1)
           else Some (intsetResize s (Suc ?n))) (\<lambda>s2. intsetSet_raw s2 (int pos) v))
          (\<lambda>s3. Some (s3\<lparr>is_length := (is_length s3 + 1) mod 2 ^ 32\<rparr>, True))"
        using False nf sr(1) by (simp add: intsetAdd_def s(2) m L Let_def bind_assoc)
      then have add: "intsetAdd s v = Some (?s', True)"
        using intset_insert_at [OF s(1,2) len s(3) pos(1), of v] len s(2)
        by (simp del: blob_append)
      have "in_s (8 * ?e) v"
        using value_encoding_le [OF s(1) v] False by simp
      moreover have set: "set ?vs = insert v (set vs)"
        by (metis append_take_drop_id list.simps(15) set_append Un_insert_right)
      ultimately have "intset_rep ?s' ?vs"
        using s pos(1) sorted_insert_at [OF s(4) pos] by (simp add: intset_rep_def del: blob_append)
      then show ?thesis
        using add set nf sr(2) by auto
    qed
  qed
qed

lemma intsetFind_correct:
  assumes rep: "intset_rep s vs" and len: "length vs < 2 ^ 31 - 1"
  shows "intsetFind s v = Some (v \<in> set vs)"
proof (cases "intsetValueEncoding v \<le> is_encoding s")
  case True
  obtain found pos where "intsetSearch s v = Some (found, pos)" "found \<longleftrightarrow> v \<in> set vs"
    by (rule intsetSearch_correct [OF rep len, of v]) blast
  with True show ?thesis by (simp add: intsetFind_def)
next
  case False
  then have "v \<notin> set vs"
    using rep value_encoding(3) [of "is_encoding s" v] unfolding intset_rep_def by blast
  with False show ?thesis by (simp add: intsetFind_def)
qed

lemma intsetRemove_correct:
  assumes rep: "intset_rep s vs" and len: "length vs < 2 ^ 29"
  shows "\<exists>s'. intsetRemove s v = Some (s', v \<in> set vs) \<and> intset_rep s' (remove1 v vs)"
proof -
  let ?e = "is_encoding s" and ?n = "length vs"
  have s: "?e \<in> {2, 4, 8}" "is_length s = ?n" "is_contents s = blob ?e vs" "sorted_wrt (<) vs"
    "\<forall>u\<in>set vs. in_s (8 * ?e) u"
    using rep by (auto simp: intset_rep_def)
  have len': "?n < 2 ^ 31 - 1" using len by simp
  obtain found pos where sr: "intsetSearch s v = Some (found, pos)" "found \<longleftrightarrow> v \<in> set vs"
    "found \<Longrightarrow> pos < ?n \<and> vs ! pos = v"
    by (rule intsetSearch_correct [OF rep len', of v]) blast
  show ?thesis
  proof (cases "v \<in> set vs")
    case False
    with sr rep show ?thesis by (auto simp: intsetRemove_def remove1_idem)
  next
    case True
    with sr have pos: "pos < ?n" "vs ! pos = v" by auto
    have enc: "intsetValueEncoding v \<le> ?e"
      using value_encoding(3) [OF s(1)] s(5) True by blast
    let ?vs = "take pos vs @ drop (Suc pos) vs"
    have "distinct vs" using s(4) by (simp add: strict_sorted_iff)
    then have "v \<notin> set (take pos vs)"
      using pos by (auto simp: in_set_conv_nth nth_eq_iff_index_eq)
    then have rm: "remove1 v vs = ?vs"
      using id_take_nth_drop [OF pos(1)] pos(2) remove1_append [of v "take pos vs"]
      by (metis remove1.simps(2))
    have "intsetRemove s v = Option.bind (Option.bind
        (if pos < ?n - 1 then intsetMoveTail s (pos + 1) pos else Some s)
        (\<lambda>s1. Some (intsetResize s1 (?n - 1))))
        (\<lambda>s2. Some (s2\<lparr>is_length := ?n - 1\<rparr>, True))"
      using enc sr True by (simp add: intsetRemove_def s(2) Let_def bind_assoc)
    then have rmv: "intsetRemove s v =
        Some (s\<lparr>is_contents := blob ?e ?vs, is_length := ?n - 1\<rparr>, True)"
      by (simp only: intset_remove_at [OF s(1,2) len s(3) pos(1)] bind.simps)
    have "sorted_wrt (<) (take pos vs @ vs ! pos # drop (Suc pos) vs)"
      using s(4) id_take_nth_drop [OF pos(1)] by simp
    moreover have "\<forall>u\<in>set ?vs. in_s (8 * ?e) u"
      using s(5) rm set_remove1_subset [of v vs] by (metis subsetD)
    ultimately have "intset_rep (s\<lparr>is_contents := blob ?e ?vs, is_length := ?n - 1\<rparr>) ?vs"
      using s(1) pos(1) by (auto simp: intset_rep_def sorted_wrt_append simp del: blob_append)
    then show ?thesis using True rm rmv by auto
  qed
qed

section \<open>Reading members\<close>

lemma intset_get_correct:
  assumes rep: "intset_rep s vs" and len: "length vs < 2 ^ 31"
  shows "intsetGet s pos = Some (if pos < length vs then Some (vs ! pos) else None)"
    and "vs \<noteq> [] \<Longrightarrow> intsetMax s = Some (Max (set vs))"
    and "vs \<noteq> [] \<Longrightarrow> intsetMin s = Some (Min (set vs))"
    and "vs \<noteq> [] \<Longrightarrow> \<exists>v\<in>set vs. intsetRandom s r = Some v"
    and "vs = [] \<Longrightarrow> intsetRandom s r = None"
    and "intsetLen s = card (set vs)"
proof -
  have L: "is_length s = length vs" and srt: "sorted_wrt (<) vs"
    using rep by (auto simp: intset_rep_def)
  then have sd: "sorted vs" "distinct vs" by (simp_all add: strict_sorted_iff)
  show "intsetGet s pos = Some (if pos < length vs then Some (vs ! pos) else None)"
    using L len intset_rep_get [OF rep, of pos] by (simp add: intsetGet_def)
  show "intsetLen s = card (set vs)"
    using L sd(2) by (simp add: intsetLen_def distinct_card)
  show "vs = [] \<Longrightarrow> intsetRandom s r = None"
    using L by (simp add: intsetRandom_def)
  assume ne: "vs \<noteq> []"
  have "Max (set vs) = vs ! (length vs - 1)"
  proof (rule Max_eqI)
    show "vs ! (length vs - 1) \<in> set vs" using ne by simp
  qed (use sd in \<open>auto simp: in_set_conv_nth sorted_nth_mono\<close>)
  moreover have "wrap_s 32 (int (length vs) - 1) = int (length vs - 1)"
    using ne len by (simp add: Suc_leI)
  ultimately show "intsetMax s = Some (Max (set vs))"
    using L ne intset_rep_get [OF rep, of "length vs - 1"] by (simp add: intsetMax_def)
  have "Min (set vs) = vs ! 0"
  proof (rule Min_eqI)
    show "vs ! 0 \<in> set vs" using ne by simp
  qed (use sd in \<open>auto simp: in_set_conv_nth sorted_nth_mono\<close>)
  then show "intsetMin s = Some (Min (set vs))"
    using ne intset_rep_get [OF rep, of 0] by (simp add: intsetMin_def)
  have r: "r mod length vs < length vs" using ne by simp
  then have "wrap_s 32 (int (r mod length vs)) = int (r mod length vs)"
    using len by (intro wrap_s_32_nat) linarith
  with r show "\<exists>v\<in>set vs. intsetRandom s r = Some v"
    using L len ne intset_rep_get [OF rep, of "r mod length vs"]
    by (auto simp: intsetRandom_def intro!: bexI [of _ "vs ! (r mod length vs)"])
qed

section \<open>Validation of a serialised intset\<close>

text \<open>The blob as it is stored in a dump: header and records.\<close>

definition intset_bytes :: "intset \<Rightarrow> u8 list" where
  "intset_bytes s = le_bytes 4 (int (is_encoding s)) @ le_bytes 4 (int (is_length s))
     @ map the (is_contents s)"

definition intset_of_bytes :: "u8 list \<Rightarrow> intset" where
  "intset_of_bytes p = \<lparr>is_encoding = nat (le_uint (take 4 p)),
     is_length = nat (le_uint (take 4 (drop 4 p))), is_contents = map Some (drop 8 p)\<rparr>"

lemma bytes_as_blob:
  "length bs = n * e \<Longrightarrow> 0 < e \<Longrightarrow>
   \<exists>vs. length vs = n \<and> map Some bs = blob e vs \<and> (\<forall>v\<in>set vs. in_s (8 * e) v)"
proof (induction n arbitrary: bs)
  case 0
  then show ?case by simp
next
  case (Suc n)
  let ?v = "le_sint (take e bs)"
  have le: "length (take e bs) = e" using Suc.prems by simp
  then have "take e bs \<noteq> []" using Suc.prems(2) by auto
  then have "le_bytes e ?v = take e bs" using le_bytes_le_sint [of "take e bs"] le by simp
  moreover have "in_s (8 * e) ?v"
    using wrap_s_range [of "8 * e" "le_uint (take e bs)"] le Suc.prems(2) by (simp add: le_sint_def)
  moreover obtain vs where vs: "length vs = n" "map Some (drop e bs) = blob e vs"
      "\<forall>v\<in>set vs. in_s (8 * e) v"
    using Suc.IH [of "drop e bs"] Suc.prems by auto
  moreover have "map Some bs = map Some (take e bs) @ map Some (drop e bs)"
    by (metis append_take_drop_id map_append)
  ultimately show ?case
    using blob_append [of e "[?v]" vs]
    by (intro exI [of _ "?v # vs"]) (simp add: blob_single del: blob_append)
qed

lemma validate_loop_correct:
  assumes get: "\<And>j. j < length vs \<Longrightarrow> intsetGet_raw s (int j) = Some (vs ! j)"
    and len: "length vs < 2 ^ 31"
  shows "0 < i \<Longrightarrow> i + n = length vs \<Longrightarrow>
    validate_loop s (vs ! (i - 1)) i n = Some (sorted_wrt (<) (drop (i - 1) vs))"
proof (induction n arbitrary: i)
  case 0
  then have "drop (i - 1) vs = [vs ! (i - 1)]"
    by (metis Cons_nth_drop_Suc Suc_diff_1 add_cancel_left_right add_diff_cancel_right' diff_less
        drop_all le_refl less_numeral_extra(1) zero_less_diff One_nat_def)
  then show ?case by simp
next
  case (Suc n)
  have i: "i < length vs" using Suc.prems(2) by simp
  have d1: "drop (i - 1) vs = vs ! (i - 1) # drop i vs"
    using Suc.prems i by (metis Cons_nth_drop_Suc Suc_diff_1 less_imp_diff_less)
  have d2: "drop i vs = vs ! i # drop (Suc i) vs"
    using i by (simp add: Cons_nth_drop_Suc)
  have g: "intsetGet_raw s (wrap_s 32 (int i)) = Some (vs ! i)"
    using get [OF i] i len by simp
  have IH: "validate_loop s (vs ! i) (Suc i) n = Some (sorted_wrt (<) (drop i vs))"
    using Suc.IH [of "Suc i"] Suc.prems by simp
  have "sorted_wrt (<) (drop (i - 1) vs) \<longleftrightarrow> vs ! (i - 1) < vs ! i \<and> sorted_wrt (<) (drop i vs)"
    unfolding d1 d2 by auto
  then show ?case using g IH by (auto simp: not_le)
qed

text \<open>The checks on the header hold exactly for a record count that fits the blob.\<close>

lemma intsetValidateIntegrity_unfold:
  assumes "8 \<le> length p"
  shows "intsetValidateIntegrity p True =
    (let s = intset_of_bytes p in
     if is_encoding s \<in> {2, 4, 8} \<and> length (is_contents s) = is_length s * is_encoding s
        \<and> is_length s \<noteq> 0
     then Option.bind (intsetGet_raw s 0) (\<lambda>prev. validate_loop s prev 1 (is_length s - 1))
     else Some False)"
proof -
  define e c where "e = nat (le_uint (take 4 p))" and "c = nat (le_uint (take 4 (drop 4 p)))"
  define s where "s = intset_of_bytes p"
  have s: "s = \<lparr>is_encoding = e, is_length = c, is_contents = map Some (drop 8 p)\<rparr>"
    by (simp add: s_def e_def c_def intset_of_bytes_def)
  have iff: "8 + c * e = length p \<longleftrightarrow> length p - 8 = c * e"
    using assms by linarith
  have "intsetValidateIntegrity p True =
     (if \<not> (e = 8 \<or> e = 4 \<or> e = 2) then Some False
      else if 8 + c * e \<noteq> length p then Some False else if c = 0 then Some False
      else Option.bind (intsetGet_raw s 0) (\<lambda>prev. validate_loop s prev 1 (c - 1)))"
    using assms unfolding intsetValidateIntegrity_def e_def [symmetric] c_def [symmetric] Let_def
      s [symmetric] by simp
  then show ?thesis
    unfolding s_def [symmetric] Let_def iff by (simp add: s)
qed

lemma intsetValidateIntegrity_iff:
  assumes len: "length p < 2 ^ 32 + 8"
  shows "intsetValidateIntegrity p True =
    Some (8 \<le> length p \<and> is_length (intset_of_bytes p) \<noteq> 0 \<and> intset_wf (intset_of_bytes p))"
proof (cases "8 \<le> length p")
  case False
  then show ?thesis by (simp add: intsetValidateIntegrity_def)
next
  case True
  let ?s = "intset_of_bytes p"
  let ?hdr = "is_encoding ?s \<in> {2, 4, 8}
      \<and> length (is_contents ?s) = is_length ?s * is_encoding ?s \<and> is_length ?s \<noteq> 0"
  show ?thesis
  proof (cases ?hdr)
    case False
    then have "\<not> (is_length ?s \<noteq> 0 \<and> intset_wf ?s)"
      by (auto simp: intset_wf_def intset_rep_def)
    then show ?thesis
      using True False by (simp only: intsetValidateIntegrity_unfold [OF True] Let_def if_False) simp
  next
    case hdr: True
    have cont: "is_contents ?s = map Some (drop 8 p)" by (simp add: intset_of_bytes_def)
    have "0 < is_encoding ?s" and "length (drop 8 p) = is_length ?s * is_encoding ?s"
      using hdr cont by auto
    then obtain vs where vs: "length vs = is_length ?s" "is_contents ?s = blob (is_encoding ?s) vs"
        "\<forall>v\<in>set vs. in_s (8 * is_encoding ?s) v"
      using bytes_as_blob [of "drop 8 p" "is_length ?s" "is_encoding ?s"] unfolding cont by blast
    have get: "intsetGet_raw ?s (int j) = Some (vs ! j)" if "j < length vs" for j
      using intsetGetEncoded_blob [of "is_encoding ?s" j vs ?s "[]"] hdr vs that
      by (simp add: intsetGet_raw_def)
    have "length vs * is_encoding ?s = length p - 8" using hdr vs(1) cont by simp
    then have "length vs * is_encoding ?s < 2 ^ 32" using len by simp
    moreover have "2 \<le> is_encoding ?s" using hdr by auto
    ultimately have "length vs * 2 < 2 ^ 32"
      using mult_le_mono2 [of 2 "is_encoding ?s" "length vs"] by linarith
    then have lv: "length vs < 2 ^ 31" by simp
    have "intsetValidateIntegrity p True = validate_loop ?s (vs ! 0) 1 (length vs - 1)"
      using intsetValidateIntegrity_unfold [OF True] hdr vs(1) get [of 0] by (simp add: Let_def)
    also have "\<dots> = Some (sorted_wrt (<) vs)"
      using validate_loop_correct [OF get lv, of 1 "length vs - 1"] hdr vs(1) by simp
    also have "sorted_wrt (<) vs \<longleftrightarrow> intset_wf ?s"
    proof
      assume "sorted_wrt (<) vs"
      then have "intset_rep ?s vs" using hdr vs by (simp add: intset_rep_def)
      then show "intset_wf ?s" by (rule intset_rep_wf)
    next
      assume "intset_wf ?s"
      moreover have "intset_elems ?s = vs"
        using get vs(1) by (intro nth_equalityI) (auto simp: intset_elems_def)
      ultimately show "sorted_wrt (<) vs" by (simp add: intset_wf_def intset_rep_def)
    qed
    finally show ?thesis using True hdr by simp
  qed
qed

lemma intset_of_bytes_bytes:
  assumes "intset_rep s vs" and "length vs < 2 ^ 32"
  shows "intset_of_bytes (intset_bytes s) = s"
proof -
  have "is_encoding s \<in> {2, 4, 8}" "is_length s = length vs"
    "is_contents s = blob (is_encoding s) vs"
    using assms(1) by (auto simp: intset_rep_def)
  moreover have "map Some (map the (blob e vs)) = blob e vs" for e
    by (simp add: blob_def comp_def)
  moreover have "int (length vs) mod 2 ^ 32 = int (length vs)" using assms(2) by simp
  ultimately show ?thesis
    by (cases s) (auto simp: intset_of_bytes_def intset_bytes_def)
qed

section \<open>The set interface\<close>

lemma intset_wf_card: "intset_wf s \<Longrightarrow> card (set (intset_elems s)) = length (intset_elems s)"
  by (simp add: intset_wf_def intset_rep_def strict_sorted_iff distinct_card)

interpretation intset_set: set_store intsetAdd intsetRemove
  "\<lambda>s v. map_option (\<lambda>b. (s, b)) (intsetFind s v)"
  "\<lambda>s. set (intset_elems s)" intset_wf "in_s 64" "2 ^ 29" intsetNew
proof (unfold_locales, goal_cases)
  case (1 s)
  then show ?case by simp
next
  case (2 s x)
  then obtain s' vs' where "intsetAdd s x = Some (s', x \<notin> set (intset_elems s))"
      "intset_rep s' vs'" "set vs' = insert x (set (intset_elems s))"
    using intsetAdd_correct [of s "intset_elems s" x] intset_wf_card
    by (auto simp: intset_wf_def)
  then show ?case using intset_rep_wf intset_rep_elems by auto
next
  case (3 s x)
  have "distinct (intset_elems s)"
    using 3(1) by (simp add: intset_wf_def intset_rep_def strict_sorted_iff)
  moreover obtain s' where "intsetRemove s x = Some (s', x \<in> set (intset_elems s))"
      "intset_rep s' (remove1 x (intset_elems s))"
    using intsetRemove_correct [of s "intset_elems s" x] 3 intset_wf_card
    by (auto simp: intset_wf_def)
  ultimately show ?case
    using intset_rep_wf intset_rep_elems by (intro exI [of _ s']) (auto simp: set_remove1_eq)
next
  case (4 s x)
  then have "length (intset_elems s) < 2 ^ 31 - 1" using intset_wf_card by simp
  then show ?case using intsetFind_correct [of s "intset_elems s" x] 4 by (simp add: intset_wf_def)
next
  case 5
  have "intset_rep intsetNew []" by (simp add: intset_rep_def intsetNew_def)
  then show ?case by (rule intset_rep_wf)
next
  case 6
  then show ?case by (simp add: intset_elems_def intsetNew_def)
qed

section \<open>Properties\<close>

lemma intset_wf_length: "intset_wf s \<Longrightarrow> card (set (intset_elems s)) = is_length s"
  by (simp add: intset_wf_card) (simp add: intset_elems_def)

text \<open>C12. Adding a 64-bit value to a well-formed intset of fewer than \<open>2 ^ 29\<close> members returns (no
  out-of-bounds or uninitialised access, also during the in-place upgrade), reports whether the
  value was new, keeps the intset well formed and adds exactly that value.\<close>

theorem intset_add_refines:
  assumes "intset_wf s" and "is_length s < 2 ^ 29" and "in_s 64 v"
  shows "\<exists>s'. intsetAdd s v = Some (s', v \<notin> set (intset_elems s)) \<and> intset_wf s'
    \<and> set (intset_elems s') = insert v (set (intset_elems s))"
  using intset_set.add_ok [of s v] assms intset_wf_length [OF assms(1)] by simp

lemma example_intset_rep:
  "intset_rep \<lparr>is_encoding = 2, is_length = 3, is_contents = blob 2 [-5, 7, 300]\<rparr> [-5, 7, 300]"
  by (simp add: intset_rep_def)

theorem intset_add_refines_witness:
  "intset_wf \<lparr>is_encoding = 2, is_length = 3, is_contents = blob 2 [-5, 7, 300]\<rparr>
   \<and> (\<exists>s'. intsetAdd \<lparr>is_encoding = 2, is_length = 3, is_contents = blob 2 [-5, 7, 300]\<rparr> (-70000)
        = Some (s', True) \<and> intset_wf s' \<and> set (intset_elems s') = {-70000, -5, 7, 300})"
  using intset_add_refines [of "\<lparr>is_encoding = 2, is_length = 3, is_contents = blob 2 [-5, 7, 300]\<rparr>"
      "-70000"] intset_rep_wf [OF example_intset_rep] intset_rep_elems [OF example_intset_rep]
  by simp

text \<open>C13. On a well-formed intset of fewer than \<open>2 ^ 29\<close> members a lookup answers membership, and a
  removal reports membership, keeps the intset well formed and removes exactly that value.\<close>

theorem intset_find_remove_refine:
  assumes "intset_wf s" and "is_length s < 2 ^ 29" and "in_s 64 v"
  shows "intsetFind s v = Some (v \<in> set (intset_elems s))
    \<and> (\<exists>s'. intsetRemove s v = Some (s', v \<in> set (intset_elems s)) \<and> intset_wf s'
          \<and> set (intset_elems s') = set (intset_elems s) - {v})"
  using intset_set.find_ok [of s v] intset_set.remove_ok [of s v] assms
    intset_wf_length [OF assms(1)] by simp

theorem intset_find_remove_refine_witness:
  "intsetFind \<lparr>is_encoding = 2, is_length = 3, is_contents = blob 2 [-5, 7, 300]\<rparr> 7 = Some True
   \<and> (\<exists>s'. intsetRemove \<lparr>is_encoding = 2, is_length = 3, is_contents = blob 2 [-5, 7, 300]\<rparr> 7
        = Some (s', True) \<and> intset_wf s' \<and> set (intset_elems s') = {-5, 300})"
  using intset_find_remove_refine [of "\<lparr>is_encoding = 2, is_length = 3,
      is_contents = blob 2 [-5, 7, 300]\<rparr>" 7]
    intset_rep_wf [OF example_intset_rep] intset_rep_elems [OF example_intset_rep]
  by (auto simp: insert_Diff_if)

text \<open>C14. Deep validation of a blob of fewer than \<open>2 ^ 32\<close> bytes always returns, and accepts exactly
  the blobs that hold a non-empty well-formed intset; the blob of such an intset reads back as
  itself.\<close>

theorem intset_validate_exact:
  assumes "length p < 2 ^ 32"
  shows "intsetValidateIntegrity p True = Some (8 \<le> length p
      \<and> is_length (intset_of_bytes p) \<noteq> 0 \<and> intset_wf (intset_of_bytes p))
    \<and> (intset_wf s \<and> is_length s < 2 ^ 32 \<longrightarrow> intset_of_bytes (intset_bytes s) = s)"
proof -
  have "intset_of_bytes (intset_bytes s) = s" if "intset_wf s" and "is_length s < 2 ^ 32"
    using that intset_of_bytes_bytes [of s "intset_elems s"] by (simp add: intset_wf_def intset_elems_def)
  then show ?thesis using intsetValidateIntegrity_iff [of p] assms by simp
qed

theorem intset_validate_exact_witness:
  "intsetValidateIntegrity (intset_bytes
     \<lparr>is_encoding = 2, is_length = 3, is_contents = blob 2 [-5, 7, 300]\<rparr>) True = Some True"
proof -
  let ?s = "\<lparr>is_encoding = 2, is_length = 3, is_contents = blob 2 [-5, 7, 300]\<rparr>"
  have len: "length (intset_bytes ?s) = 14" by (simp add: intset_bytes_def)
  have wf: "intset_wf ?s" by (rule intset_rep_wf [OF example_intset_rep])
  show ?thesis
    using intset_validate_exact [of "intset_bytes ?s" ?s] len wf by simp
qed

text \<open>C15. The byte count of \<^verbatim>\<open>intsetMoveTail\<close> is a 32-bit product: with 8-byte records and exactly
  \<open>2 ^ 29\<close> records to move it is zero and nothing moves, although \<^verbatim>\<open>intsetMaxEntries\<close> in
  \<^verbatim>\<open>t_set.c\<close> lets an intset grow to \<open>2 ^ 30\<close> entries.\<close>

theorem intsetMoveTail_wraps:
  assumes "is_encoding s = 8" and "is_length s = from + 2 ^ 29"
    and "8 * from \<le> length (is_contents s)" and "8 * to \<le> length (is_contents s)"
  shows "intsetMoveTail s from to = Some s"
  using assms by (simp add: intsetMoveTail_def rec_width_def wrap_u_def mem_move_def mult.commute)

theorem intsetMoveTail_wraps_witness:
  "intsetMoveTail \<lparr>is_encoding = 8, is_length = 2 ^ 29, is_contents = replicate (2 ^ 32 + 8) None\<rparr> 0 1
   = Some \<lparr>is_encoding = 8, is_length = 2 ^ 29, is_contents = replicate (2 ^ 32 + 8) None\<rparr>"
  by (rule intsetMoveTail_wraps) simp_all

end
