(* ===== verification/Numbers.thy ===== *)
theory Numbers
  imports Prelude
begin

text \<open>
  Model of the integer conversions of \<^verbatim>\<open>util.c\<close>: \<^verbatim>\<open>digits10\<close>, \<^verbatim>\<open>sdigits10\<close>,
  \<^verbatim>\<open>ull2string\<close>, \<^verbatim>\<open>ll2string\<close>, \<^verbatim>\<open>string2ll\<close>, \<^verbatim>\<open>string2l\<close>. Strings are lists of bytes;
  the destination buffer of the printers is a block of memory cells. The lemmas show that the
  printers write the decimal numeral and nothing else, and that the parser accepts exactly the
  numerals the printer produces, so that a string that parses can be rebuilt from the number.
\<close>

type_synonym bytes = "u8 list"

section \<open>Constants of the language\<close>

abbreviation (input) LLONG_MAX :: int where "LLONG_MAX \<equiv> 2 ^ 63 - 1"
abbreviation (input) LLONG_MIN :: int where "LLONG_MIN \<equiv> - (2 ^ 63)"
abbreviation (input) ULLONG_MAX :: int where "ULLONG_MAX \<equiv> 2 ^ 64 - 1"
abbreviation (input) LONG_STR_SIZE :: nat where "LONG_STR_SIZE \<equiv> 21"

definition ascii :: "string \<Rightarrow> bytes" where
  "ascii s = map of_char s"

section \<open>Printing\<close>

fun digits10 :: "nat \<Rightarrow> nat" where
  "digits10 v =
     (if v < 10 then 1
      else if v < 100 then 2
      else if v < 1000 then 3
      else if v < 1000000000000 then
        (if v < 100000000 then
           (if v < 1000000 then
              (if v < 10000 then 4 else 5 + (if v \<ge> 100000 then 1 else 0))
            else 7 + (if v \<ge> 10000000 then 1 else 0))
         else if v < 10000000000 then 9 + (if v \<ge> 1000000000 then 1 else 0)
         else 11 + (if v \<ge> 100000000000 then 1 else 0))
      else 12 + digits10 (v div 1000000000000))"

declare digits10.simps [simp del]

definition sdigits10 :: "int \<Rightarrow> nat" where
  "sdigits10 v =
     (if v < 0
      then (let uv = (if v \<noteq> LLONG_MIN then wrap_u 64 (- v) else LLONG_MAX + 1)
            in digits10 (nat uv) + 1)
      else digits10 (nat v))"

text \<open>The table of two-digit numerals.\<close>

definition digits_table :: bytes where
  "digits_table = ascii
    (''0001020304050607080910111213141516171819'' @
     ''2021222324252627282930313233343536373839'' @
     ''4041424344454647484950515253545556575859'' @
     ''6061626364656667686970717273747576777879'' @
     ''8081828384858687888990919293949596979899'')"

text \<open>The loop of \<^verbatim>\<open>ull2string\<close> writes two digits per round from the end, and then the last
  one or two digits; \<open>next\<close> is the index of the last byte not yet written.\<close>

function ull2string_loop :: "mem \<Rightarrow> nat \<Rightarrow> int \<Rightarrow> mem option" where
  "ull2string_loop dst v next =
     (if v \<ge> 100 then
        let i = (v mod 100) * 2 in
        if next < 1 then None
        else Option.bind (mem_write dst (nat next) [digits_table ! (i + 1)]) (\<lambda>dst1.
          Option.bind (mem_write dst1 (nat (next - 1)) [digits_table ! i]) (\<lambda>dst2.
            ull2string_loop dst2 (v div 100) (next - 2)))
      else if next < 0 then None
      else if v < 10 then mem_write dst (nat next) [48 + of_nat v]
      else
        let i = v * 2 in
        if next < 1 then None
        else Option.bind (mem_write dst (nat next) [digits_table ! (i + 1)]) (\<lambda>dst1.
          mem_write dst1 (nat (next - 1)) [digits_table ! i]))"
  by pat_completeness auto
termination
  by (relation "measure (\<lambda>(dst, v, next). v)") auto

declare ull2string_loop.simps [simp del]

text \<open>The result is the buffer and the returned length (0 on error). The buffer has
  \<open>dstlen\<close> cells.\<close>

definition ull2string :: "mem \<Rightarrow> nat \<Rightarrow> (mem \<times> nat) option" where
  "ull2string dst v =
     (let dstlen = length dst; len = digits10 v in
      if len \<ge> dstlen
      then (if dstlen > 0 then map_option (\<lambda>m. (m, 0)) (mem_write dst 0 [0]) else Some (dst, 0))
      else Option.bind (mem_write dst len [0]) (\<lambda>dst1.
        map_option (\<lambda>m. (m, len)) (ull2string_loop dst1 v (int len - 1))))"

text \<open>The sign takes the first cell and the digits go into the rest of the buffer.\<close>

definition ll2string :: "mem \<Rightarrow> int \<Rightarrow> (mem \<times> nat) option" where
  "ll2string dst svalue =
     (if svalue < 0 then
        let value = (if svalue \<noteq> LLONG_MIN then wrap_u 64 (- svalue) else LLONG_MAX + 1) in
        if length dst < 2
        then (if length dst > 0 then map_option (\<lambda>m. (m, 0)) (mem_write dst 0 [0])
              else Some (dst, 0))
        else Option.bind (mem_write dst 0 (ascii ''-'')) (\<lambda>dst1.
          Option.bind (ull2string (drop 1 dst1) (nat value)) (\<lambda>(m, len).
            Some (take 1 dst1 @ m, if len = 0 then 0 else len + 1)))
      else ull2string dst (nat svalue))"

section \<open>Parsing\<close>

abbreviation is_digit :: "u8 \<Rightarrow> bool" where
  "is_digit c \<equiv> 48 \<le> c \<and> c \<le> 57"

text \<open>The loop over the remaining digits. It stops with an error on overflow; the bytes that are
  left when it ends decide whether all of the string was used.\<close>

fun string2ll_loop :: "int \<Rightarrow> bytes \<Rightarrow> (int \<times> bytes) option" where
  "string2ll_loop v [] = Some (v, [])"
| "string2ll_loop v (c # cs) =
     (if is_digit c then
        if v > ULLONG_MAX div 10 then None
        else if v * 10 > ULLONG_MAX - (uint c - 48) then None
        else string2ll_loop (v * 10 + (uint c - 48)) cs
      else Some (v, c # cs))"

definition string2ll :: "bytes \<Rightarrow> int option" where
  "string2ll s =
     (if s = [] \<or> length s \<ge> LONG_STR_SIZE then None
      else if s = ascii ''0'' then Some 0
      else
        let negative = (hd s = 45); p = (if negative then tl s else s) in
        if p = [] then None
        else if \<not> (49 \<le> hd p \<and> hd p \<le> 57) then None
        else (case string2ll_loop (uint (hd p) - 48) (tl p) of
            None \<Rightarrow> None
          | Some (v, rest) \<Rightarrow>
              if rest \<noteq> [] then None
              else if negative
              then (if v > - (LLONG_MIN + 1) + 1 then None else Some (wrap_s 64 (wrap_u 64 (- v))))
              else (if v > LLONG_MAX then None else Some v)))"

text \<open>On a 64-bit host \<^verbatim>\<open>long\<close> has the range of \<^verbatim>\<open>long long\<close>.\<close>

definition string2l :: "bytes \<Rightarrow> int option" where
  "string2l s =
     (case string2ll s of
        None \<Rightarrow> None
      | Some v \<Rightarrow> if v < LLONG_MIN \<or> v > LLONG_MAX then None else Some v)"

section \<open>The reference numeral\<close>

fun dec :: "nat \<Rightarrow> bytes" where
  "dec n = (if n < 10 then [48 + of_nat n] else dec (n div 10) @ [48 + of_nat (n mod 10)])"

declare dec.simps [simp del]

definition ll_dec :: "int \<Rightarrow> bytes" where
  "ll_dec v = (if v < 0 then 45 # dec (nat (- v)) else dec (nat v))"

text \<open>The value of a string of digits that follows a numeral of value \<open>a\<close>.\<close>

definition dval :: "int \<Rightarrow> bytes \<Rightarrow> int" where
  "dval = foldl (\<lambda>a c. a * 10 + (uint c - 48))"

section \<open>Lemmas on numerals\<close>

lemma dec_small [simp]: "n < 10 \<Longrightarrow> dec n = [48 + of_nat n]"
  by (simp add: dec.simps)

lemma dec_step: "10 \<le> n \<Longrightarrow> dec n = dec (n div 10) @ [48 + of_nat (n mod 10)]"
  by (subst dec.simps) simp

lemma dec_not_Nil [simp]: "dec n \<noteq> []"
  by (subst dec.simps) simp

lemma dec_step2: "100 \<le> n \<Longrightarrow>
  dec n = dec (n div 100) @ [48 + of_nat (n mod 100 div 10), 48 + of_nat (n mod 10)]"
proof -
  assume n: "100 \<le> n"
  have "n div 10 mod 10 = n mod 100 div 10"
    using mod_mult2_eq [of n 10 10] by simp
  moreover have "n div 10 div 10 = n div 100" by (simp add: div_mult2_eq [symmetric])
  ultimately show ?thesis
    using n dec_step [of n] dec_step [of "n div 10"] by simp
qed

lemma length_dec_shift: "10 ^ k \<le> n \<Longrightarrow> length (dec n) = k + length (dec (n div 10 ^ k))"
proof (induction k arbitrary: n)
  case 0
  then show ?case by simp
next
  case (Suc k)
  have "10 \<le> n" using Suc.prems by (metis One_nat_def order_trans power_increasing power_one_right
      le_add1 plus_1_eq_Suc one_le_numeral)
  moreover have "10 ^ k \<le> n div 10"
    using Suc.prems by (simp add: less_eq_div_iff_mult_less_eq mult.commute)
  moreover have "n div 10 div 10 ^ k = n div 10 ^ Suc k" by (simp add: div_mult2_eq)
  ultimately show ?case using Suc.IH [of "n div 10"] dec_step [of n] by simp
qed

lemma length_dec_lt: "n < 10 ^ k \<Longrightarrow> length (dec n) \<le> max 1 k"
proof (induction k arbitrary: n)
  case 0
  then show ?case by simp
next
  case (Suc k)
  show ?case
  proof (cases "n < 10")
    case False
    then have "n div 10 < 10 ^ k" using Suc.prems by (simp add: div_less_iff_less_mult mult.commute)
    moreover have "k \<noteq> 0" using False Suc.prems by (cases k) auto
    ultimately show ?thesis using False Suc.IH [of "n div 10"] dec_step [of n] by simp
  qed simp
qed

lemma length_dec_ge: "10 ^ k \<le> n \<Longrightarrow> k < length (dec n)"
  using length_dec_shift [of k n] dec_not_Nil [of "n div 10 ^ k"] by simp

lemma length_dec_eq: "10 ^ k \<le> n \<Longrightarrow> n < 10 ^ Suc k \<Longrightarrow> length (dec n) = Suc k"
  using length_dec_lt [of n "Suc k"] length_dec_ge [of k n] by simp

text \<open>The branches of \<^verbatim>\<open>digits10\<close> count the digits.\<close>

lemma digits10_length: "digits10 v = length (dec v)"
proof (induction v rule: digits10.induct)
  case (1 v)
  note eq = length_dec_eq [of _ v]
  show ?case
  proof (cases "v < 1000000000000")
    case True
    consider "v < 10" | "10 \<le> v" "v < 100" | "100 \<le> v" "v < 1000" | "1000 \<le> v" "v < 10000"
      | "10000 \<le> v" "v < 100000" | "100000 \<le> v" "v < 1000000" | "1000000 \<le> v" "v < 10000000"
      | "10000000 \<le> v" "v < 100000000" | "100000000 \<le> v" "v < 1000000000"
      | "1000000000 \<le> v" "v < 10000000000" | "10000000000 \<le> v" "v < 100000000000"
      | "100000000000 \<le> v" "v < 1000000000000"
      using True by linarith
    then show ?thesis
      by cases (simp add: digits10.simps, simp add: digits10.simps eq [of 1],
          simp add: digits10.simps eq [of 2], simp add: digits10.simps eq [of 3],
          simp add: digits10.simps eq [of 4], simp add: digits10.simps eq [of 5],
          simp add: digits10.simps eq [of 6], simp add: digits10.simps eq [of 7],
          simp add: digits10.simps eq [of 8], simp add: digits10.simps eq [of 9],
          simp add: digits10.simps eq [of 10], simp add: digits10.simps eq [of 11])
  next
    case False
    then show ?thesis
      using 1 length_dec_shift [of 12 v] by (subst digits10.simps) simp
  qed
qed

lemma digits_table_concat:
  "digits_table = concat (map (\<lambda>i. [48 + of_nat (i div 10), 48 + of_nat (i mod 10)]) [0..<100])"
  by (simp add: digits_table_def ascii_def upt_rec)

lemma digits_table_nth:
  assumes "i < 100"
  shows "digits_table ! (2 * i) = 48 + of_nat (i div 10)"
    and "digits_table ! (2 * i + 1) = 48 + of_nat (i mod 10)"
proof -
  let ?f = "\<lambda>i. [48 + of_nat (i div 10), 48 + of_nat (i mod 10)] :: bytes"
  have "take 2 (drop (i * 2) digits_table) = ?f i"
    using nth_concat_chunks [of "[0..<100]" ?f 2 i] assms by (simp add: digits_table_concat del: upt_rec_numeral)
  then have sel: "take 2 (drop (i * 2) digits_table) ! j = ?f i ! j" for j by simp
  have "length digits_table = 200"
    using length_concat_chunks [of "[0..<100]" ?f 2]
    by (simp add: digits_table_concat del: upt_rec_numeral)
  then have "digits_table ! (i * 2 + j) = ?f i ! j" if "j < 2" for j
    using sel [of j] that assms by simp
  from this [of 0] this [of 1]
  show "digits_table ! (2 * i) = 48 + of_nat (i div 10)"
    and "digits_table ! (2 * i + 1) = 48 + of_nat (i mod 10)"
    by (simp_all add: mult.commute)
qed

section \<open>The printers write the numeral\<close>

lemma mem_write_pair:
  assumes "Suc k < length m"
  shows "Option.bind (mem_write m (Suc k) [b]) (\<lambda>m1. mem_write m1 k [a]) =
    Some (take k m @ [Some a, Some b] @ drop (k + 2) m)"
proof -
  have "take (Suc k) m = take k m @ [m ! k]"
    using assms by (simp add: take_Suc_conv_app_nth)
  then show ?thesis using assms by (simp add: mem_write_def)
qed

lemma Nil_dec [simp]: "[] \<noteq> dec n"
  using dec_not_Nil [of n] by metis

lemma ull2string_loop_correct:
  assumes "length (dec v) = Suc n" and "n < length dst"
  shows "ull2string_loop dst v (int n) = Some (map Some (dec v) @ drop (Suc n) dst)"
  using assms
proof (induction v arbitrary: dst n rule: less_induct)
  case (less v)
  note table = digits_table_nth [of "v mod 100"] digits_table_nth [of v]
  show ?case
  proof (cases "100 \<le> v")
    case True
    then have dec: "dec v = dec (v div 100) @ [48 + of_nat (v mod 100 div 10), 48 + of_nat (v mod 10)]"
      by (rule dec_step2)
    then obtain k where n: "n = Suc (Suc k)" and k: "length (dec (v div 100)) = Suc k"
      using less.prems(1) dec_not_Nil [of "v div 100"] by (cases "dec (v div 100)") auto
    let ?m = "take (Suc k) dst @ [Some (48 + of_nat (v mod 100 div 10)), Some (48 + of_nat (v mod 10))]
      @ drop (Suc k + 2) dst"
    have "Option.bind (mem_write dst (Suc (Suc k)) [48 + of_nat (v mod 10)])
        (\<lambda>m1. mem_write m1 (Suc k) [48 + of_nat (v mod 100 div 10)]) = Some ?m"
      using mem_write_pair [of "Suc k" dst] less.prems n by simp
    moreover have "ull2string_loop ?m (v div 100) (int k) =
        Some (map Some (dec (v div 100)) @ drop (Suc k) ?m)"
      using less.IH [of "v div 100" k ?m] True k less.prems n by simp
    moreover have "v mod 100 mod 10 = v mod 10" by (simp add: mod_mod_cancel)
    ultimately show ?thesis
      using True n less.prems dec table
      by (subst ull2string_loop.simps)
        (simp add: Let_def mult.commute nat_add_distrib flip: bind_assoc)
  next
    case False
    show ?thesis
    proof (cases "v < 10")
      case True
      then show ?thesis using less.prems
        by (subst ull2string_loop.simps) (simp add: mem_write_def Suc_le_eq)
    next
      case tens: False
      then have dec: "dec v = [48 + of_nat (v div 10), 48 + of_nat (v mod 10)]"
        using False dec_step [of v] by simp
      then have "n = 1" using less.prems by simp
      then show ?thesis
        using False tens less.prems dec table mem_write_pair [of 0 dst]
        by (subst ull2string_loop.simps) (simp add: Let_def mult.commute)
    qed
  qed
qed


lemma ull2string_correct:
  "ull2string dst v =
     (if length (dec v) < length dst
      then Some (map Some (dec v) @ Some 0 # drop (Suc (length (dec v))) dst, length (dec v))
      else Some (if dst = [] then [] else Some 0 # tl dst, 0))"
proof (cases "length (dec v) < length dst")
  case True
  define n where "n = length (dec v) - 1"
  have n: "length (dec v) = Suc n" unfolding n_def by (cases "dec v") auto
  have "mem_write dst (Suc n) [0] = Some (take (Suc n) dst @ Some 0 # drop (Suc (Suc n)) dst)"
    using True n by (simp add: mem_write_def)
  then show ?thesis
    using True n ull2string_loop_correct [of v n "take (Suc n) dst @ Some 0 # drop (Suc (Suc n)) dst"]
    by (simp add: ull2string_def digits10_length)
next
  case False
  then show ?thesis
    by (cases dst) (auto simp: ull2string_def digits10_length mem_write_def)
qed

lemma magnitude_64: "in_s 64 v \<Longrightarrow> v < 0 \<Longrightarrow>
  (if v \<noteq> LLONG_MIN then wrap_u 64 (- v) else LLONG_MAX + 1) = - v"
  by (simp add: wrap_u_def)

lemma sdigits10_length: "in_s 64 v \<Longrightarrow> sdigits10 v = length (ll_dec v)"
  using magnitude_64 [of v] by (simp add: sdigits10_def digits10_length ll_dec_def Let_def)

lemma ll2string_correct:
  assumes v: "in_s 64 v"
  shows "length (ll_dec v) < length dst \<Longrightarrow>
      ll2string dst v = Some (map Some (ll_dec v) @ Some 0 # drop (Suc (length (ll_dec v))) dst,
        length (ll_dec v))"
    and "length dst \<le> length (ll_dec v) \<Longrightarrow>
      \<exists>m. ll2string dst v = Some (m, 0) \<and> length m = length dst"
proof -
  have "ll2string dst v = Some (map Some (ll_dec v) @ Some 0 # drop (Suc (length (ll_dec v))) dst,
        length (ll_dec v))" if fits: "length (ll_dec v) < length dst"
  proof (cases "v < 0")
    case True
    then obtain a b ds where "dst = a # b # ds"
      using fits dec_not_Nil [of "nat (- v)"] by (cases dst; cases "tl dst") (auto simp: ll_dec_def)
    then show ?thesis
      using fits True magnitude_64 [OF v]
      by (simp add: ll2string_def ll_dec_def ull2string_correct mem_write_def ascii_def Let_def)
  qed (use fits in \<open>simp add: ll2string_def ll_dec_def ull2string_correct\<close>)
  then show "length (ll_dec v) < length dst \<Longrightarrow>
      ll2string dst v = Some (map Some (ll_dec v) @ Some 0 # drop (Suc (length (ll_dec v))) dst,
        length (ll_dec v))" .
  show "\<exists>m. ll2string dst v = Some (m, 0) \<and> length m = length dst"
    if "length dst \<le> length (ll_dec v)"
    using that magnitude_64 [OF v]
    by (cases "v < 0"; cases dst; cases "tl dst")
      (auto simp: ll2string_def ll_dec_def ull2string_correct mem_write_def ascii_def Let_def)
qed

section \<open>The parser accepts exactly the numerals\<close>

lemma dval_simps [simp]:
  "dval a [] = a" "dval a (c # cs) = dval (a * 10 + (uint c - 48)) cs"
  "dval a (s @ t) = dval (dval a s) t"
  by (simp_all add: dval_def)

lemma is_digit_uint: "is_digit c \<longleftrightarrow> 48 \<le> uint c \<and> uint c \<le> 57"
  by (simp add: word_le_def)

lemma uint_digit: "n < 10 \<Longrightarrow> uint (48 + of_nat n :: u8) = 48 + int n"
proof -
  assume "n < 10"
  have "(48 + of_nat n :: u8) = word_of_int (48 + int n)" by simp
  moreover have "uint (word_of_int (48 + int n) :: u8) = 48 + int n"
    using \<open>n < 10\<close> by (simp only: uint_word_of_int) simp
  ultimately show ?thesis by simp
qed

lemma dec_digits: "list_all is_digit (dec n)"
proof (induction n rule: dec.induct)
  case (1 n)
  have "n mod 10 < 10" by simp
  then have "n mod 10 \<le> 9" by simp
  with 1 show ?case
    by (subst dec.simps) (simp add: is_digit_uint uint_digit)
qed

lemma dval_dec [simp]: "dval 0 (dec n) = int n"
proof (induction n rule: dec.induct)
  case (1 n)
  have "int (n div 10) * 10 + int (n mod 10) = int n"
    by (metis div_mult_mod_eq of_nat_add of_nat_mult of_nat_numeral)
  with 1 show ?case
    by (subst dec.simps) (simp add: uint_digit)
qed

lemma dec_inj: "dec m = dec n \<longleftrightarrow> m = n"
proof
  assume "dec m = dec n"
  then have "dval 0 (dec m) = dval 0 (dec n)" by (rule arg_cong)
  then show "m = n" by (simp only: dval_dec of_nat_eq_iff)
qed simp

lemma dval_mono: "0 \<le> a \<Longrightarrow> list_all is_digit s \<Longrightarrow> a \<le> dval a s"
proof (induction s arbitrary: a)
  case (Cons c s)
  then have "a * 10 + (uint c - 48) \<le> dval (a * 10 + (uint c - 48)) s"
    by (simp add: is_digit_uint)
  with Cons.prems show ?case by (simp add: is_digit_uint)
qed simp

lemma dec_dval: "0 < a \<Longrightarrow> list_all is_digit s \<Longrightarrow> dec (nat (dval a s)) = dec (nat a) @ s"
proof (induction s arbitrary: a)
  case (Cons c s)
  let ?d = "nat (uint c - 48)"
  have d: "48 \<le> uint c" "?d < 10" using Cons.prems by (auto simp: is_digit_uint nat_less_iff)
  then have n: "nat (a * 10 + (uint c - 48)) = nat a * 10 + ?d"
    using Cons.prems by (simp add: nat_add_distrib nat_mult_distrib)
  have "uint (48 + of_nat ?d :: u8) = uint c"
    using d uint_digit [of ?d] by simp
  then have "dec (nat a * 10 + ?d) = dec (nat a) @ [c]"
    using Cons.prems(1) d dec_step [of "nat a * 10 + ?d"] by (simp add: word_uint_eq_iff)
  then show ?case
    using Cons d n by simp
qed simp

lemma string2ll_loop_iff:
  assumes "0 \<le> v" and "v \<le> ULLONG_MAX"
  shows "string2ll_loop v s = Some (w, []) \<longleftrightarrow>
    list_all is_digit s \<and> dval v s = w \<and> w \<le> ULLONG_MAX"
  using assms
proof (induction s arbitrary: v)
  case (Cons c s)
  let ?v = "v * 10 + (uint c - 48)"
  show ?case
  proof (cases "is_digit c \<and> ?v \<le> ULLONG_MAX")
    case True
    then show ?thesis using Cons by (simp add: is_digit_uint)
  next
    case False
    moreover have "?v \<le> dval ?v s" if "is_digit c" "list_all is_digit s"
      using that Cons.prems by (intro dval_mono) (auto simp: is_digit_uint)
    ultimately show ?thesis using Cons.prems by (auto simp: is_digit_uint)
  qed
qed auto


lemma dec_hd: "0 < n \<Longrightarrow> 49 \<le> uint (hd (dec n)) \<and> uint (hd (dec n)) \<le> 57"
proof (induction n rule: dec.induct)
  case (1 n)
  then show ?case
    by (subst (1 2) dec.simps) (auto simp: uint_digit hd_append)
qed

lemma hd_digit_uint: "49 \<le> c \<and> c \<le> (57::u8) \<longleftrightarrow> 49 \<le> uint c \<and> uint c \<le> 57"
  by (simp add: word_le_def)

text \<open>The body of the parser after the sign, on a nonempty string.\<close>

lemma digits_parse_iff:
  assumes "w \<le> ULLONG_MAX"
  shows "49 \<le> c \<and> c \<le> 57 \<and> string2ll_loop (uint c - 48) cs = Some (w, []) \<longleftrightarrow>
    0 < w \<and> c # cs = dec (nat w)"
proof
  assume "49 \<le> c \<and> c \<le> 57 \<and> string2ll_loop (uint c - 48) cs = Some (w, [])"
  then have c: "49 \<le> uint c" "uint c \<le> 57" and "list_all is_digit cs" "dval (uint c - 48) cs = w"
    using string2ll_loop_iff [of "uint c - 48" cs w] hd_digit_uint [of c] by auto
  moreover have "48 + of_nat (nat (uint c - 48)) = c"
    using c uint_digit [of "nat (uint c - 48)"] by (simp add: word_uint_eq_iff nat_less_iff)
  ultimately show "0 < w \<and> c # cs = dec (nat w)"
    using dec_dval [of "uint c - 48" cs] dval_mono [of "uint c - 48" cs] by (simp add: nat_less_iff)
next
  assume w: "0 < w \<and> c # cs = dec (nat w)"
  then have "list_all is_digit (c # cs)" "dval 0 (c # cs) = w" "49 \<le> uint c" "uint c \<le> 57"
    using dec_digits [of "nat w"] dval_dec [of "nat w"] dec_hd [of "nat w"]
    by (metis, metis int_nat_eq less_imp_le, metis list.sel(1) zero_less_nat_eq, metis list.sel(1) zero_less_nat_eq)
  then show "49 \<le> c \<and> c \<le> 57 \<and> string2ll_loop (uint c - 48) cs = Some (w, [])"
    using assms string2ll_loop_iff [of "uint c - 48" cs w] hd_digit_uint [of c] by simp
qed

lemma length_dec_64: "0 \<le> v \<Longrightarrow> v \<le> 2 ^ 63 \<Longrightarrow> length (dec (nat v)) \<le> 19"
  using length_dec_lt [of "nat v" 19] by (simp add: nat_less_iff)


text \<open>The branch that checks the first digit, runs the loop and converts the result.\<close>

lemma string2ll_eq:
  assumes "c # cs \<noteq> ascii ''0''" and "length (c # cs) < LONG_STR_SIZE" and "c \<noteq> 45"
  shows "string2ll (c # cs) = (if \<not> (49 \<le> c \<and> c \<le> 57) then None else
      (case string2ll_loop (uint c - 48) cs of None \<Rightarrow> None | Some (w, rest) \<Rightarrow>
         if rest \<noteq> [] then None else if w > LLONG_MAX then None else Some w))"
proof -
  have "\<not> (c # cs = [] \<or> length (c # cs) \<ge> LONG_STR_SIZE)" using assms(2) by simp
  with assms(1,3) show ?thesis
    unfolding string2ll_def Let_def by (simp only: if_False list.sel if_not_P list.distinct)
qed

lemma string2ll_neg_eq:
  assumes "length (c # cs) < 20"
  shows "string2ll (45 # c # cs) = (if \<not> (49 \<le> c \<and> c \<le> 57) then None else
      (case string2ll_loop (uint c - 48) cs of None \<Rightarrow> None | Some (w, rest) \<Rightarrow>
         if rest \<noteq> [] then None else if w > - (LLONG_MIN + 1) + 1 then None
         else Some (wrap_s 64 (wrap_u 64 (- w)))))"
proof -
  have "\<not> (45 # c # cs = [] \<or> length (45 # c # cs) \<ge> LONG_STR_SIZE)" using assms by simp
  moreover have "45 # c # cs \<noteq> ascii ''0''" by (simp add: ascii_def)
  ultimately show ?thesis
    unfolding string2ll_def Let_def by (simp only: if_False if_True list.sel if_not_P list.distinct refl)
qed

lemma string2ll_zero: "string2ll (ascii ''0'') = Some 0"
  by (simp add: string2ll_def ascii_def)

lemma string2ll_bad_length: "s = [] \<or> length s \<ge> LONG_STR_SIZE \<Longrightarrow> string2ll s = None"
  by (simp only: string2ll_def if_True)

lemma string2ll_lone_sign: "string2ll [45] = None"
  by (simp add: string2ll_def ascii_def)

lemma parse_result:
  "(if \<not> d then None else (case r of None \<Rightarrow> None | Some (w, rest) \<Rightarrow>
      if rest \<noteq> [] then None else if w > (b::int) then None else Some (f w))) = Some v \<longleftrightarrow>
   (\<exists>w. d \<and> r = Some (w, []) \<and> w \<le> b \<and> f w = v)"
  by (auto split: option.splits prod.splits)

lemma string2ll_unsigned:
  assumes s: "s \<noteq> []" "hd s \<noteq> 45"
  shows "string2ll s = Some v \<longleftrightarrow> 0 \<le> v \<and> v \<le> LLONG_MAX \<and> s = dec (nat v)"
proof (cases "s = ascii ''0''")
  case True
  then have "s = dec 0" by (simp add: ascii_def)
  then have "0 \<le> v \<and> s = dec (nat v) \<longleftrightarrow> v = 0"
    by (auto simp only: dec_inj)
  then show ?thesis using True string2ll_zero by (cases "v = 0") auto
next
  case False
  have pos: "0 < v" if "0 \<le> v" "s = dec (nat v)"
    using that False by (cases "v = 0") (simp_all add: ascii_def)
  show ?thesis
  proof (cases "length s \<ge> 21")
    case True
    then show ?thesis using length_dec_64 [of v] string2ll_bad_length [of s] by auto
  next
    case short: False
    from s obtain c cs where cs: "s = c # cs" by (cases s) auto
    have ok: "c # cs \<noteq> ascii ''0''" "length (c # cs) < LONG_STR_SIZE" "c \<noteq> 45"
      using False short s cs by simp_all
    have "string2ll s = Some v \<longleftrightarrow> (\<exists>w. (49 \<le> c \<and> c \<le> 57) \<and>
        string2ll_loop (uint c - 48) cs = Some (w, []) \<and> w \<le> LLONG_MAX \<and> w = v)"
      unfolding cs string2ll_eq [OF ok] by (rule parse_result)
    also have "\<dots> \<longleftrightarrow> v \<le> LLONG_MAX \<and> 0 < v \<and> c # cs = dec (nat v)"
      using digits_parse_iff [of v c cs] by auto
    finally show ?thesis using pos cs by auto
  qed
qed

lemma string2ll_negative:
  "string2ll (45 # p) = Some v \<longleftrightarrow> LLONG_MIN \<le> v \<and> v < 0 \<and> p = dec (nat (- v))"
proof (cases "p = [] \<or> length p \<ge> 20")
  case True
  then show ?thesis
    using length_dec_64 [of "- v"] string2ll_lone_sign string2ll_bad_length [of "45 # p"] by auto
next
  case False
  then obtain c cs where cs: "p = c # cs" by (cases p) auto
  have ok: "length (c # cs) < 20" using False cs by simp
  have conv: "wrap_s 64 (wrap_u 64 (- w)) = - w" if "0 < w" "w \<le> - (LLONG_MIN + 1) + 1" for w
    unfolding wrap_u_def wrap_s_mod using that by (intro wrap_s_id) simp_all
  have "string2ll (45 # p) = Some v \<longleftrightarrow> (\<exists>w. (49 \<le> c \<and> c \<le> 57) \<and>
      string2ll_loop (uint c - 48) cs = Some (w, []) \<and> w \<le> - (LLONG_MIN + 1) + 1 \<and>
      wrap_s 64 (wrap_u 64 (- w)) = v)"
    unfolding cs string2ll_neg_eq [OF ok] by (rule parse_result)
  also have "\<dots> \<longleftrightarrow> (\<exists>w. 0 < w \<and> c # cs = dec (nat w) \<and> w \<le> - (LLONG_MIN + 1) + 1 \<and> - w = v)"
  proof (rule ex_cong1)
    fix w
    show "((49 \<le> c \<and> c \<le> 57) \<and> string2ll_loop (uint c - 48) cs = Some (w, []) \<and>
        w \<le> - (LLONG_MIN + 1) + 1 \<and> wrap_s 64 (wrap_u 64 (- w)) = v) \<longleftrightarrow>
      (0 < w \<and> c # cs = dec (nat w) \<and> w \<le> - (LLONG_MIN + 1) + 1 \<and> - w = v)"
      using digits_parse_iff [of w c cs] conv [of w] by (cases "w \<le> 2 ^ 63") auto
  qed
  also have "\<dots> \<longleftrightarrow> LLONG_MIN \<le> v \<and> v < 0 \<and> p = dec (nat (- v))"
    using cs by (auto intro: exI [of _ "- v"])
  finally show ?thesis .
qed

lemma string2ll_iff: "string2ll s = Some v \<longleftrightarrow> in_s 64 v \<and> s = ll_dec v"
proof (cases "s = []")
  case True
  then show ?thesis by (simp add: string2ll_bad_length ll_dec_def)
next
  case False
  have unsigned: "45 # p \<noteq> dec n" for n p
  proof
    assume "45 # p = dec n"
    with dec_digits [of n] have "list_all is_digit (45 # p)" by simp
    then show False by (simp add: is_digit_uint)
  qed
  show ?thesis
  proof (cases "hd s = 45")
    case True
    then obtain p where s: "s = 45 # p" using False by (cases s) auto
    show ?thesis using string2ll_negative [of p v] unsigned [of p "nat v"] s by (auto simp: ll_dec_def)
  next
    case hd: False
    then show ?thesis using string2ll_unsigned [OF False hd, of v] by (auto simp: ll_dec_def)
  qed
qed

lemma ll_dec_inj: "ll_dec v = ll_dec w \<Longrightarrow> in_s 64 v \<Longrightarrow> in_s 64 w \<Longrightarrow> v = w"
  using string2ll_iff by (metis option.inject)

lemma string2l_eq: "string2l s = string2ll s"
proof (cases "string2ll s")
  case (Some v)
  then show ?thesis using string2ll_iff [of s v] by (simp add: string2l_def)
qed (simp add: string2l_def)

lemma length_ll_dec: "in_s 64 v \<Longrightarrow> length (ll_dec v) \<le> 20"
  using length_dec_64 [of v] length_dec_64 [of "- v"] by (auto simp: ll_dec_def)

section \<open>Properties\<close>

text \<open>C10. \<^verbatim>\<open>string2ll\<close> accepts a string with value \<open>v\<close> exactly when \<open>v\<close> is a signed 64-bit integer
  and the string is its shortest decimal numeral, so no plus sign, space, leading zero, negative
  zero, empty string or overflowing numeral is accepted, and the number determines the string.\<close>

theorem string2ll_exact: "string2ll s = Some v \<longleftrightarrow> in_s 64 v \<and> s = ll_dec v"
  by (rule string2ll_iff)

text \<open>C11. Printing the number a string parses to gives the string back: for every buffer that holds
  the string and a terminator, \<^verbatim>\<open>ll2string\<close> makes only valid accesses, returns the length of the
  string, writes it from the start of the buffer followed by a zero byte, and leaves the rest of
  the buffer unchanged.\<close>

theorem ll2string_string2ll:
  assumes "string2ll s = Some v" and "length s < length dst"
  shows "ll2string dst v = Some (map Some s @ Some 0 # drop (Suc (length s)) dst, length s)"
  using assms ll2string_correct(1) [of v dst] string2ll_iff [of s v] by simp

lemma ll2string_string2ll_witness:
  "string2ll (ascii ''-9223372036854775808'') = Some (- (2 ^ 63)) \<and>
   ll2string (replicate 21 None) (- (2 ^ 63)) =
     Some (map Some (ascii ''-9223372036854775808'') @ [Some 0], 20)"
proof -
  have p: "string2ll (ascii ''-9223372036854775808'') = Some (- (2 ^ 63))"
    by (simp add: string2ll_def ascii_def wrap_u_def wrap_s_def)
  have "length (ascii ''-9223372036854775808'') < length (replicate 21 None :: mem)"
    by (simp add: ascii_def)
  from ll2string_string2ll [OF p this] p show ?thesis by (simp add: ascii_def)
qed

end
