(* ===== verification/Dict.thy ===== *)
theory Dict
  imports Interfaces
begin

text \<open>
  Model of the hash table of \<^verbatim>\<open>dict.c\<close> and \<^verbatim>\<open>dict.h\<close>: two tables of buckets, incremental
  rehashing from the first into the second, automatic expansion and shrinking, and the lookup, add,
  replace and delete operations, each of which may first move a bucket.

  A chain of entries is a datatype with one constructor for each kind of tagged pointer. The
  \<^verbatim>\<open>dictType\<close> of a dictionary and the global \<^verbatim>\<open>dict_can_resize\<close> are arguments of the operations.
  The callbacks of the type that have no effect on the dictionary are events appended to a trace.
  An operation returns \<open>None\<close> when it would dereference a null or out of range pointer or fail an
  assertion. The counters of entries are natural numbers: they count allocated entries and cannot
  overflow. The number of steps of \<^verbatim>\<open>dictRehash\<close> is a natural number too: the code passes 1, 100 and 1000, so its
  product with 10 fits in an \<^verbatim>\<open>int\<close>. Entries come from the allocator and keys are as odd or aligned as their type says, so
  the assertions on the tag bits of new entries hold; the one in \<^verbatim>\<open>dictSetKeyAtLink\<close> that can fail is modelled.
\<close>

section \<open>Data\<close>

datatype dictResizeEnable = DICT_RESIZE_ENABLE | DICT_RESIZE_AVOID | DICT_RESIZE_FORBID

text \<open>A pointer to an entry: null, a key stored in place of an entry, an entry without value, or a
  normal entry. The value of a normal entry is \<open>None\<close> until it is set.\<close>

datatype ('k, 'v) dictEntry =
    ENull
  | EKey 'k
  | ENoValue 'k "('k, 'v) dictEntry"
  | ENormal 'k "'v option" "('k, 'v) dictEntry"

text \<open>Optional functions are \<open>None\<close> for a null pointer. The callbacks whose effect is outside of the
  dictionary are only present or absent. \<open>resizeAllowed\<close> gets the number of bytes and the fill
  ratio as a fraction.\<close>

record ('k, 'v) dictType =
  hashFunction :: "'k \<Rightarrow> u64"
  keyDup :: "('k \<Rightarrow> 'k) option"
  valDup :: "('v \<Rightarrow> 'v) option"
  keyCompare :: "('k \<Rightarrow> 'k \<Rightarrow> bool) option"
  keyDestructor :: bool
  valDestructor :: bool
  resizeAllowed :: "(nat \<Rightarrow> nat \<times> nat \<Rightarrow> bool) option"
  rehashingStarted :: bool
  rehashingCompleted :: bool
  bucketChanged :: bool
  no_value :: bool
  keys_are_odd :: bool
  force_full_rehash :: bool
  storedHashFunction :: "('k \<Rightarrow> u64) option"
  storedKeyCompare :: "('k \<Rightarrow> 'k \<Rightarrow> bool) option"
  onDictRelease :: bool

datatype ('k, 'v) dictEvent =
    RehashingStarted
  | RehashingCompleted
  | BucketChanged int
  | KeyDestructor 'k
  | ValDestructor "'v option"
  | OnDictRelease
  | ClearCallback

text \<open>One of the two tables. A null table is the empty list.\<close>

record ('k, 'v) dictht =
  ht_table :: "('k, 'v) dictEntry list"
  ht_used :: nat
  ht_size_exp :: int

record ('k, 'v) dict =
  ht0 :: "('k, 'v) dictht"
  ht1 :: "('k, 'v) dictht"
  rehashidx :: int
  pauserehash :: nat
  useStoredKeyApi :: bool
  pauseAutoResize :: int
  trace :: "('k, 'v) dictEvent list"

abbreviation (input) DICT_HT_INITIAL_EXP :: int where "DICT_HT_INITIAL_EXP \<equiv> 2"
abbreviation (input) DICT_HT_INITIAL_SIZE :: nat where "DICT_HT_INITIAL_SIZE \<equiv> 4"
abbreviation (input) HASHTABLE_MIN_FILL :: nat where "HASHTABLE_MIN_FILL \<equiv> 8"
abbreviation (input) dict_force_resize_ratio :: nat where "dict_force_resize_ratio \<equiv> 4"

definition DICTHT_SIZE :: "int \<Rightarrow> nat" where
  "DICTHT_SIZE e = (if e = -1 then 0 else 2 ^ nat e)"

definition DICTHT_SIZE_MASK :: "int \<Rightarrow> nat" where
  "DICTHT_SIZE_MASK e = (if e = -1 then 0 else DICTHT_SIZE e - 1)"

definition hash_index :: "u64 \<Rightarrow> int \<Rightarrow> nat" where
  "hash_index h e = unat (h AND word_of_nat (DICTHT_SIZE_MASK e))"

definition dictBuckets :: "('k, 'v) dict \<Rightarrow> nat" where
  "dictBuckets d = DICTHT_SIZE (ht_size_exp (ht0 d)) + DICTHT_SIZE (ht_size_exp (ht1 d))"

definition dictSize :: "('k, 'v) dict \<Rightarrow> nat" where
  "dictSize d = ht_used (ht0 d) + ht_used (ht1 d)"

definition dictIsRehashing :: "('k, 'v) dict \<Rightarrow> bool" where
  "dictIsRehashing d = (rehashidx d \<noteq> -1)"

text \<open>The pause counter is a bit field of 15 bits.\<close>

definition dictPauseRehashing :: "('k, 'v) dict \<Rightarrow> ('k, 'v) dict" where
  "dictPauseRehashing d = d\<lparr>pauserehash := (pauserehash d + 1) mod 2 ^ 15\<rparr>"

definition dictResumeRehashing :: "('k, 'v) dict \<Rightarrow> ('k, 'v) dict" where
  "dictResumeRehashing d = d\<lparr>pauserehash := (pauserehash d + (2 ^ 15 - 1)) mod 2 ^ 15\<rparr>"

text \<open>A table chosen by its index.\<close>

definition get_ht :: "('k, 'v) dict \<Rightarrow> nat \<Rightarrow> ('k, 'v) dictht" where
  "get_ht d t = (if t = 0 then ht0 d else ht1 d)"

definition set_ht :: "('k, 'v) dict \<Rightarrow> nat \<Rightarrow> ('k, 'v) dictht \<Rightarrow> ('k, 'v) dict" where
  "set_ht d t h = (if t = 0 then d\<lparr>ht0 := h\<rparr> else d\<lparr>ht1 := h\<rparr>)"

definition emit :: "bool \<Rightarrow> ('k, 'v) dictEvent \<Rightarrow> ('k, 'v) dict \<Rightarrow> ('k, 'v) dict" where
  "emit present e d = (if present then d\<lparr>trace := trace d @ [e]\<rparr> else d)"

section \<open>Keys and entries\<close>

definition dictDefaultCompare :: "'k \<Rightarrow> 'k \<Rightarrow> bool" where
  "dictDefaultCompare key1 key2 = (key1 = key2)"

definition dictGetCmpFunc :: "('k, 'v) dictType \<Rightarrow> ('k, 'v) dict \<Rightarrow> 'k \<Rightarrow> 'k \<Rightarrow> bool" where
  "dictGetCmpFunc T d =
     (case (if useStoredKeyApi d then storedKeyCompare T else None) of
        Some f \<Rightarrow> f
      | None \<Rightarrow> (case keyCompare T of Some f \<Rightarrow> f | None \<Rightarrow> dictDefaultCompare))"

definition dictHashKey :: "('k, 'v) dictType \<Rightarrow> 'k \<Rightarrow> bool \<Rightarrow> u64" where
  "dictHashKey T key isStoredKey =
     (case (if isStoredKey then storedHashFunction T else None) of
        Some f \<Rightarrow> f key
      | None \<Rightarrow> hashFunction T key)"

definition dictGetHash :: "('k, 'v) dictType \<Rightarrow> ('k, 'v) dict \<Rightarrow> 'k \<Rightarrow> u64" where
  "dictGetHash T d key = dictHashKey T key (useStoredKeyApi d)"

definition key_matches :: "('k, 'v) dictType \<Rightarrow> ('k, 'v) dict \<Rightarrow> 'k \<Rightarrow> 'k \<Rightarrow> bool" where
  "key_matches T d key he_key = (key = he_key \<or> dictGetCmpFunc T d key he_key)"

fun entryIsKey :: "('k, 'v) dictEntry \<Rightarrow> bool" where
  "entryIsKey (EKey k) = True"
| "entryIsKey _ = False"

fun entryIsNoValue :: "('k, 'v) dictEntry \<Rightarrow> bool" where
  "entryIsNoValue (ENoValue k n) = True"
| "entryIsNoValue _ = False"

fun entryHasValue :: "('k, 'v) dictEntry \<Rightarrow> bool" where
  "entryHasValue (ENormal k v n) = True"
| "entryHasValue _ = False"

fun dictGetKey :: "('k, 'v) dictEntry \<Rightarrow> 'k option" where
  "dictGetKey ENull = None"
| "dictGetKey (EKey k) = Some k"
| "dictGetKey (ENoValue k n) = Some k"
| "dictGetKey (ENormal k v n) = Some k"

fun dictGetVal :: "('k, 'v) dictEntry \<Rightarrow> 'v option option" where
  "dictGetVal (ENormal k v n) = Some v"
| "dictGetVal _ = None"

fun dictGetNext :: "('k, 'v) dictEntry \<Rightarrow> ('k, 'v) dictEntry" where
  "dictGetNext (ENoValue k n) = n"
| "dictGetNext (ENormal k v n) = n"
| "dictGetNext _ = ENull"

fun dictSetNext :: "('k, 'v) dictEntry \<Rightarrow> ('k, 'v) dictEntry \<Rightarrow> ('k, 'v) dictEntry option" where
  "dictSetNext (ENoValue k n) next = Some (ENoValue k next)"
| "dictSetNext (ENormal k v n) next = Some (ENormal k v next)"
| "dictSetNext _ next = None"

text \<open>The entries of a chain as keys and values.\<close>

fun chain :: "('k, 'v) dictEntry \<Rightarrow> ('k \<times> 'v option) list" where
  "chain ENull = []"
| "chain (EKey k) = [(k, None)]"
| "chain (ENoValue k n) = (k, None) # chain n"
| "chain (ENormal k v n) = (k, v) # chain n"

text \<open>The depth of the first entry of a chain whose key satisfies \<open>P\<close>, and the entry at a depth.\<close>

fun chain_find :: "('k \<Rightarrow> bool) \<Rightarrow> ('k, 'v) dictEntry \<Rightarrow> nat option" where
  "chain_find P ENull = None"
| "chain_find P (EKey k) = (if P k then Some 0 else None)"
| "chain_find P (ENoValue k n) = (if P k then Some 0 else map_option Suc (chain_find P n))"
| "chain_find P (ENormal k v n) = (if P k then Some 0 else map_option Suc (chain_find P n))"

fun chain_at :: "('k, 'v) dictEntry \<Rightarrow> nat \<Rightarrow> ('k, 'v) dictEntry" where
  "chain_at de 0 = de"
| "chain_at de (Suc n) = chain_at (dictGetNext de) n"

text \<open>Replace what the link at a depth points to.\<close>

fun chain_update :: "('k, 'v) dictEntry \<Rightarrow> nat \<Rightarrow> (('k, 'v) dictEntry \<Rightarrow> ('k, 'v) dictEntry option) \<Rightarrow>
    ('k, 'v) dictEntry option" where
  "chain_update de 0 f = f de"
| "chain_update de (Suc n) f =
     Option.bind (chain_update (dictGetNext de) n f) (\<lambda>next. dictSetNext de next)"

text \<open>A link is a table, a bucket and a depth in its chain.\<close>

type_synonym link = "nat \<times> nat \<times> nat"

definition link_get :: "('k, 'v) dict \<Rightarrow> link \<Rightarrow> ('k, 'v) dictEntry option" where
  "link_get d = (\<lambda>(t, i, n).
     if i < length (ht_table (get_ht d t)) then Some (chain_at (ht_table (get_ht d t) ! i) n)
     else None)"

definition link_update :: "('k, 'v) dict \<Rightarrow> link \<Rightarrow>
    (('k, 'v) dictEntry \<Rightarrow> ('k, 'v) dictEntry option) \<Rightarrow> ('k, 'v) dict option" where
  "link_update d l f = (case l of (t, i, n) \<Rightarrow>
     if i < length (ht_table (get_ht d t)) then
       Option.bind (chain_update (ht_table (get_ht d t) ! i) n f) (\<lambda>c.
         Some (set_ht d t ((get_ht d t)\<lparr>ht_table := (ht_table (get_ht d t))[i := c]\<rparr>)))
     else None)"

section \<open>Creation\<close>

definition dictReset :: "('k, 'v) dictht" where
  "dictReset = \<lparr>ht_table = [], ht_used = 0, ht_size_exp = -1\<rparr>"

definition dictCreate :: "('k, 'v) dict" where
  "dictCreate = \<lparr>ht0 = dictReset, ht1 = dictReset, rehashidx = -1, pauserehash = 0,
     useStoredKeyApi = False, pauseAutoResize = 0, trace = []\<rparr>"

section \<open>Rehashing\<close>

text \<open>One round of the loop of \<^verbatim>\<open>rehashEntriesInBucketAtIndex\<close>: move the entry \<open>de\<close> of bucket
  \<open>idx\<close> of the first table to the second table.\<close>

definition rehash_entry :: "('k, 'v) dictType \<Rightarrow> nat \<Rightarrow> ('k, 'v) dictEntry \<Rightarrow> ('k, 'v) dict \<Rightarrow>
    ('k, 'v) dict option" where
  "rehash_entry T idx de d =
     (case dictGetKey de of None \<Rightarrow> None | Some key \<Rightarrow>
        let e0 = ht_size_exp (ht0 d); e1 = ht_size_exp (ht1 d);
            h = (if e1 > e0 then hash_index (dictHashKey T key True) e1
                 else hash_index (word_of_nat idx) e1) in
        if h \<ge> length (ht_table (ht1 d)) then None
        else
          let old = ht_table (ht1 d) ! h in
          Option.bind
            (if no_value T then
               if old = ENull then Some (EKey key)
               else if entryIsKey de then Some (ENoValue key old)
               else if entryIsNoValue de then dictSetNext de old
               else None
             else dictSetNext de old)
            (\<lambda>de'. Some (d\<lparr>
               ht0 := (ht0 d)\<lparr>ht_used := ht_used (ht0 d) - 1\<rparr>,
               ht1 := (ht1 d)\<lparr>ht_table := (ht_table (ht1 d))[h := de'],
                              ht_used := ht_used (ht1 d) + 1\<rparr>\<rparr>)))"

function rehash_chain :: "('k, 'v) dictType \<Rightarrow> nat \<Rightarrow> ('k, 'v) dictEntry \<Rightarrow> ('k, 'v) dict \<Rightarrow>
    ('k, 'v) dict option" where
  "rehash_chain T idx de d =
     (if de = ENull then Some d
      else Option.bind (rehash_entry T idx de d) (rehash_chain T idx (dictGetNext de)))"
  by pat_completeness auto
termination
proof (relation "measure (\<lambda>(T, idx, de, d). length (chain de))", simp)
  fix T :: "('k, 'v) dictType" and idx de d d'
  assume "de \<noteq> (ENull :: ('k, 'v) dictEntry)"
  then show "((T, idx, dictGetNext de, d'), (T, idx, de, d)) \<in>
      measure (\<lambda>(T :: ('k, 'v) dictType, idx :: nat, de, d :: ('k, 'v) dict). length (chain de))"
    by (cases de) auto
qed

declare rehash_chain.simps [simp del]

definition rehashEntriesInBucketAtIndex :: "('k, 'v) dictType \<Rightarrow> ('k, 'v) dict \<Rightarrow> nat \<Rightarrow>
    ('k, 'v) dict option" where
  "rehashEntriesInBucketAtIndex T d idx =
     (if idx \<ge> length (ht_table (ht0 d)) then None
      else Option.bind (rehash_chain T idx (ht_table (ht0 d) ! idx) d) (\<lambda>d.
        Some (d\<lparr>ht0 := (ht0 d)\<lparr>ht_table := (ht_table (ht0 d))[idx := ENull]\<rparr>\<rparr>)))"

definition dictCheckRehashingCompleted :: "('k, 'v) dictType \<Rightarrow> ('k, 'v) dict \<Rightarrow> bool \<times> ('k, 'v) dict" where
  "dictCheckRehashingCompleted T d =
     (if ht_used (ht0 d) \<noteq> 0 then (False, d)
      else
        let d1 = emit (rehashingCompleted T) RehashingCompleted d;
            d2 = emit (bucketChanged T) (BucketChanged (- int (DICTHT_SIZE (ht_size_exp (ht0 d1))))) d1 in
        (True, d2\<lparr>ht0 := ht1 d2, ht1 := dictReset, rehashidx := -1\<rparr>))"

text \<open>The test that refuses to rehash when resizing is forbidden or to be avoided.\<close>

definition rehash_refused :: "dictResizeEnable \<Rightarrow> ('k, 'v) dict \<Rightarrow> bool" where
  "rehash_refused dict_can_resize d =
     (let s0 = DICTHT_SIZE (ht_size_exp (ht0 d)); s1 = DICTHT_SIZE (ht_size_exp (ht1 d)) in
      dict_can_resize = DICT_RESIZE_FORBID \<or> \<not> dictIsRehashing d \<or>
      dict_can_resize = DICT_RESIZE_AVOID \<and>
      ((s1 > s0 \<and> s1 < dict_force_resize_ratio * s0) \<or>
       (s1 < s0 \<and> s0 < HASHTABLE_MIN_FILL * dict_force_resize_ratio * s1)))"

text \<open>The loop over empty buckets: the index of the first nonempty bucket and the visits left, or
  the index reached when the visits ran out (\<open>Inl\<close>).\<close>

function skip_empty :: "('k, 'v) dictEntry list \<Rightarrow> nat \<Rightarrow> int \<Rightarrow> (nat + nat \<times> int) option" where
  "skip_empty tab idx empty_visits =
     (if idx \<ge> length tab then None
      else if tab ! idx \<noteq> ENull then Some (Inr (idx, empty_visits))
      else if empty_visits - 1 = 0 then Some (Inl (idx + 1))
      else skip_empty tab (idx + 1) (empty_visits - 1))"
  by pat_completeness auto
termination
  by (relation "measure (\<lambda>(tab, idx, ev). length tab - idx)") auto

declare skip_empty.simps [simp del]

text \<open>The main loop of \<^verbatim>\<open>dictRehash\<close>. The flag is set when it returns from inside.\<close>

fun dictRehash_loop :: "('k, 'v) dictType \<Rightarrow> nat \<Rightarrow> int \<Rightarrow> ('k, 'v) dict \<Rightarrow> (bool \<times> ('k, 'v) dict) option" where
  "dictRehash_loop T 0 empty_visits d = Some (False, d)"
| "dictRehash_loop T (Suc n) empty_visits d =
     (if ht_used (ht0 d) = 0 then Some (False, d)
      else if \<not> int (DICTHT_SIZE (ht_size_exp (ht0 d))) > rehashidx d \<or> rehashidx d < 0 then None
      else
        (case skip_empty (ht_table (ht0 d)) (nat (rehashidx d)) empty_visits of
           None \<Rightarrow> None
         | Some (Inl i) \<Rightarrow> Some (True, d\<lparr>rehashidx := int i\<rparr>)
         | Some (Inr (i, ev)) \<Rightarrow>
             Option.bind (rehashEntriesInBucketAtIndex T (d\<lparr>rehashidx := int i\<rparr>) i) (\<lambda>d.
               dictRehash_loop T n ev (d\<lparr>rehashidx := int i + 1\<rparr>))))"

definition dictRehash :: "('k, 'v) dictType \<Rightarrow> dictResizeEnable \<Rightarrow> ('k, 'v) dict \<Rightarrow> nat \<Rightarrow>
    (bool \<times> ('k, 'v) dict) option" where
  "dictRehash T dict_can_resize d n =
     (if rehash_refused dict_can_resize d then Some (False, d)
      else Option.bind (dictRehash_loop T n (int n * 10) d) (\<lambda>(early, d1).
        if early then Some (True, d1)
        else let (completed, d2) = dictCheckRehashingCompleted T d1 in Some (\<not> completed, d2)))"

definition dictRehashStep :: "('k, 'v) dictType \<Rightarrow> dictResizeEnable \<Rightarrow> ('k, 'v) dict \<Rightarrow>
    ('k, 'v) dict option" where
  "dictRehashStep T dict_can_resize d =
     (if pauserehash d = 0 then map_option snd (dictRehash T dict_can_resize d 1) else Some d)"

text \<open>The clock is an argument: the time elapsed after each round.\<close>

partial_function (option) rehash_until :: "('k, 'v) dictType \<Rightarrow> dictResizeEnable \<Rightarrow> nat \<Rightarrow>
    (nat \<Rightarrow> nat) \<Rightarrow> nat \<Rightarrow> ('k, 'v) dict \<Rightarrow> (nat \<times> ('k, 'v) dict) option" where
  "rehash_until T dict_can_resize us elapsed rounds d =
     Option.bind (dictRehash T dict_can_resize d 100) (\<lambda>r.
       if fst r then
         (if elapsed (rounds + 1) \<ge> us then Some ((rounds + 1) * 100, snd r)
          else rehash_until T dict_can_resize us elapsed (rounds + 1) (snd r))
       else Some (rounds * 100, snd r))"

definition dictRehashMicroseconds :: "('k, 'v) dictType \<Rightarrow> dictResizeEnable \<Rightarrow> (nat \<Rightarrow> nat) \<Rightarrow>
    ('k, 'v) dict \<Rightarrow> nat \<Rightarrow> (nat \<times> ('k, 'v) dict) option" where
  "dictRehashMicroseconds T dict_can_resize elapsed d us =
     (if pauserehash d > 0 then Some (0, d) else rehash_until T dict_can_resize us elapsed 0 d)"

definition dictBucketRehash :: "('k, 'v) dictType \<Rightarrow> dictResizeEnable \<Rightarrow> ('k, 'v) dict \<Rightarrow> nat \<Rightarrow>
    (bool \<times> ('k, 'v) dict) option" where
  "dictBucketRehash T dict_can_resize d idx =
     (if pauserehash d \<noteq> 0 \<or> rehash_refused dict_can_resize d then Some (False, d)
      else Option.bind (rehashEntriesInBucketAtIndex T d idx) (\<lambda>d.
        Some (True, snd (dictCheckRehashingCompleted T d))))"

definition dictRehashStepIfNeeded :: "('k, 'v) dictType \<Rightarrow> dictResizeEnable \<Rightarrow> ('k, 'v) dict \<Rightarrow> nat \<Rightarrow>
    ('k, 'v) dict option" where
  "dictRehashStepIfNeeded T dict_can_resize d visitedIdx =
     (if \<not> dictIsRehashing d \<or> pauserehash d \<noteq> 0 then Some d
      else if int visitedIdx \<ge> rehashidx d \<and> visitedIdx \<ge> length (ht_table (ht0 d)) then None
      else if int visitedIdx \<ge> rehashidx d \<and> ht_table (ht0 d) ! visitedIdx \<noteq> ENull
      then map_option snd (dictBucketRehash T dict_can_resize d visitedIdx)
      else map_option snd (dictRehash T dict_can_resize d 1))"

section \<open>Resizing\<close>

text \<open>The number of bits of a number, and the leading zeros of a 64-bit word.\<close>

fun bit_len :: "nat \<Rightarrow> nat" where
  "bit_len n = (if n = 0 then 0 else Suc (bit_len (n div 2)))"

declare bit_len.simps [simp del]

definition clzl :: "nat \<Rightarrow> nat" where
  "clzl n = 64 - bit_len n"

definition dictNextExp :: "nat \<Rightarrow> int" where
  "dictNextExp sz =
     (if sz \<le> DICT_HT_INITIAL_SIZE then DICT_HT_INITIAL_EXP
      else if sz \<ge> 2 ^ 63 - 1 then 63
      else 64 - int (clzl (sz - 1)))"

partial_function (option) rehash_all :: "('k, 'v) dictType \<Rightarrow> dictResizeEnable \<Rightarrow> ('k, 'v) dict \<Rightarrow>
    ('k, 'v) dict option" where
  "rehash_all T dict_can_resize d =
     Option.bind (dictRehash T dict_can_resize d 1000) (\<lambda>r.
       if fst r then rehash_all T dict_can_resize (snd r) else Some (snd r))"

text \<open>The result is whether the resize was performed, whether the allocation failed, and the
  dictionary. \<open>tryalloc\<close> is \<open>None\<close> when the caller wants a panic instead of a failure, and
  otherwise says which allocations succeed.\<close>

definition dictResize :: "('k, 'v) dictType \<Rightarrow> dictResizeEnable \<Rightarrow> ('k, 'v) dict \<Rightarrow> nat \<Rightarrow>
    (nat \<Rightarrow> bool) option \<Rightarrow> (bool \<times> bool \<times> ('k, 'v) dict) option" where
  "dictResize T dict_can_resize d sz tryalloc =
     (if dictIsRehashing d then None
      else
        let e = dictNextExp sz; newsize = DICTHT_SIZE e in
        if newsize < sz \<or> (newsize * 8) mod 2 ^ 64 < newsize then Some (False, False, d)
        else if e = ht_size_exp (ht0 d) then Some (False, False, d)
        else if (case tryalloc of None \<Rightarrow> False | Some ok \<Rightarrow> \<not> ok (newsize * 8))
        then Some (False, True, d)
        else
          let new_ht = \<lparr>ht_table = replicate newsize ENull, ht_used = 0, ht_size_exp = e\<rparr>;
              d1 = d\<lparr>ht1 := new_ht, rehashidx := 0\<rparr>;
              d2 = emit (rehashingStarted T) RehashingStarted d1;
              d3 = emit (bucketChanged T) (BucketChanged (int newsize)) d2 in
          if ht_table (ht0 d3) = [] \<or> ht_used (ht0 d3) = 0 then
            let d4 = emit (rehashingCompleted T) RehashingCompleted d3;
                d5 = emit (bucketChanged T)
                       (BucketChanged (- int (DICTHT_SIZE (ht_size_exp (ht0 d4))))) d4 in
            Some (True, False, d5\<lparr>ht0 := new_ht, ht1 := dictReset, rehashidx := -1\<rparr>)
          else if force_full_rehash T then
            map_option (\<lambda>d. (True, False, d)) (rehash_all T dict_can_resize d3)
          else Some (True, False, d3))"

definition dictExpand_raw :: "('k, 'v) dictType \<Rightarrow> dictResizeEnable \<Rightarrow> ('k, 'v) dict \<Rightarrow> nat \<Rightarrow>
    (nat \<Rightarrow> bool) option \<Rightarrow> (bool \<times> bool \<times> ('k, 'v) dict) option" where
  "dictExpand_raw T dict_can_resize d sz tryalloc =
     (if dictIsRehashing d \<or> ht_used (ht0 d) > sz \<or> DICTHT_SIZE (ht_size_exp (ht0 d)) \<ge> sz
      then Some (False, False, d)
      else dictResize T dict_can_resize d sz tryalloc)"

definition dictExpand :: "('k, 'v) dictType \<Rightarrow> dictResizeEnable \<Rightarrow> ('k, 'v) dict \<Rightarrow> nat \<Rightarrow>
    (bool \<times> ('k, 'v) dict) option" where
  "dictExpand T dict_can_resize d sz =
     map_option (\<lambda>(ok, failed, d). (ok, d)) (dictExpand_raw T dict_can_resize d sz None)"

definition dictTryExpand :: "('k, 'v) dictType \<Rightarrow> dictResizeEnable \<Rightarrow> (nat \<Rightarrow> bool) \<Rightarrow> ('k, 'v) dict \<Rightarrow>
    nat \<Rightarrow> (bool \<times> ('k, 'v) dict) option" where
  "dictTryExpand T dict_can_resize ztrycalloc d sz =
     map_option (\<lambda>(ok, failed, d). (\<not> failed, d))
       (dictExpand_raw T dict_can_resize d sz (Some ztrycalloc))"

definition dictShrink :: "('k, 'v) dictType \<Rightarrow> dictResizeEnable \<Rightarrow> ('k, 'v) dict \<Rightarrow> nat \<Rightarrow>
    (bool \<times> ('k, 'v) dict) option" where
  "dictShrink T dict_can_resize d sz =
     (if dictIsRehashing d \<or> ht_used (ht0 d) > sz \<or> DICTHT_SIZE (ht_size_exp (ht0 d)) \<le> sz
      then Some (False, d)
      else map_option (\<lambda>(ok, failed, d). (ok, d)) (dictResize T dict_can_resize d sz None))"

definition dictTypeResizeAllowed :: "('k, 'v) dictType \<Rightarrow> ('k, 'v) dict \<Rightarrow> nat \<Rightarrow> bool" where
  "dictTypeResizeAllowed T d sz =
     (case resizeAllowed T of
        None \<Rightarrow> True
      | Some f \<Rightarrow> f (DICTHT_SIZE (dictNextExp sz) * 8)
          (ht_used (ht0 d), DICTHT_SIZE (ht_size_exp (ht0 d))))"

definition dictExpandIfNeeded :: "('k, 'v) dictType \<Rightarrow> dictResizeEnable \<Rightarrow> ('k, 'v) dict \<Rightarrow>
    (bool \<times> ('k, 'v) dict) option" where
  "dictExpandIfNeeded T dict_can_resize d =
     (let size0 = DICTHT_SIZE (ht_size_exp (ht0 d)); used0 = ht_used (ht0 d) in
      if dictIsRehashing d then Some (True, d)
      else if size0 = 0 then
        map_option (\<lambda>(ok, d). (True, d)) (dictExpand T dict_can_resize d DICT_HT_INITIAL_SIZE)
      else if (dict_can_resize = DICT_RESIZE_ENABLE \<and> used0 \<ge> size0) \<or>
              (dict_can_resize \<noteq> DICT_RESIZE_FORBID \<and> used0 \<ge> dict_force_resize_ratio * size0) then
        (if dictTypeResizeAllowed T d (used0 + 1)
         then map_option (\<lambda>(ok, d). (True, d)) (dictExpand T dict_can_resize d (used0 + 1))
         else Some (True, d))
      else Some (False, d))"

definition dictExpandIfAutoResizeAllowed :: "('k, 'v) dictType \<Rightarrow> dictResizeEnable \<Rightarrow> ('k, 'v) dict \<Rightarrow>
    (bool \<times> ('k, 'v) dict) option" where
  "dictExpandIfAutoResizeAllowed T dict_can_resize d =
     (if pauseAutoResize d > 0 then Some (False, d) else dictExpandIfNeeded T dict_can_resize d)"

definition dictShrinkIfNeeded :: "('k, 'v) dictType \<Rightarrow> dictResizeEnable \<Rightarrow> ('k, 'v) dict \<Rightarrow>
    (bool \<times> ('k, 'v) dict) option" where
  "dictShrinkIfNeeded T dict_can_resize d =
     (let size0 = DICTHT_SIZE (ht_size_exp (ht0 d)); used0 = ht_used (ht0 d) in
      if dictIsRehashing d then Some (True, d)
      else if size0 \<le> DICT_HT_INITIAL_SIZE then Some (True, d)
      else if (dict_can_resize = DICT_RESIZE_ENABLE \<and> used0 * HASHTABLE_MIN_FILL \<le> size0) \<or>
              (dict_can_resize \<noteq> DICT_RESIZE_FORBID \<and>
               used0 * HASHTABLE_MIN_FILL * dict_force_resize_ratio \<le> size0) then
        (if dictTypeResizeAllowed T d used0
         then map_option (\<lambda>(ok, d). (True, d)) (dictShrink T dict_can_resize d used0)
         else Some (True, d))
      else Some (False, d))"

definition dictShrinkIfAutoResizeAllowed :: "('k, 'v) dictType \<Rightarrow> dictResizeEnable \<Rightarrow> ('k, 'v) dict \<Rightarrow>
    ('k, 'v) dict option" where
  "dictShrinkIfAutoResizeAllowed T dict_can_resize d =
     (if pauseAutoResize d > 0 then Some d
      else map_option snd (dictShrinkIfNeeded T dict_can_resize d))"

section \<open>Lookup\<close>

text \<open>The search of one bucket: an access out of the table is an error, except that the link into a
  null table is a null pointer, which some callers test.\<close>

definition search_bucket :: "bool \<Rightarrow> ('k, 'v) dictType \<Rightarrow> ('k, 'v) dict \<Rightarrow> 'k \<Rightarrow> nat \<Rightarrow> nat \<Rightarrow>
    nat option option" where
  "search_bucket null_ok T d key t i =
     (let tab = ht_table (get_ht d t) in
      if null_ok \<and> tab = [] \<and> i = 0 then Some None
      else if i < length tab then Some (chain_find (key_matches T d key) (tab ! i))
      else None)"

text \<open>The loop over the two tables that lookup, insertion and deletion share: the first table is
  skipped when its bucket was already moved, the second is searched only while rehashing. The
  result is the link found and the last index computed.\<close>

definition search_tables :: "bool \<Rightarrow> ('k, 'v) dictType \<Rightarrow> ('k, 'v) dict \<Rightarrow> 'k \<Rightarrow> u64 \<Rightarrow> nat \<Rightarrow>
    (link option \<times> nat) option" where
  "search_tables null_ok T d key hash idx =
     (let i0 = hash_index hash (ht_size_exp (ht0 d));
          i1 = hash_index hash (ht_size_exp (ht1 d));
          table1 = Option.bind (search_bucket null_ok T d key 1 i1) (\<lambda>r.
            Some (map_option (\<lambda>n. (1, i1, n)) r, i1)) in
      if int idx < rehashidx d then table1
      else Option.bind (search_bucket null_ok T d key 0 i0) (\<lambda>r.
        case r of
          Some n \<Rightarrow> Some (Some (0, i0, n), i0)
        | None \<Rightarrow> if dictIsRehashing d then table1 else Some (None, i0)))"

text \<open>The result is the link of the key and the bucket the key maps to; both may be null.\<close>

definition dictFindLinkInternal :: "('k, 'v) dictType \<Rightarrow> dictResizeEnable \<Rightarrow> ('k, 'v) dict \<Rightarrow> 'k \<Rightarrow>
    bool \<Rightarrow> (link option \<times> (nat \<times> nat) option \<times> ('k, 'v) dict) option" where
  "dictFindLinkInternal T dict_can_resize d key want_bucket =
     (if \<not> want_bucket \<and> dictSize d = 0 then Some (None, None, d)
      else
        let hash = dictHashKey T key (useStoredKeyApi d);
            idx = hash_index hash (ht_size_exp (ht0 d)) in
        Option.bind (dictRehashStepIfNeeded T dict_can_resize d idx) (\<lambda>d.
          Option.bind (search_tables True T d key hash idx) (\<lambda>(l, i).
            let t = (case l of Some (t, _) \<Rightarrow> t | None \<Rightarrow> if dictIsRehashing d then 1 else 0);
                bucket = (if want_bucket \<and> ht_table (get_ht d t) \<noteq> [] then Some (t, i) else None) in
            Some (l, bucket, d))))"

definition dictFindLink :: "('k, 'v) dictType \<Rightarrow> dictResizeEnable \<Rightarrow> ('k, 'v) dict \<Rightarrow> 'k \<Rightarrow>
    bool \<Rightarrow> (link option \<times> (nat \<times> nat) option \<times> ('k, 'v) dict) option" where
  "dictFindLink T dict_can_resize d key want_bucket =
     (if dictSize d = 0 then Some (None, None, d)
      else dictFindLinkInternal T dict_can_resize d key want_bucket)"

definition dictFind :: "('k, 'v) dictType \<Rightarrow> dictResizeEnable \<Rightarrow> ('k, 'v) dict \<Rightarrow> 'k \<Rightarrow>
    (('k, 'v) dictEntry \<times> ('k, 'v) dict) option" where
  "dictFind T dict_can_resize d key =
     Option.bind (dictFindLink T dict_can_resize d key False) (\<lambda>(l, _, d).
       case l of
         None \<Rightarrow> Some (ENull, d)
       | Some l \<Rightarrow> Option.bind (link_get d l) (\<lambda>de. Some (de, d)))"

text \<open>The result is \<open>None\<close> inside for the null pointer.\<close>

definition dictFetchValue :: "('k, 'v) dictType \<Rightarrow> dictResizeEnable \<Rightarrow> ('k, 'v) dict \<Rightarrow> 'k \<Rightarrow>
    ('v option option \<times> ('k, 'v) dict) option" where
  "dictFetchValue T dict_can_resize d key =
     Option.bind (dictFind T dict_can_resize d key) (\<lambda>(he, d).
       if he = ENull then Some (None, d)
       else Option.bind (dictGetVal he) (\<lambda>v. Some (Some v, d)))"

section \<open>Insertion\<close>

text \<open>\<open>Inl\<close> is the link of an entry that has the key already, \<open>Inr\<close> the bucket to insert at.\<close>

definition dictFindLinkForInsert :: "('k, 'v) dictType \<Rightarrow> dictResizeEnable \<Rightarrow> ('k, 'v) dict \<Rightarrow> 'k \<Rightarrow>
    ((link + nat \<times> nat) \<times> ('k, 'v) dict) option" where
  "dictFindLinkForInsert T dict_can_resize d key =
     (let hash = dictHashKey T key (useStoredKeyApi d);
          idx = hash_index hash (ht_size_exp (ht0 d)) in
      Option.bind (dictRehashStepIfNeeded T dict_can_resize d idx) (\<lambda>d.
        Option.bind (dictExpandIfAutoResizeAllowed T dict_can_resize d) (\<lambda>(_, d).
          Option.bind (search_tables False T d key hash idx) (\<lambda>(l, i).
            case l of
              Some l \<Rightarrow> Some (Inl l, d)
            | None \<Rightarrow> Some (Inr (if dictIsRehashing d then 1 else 0, i), d)))))"

definition dictInsertKeyAtLink :: "('k, 'v) dictType \<Rightarrow> ('k, 'v) dict \<Rightarrow> 'k \<Rightarrow> nat \<times> nat \<Rightarrow>
    (link \<times> ('k, 'v) dict) option" where
  "dictInsertKeyAtLink T d key bucket =
     (case bucket of (t, i) \<Rightarrow>
        let htidx = (if dictIsRehashing d then 1 else 0); ht = get_ht d htidx in
        if t \<noteq> htidx \<or> i > DICTHT_SIZE_MASK (ht_size_exp ht) \<or> i \<ge> length (ht_table ht) then None
        else
          let old = ht_table ht ! i;
              entry = (if no_value T
                       then (if old = ENull then EKey key else ENoValue key old)
                       else ENormal key None old) in
          Some ((t, i, 0), set_ht d htidx
            (ht\<lparr>ht_table := (ht_table ht)[i := entry], ht_used := ht_used ht + 1\<rparr>)))"

definition dup_key :: "('k, 'v) dictType \<Rightarrow> 'k \<Rightarrow> 'k" where
  "dup_key T key = (case keyDup T of None \<Rightarrow> key | Some dup \<Rightarrow> dup key)"

text \<open>\<open>Inl\<close> is the existing entry, \<open>Inr\<close> the new one.\<close>

definition dictAddRaw :: "('k, 'v) dictType \<Rightarrow> dictResizeEnable \<Rightarrow> ('k, 'v) dict \<Rightarrow> 'k \<Rightarrow>
    ((link + link) \<times> ('k, 'v) dict) option" where
  "dictAddRaw T dict_can_resize d key =
     Option.bind (dictFindLinkForInsert T dict_can_resize d key) (\<lambda>(r, d).
       case r of
         Inl existing \<Rightarrow> Some (Inl existing, d)
       | Inr position \<Rightarrow>
           Option.bind (dictInsertKeyAtLink T d (dup_key T key) position) (\<lambda>(l, d).
             Some (Inr l, d)))"

definition dictSetVal :: "('k, 'v) dictType \<Rightarrow> ('k, 'v) dict \<Rightarrow> link \<Rightarrow> 'v \<Rightarrow> ('k, 'v) dict option" where
  "dictSetVal T d l val =
     link_update d l (\<lambda>de. case de of
         ENormal k v n \<Rightarrow> Some (ENormal k (Some (case valDup T of None \<Rightarrow> val | Some dup \<Rightarrow> dup val)) n)
       | _ \<Rightarrow> None)"

definition dictAdd :: "('k, 'v) dictType \<Rightarrow> dictResizeEnable \<Rightarrow> ('k, 'v) dict \<Rightarrow> 'k \<Rightarrow> 'v \<Rightarrow>
    (bool \<times> ('k, 'v) dict) option" where
  "dictAdd T dict_can_resize d key val =
     Option.bind (dictAddRaw T dict_can_resize d key) (\<lambda>(r, d).
       case r of
         Inl existing \<Rightarrow> Some (False, d)
       | Inr entry \<Rightarrow>
           if \<not> no_value T then map_option (\<lambda>d. (True, d)) (dictSetVal T d entry val)
           else Some (True, d))"

definition dictReplace :: "('k, 'v) dictType \<Rightarrow> dictResizeEnable \<Rightarrow> ('k, 'v) dict \<Rightarrow> 'k \<Rightarrow> 'v \<Rightarrow>
    (bool \<times> ('k, 'v) dict) option" where
  "dictReplace T dict_can_resize d key val =
     Option.bind (dictAddRaw T dict_can_resize d key) (\<lambda>(r, d).
       case r of
         Inr entry \<Rightarrow> map_option (\<lambda>d. (True, d)) (dictSetVal T d entry val)
       | Inl existing \<Rightarrow>
           Option.bind (link_get d existing) (\<lambda>de.
             Option.bind (dictGetVal de) (\<lambda>oldval.
               Option.bind (dictSetVal T d existing val) (\<lambda>d.
                 Some (False, emit (valDestructor T) (ValDestructor oldval) d)))))"

definition dictAddOrFind :: "('k, 'v) dictType \<Rightarrow> dictResizeEnable \<Rightarrow> ('k, 'v) dict \<Rightarrow> 'k \<Rightarrow>
    (link \<times> ('k, 'v) dict) option" where
  "dictAddOrFind T dict_can_resize d key =
     Option.bind (dictAddRaw T dict_can_resize d key) (\<lambda>(r, d).
       Some (case r of Inl existing \<Rightarrow> existing | Inr entry \<Rightarrow> entry, d))"

section \<open>Deletion\<close>

text \<open>The destructor calls for one entry.\<close>

definition free_entry :: "('k, 'v) dictType \<Rightarrow> ('k, 'v) dictEntry \<Rightarrow> ('k, 'v) dictEvent list option" where
  "free_entry T he =
     (case dictGetKey he of None \<Rightarrow> None | Some key \<Rightarrow>
        let free_key = (if keyDestructor T then [KeyDestructor key] else []) in
        if valDestructor T
        then (case dictGetVal he of None \<Rightarrow> None | Some v \<Rightarrow> Some (free_key @ [ValDestructor v]))
        else Some free_key)"

definition dictFreeUnlinkedEntry :: "('k, 'v) dictType \<Rightarrow> ('k, 'v) dict \<Rightarrow> ('k, 'v) dictEntry \<Rightarrow>
    ('k, 'v) dict option" where
  "dictFreeUnlinkedEntry T d he =
     (if he = ENull then Some d
      else Option.bind (free_entry T he) (\<lambda>ev. Some (d\<lparr>trace := trace d @ ev\<rparr>)))"

definition dec_used :: "('k, 'v) dict \<Rightarrow> nat \<Rightarrow> ('k, 'v) dict" where
  "dec_used d t = set_ht d t ((get_ht d t)\<lparr>ht_used := ht_used (get_ht d t) - 1\<rparr>)"

text \<open>The result is the unlinked entry, or null.\<close>

definition dictGenericDelete :: "('k, 'v) dictType \<Rightarrow> dictResizeEnable \<Rightarrow> ('k, 'v) dict \<Rightarrow> 'k \<Rightarrow> bool \<Rightarrow>
    (('k, 'v) dictEntry \<times> ('k, 'v) dict) option" where
  "dictGenericDelete T dict_can_resize d key nofree =
     (if dictSize d = 0 then Some (ENull, d)
      else
        let h = dictHashKey T key (useStoredKeyApi d);
            idx = hash_index h (ht_size_exp (ht0 d)) in
        Option.bind (dictRehashStepIfNeeded T dict_can_resize d idx) (\<lambda>d.
          Option.bind (search_tables False T d key h idx) (\<lambda>(l, _).
            case l of
              None \<Rightarrow> Some (ENull, d)
            | Some (t, i, n) \<Rightarrow>
                Option.bind (link_get d (t, i, n)) (\<lambda>he.
                  Option.bind (link_update d (t, i, n) (\<lambda>he. Some (dictGetNext he))) (\<lambda>d.
                    Option.bind (if nofree then Some d else dictFreeUnlinkedEntry T d he) (\<lambda>d.
                      Option.bind (dictShrinkIfAutoResizeAllowed T dict_can_resize (dec_used d t)) (\<lambda>d.
                        Some (he, d))))))))"

definition dictDelete :: "('k, 'v) dictType \<Rightarrow> dictResizeEnable \<Rightarrow> ('k, 'v) dict \<Rightarrow> 'k \<Rightarrow>
    (bool \<times> ('k, 'v) dict) option" where
  "dictDelete T dict_can_resize d key =
     map_option (\<lambda>(he, d). (he \<noteq> ENull, d)) (dictGenericDelete T dict_can_resize d key False)"

definition dictUnlink :: "('k, 'v) dictType \<Rightarrow> dictResizeEnable \<Rightarrow> ('k, 'v) dict \<Rightarrow> 'k \<Rightarrow>
    (('k, 'v) dictEntry \<times> ('k, 'v) dict) option" where
  "dictUnlink T dict_can_resize d key = dictGenericDelete T dict_can_resize d key True"

definition dictTwoPhaseUnlinkFind :: "('k, 'v) dictType \<Rightarrow> dictResizeEnable \<Rightarrow> ('k, 'v) dict \<Rightarrow> 'k \<Rightarrow>
    (link option \<times> ('k, 'v) dict) option" where
  "dictTwoPhaseUnlinkFind T dict_can_resize d key =
     (if dictSize d = 0 then Some (None, d)
      else
        Option.bind (if dictIsRehashing d then dictRehashStep T dict_can_resize d else Some d) (\<lambda>d.
          let h = dictHashKey T key (useStoredKeyApi d) in
          Option.bind (search_tables False T d key h (hash_index h (ht_size_exp (ht0 d)))) (\<lambda>(l, _).
            case l of
              None \<Rightarrow> Some (None, d)
            | Some l \<Rightarrow> Some (Some l, dictPauseRehashing d))))"

definition dictTwoPhaseUnlinkFree :: "('k, 'v) dictType \<Rightarrow> dictResizeEnable \<Rightarrow> ('k, 'v) dict \<Rightarrow>
    link option \<Rightarrow> ('k, 'v) dict option" where
  "dictTwoPhaseUnlinkFree T dict_can_resize d plink =
     (case plink of None \<Rightarrow> Some d | Some (t, i, n) \<Rightarrow>
        Option.bind (link_get d (t, i, n)) (\<lambda>de.
          if de = ENull then Some d
          else
            Option.bind (link_update (dec_used d t) (t, i, n) (\<lambda>de. Some (dictGetNext de))) (\<lambda>d.
              Option.bind (dictFreeUnlinkedEntry T d de) (\<lambda>d.
                Option.bind (dictShrinkIfAutoResizeAllowed T dict_can_resize d) (\<lambda>d.
                  Some (dictResumeRehashing d))))))"

section \<open>Replacing a key through a link\<close>

text \<open>The tag bits of a pointer to an entry. The pointer to the new key is an argument of the operation, because
  \<^verbatim>\<open>encodeMaskedPtr\<close> asserts that its low bits are clear.\<close>

abbreviation (input) ENTRY_PTR_MASK :: u64 where "ENTRY_PTR_MASK \<equiv> 7"
abbreviation (input) ENTRY_PTR_IS_ODD_KEY :: u64 where "ENTRY_PTR_IS_ODD_KEY \<equiv> 1"
abbreviation (input) ENTRY_PTR_IS_EVEN_KEY :: u64 where "ENTRY_PTR_IS_EVEN_KEY \<equiv> 2"

definition encodeMaskedPtr :: "u64 \<Rightarrow> u64 \<Rightarrow> u64 option" where
  "encodeMaskedPtr ptr bits = (if ptr AND ENTRY_PTR_MASK = 0 then Some (ptr OR bits) else None)"

definition decodeMaskedPtr :: "u64 \<Rightarrow> u64" where
  "decodeMaskedPtr de = de AND NOT ENTRY_PTR_MASK"

text \<open>The key that a tagged pointer stands for: an odd pointer is the key itself.\<close>

definition masked_key :: "u64 \<Rightarrow> u64" where
  "masked_key de = (if de AND ENTRY_PTR_IS_ODD_KEY \<noteq> 0 then de else decodeMaskedPtr de)"

text \<open>A key stored in place of an entry is replaced by a pointer with the flags of the old one. Of the flags of an odd key
  only the lowest is known. A pointer that does not stand for the new key is invalid.\<close>

fun set_entry_key :: "('k, 'v) dictType \<Rightarrow> 'k \<Rightarrow> u64 \<Rightarrow> ('k, 'v) dictEntry \<Rightarrow> ('k, 'v) dictEntry option" where
  "set_entry_key T key ptr ENull = None"
| "set_entry_key T key ptr (EKey k) =
     Option.bind (encodeMaskedPtr ptr (if keys_are_odd T then ENTRY_PTR_IS_ODD_KEY else ENTRY_PTR_IS_EVEN_KEY)) (\<lambda>de.
       if masked_key de = ptr then Some (EKey key) else None)"
| "set_entry_key T key ptr (ENoValue k n) = Some (ENoValue key n)"
| "set_entry_key T key ptr (ENormal k v n) = Some (ENormal key v n)"

text \<open>\<open>ptr\<close> is the address of the key to store, after \<^verbatim>\<open>keyDup\<close>.\<close>

definition dictSetKeyAtLink :: "('k, 'v) dictType \<Rightarrow> dictResizeEnable \<Rightarrow> ('k, 'v) dict \<Rightarrow> 'k \<Rightarrow> u64 \<Rightarrow>
    link option \<Rightarrow> bool \<Rightarrow> (link \<times> ('k, 'v) dict) option" where
  "dictSetKeyAtLink T dict_can_resize d key ptr l newItem =
     (let addedKey = dup_key T key in
      if newItem then
        Option.bind (dictExpandIfNeeded T dict_can_resize d) (\<lambda>(_, d1).
          Option.bind
            (if ht_size_exp (ht0 d) \<noteq> ht_size_exp (ht0 d1) \<or> ht_size_exp (ht1 d) \<noteq> ht_size_exp (ht1 d1)
                \<or> l = None then
               Option.bind (dictFindLinkInternal T dict_can_resize (d1\<lparr>useStoredKeyApi := True\<rparr>) key True)
                 (\<lambda>(l1, bucket, d2).
                   case bucket of
                     None \<Rightarrow> None
                   | Some b \<Rightarrow> if l1 \<noteq> None then None else Some (b, d2\<lparr>useStoredKeyApi := False\<rparr>))
             else (case l of None \<Rightarrow> None | Some (t, i, n) \<Rightarrow> if n = 0 then Some ((t, i), d1) else None))
            (\<lambda>(b, d3). dictInsertKeyAtLink T d3 addedKey b))
      else
        Option.bind
          (case l of
             Some l \<Rightarrow> Some (l, d)
           | None \<Rightarrow>
               Option.bind (dictFindLink T dict_can_resize d key False) (\<lambda>(l1, _, d1).
                 case l1 of None \<Rightarrow> None | Some l1 \<Rightarrow> Some (l1, d1)))
          (\<lambda>(l, d). Option.bind (link_update d l (set_entry_key T addedKey ptr)) (\<lambda>d. Some (l, d))))"

section \<open>Clearing\<close>

fun free_chain :: "('k, 'v) dictType \<Rightarrow> ('k, 'v) dictEntry \<Rightarrow> ('k, 'v) dictEvent list option" where
  "free_chain T ENull = Some []"
| "free_chain T (EKey k) = free_entry T (EKey k)"
| "free_chain T (ENoValue k n) =
     Option.bind (free_entry T (ENoValue k n)) (\<lambda>ev. map_option ((@) ev) (free_chain T n))"
| "free_chain T (ENormal k v n) =
     Option.bind (free_entry T (ENormal k v n)) (\<lambda>ev. map_option ((@) ev) (free_chain T n))"

text \<open>The loop over the buckets from index \<open>i\<close> with \<open>used\<close> entries left. The flag says whether a
  callback was given.\<close>

fun dictClear_loop :: "('k, 'v) dictType \<Rightarrow> bool \<Rightarrow> nat \<Rightarrow> nat \<Rightarrow> ('k, 'v) dictEntry list \<Rightarrow>
    ('k, 'v) dictEvent list option" where
  "dictClear_loop T callback i used [] = Some []"
| "dictClear_loop T callback i used (he # hes) =
     (if used = 0 then Some []
      else
        let ev = (if callback \<and> i \<noteq> 0 \<and> i mod 65536 = 0 then [ClearCallback] else []) in
        Option.bind (free_chain T he) (\<lambda>ev1.
          Option.bind (dictClear_loop T callback (i + 1) (used - length (chain he)) hes) (\<lambda>ev2.
            Some (ev @ ev1 @ ev2))))"

definition dictClear :: "('k, 'v) dictType \<Rightarrow> ('k, 'v) dict \<Rightarrow> nat \<Rightarrow> bool \<Rightarrow> ('k, 'v) dict option" where
  "dictClear T d htidx callback =
     (let ht = get_ht d htidx in
      if length (ht_table ht) < DICTHT_SIZE (ht_size_exp ht) then None
      else Option.bind (dictClear_loop T callback 0 (ht_used ht)
          (take (DICTHT_SIZE (ht_size_exp ht)) (ht_table ht))) (\<lambda>ev.
        Some (set_ht (d\<lparr>trace := trace d @ ev\<rparr>) htidx dictReset)))"

definition dictRelease :: "('k, 'v) dictType \<Rightarrow> ('k, 'v) dict \<Rightarrow> ('k, 'v) dictEvent list option" where
  "dictRelease T d =
     (let d1 = emit (dictIsRehashing d \<and> rehashingCompleted T) RehashingCompleted d;
          d2 = emit (bucketChanged T) (BucketChanged (- int (dictBuckets d1))) d1;
          d3 = emit (onDictRelease T) OnDictRelease d2 in
      Option.bind (dictClear T d3 0 False) (\<lambda>d4.
        map_option trace (dictClear T d4 1 False)))"

definition dictEmpty :: "('k, 'v) dictType \<Rightarrow> ('k, 'v) dict \<Rightarrow> bool \<Rightarrow> ('k, 'v) dict option" where
  "dictEmpty T d callback =
     (let d1 = emit (dictIsRehashing d \<and> rehashingCompleted T) RehashingCompleted d;
          d2 = emit (bucketChanged T) (BucketChanged (- int (dictBuckets d1))) d1 in
      Option.bind (dictClear T d2 0 callback) (\<lambda>d3.
        Option.bind (dictClear T d3 1 callback) (\<lambda>d4.
          Some (d4\<lparr>rehashidx := -1, pauserehash := 0, pauseAutoResize := 0\<rparr>))))"

end
