(* ===== verification/Dict_Correct.thy ===== *)
theory Dict_Correct
  imports Dict "HOL-Library.Multiset"
begin

text \<open>
  Correctness of the hash table of \<^verbatim>\<open>dict.c\<close>. The invariant \<open>dict_wf\<close> says that the tables, their
  sizes and counters agree, that each entry is in the bucket of its hash, that keys are pairwise
  different, and that the buckets below the rehashing index are empty. Every operation keeps it, and
  the dictionary behaves as a finite map whatever rehashing step, expansion or shrinking happens
  inside the operation.
\<close>

section \<open>Invariant and abstraction\<close>

fun chain_shape :: "bool \<Rightarrow> ('k, 'v) dictEntry \<Rightarrow> bool" where
  "chain_shape nv ENull = True"
| "chain_shape nv (EKey k) = nv"
| "chain_shape nv (ENoValue k n) = (nv \<and> chain_shape nv n)"
| "chain_shape nv (ENormal k v n) = (\<not> nv \<and> chain_shape nv n)"

definition bucket_ok :: "('k, 'v) dictType \<Rightarrow> int \<Rightarrow> nat \<Rightarrow> ('k, 'v) dictEntry \<Rightarrow> bool" where
  "bucket_ok T e i c \<longleftrightarrow> chain_shape (no_value T) c \<and>
     (\<forall>kv\<in>set (chain c). hash_index (dictHashKey T (fst kv) True) e = i)"

definition ht_entries :: "('k, 'v) dictht \<Rightarrow> ('k \<times> 'v option) list" where
  "ht_entries h = concat (map chain (ht_table h))"

definition ht_wf :: "('k, 'v) dictType \<Rightarrow> ('k, 'v) dictht \<Rightarrow> bool" where
  "ht_wf T h \<longleftrightarrow> -1 \<le> ht_size_exp h \<and> ht_size_exp h \<le> 60 \<and>
     length (ht_table h) = DICTHT_SIZE (ht_size_exp h) \<and> ht_used h = length (ht_entries h) \<and>
     (\<forall>i<length (ht_table h). bucket_ok T (ht_size_exp h) i (ht_table h ! i))"

definition dict_entries :: "('k, 'v) dict \<Rightarrow> ('k \<times> 'v option) list" where
  "dict_entries d = ht_entries (ht0 d) @ ht_entries (ht1 d)"

text \<open>The structural part of the invariant, and the invariant with distinct keys. Keys are compared
  through \<open>norm\<close>, which maps the keys that compare equal to one value.\<close>

definition dict_inv :: "('k, 'v) dictType \<Rightarrow> ('k, 'v) dict \<Rightarrow> bool" where
  "dict_inv T d \<longleftrightarrow> ht_wf T (ht0 d) \<and> ht_wf T (ht1 d) \<and>
     (if dictIsRehashing d
      then 0 \<le> ht_size_exp (ht0 d) \<and> 0 \<le> ht_size_exp (ht1 d) \<and> 0 \<le> rehashidx d \<and>
        nat (rehashidx d) \<le> length (ht_table (ht0 d)) \<and>
        (\<forall>i<nat (rehashidx d). ht_table (ht0 d) ! i = ENull)
      else ht1 d = dictReset)"

definition dict_wf :: "('k, 'v) dictType \<Rightarrow> ('k \<Rightarrow> 'c) \<Rightarrow> ('k, 'v) dict \<Rightarrow> bool" where
  "dict_wf T norm d \<longleftrightarrow> dict_inv T d \<and> distinct (map (norm \<circ> fst) (dict_entries d))"

text \<open>What the table relies on in its type: keys match exactly when their normal forms are equal,
  such keys have the same hash, duplicating a key keeps its normal form, and only a dictionary with
  values has a destructor of values.\<close>

definition dictType_ok :: "('k, 'v) dictType \<Rightarrow> ('k \<Rightarrow> 'c) \<Rightarrow> bool" where
  "dictType_ok T norm \<longleftrightarrow>
     (\<forall>d :: ('k, 'v) dict. \<forall>a b. key_matches T d a b \<longleftrightarrow> norm a = norm b) \<and>
     (\<forall>a b f g. norm a = norm b \<longrightarrow> dictHashKey T a f = dictHashKey T b g) \<and>
     (\<forall>a. norm (dup_key T a) = norm a) \<and> (valDestructor T \<longrightarrow> \<not> no_value T)"

text \<open>A step inside an operation: it keeps the entries and the settings.\<close>

definition dict_step :: "('k, 'v) dict \<Rightarrow> ('k, 'v) dict \<Rightarrow> bool" where
  "dict_step d d' \<longleftrightarrow> mset (dict_entries d') = mset (dict_entries d) \<and>
     useStoredKeyApi d' = useStoredKeyApi d \<and> pauserehash d' = pauserehash d \<and>
     pauseAutoResize d' = pauseAutoResize d"

lemma dict_step_refl [simp]: "dict_step d d"
  by (simp add: dict_step_def)

lemma dict_step_trans: "dict_step d d' \<Longrightarrow> dict_step d' d'' \<Longrightarrow> dict_step d d''"
  by (simp add: dict_step_def)

lemma dict_wf_step: "dict_wf T norm d \<Longrightarrow> dict_step d d' \<Longrightarrow> dict_inv T d' \<Longrightarrow> dict_wf T norm d'"
  unfolding dict_wf_def dict_step_def
  by (metis mset_eq_imp_distinct_iff mset_map)

section \<open>Bucket indexes\<close>

lemma hash_index_null [simp]: "hash_index h (-1) = 0"
  by (simp add: hash_index_def DICTHT_SIZE_MASK_def)

lemma hash_index_mod:
  assumes "0 \<le> e" and "e \<le> 60"
  shows "hash_index h e = unat h mod 2 ^ nat e"
proof -
  have "(word_of_nat (DICTHT_SIZE_MASK e) :: u64) = mask (nat e)"
    using assms(1) by (simp add: DICTHT_SIZE_MASK_def DICTHT_SIZE_def mask_eq_exp_minus_1 of_nat_diff)
  then have "hash_index h e = unat (take_bit (nat e) h)"
    by (simp add: hash_index_def take_bit_eq_mask)
  also have "\<dots> = take_bit (nat e) (unat h)"
    by (rule unsigned_take_bit_eq)
  finally show ?thesis by (simp add: take_bit_eq_mod)
qed

lemma hash_index_less:
  assumes "0 \<le> e" and "e \<le> 60"
  shows "hash_index h e < DICTHT_SIZE e"
  using assms by (simp add: hash_index_mod DICTHT_SIZE_def)

lemma hash_index_shrink:
  assumes "0 \<le> e1" and "e1 \<le> e0" and "e0 \<le> 60"
  shows "hash_index (word_of_nat (hash_index h e0)) e1 = hash_index h e1"
proof -
  have "unat h mod 2 ^ nat e0 < 2 ^ 64"
  proof -
    have "unat h < 2 ^ LENGTH(64)" by (rule unsigned_less)
    then have "unat h mod 2 ^ nat e0 < 2 ^ LENGTH(64)"
      by (meson le_less_trans mod_less_eq_dividend)
    then show ?thesis by simp
  qed
  moreover have "(2::nat) ^ nat e1 dvd 2 ^ nat e0"
    using assms by (intro le_imp_power_dvd) simp
  ultimately show ?thesis
    using assms by (simp add: hash_index_mod unat_of_nat mod_mod_cancel)
qed

section \<open>Chains and tables\<close>

lemma chain_Nil_iff [simp]: "chain de = [] \<longleftrightarrow> de = ENull"
  by (cases de) auto

lemma chain_not_null: "de \<noteq> ENull \<Longrightarrow> \<exists>k v. dictGetKey de = Some k \<and> chain de = (k, v) # chain (dictGetNext de)"
  by (cases de) auto

lemma chain_shape_next: "chain_shape nv de \<Longrightarrow> chain_shape nv (dictGetNext de)"
  by (cases de) auto

lemma bucket_ok_null [simp]: "bucket_ok T e i ENull"
  by (simp add: bucket_ok_def)

lemma mset_concat_update:
  "i < length tab \<Longrightarrow>
   mset (concat (map f (tab[i := c]))) + mset (f (tab ! i)) = mset (concat (map f tab)) + mset (f c)"
proof (induction tab arbitrary: i)
  case (Cons x tab)
  then show ?case by (cases i) (auto simp: ac_simps)
qed simp

lemma length_concat_update:
  "i < length tab \<Longrightarrow>
   length (concat (map f (tab[i := c]))) + length (f (tab ! i)) = length (concat (map f tab)) + length (f c)"
  using mset_concat_update [of i tab f c] by (metis size_mset size_union)

lemma ht_wf_update:
  assumes wf: "ht_wf T h" and i: "i < length (ht_table h)" and c: "bucket_ok T (ht_size_exp h) i c"
    and n: "n + length (chain (ht_table h ! i)) = ht_used h + length (chain c)"
  shows "ht_wf T (h\<lparr>ht_table := (ht_table h)[i := c], ht_used := n\<rparr>)"
  using assms length_concat_update [of i "ht_table h" chain c]
  by (auto simp: ht_wf_def ht_entries_def nth_list_update)

lemma ht_wf_reset [simp]: "ht_wf T dictReset"
  by (simp add: ht_wf_def dictReset_def ht_entries_def DICTHT_SIZE_def)

lemma ht_wf_bucket: "ht_wf T h \<Longrightarrow> i < length (ht_table h) \<Longrightarrow> bucket_ok T (ht_size_exp h) i (ht_table h ! i)"
  by (simp add: ht_wf_def)

lemma ht_wf_index: "ht_wf T h \<Longrightarrow> 0 \<le> ht_size_exp h \<Longrightarrow> hash_index x (ht_size_exp h) < length (ht_table h)"
  by (simp add: ht_wf_def hash_index_less)


section \<open>Rehashing\<close>

text \<open>Moving one entry keeps the second table well formed and adds the entry to it.\<close>

lemma rehash_entry_ok:
  assumes h1: "ht_wf T (ht1 d)" and e: "0 \<le> ht_size_exp (ht1 d)" "0 \<le> ht_size_exp (ht0 d)"
      "ht_size_exp (ht0 d) \<le> 60"
    and de: "de \<noteq> ENull" "bucket_ok T (ht_size_exp (ht0 d)) idx de"
  shows "\<exists>h1. rehash_entry T idx de d =
        Some (d\<lparr>ht0 := (ht0 d)\<lparr>ht_used := ht_used (ht0 d) - 1\<rparr>, ht1 := h1\<rparr>) \<and>
      ht_wf T h1 \<and> ht_size_exp h1 = ht_size_exp (ht1 d) \<and>
      mset (ht_entries h1) = add_mset (hd (chain de)) (mset (ht_entries (ht1 d)))"
proof -
  let ?e0 = "ht_size_exp (ht0 d)" and ?e1 = "ht_size_exp (ht1 d)"
  obtain k v where k: "dictGetKey de = Some k" "chain de = (k, v) # chain (dictGetNext de)"
    using chain_not_null [OF de(1)] by blast
  define h where "h = hash_index (dictHashKey T k True) ?e1"
  have idx: "hash_index (dictHashKey T k True) ?e0 = idx"
    using de(2) k(2) by (simp add: bucket_ok_def)
  have h_eq: "(if ?e1 > ?e0 then hash_index (dictHashKey T k True) ?e1
      else hash_index (word_of_nat idx) ?e1) = h"
    using hash_index_shrink [of ?e1 ?e0] e idx by (auto simp: h_def)
  have h: "h < length (ht_table (ht1 d))" unfolding h_def using h1 e(1) by (rule ht_wf_index)
  define old where "old = ht_table (ht1 d) ! h"
  have old: "bucket_ok T ?e1 h old" unfolding old_def using h1 h by (rule ht_wf_bucket)
  obtain de' where de': "(if no_value T then if old = ENull then Some (EKey k)
        else if entryIsKey de then Some (ENoValue k old)
        else if entryIsNoValue de then dictSetNext de old else None
      else dictSetNext de old) = Some de'" "chain de' = (k, v) # chain old"
      "chain_shape (no_value T) de'"
    using de k old by (cases de; cases "old = ENull") (auto simp: bucket_ok_def)
  let ?h1 = "(ht1 d)\<lparr>ht_table := (ht_table (ht1 d))[h := de'], ht_used := ht_used (ht1 d) + 1\<rparr>"
  have "bucket_ok T ?e1 h de'"
    using de'(2,3) old by (auto simp: bucket_ok_def h_def)
  then have "ht_wf T ?h1"
    using ht_wf_update [OF h1 h] de'(2) by (simp add: old_def)
  moreover have "mset (ht_entries ?h1) = add_mset (k, v) (mset (ht_entries (ht1 d)))"
    using mset_concat_update [OF h, of chain de'] de'(2) by (simp add: ht_entries_def old_def)
  moreover have "rehash_entry T idx de d =
      Some (d\<lparr>ht0 := (ht0 d)\<lparr>ht_used := ht_used (ht0 d) - 1\<rparr>, ht1 := ?h1\<rparr>)"
    unfolding rehash_entry_def k(1) option.case Let_def h_eq old_def [symmetric] de'(1)
    using h by simp
  ultimately show ?thesis using k(2) by (intro exI [of _ ?h1]) simp
qed

lemma bucket_ok_next: "bucket_ok T e i de \<Longrightarrow> bucket_ok T e i (dictGetNext de)"
  by (cases de) (auto simp: bucket_ok_def)

lemma rehash_chain_ok:
  assumes "ht_wf T (ht1 d)" and "0 \<le> ht_size_exp (ht1 d)" "0 \<le> ht_size_exp (ht0 d)"
      "ht_size_exp (ht0 d) \<le> 60" and "bucket_ok T (ht_size_exp (ht0 d)) idx de"
  shows "\<exists>h1. rehash_chain T idx de d =
        Some (d\<lparr>ht0 := (ht0 d)\<lparr>ht_used := ht_used (ht0 d) - length (chain de)\<rparr>, ht1 := h1\<rparr>) \<and>
      ht_wf T h1 \<and> ht_size_exp h1 = ht_size_exp (ht1 d) \<and>
      mset (ht_entries h1) = mset (chain de) + mset (ht_entries (ht1 d))"
  using assms
proof (induction T idx de d rule: rehash_chain.induct)
  case (1 T idx de d)
  show ?case
  proof (cases "de = ENull")
    case True
    then show ?thesis
      using "1.prems" by (subst rehash_chain.simps) (auto intro!: exI [of _ "ht1 d"])
  next
    case False
    obtain k v where k: "chain de = (k, v) # chain (dictGetNext de)"
      using chain_not_null [OF False] by blast
    obtain h1 where h1: "rehash_entry T idx de d =
        Some (d\<lparr>ht0 := (ht0 d)\<lparr>ht_used := ht_used (ht0 d) - 1\<rparr>, ht1 := h1\<rparr>)"
      "ht_wf T h1" "ht_size_exp h1 = ht_size_exp (ht1 d)"
      "mset (ht_entries h1) = add_mset (hd (chain de)) (mset (ht_entries (ht1 d)))"
      using rehash_entry_ok [OF "1.prems"(1-4) False "1.prems"(5)] by blast
    let ?d1 = "d\<lparr>ht0 := (ht0 d)\<lparr>ht_used := ht_used (ht0 d) - 1\<rparr>, ht1 := h1\<rparr>"
    obtain h2 where h2: "rehash_chain T idx (dictGetNext de) ?d1 =
        Some (?d1\<lparr>ht0 := (ht0 ?d1)\<lparr>ht_used := ht_used (ht0 ?d1) - length (chain (dictGetNext de))\<rparr>,
          ht1 := h2\<rparr>)"
      "ht_wf T h2" "ht_size_exp h2 = ht_size_exp (ht1 ?d1)"
      "mset (ht_entries h2) = mset (chain (dictGetNext de)) + mset (ht_entries (ht1 ?d1))"
      using "1.IH" [OF False, of ?d1] h1 "1.prems" bucket_ok_next by force
    show ?thesis
      using h1 h2 False k by (subst rehash_chain.simps) (auto intro!: exI [of _ h2])
  qed
qed

text \<open>Moving a bucket keeps the entries of the two tables together.\<close>

lemma rehashEntries_ok:
  assumes inv: "ht_wf T (ht0 d)" "ht_wf T (ht1 d)" "0 \<le> ht_size_exp (ht1 d)" "0 \<le> ht_size_exp (ht0 d)"
    and idx: "idx < length (ht_table (ht0 d))"
  shows "\<exists>n h1. rehashEntriesInBucketAtIndex T d idx =
        Some (d\<lparr>ht0 := (ht0 d)\<lparr>ht_table := (ht_table (ht0 d))[idx := ENull], ht_used := n\<rparr>, ht1 := h1\<rparr>) \<and>
      ht_wf T ((ht0 d)\<lparr>ht_table := (ht_table (ht0 d))[idx := ENull], ht_used := n\<rparr>) \<and>
      ht_wf T h1 \<and> ht_size_exp h1 = ht_size_exp (ht1 d) \<and>
      mset (concat (map chain ((ht_table (ht0 d))[idx := ENull]))) + mset (ht_entries h1) =
        mset (dict_entries d)"
proof -
  let ?c = "ht_table (ht0 d) ! idx" and ?n = "ht_used (ht0 d) - length (chain (ht_table (ht0 d) ! idx))"
  have c: "bucket_ok T (ht_size_exp (ht0 d)) idx ?c" using inv(1) idx by (rule ht_wf_bucket)
  obtain h1 where h1: "rehash_chain T idx ?c d =
      Some (d\<lparr>ht0 := (ht0 d)\<lparr>ht_used := ?n\<rparr>, ht1 := h1\<rparr>)"
    "ht_wf T h1" "ht_size_exp h1 = ht_size_exp (ht1 d)"
    "mset (ht_entries h1) = mset (chain ?c) + mset (ht_entries (ht1 d))"
    using rehash_chain_ok [OF inv(2-4) _ c] inv(1) by (auto simp: ht_wf_def)
  have "length (chain ?c) \<le> ht_used (ht0 d)"
    using length_concat_update [OF idx, of chain ENull] inv(1) by (simp add: ht_wf_def ht_entries_def)
  then have "ht_wf T ((ht0 d)\<lparr>ht_table := (ht_table (ht0 d))[idx := ENull], ht_used := ?n\<rparr>)"
    using inv(1) idx by (intro ht_wf_update) auto
  moreover have "mset (concat (map chain ((ht_table (ht0 d))[idx := ENull]))) + mset (ht_entries h1) =
      mset (dict_entries d)"
    using mset_concat_update [OF idx, of chain ENull] h1(4)
    by (simp add: dict_entries_def ht_entries_def ac_simps)
  ultimately show ?thesis
    using h1 idx by (intro exI [of _ ?n] exI [of _ h1]) (simp add: rehashEntriesInBucketAtIndex_def)
qed


lemma dict_inv_rehashing:
  assumes "dict_inv T d" and "dictIsRehashing d"
  shows "ht_wf T (ht0 d)" "ht_wf T (ht1 d)" "0 \<le> ht_size_exp (ht0 d)" "0 \<le> ht_size_exp (ht1 d)"
    "0 \<le> rehashidx d" "nat (rehashidx d) \<le> length (ht_table (ht0 d))"
    "i < nat (rehashidx d) \<Longrightarrow> ht_table (ht0 d) ! i = ENull"
  using assms by (auto simp: dict_inv_def)

lemma emit_simps [simp]:
  "ht0 (emit b e d) = ht0 d" "ht1 (emit b e d) = ht1 d" "rehashidx (emit b e d) = rehashidx d"
  "pauserehash (emit b e d) = pauserehash d" "useStoredKeyApi (emit b e d) = useStoredKeyApi d"
  "pauseAutoResize (emit b e d) = pauseAutoResize d" "dict_entries (emit b e d) = dict_entries d"
  by (simp_all add: emit_def dict_entries_def)

lemma ht_entries_reset [simp]: "ht_entries dictReset = []"
  by (simp add: ht_entries_def dictReset_def)

text \<open>A state reached from \<open>d\<close> by moving buckets.\<close>

definition moved :: "('k, 'v) dictType \<Rightarrow> ('k, 'v) dict \<Rightarrow> ('k, 'v) dict \<Rightarrow> bool" where
  "moved T d d' \<longleftrightarrow> dict_inv T d' \<and> dictIsRehashing d' \<and> dict_step d d' \<and>
     ht_size_exp (ht0 d') = ht_size_exp (ht0 d) \<and> ht_size_exp (ht1 d') = ht_size_exp (ht1 d) \<and>
     rehashidx d \<le> rehashidx d' \<and> trace d' = trace d"

lemma moved_refl: "dict_inv T d \<Longrightarrow> dictIsRehashing d \<Longrightarrow> moved T d d"
  by (simp add: moved_def)

lemma moved_trans: "moved T d d' \<Longrightarrow> moved T d' d'' \<Longrightarrow> moved T d d''"
  by (auto simp: moved_def intro: dict_step_trans)

lemma moved_idx:
  assumes "dict_inv T d" and "dictIsRehashing d" and "int i \<ge> rehashidx d"
    and "i \<le> length (ht_table (ht0 d))"
    and "\<forall>j. nat (rehashidx d) \<le> j \<and> j < i \<longrightarrow> ht_table (ht0 d) ! j = ENull"
  shows "moved T d (d\<lparr>rehashidx := int i\<rparr>)"
proof -
  have "ht_table (ht0 d) ! j = ENull" if "j < i" for j
    using assms(5) that dict_inv_rehashing(7) [OF assms(1,2), of j]
    by (cases "j < nat (rehashidx d)") auto
  then show ?thesis
    using assms by (simp add: moved_def dict_inv_def dict_step_def dict_entries_def dictIsRehashing_def)
qed

lemma moved_bucket:
  assumes inv: "dict_inv T d" "dictIsRehashing d" and i: "i < length (ht_table (ht0 d))"
  shows "\<exists>d'. rehashEntriesInBucketAtIndex T d i = Some d' \<and> moved T d d' \<and> rehashidx d' = rehashidx d \<and>
    ht_table (ht0 d') = (ht_table (ht0 d))[i := ENull]"
proof -
  note wf = dict_inv_rehashing [OF inv]
  obtain n h1 where r: "rehashEntriesInBucketAtIndex T d i =
        Some (d\<lparr>ht0 := (ht0 d)\<lparr>ht_table := (ht_table (ht0 d))[i := ENull], ht_used := n\<rparr>, ht1 := h1\<rparr>)"
      "ht_wf T ((ht0 d)\<lparr>ht_table := (ht_table (ht0 d))[i := ENull], ht_used := n\<rparr>)" "ht_wf T h1"
      "ht_size_exp h1 = ht_size_exp (ht1 d)"
      "mset (concat (map chain ((ht_table (ht0 d))[i := ENull]))) + mset (ht_entries h1) =
        mset (dict_entries d)"
    using rehashEntries_ok [OF wf(1,2,4,3) i] by blast
  have "(ht_table (ht0 d))[i := ENull] ! j = ENull" if "j < nat (rehashidx d)" for j
    using i wf(7) [OF that] by (simp add: nth_list_update)
  then show ?thesis
    using r wf inv(2)
    by (simp add: moved_def dict_inv_def dict_step_def dict_entries_def ht_entries_def dictIsRehashing_def)
qed

lemma dictCheck_ok:
  assumes inv: "dict_inv T d" "dictIsRehashing d"
  shows "\<exists>b d'. dictCheckRehashingCompleted T d = (b, d') \<and> dict_inv T d' \<and> dict_step d d' \<and>
    (b \<longleftrightarrow> ht_used (ht0 d) = 0) \<and> (if b then \<not> dictIsRehashing d' else d' = d) \<and>
    0 \<le> ht_size_exp (ht0 d')"
proof (cases "ht_used (ht0 d) = 0")
  case True
  then have "ht_entries (ht0 d) = []"
    using dict_inv_rehashing(1) [OF inv] by (simp add: ht_wf_def)
  then show ?thesis
    using True dict_inv_rehashing(2,4) [OF inv]
    by (auto simp: dictCheckRehashingCompleted_def Let_def dict_inv_def dict_step_def dict_entries_def
        dictIsRehashing_def)
next
  case False
  then show ?thesis
    using inv dict_inv_rehashing(3) [OF inv] by (auto simp: dictCheckRehashingCompleted_def)
qed

lemma skip_empty_ok:
  assumes "\<exists>j. idx \<le> j \<and> j < length tab \<and> tab ! j \<noteq> ENull"
  shows "\<exists>i. idx \<le> i \<and> i \<le> length tab \<and> (\<forall>j. idx \<le> j \<and> j < i \<longrightarrow> tab ! j = ENull) \<and>
    (skip_empty tab idx ev = Some (Inl i) \<and> idx < i \<or>
     (\<exists>ev'. skip_empty tab idx ev = Some (Inr (i, ev'))) \<and> i < length tab \<and> tab ! i \<noteq> ENull)"
  using assms
proof (induction tab idx ev rule: skip_empty.induct)
  case (1 tab idx ev)
  from "1.prems" have idx: "idx < length tab" by auto
  consider "tab ! idx \<noteq> ENull" | "tab ! idx = ENull" "ev - 1 = 0" | "tab ! idx = ENull" "ev - 1 \<noteq> 0"
    by blast
  then show ?case
  proof cases
    case 3
    have more: "\<exists>j. idx + 1 \<le> j \<and> j < length tab \<and> tab ! j \<noteq> ENull"
      using "1.prems" 3(1) by (metis Suc_eq_plus1 not_less_eq_eq le_antisym)
    have s: "skip_empty tab idx ev = skip_empty tab (idx + 1) (ev - 1)"
      using idx 3 by (subst skip_empty.simps) simp
    have "idx < length tab \<Longrightarrow> \<not> tab ! idx \<noteq> ENull" using 3 by simp
    then obtain i where i: "idx + 1 \<le> i" "i \<le> length tab" "\<forall>j. idx + 1 \<le> j \<and> j < i \<longrightarrow> tab ! j = ENull"
        "skip_empty tab (idx + 1) (ev - 1) = Some (Inl i) \<and> idx + 1 < i \<or>
         (\<exists>ev'. skip_empty tab (idx + 1) (ev - 1) = Some (Inr (i, ev'))) \<and> i < length tab \<and> tab ! i \<noteq> ENull"
      using "1.IH" more idx 3 by (metis not_le)
    have "\<forall>j. idx \<le> j \<and> j < i \<longrightarrow> tab ! j = ENull"
      using i(3) 3(1) by (metis Suc_eq_plus1 le_eq_less_or_eq Suc_leI)
    with i s show ?thesis by (intro exI [of _ i]) auto
  qed (use idx in \<open>subst skip_empty.simps; auto simp: less_Suc_eq\<close>)+
qed

lemma used_bucket:
  assumes inv: "dict_inv T d" "dictIsRehashing d" and "ht_used (ht0 d) \<noteq> 0"
  shows "\<exists>j. nat (rehashidx d) \<le> j \<and> j < length (ht_table (ht0 d)) \<and> ht_table (ht0 d) ! j \<noteq> ENull"
proof (rule ccontr)
  assume "\<not> ?thesis"
  then have "ht_table (ht0 d) ! j = ENull" if "j < length (ht_table (ht0 d))" for j
    using that dict_inv_rehashing(7) [OF inv, of j] by (meson not_le)
  then have "\<forall>c\<in>set (ht_table (ht0 d)). c = ENull" by (metis in_set_conv_nth)
  then have "ht_entries (ht0 d) = []" by (auto simp: ht_entries_def)
  then show False using assms dict_inv_rehashing(1) [OF inv] by (simp add: ht_wf_def)
qed


lemma moved_length: "moved T d d' \<Longrightarrow> dict_inv T d \<Longrightarrow> length (ht_table (ht0 d')) = length (ht_table (ht0 d))"
  by (auto simp: moved_def dict_inv_def ht_wf_def)

text \<open>The loop of \<^verbatim>\<open>dictRehash\<close> only moves buckets. It advances the index if it leaves work.\<close>

lemma dictRehash_loop_ok:
  assumes "dict_inv T d" "dictIsRehashing d"
  shows "\<exists>early d'. dictRehash_loop T n ev d = Some (early, d') \<and> moved T d d' \<and>
    (early \<or> 0 < n \<and> ht_used (ht0 d') \<noteq> 0 \<longrightarrow> rehashidx d < rehashidx d')"
  using assms
proof (induction n arbitrary: ev d)
  case 0
  then show ?case by (auto simp: moved_refl)
next
  case (Suc n)
  show ?case
  proof (cases "ht_used (ht0 d) = 0")
    case True
    then show ?thesis using Suc.prems by (auto simp: moved_refl)
  next
    case False
    note wf = dict_inv_rehashing [OF Suc.prems]
    obtain j where j: "nat (rehashidx d) \<le> j" "j < length (ht_table (ht0 d))" "ht_table (ht0 d) ! j \<noteq> ENull"
      using used_bucket [OF Suc.prems False] by blast
    have guard: "\<not> (\<not> int (DICTHT_SIZE (ht_size_exp (ht0 d))) > rehashidx d \<or> rehashidx d < 0)"
      using j wf(1,5) by (auto simp: ht_wf_def)
    obtain i where i: "nat (rehashidx d) \<le> i" "i \<le> length (ht_table (ht0 d))"
        "\<forall>j. nat (rehashidx d) \<le> j \<and> j < i \<longrightarrow> ht_table (ht0 d) ! j = ENull"
      and skip: "skip_empty (ht_table (ht0 d)) (nat (rehashidx d)) ev = Some (Inl i) \<and> nat (rehashidx d) < i \<or>
         (\<exists>ev'. skip_empty (ht_table (ht0 d)) (nat (rehashidx d)) ev = Some (Inr (i, ev'))) \<and>
         i < length (ht_table (ht0 d)) \<and> ht_table (ht0 d) ! i \<noteq> ENull"
      using skip_empty_ok [of "nat (rehashidx d)" "ht_table (ht0 d)" ev] j by blast
    have m1: "moved T d (d\<lparr>rehashidx := int i\<rparr>)"
      using moved_idx [OF Suc.prems _ i(2,3)] i(1) wf(5) by simp
    from skip show ?thesis
    proof (elim disjE conjE exE)
      assume "skip_empty (ht_table (ht0 d)) (nat (rehashidx d)) ev = Some (Inl i)" "nat (rehashidx d) < i"
      with False guard m1 wf(5) show ?thesis
        by (intro exI [of _ True] exI [of _ "d\<lparr>rehashidx := int i\<rparr>"]) simp
    next
      fix ev'
      assume s: "skip_empty (ht_table (ht0 d)) (nat (rehashidx d)) ev = Some (Inr (i, ev'))"
        "i < length (ht_table (ht0 d))"
      let ?d1 = "d\<lparr>rehashidx := int i\<rparr>"
      have inv1: "dict_inv T ?d1" "dictIsRehashing ?d1" using m1 by (simp_all add: moved_def)
      obtain d2 where d2: "rehashEntriesInBucketAtIndex T ?d1 i = Some d2" "moved T ?d1 d2"
          "rehashidx d2 = int i" "ht_table (ht0 d2) = (ht_table (ht0 d))[i := ENull]"
        using moved_bucket [OF inv1] s(2) by auto
      have inv2: "dict_inv T d2" "dictIsRehashing d2" using d2(2) by (simp_all add: moved_def)
      have m3: "moved T d2 (d2\<lparr>rehashidx := int i + 1\<rparr>)"
      proof -
        have "\<forall>j. nat (rehashidx d2) \<le> j \<and> j < Suc i \<longrightarrow> ht_table (ht0 d2) ! j = ENull"
          using d2(3,4) s(2) by (auto simp: less_Suc_eq)
        from moved_idx [OF inv2 _ _ this] d2(3,4) s(2) show ?thesis by (simp add: add.commute)
      qed
      let ?d3 = "d2\<lparr>rehashidx := int i + 1\<rparr>"
      have inv3: "dict_inv T ?d3" "dictIsRehashing ?d3" using m3 by (simp_all add: moved_def)
      obtain early d' where r: "dictRehash_loop T n ev' ?d3 = Some (early, d')" "moved T ?d3 d'"
        using Suc.IH [OF inv3] by blast
      have "rehashidx d < rehashidx d'"
        using r(2) i(1) wf(5) unfolding moved_def by (auto simp: nat_le_iff)
      moreover have "moved T d d'" using m1 d2(2) m3 r(2) by (blast intro: moved_trans)
      ultimately show ?thesis using False guard s d2 r by simp
    qed
  qed
qed

lemma dictRehash_ok:
  assumes inv: "dict_inv T d"
  shows "\<exists>more d'. dictRehash T cr d n = Some (more, d') \<and> dict_inv T d' \<and> dict_step d d' \<and>
    (0 \<le> ht_size_exp (ht0 d) \<longrightarrow> 0 \<le> ht_size_exp (ht0 d')) \<and>
    (if more then moved T d d' \<and> (0 < n \<longrightarrow> rehashidx d < rehashidx d')
     else rehash_refused cr d \<and> d' = d \<or> \<not> dictIsRehashing d')"
proof (cases "rehash_refused cr d")
  case True
  then show ?thesis using inv by (auto simp: dictRehash_def)
next
  case False
  then have reh: "dictIsRehashing d" by (auto simp: rehash_refused_def Let_def)
  obtain early d1 where d1: "dictRehash_loop T n (int n * 10) d = Some (early, d1)" "moved T d d1"
      "early \<or> 0 < n \<and> ht_used (ht0 d1) \<noteq> 0 \<longrightarrow> rehashidx d < rehashidx d1"
    using dictRehash_loop_ok [OF inv reh] by blast
  have inv1: "dict_inv T d1" "dictIsRehashing d1" "dict_step d d1" using d1(2) by (simp_all add: moved_def)
  obtain b d2 where d2: "dictCheckRehashingCompleted T d1 = (b, d2)" "dict_inv T d2" "dict_step d1 d2"
      "b \<longleftrightarrow> ht_used (ht0 d1) = 0" "if b then \<not> dictIsRehashing d2 else d2 = d1"
      "0 \<le> ht_size_exp (ht0 d2)"
    using dictCheck_ok [OF inv1(1,2)] by blast
  show ?thesis
  proof (cases early)
    case True
    then show ?thesis
      using False d1 inv1 dict_inv_rehashing(3) [OF inv1(1,2)] by (auto simp: dictRehash_def)
  next
    case late: False
    then show ?thesis
      using False d1 d2 inv1 dict_step_trans [OF inv1(3) d2(3)]
      by (cases b) (auto simp: dictRehash_def)
  qed
qed

lemma dictBucketRehash_ok:
  assumes inv: "dict_inv T d" and idx: "dictIsRehashing d \<Longrightarrow> idx < length (ht_table (ht0 d))"
  shows "\<exists>b d'. dictBucketRehash T cr d idx = Some (b, d') \<and> dict_inv T d' \<and> dict_step d d' \<and>
    (d' = d \<or> moved T d d' \<or> \<not> dictIsRehashing d') \<and>
    (0 \<le> ht_size_exp (ht0 d) \<longrightarrow> 0 \<le> ht_size_exp (ht0 d'))"
proof (cases "pauserehash d \<noteq> 0 \<or> rehash_refused cr d")
  case True
  then show ?thesis using inv by (auto simp: dictBucketRehash_def)
next
  case False
  then have reh: "dictIsRehashing d" by (auto simp: rehash_refused_def Let_def)
  obtain d1 where d1: "rehashEntriesInBucketAtIndex T d idx = Some d1" "moved T d d1"
    using moved_bucket [OF inv reh idx [OF reh]] by blast
  have inv1: "dict_inv T d1" "dictIsRehashing d1" "dict_step d d1" using d1(2) by (simp_all add: moved_def)
  obtain b d2 where d2: "dictCheckRehashingCompleted T d1 = (b, d2)" "dict_inv T d2" "dict_step d1 d2"
      "if b then \<not> dictIsRehashing d2 else d2 = d1" "0 \<le> ht_size_exp (ht0 d2)"
    using dictCheck_ok [OF inv1(1,2)] by blast
  show ?thesis
    using False d1 d2 dict_step_trans [OF inv1(3) d2(3)]
    by (cases b) (auto simp: dictBucketRehash_def)
qed

lemma dictRehashStepIfNeeded_ok:
  assumes inv: "dict_inv T d"
  shows "\<exists>d'. dictRehashStepIfNeeded T cr d (hash_index h (ht_size_exp (ht0 d))) = Some d' \<and>
    dict_inv T d' \<and> dict_step d d' \<and> (d' = d \<or> moved T d d' \<or> \<not> dictIsRehashing d') \<and>
    (0 \<le> ht_size_exp (ht0 d) \<longrightarrow> 0 \<le> ht_size_exp (ht0 d'))"
proof (cases "\<not> dictIsRehashing d \<or> pauserehash d \<noteq> 0")
  case True
  then show ?thesis using inv by (auto simp: dictRehashStepIfNeeded_def)
next
  case False
  let ?i = "hash_index h (ht_size_exp (ht0 d))"
  have i: "?i < length (ht_table (ht0 d))"
    using dict_inv_rehashing(1,3) [OF inv] False by (simp add: ht_wf_index)
  obtain b d1 where d1: "dictBucketRehash T cr d ?i = Some (b, d1)" "dict_inv T d1" "dict_step d d1"
      "d1 = d \<or> moved T d d1 \<or> \<not> dictIsRehashing d1"
      "0 \<le> ht_size_exp (ht0 d) \<longrightarrow> 0 \<le> ht_size_exp (ht0 d1)"
    using dictBucketRehash_ok [OF inv i] by blast
  obtain more d2 where d2: "dictRehash T cr d 1 = Some (more, d2)" "dict_inv T d2" "dict_step d d2"
      "d2 = d \<or> moved T d d2 \<or> \<not> dictIsRehashing d2"
      "0 \<le> ht_size_exp (ht0 d) \<longrightarrow> 0 \<le> ht_size_exp (ht0 d2)"
    using dictRehash_ok [OF inv, of cr 1] by (metis (full_types))
  show ?thesis
    using False i d1 d2 by (auto simp: dictRehashStepIfNeeded_def)
qed

lemma dictRehashStep_ok:
  assumes inv: "dict_inv T d"
  shows "\<exists>d'. dictRehashStep T cr d = Some d' \<and> dict_inv T d' \<and> dict_step d d'"
  using dictRehash_ok [OF inv, of cr 1] inv by (auto simp: dictRehashStep_def)

text \<open>Rehashing everything ends, because each call that leaves work advances the index.\<close>

lemma rehash_refused_moved: "moved T d d' \<Longrightarrow> dictIsRehashing d \<Longrightarrow> rehash_refused cr d' = rehash_refused cr d"
  by (simp add: moved_def rehash_refused_def)

lemma dictRehash_more: "dictRehash T cr d n = Some (True, d') \<Longrightarrow> \<not> rehash_refused cr d"
  by (auto simp: dictRehash_def)

lemma rehash_all_ok:
  assumes "dict_inv T d"
  shows "\<exists>d'. rehash_all T cr d = Some d' \<and> dict_inv T d' \<and> dict_step d d' \<and>
    (rehash_refused cr d \<and> d' = d \<or> \<not> dictIsRehashing d')"
  using assms
proof (induction "length (ht_table (ht0 d)) - nat (rehashidx d)" arbitrary: d rule: less_induct)
  case less
  obtain more d1 where d1: "dictRehash T cr d 1000 = Some (more, d1)" "dict_inv T d1" "dict_step d d1"
      "if more then moved T d d1 \<and> (0 < (1000::nat) \<longrightarrow> rehashidx d < rehashidx d1)
       else rehash_refused cr d \<and> d1 = d \<or> \<not> dictIsRehashing d1"
    using dictRehash_ok [OF less.prems, of cr 1000] by blast
  show ?case
  proof (cases more)
    case False
    then show ?thesis using d1 by (subst rehash_all.simps) auto
  next
    case True
    then have m: "moved T d d1" "rehashidx d < rehashidx d1" using d1(4) by simp_all
    have nref: "\<not> rehash_refused cr d" using dictRehash_more [of T cr d 1000 d1] d1(1) True by simp
    then have "dictIsRehashing d" by (auto simp: rehash_refused_def Let_def)
    note wf = dict_inv_rehashing [OF less.prems this]
    have inv1: "dictIsRehashing d1" using m(1) by (simp add: moved_def)
    have lt: "length (ht_table (ht0 d1)) - nat (rehashidx d1) < length (ht_table (ht0 d)) - nat (rehashidx d)"
      using m moved_length [OF m(1) less.prems] dict_inv_rehashing(5,6) [OF d1(2) inv1] wf(5) by simp
    have nref1: "\<not> rehash_refused cr d1" using nref rehash_refused_moved [OF m(1) \<open>dictIsRehashing d\<close>] by simp
    then obtain d' where "rehash_all T cr d1 = Some d'" "dict_inv T d'" "dict_step d1 d'"
        "\<not> dictIsRehashing d'"
      using less.hyps [OF lt d1(2)] by blast
    then show ?thesis using d1 True dict_step_trans by (subst rehash_all.simps) auto
  qed
qed


section \<open>Resizing\<close>

lemma bit_len_bounds: "n < 2 ^ bit_len n \<and> (0 < n \<longrightarrow> 2 ^ (bit_len n - 1) \<le> n)"
proof (induction n rule: bit_len.induct)
  case (1 n)
  show ?case
  proof (cases "n = 0")
    case False
    with 1 have IH: "n div 2 < 2 ^ bit_len (n div 2)" "0 < n div 2 \<longrightarrow> 2 ^ (bit_len (n div 2) - 1) \<le> n div 2"
      by auto
    have b: "bit_len n = Suc (bit_len (n div 2))" using False by (subst bit_len.simps) simp
    have "n < 2 * 2 ^ bit_len (n div 2)" using IH(1) by linarith
    moreover have "2 ^ bit_len (n div 2) \<le> n"
    proof (cases "n div 2 = 0")
      case True
      then show ?thesis using False by (simp add: bit_len.simps)
    next
      case half: False
      then have "bit_len (n div 2) = Suc (bit_len (n div 2) - 1)" by (subst (1 2) bit_len.simps) simp
      then have "2 ^ bit_len (n div 2) = 2 * (2::nat) ^ (bit_len (n div 2) - 1)"
        by (metis power_Suc)
      then show ?thesis using IH(2) half by linarith
    qed
    ultimately show ?thesis using b by simp
  qed (simp add: bit_len.simps)
qed

lemma bit_len_le: "n < 2 ^ k \<Longrightarrow> bit_len n \<le> k"
proof (rule ccontr)
  assume n: "n < 2 ^ k" and "\<not> bit_len n \<le> k"
  then have "0 < n" and "k \<le> bit_len n - 1" by (auto simp: bit_len.simps [of 0] intro: Suc_leI gr0I)
  then have "2 ^ k \<le> n"
    using bit_len_bounds [of n] power_increasing [of k "bit_len n - 1" "2::nat"] by linarith
  with n show False by simp
qed

text \<open>The new size is the least power of two, from 4 up, that is not below the request.\<close>

lemma dictNextExp_ok:
  assumes "sz \<le> 2 ^ 63 - 2"
  shows "2 \<le> dictNextExp sz" "dictNextExp sz \<le> 63" "sz \<le> DICTHT_SIZE (dictNextExp sz)"
    "4 < sz \<Longrightarrow> DICTHT_SIZE (dictNextExp sz) < 2 * sz"
proof -
  have *: "2 \<le> dictNextExp sz \<and> dictNextExp sz \<le> 63 \<and> sz \<le> DICTHT_SIZE (dictNextExp sz) \<and>
    (4 < sz \<longrightarrow> DICTHT_SIZE (dictNextExp sz) < 2 * sz)"
  proof (cases "sz \<le> 4")
    case True
    then show ?thesis by (simp add: dictNextExp_def DICTHT_SIZE_def)
  next
    case False
    let ?b = "bit_len (sz - 1)"
    have b: "sz - 1 < 2 ^ ?b" "2 ^ (?b - 1) \<le> sz - 1" using bit_len_bounds [of "sz - 1"] False by auto
    have "?b \<le> 63" using assms by (intro bit_len_le) simp
    moreover have "2 < ?b"
    proof (rule ccontr)
      assume "\<not> 2 < ?b"
      then have "(2::nat) ^ ?b \<le> 2 ^ 2" by (intro power_increasing) auto
      then show False using b(1) False by simp
    qed
    moreover have e: "dictNextExp sz = int ?b"
      using False assms \<open>?b \<le> 63\<close> by (simp add: dictNextExp_def clzl_def)
    moreover have "2 ^ ?b = 2 * (2::nat) ^ (?b - 1)"
      using \<open>2 < ?b\<close> by (metis power_eq_if not_less_zero)
    moreover have "sz \<le> 2 ^ ?b" "2 ^ (?b - 1) < sz" using b False by linarith+
    ultimately show ?thesis by (simp add: DICTHT_SIZE_def)
  qed
  show "2 \<le> dictNextExp sz" "dictNextExp sz \<le> 63" "sz \<le> DICTHT_SIZE (dictNextExp sz)"
    "4 < sz \<Longrightarrow> DICTHT_SIZE (dictNextExp sz) < 2 * sz" using * by blast+
qed

lemma dictNextExp_range: "2 \<le> dictNextExp sz \<and> dictNextExp sz \<le> 63"
proof (cases "sz \<le> 2 ^ 63 - 2")
  case True
  then show ?thesis using dictNextExp_ok(1,2) by blast
next
  case False
  then show ?thesis by (simp add: dictNextExp_def)
qed

lemma size_fits:
  assumes "2 \<le> e" and "e \<le> 63" and "\<not> (DICTHT_SIZE e * 8) mod 2 ^ 64 < DICTHT_SIZE e"
  shows "e \<le> 60"
proof (rule ccontr)
  assume "\<not> e \<le> 60"
  then have "e = 61 \<or> e = 62 \<or> e = 63" using assms(2) by linarith
  then show False using assms(3) by (elim disjE) (simp_all add: DICTHT_SIZE_def)
qed

lemma ht_wf_new: "0 \<le> e \<Longrightarrow> e \<le> 60 \<Longrightarrow>
  ht_wf T \<lparr>ht_table = replicate (DICTHT_SIZE e) ENull, ht_used = 0, ht_size_exp = e\<rparr>"
  by (simp add: ht_wf_def ht_entries_def)

lemma dict_inv_nonempty:
  assumes "dict_inv T d" and "dict_entries d \<noteq> []"
  shows "0 \<le> ht_size_exp (ht0 d)"
proof (rule ccontr)
  assume neg: "\<not> 0 \<le> ht_size_exp (ht0 d)"
  then have "ht_size_exp (ht0 d) = -1" using assms(1) by (auto simp: dict_inv_def ht_wf_def)
  then have "ht_entries (ht0 d) = []" using assms(1) by (auto simp: dict_inv_def ht_wf_def ht_entries_def DICTHT_SIZE_def)
  moreover have "\<not> dictIsRehashing d" using assms(1) neg by (auto simp: dict_inv_def)
  ultimately show False using assms by (simp add: dict_inv_def dict_entries_def)
qed

text \<open>What every resizing operation promises: it ends without error, keeps the entries, and if it
  changed the tables then no bucket is marked as moved.\<close>

definition resized :: "('k, 'v) dictType \<Rightarrow> ('k, 'v) dict \<Rightarrow> ('k, 'v) dict \<Rightarrow> bool" where
  "resized T d d' \<longleftrightarrow> dict_inv T d' \<and> dict_step d d' \<and> (d' = d \<or> rehashidx d' \<le> 0) \<and>
     (0 \<le> ht_size_exp (ht0 d) \<longrightarrow> 0 \<le> ht_size_exp (ht0 d'))"

lemma resized_refl [simp]: "dict_inv T d \<Longrightarrow> resized T d d"
  by (simp add: resized_def)

lemma dictResize_ok:
  assumes inv: "dict_inv T d" and nreh: "\<not> dictIsRehashing d"
  shows "\<exists>ok failed d'. dictResize T cr d sz alloc = Some (ok, failed, d') \<and> resized T d d' \<and>
    (ok \<longrightarrow> 0 \<le> ht_size_exp (ht0 d'))"
proof -
  define e where "e = dictNextExp sz"
  have e: "2 \<le> e" "e \<le> 63" using dictNextExp_range by (simp_all add: e_def)
  define skip where "skip \<longleftrightarrow> DICTHT_SIZE e < sz \<or> (DICTHT_SIZE e * 8) mod 2 ^ 64 < DICTHT_SIZE e \<or>
    e = ht_size_exp (ht0 d) \<or> (case alloc of None \<Rightarrow> False | Some ok \<Rightarrow> \<not> ok (DICTHT_SIZE e * 8))"
  show ?thesis
  proof (cases skip)
    case True
    then show ?thesis
      using inv nreh unfolding dictResize_def Let_def skip_def e_def [symmetric] by auto
  next
    case False
    then have e60: "e \<le> 60" using size_fits [OF e] by (simp add: skip_def)
    define new where "new = (\<lparr>ht_table = replicate (DICTHT_SIZE e) ENull, ht_used = 0, ht_size_exp = e\<rparr> :: ('a, 'b) dictht)"
    have new: "ht_wf T new" "ht_entries new = []" "ht_size_exp new = e"
      using ht_wf_new [of e T] e(1) e60 by (simp_all add: new_def ht_entries_def)
    define d3 where "d3 = emit (bucketChanged T) (BucketChanged (int (DICTHT_SIZE e)))
      (emit (rehashingStarted T) RehashingStarted (d\<lparr>ht1 := new, rehashidx := 0\<rparr>))"
    have d3: "ht0 d3 = ht0 d" "ht1 d3 = new" "rehashidx d3 = 0" "dictIsRehashing d3"
        "pauserehash d3 = pauserehash d" "useStoredKeyApi d3 = useStoredKeyApi d"
        "pauseAutoResize d3 = pauseAutoResize d"
      by (simp_all add: d3_def dictIsRehashing_def)
    have ht1: "ht1 d = dictReset" and wf0: "ht_wf T (ht0 d)" using inv nreh by (simp_all add: dict_inv_def)
    define d6 where "d6 = (emit (bucketChanged T) (BucketChanged (- int (DICTHT_SIZE (ht_size_exp (ht0 d)))))
      (emit (rehashingCompleted T) RehashingCompleted d3))\<lparr>ht0 := new, ht1 := dictReset, rehashidx := -1\<rparr>"
    have eq: "dictResize T cr d sz alloc =
      (if ht_table (ht0 d) = [] \<or> ht_used (ht0 d) = 0 then Some (True, False, d6)
       else if force_full_rehash T then map_option (\<lambda>d. (True, False, d)) (rehash_all T cr d3)
       else Some (True, False, d3))"
      using False nreh d3 unfolding dictResize_def Let_def skip_def e_def [symmetric]
      by (simp add: new_def [symmetric] d3_def [symmetric] d6_def)
    show ?thesis
    proof (cases "ht_table (ht0 d) = [] \<or> ht_used (ht0 d) = 0")
      case True
      then have "ht_entries (ht0 d) = []" using wf0 by (auto simp: ht_wf_def ht_entries_def)
      then have "resized T d d6" "0 \<le> ht_size_exp (ht0 d6)"
        using new ht1 d3 e by (auto simp: resized_def d6_def dict_inv_def dict_step_def dict_entries_def
            dictIsRehashing_def)
      then show ?thesis using True eq by auto
    next
      case used: False
      then have "0 < length (ht_entries (ht0 d))" using wf0 by (simp add: ht_wf_def)
      then have ne: "dict_entries d \<noteq> []" by (auto simp: dict_entries_def)
      have e0: "0 \<le> ht_size_exp (ht0 d)" using inv ne by (rule dict_inv_nonempty)
      have "dict_inv T d3" using new wf0 d3 e e0 by (simp add: dict_inv_def)
      moreover have step3: "dict_step d d3" using new ht1 d3 by (simp add: dict_step_def dict_entries_def)
      ultimately have r3: "resized T d d3" using d3 by (simp add: resized_def)
      obtain d' where d': "rehash_all T cr d3 = Some d'" "dict_inv T d'" "dict_step d3 d'"
          "rehash_refused cr d3 \<and> d' = d3 \<or> \<not> dictIsRehashing d'"
        using rehash_all_ok [OF \<open>dict_inv T d3\<close>] by blast
      have step': "dict_step d d'" using step3 d'(3) by (rule dict_step_trans)
      then have "dict_entries d' \<noteq> []" using ne by (metis dict_step_def mset_zero_iff)
      then have "0 \<le> ht_size_exp (ht0 d')" using d'(2) dict_inv_nonempty by blast
      moreover have "rehashidx d' \<le> 0" using d'(4) d3(3) by (auto simp: dictIsRehashing_def)
      ultimately have "resized T d d'" using d'(2) step' by (simp add: resized_def)
      then show ?thesis using used eq r3 d'(1) e0 d3 \<open>0 \<le> ht_size_exp (ht0 d')\<close>
        by (cases "force_full_rehash T") auto
    qed
  qed
qed

lemma dictExpand_ok:
  assumes inv: "dict_inv T d"
  shows "\<exists>ok d'. dictExpand T cr d sz = Some (ok, d') \<and> resized T d d' \<and> (ok \<longrightarrow> 0 \<le> ht_size_exp (ht0 d'))"
proof (cases "dictIsRehashing d \<or> ht_used (ht0 d) > sz \<or> DICTHT_SIZE (ht_size_exp (ht0 d)) \<ge> sz")
  case True
  then show ?thesis using inv by (auto simp: dictExpand_def dictExpand_raw_def)
next
  case False
  then show ?thesis
    using dictResize_ok [OF inv, of cr sz None] by (auto simp: dictExpand_def dictExpand_raw_def)
qed

lemma dictShrink_ok:
  assumes inv: "dict_inv T d"
  shows "\<exists>ok d'. dictShrink T cr d sz = Some (ok, d') \<and> resized T d d'"
proof (cases "dictIsRehashing d \<or> ht_used (ht0 d) > sz \<or> DICTHT_SIZE (ht_size_exp (ht0 d)) \<le> sz")
  case True
  then show ?thesis using inv by (auto simp: dictShrink_def)
next
  case False
  then show ?thesis using dictResize_ok [OF inv, of cr sz None] by (auto simp: dictShrink_def)
qed


lemma dictExpand_initial:
  assumes inv: "dict_inv T d" and e: "ht_size_exp (ht0 d) = -1"
  shows "\<exists>d'. dictExpand T cr d 4 = Some (True, d')"
proof -
  have "\<not> dictIsRehashing d" using assms by (auto simp: dict_inv_def)
  moreover have "ht_table (ht0 d) = []" "ht_used (ht0 d) = 0"
    using assms by (auto simp: dict_inv_def ht_wf_def DICTHT_SIZE_def ht_entries_def)
  ultimately show ?thesis
    using e by (simp add: dictExpand_def dictExpand_raw_def dictResize_def dictNextExp_def
        DICTHT_SIZE_def Let_def)
qed

lemma dictExpandIfNeeded_ok:
  assumes inv: "dict_inv T d"
  shows "\<exists>b d'. dictExpandIfNeeded T cr d = Some (b, d') \<and> resized T d d' \<and> 0 \<le> ht_size_exp (ht0 d')"
proof -
  define size0 where "size0 = DICTHT_SIZE (ht_size_exp (ht0 d))"
  consider "dictIsRehashing d" | "\<not> dictIsRehashing d" "size0 = 0" | "\<not> dictIsRehashing d" "size0 \<noteq> 0"
    by blast
  then show ?thesis
  proof cases
    case 1
    then show ?thesis using inv by (auto simp: dictExpandIfNeeded_def dict_inv_def)
  next
    case 2
    then have "ht_size_exp (ht0 d) = -1" by (simp add: size0_def DICTHT_SIZE_def split: if_splits)
    then show ?thesis
      using dictExpand_ok [OF inv, of cr 4] dictExpand_initial [OF inv, of cr] 2
      by (auto simp: dictExpandIfNeeded_def size0_def)
  next
    case 3
    then have e0: "0 \<le> ht_size_exp (ht0 d)"
      using inv by (auto simp: size0_def DICTHT_SIZE_def dict_inv_def ht_wf_def split: if_splits)
    obtain ok d' where d': "dictExpand T cr d (ht_used (ht0 d) + 1) = Some (ok, d')" "resized T d d'"
      using dictExpand_ok [OF inv] by blast
    then have "0 \<le> ht_size_exp (ht0 d')" using e0 by (simp add: resized_def)
    then show ?thesis using 3 d' e0 inv by (auto simp: dictExpandIfNeeded_def size0_def Let_def)
  qed
qed

lemma dictExpandAuto_ok:
  assumes inv: "dict_inv T d" and "pauseAutoResize d \<le> 0 \<or> 0 \<le> ht_size_exp (ht0 d)"
  shows "\<exists>b d'. dictExpandIfAutoResizeAllowed T cr d = Some (b, d') \<and> resized T d d' \<and>
    0 \<le> ht_size_exp (ht0 d')"
  using dictExpandIfNeeded_ok [OF inv, of cr] assms
  by (auto simp: dictExpandIfAutoResizeAllowed_def)

lemma dictShrinkAuto_ok:
  assumes inv: "dict_inv T d"
  shows "\<exists>d'. dictShrinkIfAutoResizeAllowed T cr d = Some d' \<and> resized T d d'"
  using dictShrink_ok [OF inv, of cr "ht_used (ht0 d)"] inv
  by (auto simp: dictShrinkIfAutoResizeAllowed_def dictShrinkIfNeeded_def Let_def)

section \<open>Chains and links\<close>

lemma chain_find_Some:
  "chain_find P c = Some n \<Longrightarrow> n < length (chain c) \<and> P (fst (chain c ! n))"
  by (induction c arbitrary: n) (auto split: if_splits)

lemma chain_find_None: "chain_find P c = None \<Longrightarrow> \<forall>kv\<in>set (chain c). \<not> P (fst kv)"
  by (induction c) (auto split: if_splits)

lemma chain_next: "chain (dictGetNext c) = tl (chain c)"
  by (cases c) auto

lemma chain_at_drop: "chain (chain_at c n) = drop n (chain c)"
  by (induction n arbitrary: c) (auto simp: chain_next drop_Suc)

lemma chain_at_key: "n < length (chain c) \<Longrightarrow>
  dictGetKey (chain_at c n) = Some (fst (chain c ! n)) \<and>
  (\<not> nv \<longrightarrow> chain_shape nv c \<longrightarrow> dictGetVal (chain_at c n) = Some (snd (chain c ! n)))"
proof (induction n arbitrary: c)
  case 0
  then show ?case by (cases c) auto
next
  case (Suc n)
  then show ?case by (cases c) auto
qed

text \<open>Replacing the entry at a depth: the new chain, for an update that turns the rest of the chain
  into \<open>rest\<close>.\<close>

lemma chain_update_ok:
  assumes "n < length (chain c)" and "chain_shape nv c"
    and "\<And>de. de \<noteq> ENull \<Longrightarrow> chain_shape nv de \<Longrightarrow> chain de = drop n (chain c) \<Longrightarrow>
      \<exists>de'. f de = Some de' \<and> chain_shape nv de' \<and> chain de' = rest"
  shows "\<exists>c'. chain_update c n f = Some c' \<and> chain_shape nv c' \<and> chain c' = take n (chain c) @ rest"
  using assms
proof (induction n arbitrary: c)
  case 0
  then show ?case by (auto simp: length_greater_0_conv [symmetric] simp del: length_greater_0_conv)
next
  case (Suc n)
  then show ?case by (cases c) (force simp: drop_Suc)+
qed

lemma get_set_ht [simp]: "get_ht (set_ht d t h) t = h"
  by (simp add: get_ht_def set_ht_def)

lemma mset_dict_entries:
  "mset (dict_entries d) = mset (ht_entries (get_ht d t)) + mset (ht_entries (get_ht d (if t = 0 then 1 else 0)))"
  by (simp add: dict_entries_def get_ht_def)

text \<open>A link into the tables, and the update of the chain it points into.\<close>

definition link_ok :: "('k, 'v) dict \<Rightarrow> link \<Rightarrow> bool" where
  "link_ok d = (\<lambda>(t, i, n). i < length (ht_table (get_ht d t)) \<and>
     n < length (chain (ht_table (get_ht d t) ! i)))"

definition link_entry :: "('k, 'v) dict \<Rightarrow> link \<Rightarrow> 'k \<times> 'v option" where
  "link_entry d = (\<lambda>(t, i, n). chain (ht_table (get_ht d t) ! i) ! n)"

lemma link_entry_in:
  assumes "link_ok d l"
  shows "link_entry d l \<in> set (dict_entries d)"
proof -
  obtain t i n where l: "l = (t, i, n)" by (cases l) auto
  have "ht_table (get_ht d t) ! i \<in> set (ht_table (get_ht d t))" using assms l by (simp add: link_ok_def)
  moreover have "link_entry d l \<in> set (chain (ht_table (get_ht d t) ! i))"
    using assms l by (simp add: link_ok_def link_entry_def)
  ultimately have "link_entry d l \<in> set (ht_entries (get_ht d t))" by (auto simp: ht_entries_def)
  then show ?thesis by (auto simp: dict_entries_def get_ht_def split: if_splits)
qed

lemma dict_inv_get_ht: "dict_inv T d \<Longrightarrow> ht_wf T (get_ht d t)"
  by (simp add: dict_inv_def get_ht_def)


lemma mset_swap:
  assumes "a + c = h + c'" and "c' + x = c + k"
  shows "a + x = h + (k :: 'a multiset)"
proof -
  have "a + x + c = h + (c' + x)" using assms(1) by (metis add.assoc add.commute)
  then show ?thesis using assms(2) by (simp add: ac_simps)
qed

text \<open>Replacing what a link points to: \<open>kvs\<close> is what the entry becomes.\<close>

lemma link_update_ok:
  assumes inv: "dict_inv T d" and l: "link_ok d (t, i, n)"
    and f: "\<And>de k v. de \<noteq> ENull \<Longrightarrow> chain_shape (no_value T) de \<Longrightarrow>
      chain de = link_entry d (t, i, n) # chain (dictGetNext de) \<Longrightarrow>
      \<exists>de'. f de = Some de' \<and> chain_shape (no_value T) de' \<and> chain de' = kvs @ chain (dictGetNext de)"
    and kvs: "\<forall>kv\<in>set kvs. dictHashKey T (fst kv) True = dictHashKey T (fst (link_entry d (t, i, n))) True"
  shows "\<exists>c. link_update d (t, i, n) f =
      Some (set_ht d t ((get_ht d t)\<lparr>ht_table := (ht_table (get_ht d t))[i := c]\<rparr>)) \<and>
    bucket_ok T (ht_size_exp (get_ht d t)) i c \<and>
    length (chain c) + 1 = length (chain (ht_table (get_ht d t) ! i)) + length kvs \<and>
    mset (concat (map chain ((ht_table (get_ht d t))[i := c]))) + {#link_entry d (t, i, n)#} =
      mset (ht_entries (get_ht d t)) + mset kvs"
proof -
  let ?h = "get_ht d t"
  let ?c = "ht_table ?h ! i"
  have i: "i < length (ht_table ?h)" and n: "n < length (chain ?c)"
    using l by (simp_all add: link_ok_def)
  have ok: "bucket_ok T (ht_size_exp ?h) i ?c"
    using dict_inv_get_ht [OF inv] i by (rule ht_wf_bucket)
  then have shape: "chain_shape (no_value T) ?c" by (simp add: bucket_ok_def)
  have dn: "drop n (chain ?c) = link_entry d (t, i, n) # drop (Suc n) (chain ?c)"
    using n by (simp add: link_entry_def Cons_nth_drop_Suc)
  have upd: "\<exists>de'. f de = Some de' \<and> chain_shape (no_value T) de' \<and>
      chain de' = kvs @ drop (Suc n) (chain ?c)"
    if "de \<noteq> ENull" "chain_shape (no_value T) de" "chain de = drop n (chain ?c)" for de
  proof -
    have "chain (dictGetNext de) = drop (Suc n) (chain ?c)" using that(3) dn by (simp add: chain_next)
    then show ?thesis using f [OF that(1,2)] that(3) dn by simp
  qed
  have "\<exists>c. chain_update ?c n f = Some c \<and> chain_shape (no_value T) c \<and>
      chain c = take n (chain ?c) @ (kvs @ drop (Suc n) (chain ?c))"
    by (rule chain_update_ok [OF n shape]) (rule upd)
  then obtain c where c: "chain_update ?c n f = Some c" "chain_shape (no_value T) c"
      "chain c = take n (chain ?c) @ (kvs @ drop (Suc n) (chain ?c))"
    by (elim exE conjE)
  have "link_entry d (t, i, n) \<in> set (chain ?c)" using n by (simp add: link_entry_def)
  then have "hash_index (dictHashKey T (fst kv) True) (ht_size_exp ?h) = i" if "kv \<in> set (chain c)" for kv
    using that ok kvs c(3) by (auto simp: bucket_ok_def dest: in_set_takeD in_set_dropD)
  then have bok: "bucket_ok T (ht_size_exp ?h) i c" using c(2) by (simp add: bucket_ok_def)
  have ch: "chain ?c = take n (chain ?c) @ link_entry d (t, i, n) # drop (Suc n) (chain ?c)"
    using dn by (metis append_take_drop_id)
  have "mset (chain c) + {#link_entry d (t, i, n)#} = mset (chain ?c) + mset kvs"
    using c(3) arg_cong [OF ch, of mset] by simp
  moreover from this have "length (chain c) + 1 = length (chain ?c) + length kvs"
    by (metis size_mset size_single size_union)
  moreover have "mset (concat (map chain ((ht_table ?h)[i := c]))) + mset (chain ?c) =
      mset (ht_entries ?h) + mset (chain c)"
    using mset_concat_update [OF i] by (simp add: ht_entries_def)
  then have "mset (concat (map chain ((ht_table ?h)[i := c]))) + {#link_entry d (t, i, n)#} =
      mset (ht_entries ?h) + mset kvs"
    using calculation(1) by (rule mset_swap)
  ultimately show ?thesis using c(1) i bok by (intro exI [of _ c]) (simp add: link_update_def)
qed

section \<open>Lookup\<close>

lemma entries_of_bucket:
  assumes wf: "ht_wf T h" and kv: "kv \<in> set (ht_entries h)"
    and hash: "dictHashKey T (fst kv) True = hash"
  shows "hash_index hash (ht_size_exp h) < length (ht_table h)"
    and "kv \<in> set (chain (ht_table h ! hash_index hash (ht_size_exp h)))"
proof -
  obtain c where "c \<in> set (ht_table h)" "kv \<in> set (chain c)"
    using kv by (auto simp: ht_entries_def)
  then obtain i where i: "i < length (ht_table h)" "kv \<in> set (chain (ht_table h ! i))"
    by (metis in_set_conv_nth)
  then have "hash_index hash (ht_size_exp h) = i"
    using ht_wf_bucket [OF wf i(1)] hash by (auto simp: bucket_ok_def)
  with i show "hash_index hash (ht_size_exp h) < length (ht_table h)"
    and "kv \<in> set (chain (ht_table h ! hash_index hash (ht_size_exp h)))" by auto
qed

text \<open>The search of a bucket of one table.\<close>

lemma search_bucket_ok:
  fixes norm :: "'k \<Rightarrow> 'c"
  assumes T: "dictType_ok T norm" and wf: "ht_wf T (get_ht d t)"
    and i: "i = hash_index (dictHashKey T key f) (ht_size_exp (get_ht d t))"
    and acc: "null_ok \<or> 0 \<le> ht_size_exp (get_ht d t)"
  shows "\<exists>r. search_bucket null_ok T d key t i = Some r \<and>
    (case r of
       None \<Rightarrow> \<forall>kv\<in>set (ht_entries (get_ht d t)). norm (fst kv) \<noteq> norm key
     | Some n \<Rightarrow> link_ok d (t, i, n) \<and> norm (fst (link_entry d (t, i, n))) = norm key)"
proof (cases "ht_table (get_ht d t) = []")
  case True
  then have "ht_size_exp (get_ht d t) = -1"
    using wf by (auto simp: ht_wf_def DICTHT_SIZE_def split: if_splits)
  then show ?thesis using True i acc by (auto simp: search_bucket_def ht_entries_def)
next
  case False
  let ?h = "get_ht d t"
  have e: "0 \<le> ht_size_exp ?h"
  proof (rule ccontr)
    assume "\<not> 0 \<le> ht_size_exp ?h"
    then have "ht_size_exp ?h = -1" using wf by (simp add: ht_wf_def)
    then show False using wf False by (simp add: ht_wf_def DICTHT_SIZE_def)
  qed
  have il: "i < length (ht_table ?h)" using ht_wf_index [OF wf e] i by simp
  have eq: "search_bucket null_ok T d key t i = Some (chain_find (key_matches T d key) (ht_table ?h ! i))"
    using il False by (simp add: search_bucket_def)
  have m: "key_matches T d key k \<longleftrightarrow> norm k = norm key" for k
    using T by (auto simp: dictType_ok_def)
  show ?thesis
  proof (cases "chain_find (key_matches T d key) (ht_table ?h ! i)")
    case None
    have "norm (fst kv) \<noteq> norm key" if kv: "kv \<in> set (ht_entries ?h)" for kv
    proof
      assume same: "norm (fst kv) = norm key"
      then have "dictHashKey T (fst kv) True = dictHashKey T key f"
        using T by (simp add: dictType_ok_def)
      then have "kv \<in> set (chain (ht_table ?h ! i))"
        using entries_of_bucket(2) [OF wf kv] i by simp
      then show False using chain_find_None [OF None] m same by auto
    qed
    then show ?thesis using eq None by simp
  next
    case (Some n)
    then show ?thesis
      using chain_find_Some [OF Some] eq il m by (simp add: link_ok_def link_entry_def)
  qed
qed

text \<open>The search of both tables. A bucket of the first table may be skipped only if it was moved.\<close>

lemma search_tables_ok:
  fixes norm :: "'k \<Rightarrow> 'c"
  assumes T: "dictType_ok T norm" and inv: "dict_inv T d"
    and idx: "int idx < rehashidx d \<Longrightarrow> idx = hash_index (dictHashKey T key f) (ht_size_exp (ht0 d))"
    and acc: "null_ok \<or> 0 \<le> ht_size_exp (ht0 d)"
  defines "ins \<equiv> (if dictIsRehashing d then 1 else 0)"
  shows "\<exists>l i. search_tables null_ok T d key (dictHashKey T key f) idx = Some (l, i) \<and>
    (case l of
       None \<Rightarrow> (\<forall>kv\<in>set (dict_entries d). norm (fst kv) \<noteq> norm key) \<and>
         i = hash_index (dictHashKey T key f) (ht_size_exp (get_ht d ins))
     | Some l \<Rightarrow> link_ok d l \<and> norm (fst (link_entry d l)) = norm key)"
proof -
  let ?hash = "dictHashKey T key f"
  let ?i0 = "hash_index ?hash (ht_size_exp (ht0 d))" and ?i1 = "hash_index ?hash (ht_size_exp (ht1 d))"
  have g: "get_ht d 0 = ht0 d" "get_ht d 1 = ht1 d" by (simp_all add: get_ht_def)
  have wf: "ht_wf T (ht0 d)" "ht_wf T (ht1 d)" using inv by (simp_all add: dict_inv_def)
  obtain r0 where r0: "search_bucket null_ok T d key 0 ?i0 = Some r0"
      "case r0 of None \<Rightarrow> \<forall>kv\<in>set (ht_entries (ht0 d)). norm (fst kv) \<noteq> norm key
       | Some n \<Rightarrow> link_ok d (0, ?i0, n) \<and> norm (fst (link_entry d (0, ?i0, n))) = norm key"
    using search_bucket_ok [OF T, of d 0 ?i0 key f null_ok, unfolded g] wf acc by blast
  have r1: "\<exists>r1. search_bucket null_ok T d key 1 ?i1 = Some r1 \<and>
      (case r1 of None \<Rightarrow> \<forall>kv\<in>set (ht_entries (ht1 d)). norm (fst kv) \<noteq> norm key
       | Some n \<Rightarrow> link_ok d (1, ?i1, n) \<and> norm (fst (link_entry d (1, ?i1, n))) = norm key)"
    if "dictIsRehashing d"
    using search_bucket_ok [OF T, of d 1 ?i1 key f null_ok, unfolded g] wf
      dict_inv_rehashing(4) [OF inv that] by blast
  show ?thesis
  proof (cases "int idx < rehashidx d")
    case True
    then have reh: "dictIsRehashing d" by (auto simp: dictIsRehashing_def)
    then obtain r1 where r1: "search_bucket null_ok T d key 1 ?i1 = Some r1"
        "case r1 of None \<Rightarrow> \<forall>kv\<in>set (ht_entries (ht1 d)). norm (fst kv) \<noteq> norm key
         | Some n \<Rightarrow> link_ok d (1, ?i1, n) \<and> norm (fst (link_entry d (1, ?i1, n))) = norm key"
      using r1 by blast
    have "ht_table (ht0 d) ! ?i0 = ENull"
      using idx [OF True] True dict_inv_rehashing(7) [OF inv reh, of idx] by simp
    then have "norm (fst kv) \<noteq> norm key" if "kv \<in> set (ht_entries (ht0 d))" for kv
      using entries_of_bucket(2) [OF wf(1) that, of ?hash] T by (auto simp: dictType_ok_def)
    then show ?thesis
      using True r1 reh g by (cases r1) (auto simp: search_tables_def Let_def ins_def dict_entries_def)
  next
    case False
    show ?thesis
    proof (cases r0)
      case (Some n)
      then show ?thesis using False r0 by (simp add: search_tables_def Let_def)
    next
      case None
      show ?thesis
      proof (cases "dictIsRehashing d")
        case True
        then obtain r1 where r1: "search_bucket null_ok T d key 1 ?i1 = Some r1"
            "case r1 of None \<Rightarrow> \<forall>kv\<in>set (ht_entries (ht1 d)). norm (fst kv) \<noteq> norm key
             | Some n \<Rightarrow> link_ok d (1, ?i1, n) \<and> norm (fst (link_entry d (1, ?i1, n))) = norm key"
          using r1 by blast
        then show ?thesis
          using False None r0 True g
          by (cases r1) (auto simp: search_tables_def Let_def ins_def dict_entries_def)
      next
        case nreh: False
        then have "ht1 d = dictReset" using inv by (simp add: dict_inv_def)
        then show ?thesis
          using False None r0 nreh g by (simp add: search_tables_def Let_def ins_def dict_entries_def)
      qed
    qed
  qed
qed

lemma set_step: "dict_step d d' \<Longrightarrow> set (dict_entries d') = set (dict_entries d)"
  unfolding dict_step_def by (metis set_mset_mset)

lemma step_index:
  assumes "d' = d \<or> moved T d d' \<or> \<not> dictIsRehashing d'"
    and "int (hash_index h (ht_size_exp (ht0 d))) < rehashidx d'"
  shows "hash_index h (ht_size_exp (ht0 d)) = hash_index h (ht_size_exp (ht0 d'))"
  using assms by (auto simp: moved_def dictIsRehashing_def)

text \<open>What a lookup finds: a link of an entry with the key, or the fact that there is none.\<close>

definition found :: "('k \<Rightarrow> 'c) \<Rightarrow> ('k, 'v) dict \<Rightarrow> 'k \<Rightarrow> link option \<Rightarrow> bool" where
  "found norm d key r \<longleftrightarrow> (case r of
       None \<Rightarrow> \<forall>kv\<in>set (dict_entries d). norm (fst kv) \<noteq> norm key
     | Some l \<Rightarrow> link_ok d l \<and> norm (fst (link_entry d l)) = norm key)"

lemma dictSize_entries: "dict_inv T d \<Longrightarrow> dictSize d = length (dict_entries d)"
  by (simp add: dictSize_def dict_entries_def dict_inv_def ht_wf_def)

lemma dictFindLinkInternal_ok:
  assumes T: "dictType_ok T norm" and inv: "dict_inv T d"
  shows "\<exists>l b d'. dictFindLinkInternal T cr d key want = Some (l, b, d') \<and> dict_inv T d' \<and>
    dict_step d d' \<and> found norm d' key l \<and>
    (want \<and> l = None \<and> 0 \<le> ht_size_exp (ht0 d') \<longrightarrow> b = Some
       (let t = (if dictIsRehashing d' then 1 else 0)
        in (t, hash_index (dictHashKey T key (useStoredKeyApi d)) (ht_size_exp (get_ht d' t)))))"
proof (cases "\<not> want \<and> dictSize d = 0")
  case True
  then have "dict_entries d = []" using dictSize_entries [OF inv] by simp
  then show ?thesis using True inv by (simp add: dictFindLinkInternal_def found_def)
next
  case False
  let ?hash = "dictHashKey T key (useStoredKeyApi d)"
  let ?idx = "hash_index ?hash (ht_size_exp (ht0 d))"
  obtain d' where d': "dictRehashStepIfNeeded T cr d ?idx = Some d'" "dict_inv T d'" "dict_step d d'"
      "d' = d \<or> moved T d d' \<or> \<not> dictIsRehashing d'"
    using dictRehashStepIfNeeded_ok [OF inv] by blast
  obtain l i where l: "search_tables True T d' key ?hash ?idx = Some (l, i)" "found norm d' key l"
      "l = None \<Longrightarrow> i = hash_index ?hash (ht_size_exp (get_ht d' (if dictIsRehashing d' then 1 else 0)))"
    using search_tables_ok [OF T d'(2), of ?idx key "useStoredKeyApi d" True] step_index [OF d'(4)]
    unfolding found_def by (auto split: option.splits)
  have tab: "ht_table (get_ht d' t) \<noteq> []" if "0 \<le> ht_size_exp (ht0 d')" "t = (if dictIsRehashing d' then 1 else 0)" for t
  proof -
    have "0 \<le> ht_size_exp (get_ht d' t)"
      using that d'(2) dict_inv_rehashing(4) [OF d'(2)] by (auto simp: get_ht_def)
    then show ?thesis
      using dict_inv_get_ht [OF d'(2), of t] by (auto simp: ht_wf_def DICTHT_SIZE_def split: if_splits)
  qed
  show ?thesis
    using False d' l tab unfolding dictFindLinkInternal_def Let_def by auto
qed

lemma chain_shape_at: "chain_shape nv c \<Longrightarrow> chain_shape nv (chain_at c n)"
  by (induction n arbitrary: c) (auto simp: chain_shape_next)

lemma dictFind_ok:
  assumes T: "dictType_ok T norm" and inv: "dict_inv T d"
  shows "\<exists>de d'. dictFind T cr d key = Some (de, d') \<and> dict_inv T d' \<and> dict_step d d' \<and>
    (if de = ENull then \<forall>kv\<in>set (dict_entries d). norm (fst kv) \<noteq> norm key
     else chain_shape (no_value T) de \<and> hd (chain de) \<in> set (dict_entries d) \<and> norm (fst (hd (chain de))) = norm key)"
proof (cases "dictSize d = 0")
  case True
  then have "dict_entries d = []" using dictSize_entries [OF inv] by simp
  then show ?thesis using True inv by (simp add: dictFind_def dictFindLink_def)
next
  case False
  obtain l b d' where r: "dictFindLinkInternal T cr d key False = Some (l, b, d')" "dict_inv T d'"
      "dict_step d d'" "found norm d' key l"
    using dictFindLinkInternal_ok [OF T inv] by blast
  note set = set_step [OF r(3)]
  show ?thesis
  proof (cases l)
    case None
    then show ?thesis using r False set by (simp add: dictFind_def dictFindLink_def found_def)
  next
    case (Some lk)
    obtain t i n where lk: "lk = (t, i, n)" by (cases lk) auto
    have ok: "i < length (ht_table (get_ht d' t))" "n < length (chain (ht_table (get_ht d' t) ! i))"
        "norm (fst (link_entry d' lk)) = norm key"
      using r(4) Some lk by (simp_all add: found_def link_ok_def)
    let ?de = "chain_at (ht_table (get_ht d' t) ! i) n"
    have ch: "chain ?de = link_entry d' lk # drop (Suc n) (chain (ht_table (get_ht d' t) ! i))"
      using ok(2) lk by (simp add: chain_at_drop link_entry_def Cons_nth_drop_Suc)
    then have "?de \<noteq> ENull" by auto
    moreover have "link_entry d' lk \<in> set (dict_entries d)"
      using link_entry_in [of d' lk] r(4) Some set by (simp add: found_def)
    moreover have "chain_shape (no_value T) ?de"
      using ht_wf_bucket [OF dict_inv_get_ht [OF r(2)] ok(1)] by (simp add: bucket_ok_def chain_shape_at)
    ultimately show ?thesis
      using r False Some lk ok ch by (simp add: dictFind_def dictFindLink_def link_get_def)
  qed
qed

section \<open>Updates of a bucket\<close>

definition same_settings :: "('k, 'v) dict \<Rightarrow> ('k, 'v) dict \<Rightarrow> bool" where
  "same_settings d d' \<longleftrightarrow> useStoredKeyApi d' = useStoredKeyApi d \<and> pauserehash d' = pauserehash d \<and>
     pauseAutoResize d' = pauseAutoResize d"

lemma dict_step_settings: "dict_step d d' \<longleftrightarrow> mset (dict_entries d') = mset (dict_entries d) \<and> same_settings d d'"
  by (auto simp: dict_step_def same_settings_def)

lemma same_settings_set_ht [simp]: "same_settings d (set_ht d' t h) = same_settings d d'"
  by (simp add: same_settings_def set_ht_def)

lemma same_settings_trans: "same_settings d d' \<Longrightarrow> same_settings d' d'' \<Longrightarrow> same_settings d d''"
  by (simp add: same_settings_def)

lemma dict_inv_bucket:
  assumes inv: "dict_inv T d" and i: "i < length (ht_table (get_ht d t))"
    and c: "bucket_ok T (ht_size_exp (get_ht d t)) i c"
    and n: "n + length (chain (ht_table (get_ht d t) ! i)) = ht_used (get_ht d t) + length (chain c)"
    and pos: "ht_table (get_ht d t) ! i \<noteq> ENull \<or> t = (if dictIsRehashing d then 1 else 0)"
  shows "dict_inv T (set_ht d t ((get_ht d t)\<lparr>ht_table := (ht_table (get_ht d t))[i := c], ht_used := n\<rparr>))"
    (is "dict_inv T ?d")
proof -
  have wf: "ht_wf T ((get_ht d t)\<lparr>ht_table := (ht_table (get_ht d t))[i := c], ht_used := n\<rparr>)"
    using ht_wf_update [OF dict_inv_get_ht [OF inv] i c n] .
  show ?thesis
  proof (cases "dictIsRehashing d")
    case False
    then have "ht1 d = dictReset" using inv by (simp add: dict_inv_def)
    then have "t = 0" using i by (auto simp: get_ht_def dictReset_def split: if_splits)
    then show ?thesis
      using False wf inv by (simp add: dict_inv_def set_ht_def get_ht_def dictIsRehashing_def)
  next
    case True
    note r = dict_inv_rehashing [OF inv True]
    show ?thesis
    proof (cases "t = 0")
      case False
      then show ?thesis
        using True wf inv by (simp add: dict_inv_def set_ht_def get_ht_def dictIsRehashing_def)
    next
      case t0: True
      then have ge: "\<not> i < nat (rehashidx d)" using pos r(7) [of i] True by (auto simp: get_ht_def)
      then have "(ht_table (ht0 d))[i := c] ! j = ENull" if "j < nat (rehashidx d)" for j
        using r(7) [OF that] that by (cases "i = j") auto
      then show ?thesis
        using t0 True wf inv by (simp add: dict_inv_def set_ht_def get_ht_def dictIsRehashing_def)
    qed
  qed
qed

lemma mset_set_ht: "mset (dict_entries (set_ht d t h)) + mset (ht_entries (get_ht d t)) = mset (dict_entries d) + mset (ht_entries h)"
  by (auto simp: dict_entries_def set_ht_def get_ht_def ac_simps)


text \<open>Replacing the entry of a link by \<open>kvs\<close> (none or one entry) and adjusting the counter.\<close>

lemma link_replace_ok:
  assumes inv: "dict_inv T d" and l: "link_ok d (t, i, n)"
    and f: "\<And>de. de \<noteq> ENull \<Longrightarrow> chain_shape (no_value T) de \<Longrightarrow>
      chain de = link_entry d (t, i, n) # chain (dictGetNext de) \<Longrightarrow>
      \<exists>de'. f de = Some de' \<and> chain_shape (no_value T) de' \<and> chain de' = kvs @ chain (dictGetNext de)"
    and kvs: "\<forall>kv\<in>set kvs. dictHashKey T (fst kv) True = dictHashKey T (fst (link_entry d (t, i, n))) True"
  shows "\<exists>h. link_update d (t, i, n) f = Some (set_ht d t h) \<and> ht_used h = ht_used (get_ht d t) \<and>
    0 < ht_used h \<and>
    (\<forall>u. u + 1 = ht_used h + length kvs \<longrightarrow> dict_inv T (set_ht d t (h\<lparr>ht_used := u\<rparr>)) \<and>
      mset (dict_entries (set_ht d t (h\<lparr>ht_used := u\<rparr>))) + {#link_entry d (t, i, n)#} =
        mset (dict_entries d) + mset kvs)"
proof -
  let ?g = "get_ht d t"
  have i: "i < length (ht_table ?g)" and n: "n < length (chain (ht_table ?g ! i))"
    using l by (simp_all add: link_ok_def)
  obtain c where c: "link_update d (t, i, n) f = Some (set_ht d t (?g\<lparr>ht_table := (ht_table ?g)[i := c]\<rparr>))"
      "bucket_ok T (ht_size_exp ?g) i c" "length (chain c) + 1 = length (chain (ht_table ?g ! i)) + length kvs"
      "mset (concat (map chain ((ht_table ?g)[i := c]))) + {#link_entry d (t, i, n)#} =
        mset (ht_entries ?g) + mset kvs"
    using link_update_ok [OF inv l f kvs] by blast
  have "ht_table ?g ! i \<noteq> ENull" using n by auto
  then have inv': "dict_inv T (set_ht d t (?g\<lparr>ht_table := (ht_table ?g)[i := c], ht_used := u\<rparr>))"
    if "u + 1 = ht_used ?g + length kvs" for u
    using that c(3) by (intro dict_inv_bucket [OF inv i c(2)]) auto
  have "mset (dict_entries (set_ht d t (?g\<lparr>ht_table := (ht_table ?g)[i := c], ht_used := u\<rparr>))) +
      {#link_entry d (t, i, n)#} = mset (dict_entries d) + mset kvs" for u
  proof (rule mset_swap)
    let ?h = "?g\<lparr>ht_table := (ht_table ?g)[i := c], ht_used := u\<rparr>"
    show "mset (dict_entries (set_ht d t ?h)) + mset (ht_entries ?g) =
        mset (dict_entries d) + mset (ht_entries ?h)" by (rule mset_set_ht)
    show "mset (ht_entries ?h) + {#link_entry d (t, i, n)#} = mset (ht_entries ?g) + mset kvs"
      using c(4) by (simp add: ht_entries_def)
  qed
  moreover have "0 < ht_used ?g"
  proof -
    have "length (chain (ht_table ?g ! i)) \<le> length (ht_entries ?g)"
      using length_concat_update [OF i, of chain ENull] by (simp add: ht_entries_def)
    then show ?thesis using n dict_inv_get_ht [OF inv, of t] by (auto simp: ht_wf_def)
  qed
  ultimately show ?thesis using c(1) inv' by auto
qed

section \<open>Insertion\<close>

lemma dictInsertKeyAtLink_ok:
  assumes inv: "dict_inv T d" and e0: "0 \<le> ht_size_exp (ht0 d)"
    and t: "t = (if dictIsRehashing d then 1 else 0)"
    and i: "i = hash_index (dictHashKey T key True) (ht_size_exp (get_ht d t))"
  shows "\<exists>d'. dictInsertKeyAtLink T d key (t, i) = Some ((t, i, 0), d') \<and> dict_inv T d' \<and>
    same_settings d d' \<and> mset (dict_entries d') = add_mset (key, None) (mset (dict_entries d)) \<and>
    link_ok d' (t, i, 0) \<and> link_entry d' (t, i, 0) = (key, None)"
proof -
  let ?g = "get_ht d t"
  let ?old = "ht_table ?g ! i"
  have wf: "ht_wf T ?g" by (rule dict_inv_get_ht [OF inv])
  have e: "0 \<le> ht_size_exp ?g"
    using t e0 dict_inv_rehashing(4) [OF inv] by (auto simp: get_ht_def)
  have il: "i < length (ht_table ?g)" using ht_wf_index [OF wf e] i by simp
  define entry where "entry = (if no_value T then (if ?old = ENull then EKey key else ENoValue key ?old)
    else ENormal key None ?old)"
  have ch: "chain entry = (key, None) # chain ?old" by (simp add: entry_def)
  have "chain_shape (no_value T) entry"
    using ht_wf_bucket [OF wf il] by (cases "no_value T") (simp_all add: entry_def bucket_ok_def)
  then have ok: "bucket_ok T (ht_size_exp ?g) i entry"
    using ht_wf_bucket [OF wf il] ch i by (simp add: bucket_ok_def)
  let ?h = "?g\<lparr>ht_table := (ht_table ?g)[i := entry], ht_used := ht_used ?g + 1\<rparr>"
  have "dict_inv T (set_ht d t ?h)"
    using t ch by (intro dict_inv_bucket [OF inv il ok]) auto
  moreover have "mset (ht_entries ?h) = add_mset (key, None) (mset (ht_entries ?g))"
    using mset_concat_update [OF il, of chain entry] ch by (simp add: ht_entries_def)
  then have "mset (dict_entries (set_ht d t ?h)) = add_mset (key, None) (mset (dict_entries d))"
    using mset_set_ht [of d t ?h] by simp
  moreover have "\<not> i > DICTHT_SIZE_MASK (ht_size_exp ?g)"
    using il wf e by (simp add: ht_wf_def DICTHT_SIZE_MASK_def)
  then have "dictInsertKeyAtLink T d key (t, i) = Some ((t, i, 0), set_ht d t ?h)"
    using il t by (simp add: dictInsertKeyAtLink_def Let_def entry_def)
  moreover have "same_settings d (set_ht d t ?h)" by (simp add: same_settings_def set_ht_def)
  moreover have "entry \<noteq> ENull" using ch by auto
  ultimately show ?thesis
    using il ch by (simp add: link_ok_def link_entry_def)
qed


text \<open>An operation on a well-formed dictionary that replaces the entries \<open>old\<close> by \<open>new\<close>.\<close>

definition dict_change :: "('k, 'v) dictType \<Rightarrow> ('k \<Rightarrow> 'c) \<Rightarrow> ('k, 'v) dict \<Rightarrow>
    ('k \<times> 'v option) multiset \<Rightarrow> ('k \<times> 'v option) multiset \<Rightarrow> ('k, 'v) dict \<Rightarrow> bool" where
  "dict_change T norm d old new d' \<longleftrightarrow> dict_wf T norm d' \<and> same_settings d d' \<and>
     mset (dict_entries d') + old = mset (dict_entries d) + new"

lemma dict_changeI:
  assumes wf: "dict_wf T norm d" and inv: "dict_inv T d'" and s: "same_settings d d'"
    and ms: "mset (dict_entries d') + old = mset (dict_entries d) + new"
    and keys: "image_mset (norm \<circ> fst) new = image_mset (norm \<circ> fst) old \<or>
      old = {#} \<and> (\<exists>kv. new = {#kv#} \<and> (\<forall>kv'\<in>set (dict_entries d). norm (fst kv') \<noteq> norm (fst kv))) \<or>
      new = {#}"
  shows "dict_change T norm d old new d'"
proof -
  let ?k = "norm \<circ> fst"
  have im: "image_mset ?k (mset (dict_entries d')) + image_mset ?k old =
      image_mset ?k (mset (dict_entries d)) + image_mset ?k new"
    using arg_cong [OF ms, of "image_mset ?k"] by simp
  have dist: "distinct (map ?k (dict_entries d))" using wf by (simp add: dict_wf_def)
  from keys have "distinct (map ?k (dict_entries d'))"
  proof (elim disjE conjE exE)
    assume "image_mset ?k new = image_mset ?k old"
    then have "mset (map ?k (dict_entries d')) = mset (map ?k (dict_entries d))" using im by simp
    then show ?thesis using dist mset_eq_imp_distinct_iff by blast
  next
    fix kv
    assume "old = {#}" and new: "new = {#kv#}"
      and fresh: "\<forall>kv'\<in>set (dict_entries d). norm (fst kv') \<noteq> norm (fst kv)"
    then have "mset (map ?k (dict_entries d')) = mset (?k kv # map ?k (dict_entries d))" using im by simp
    moreover have "distinct (?k kv # map ?k (dict_entries d))" using dist fresh by fastforce
    ultimately show ?thesis using mset_eq_imp_distinct_iff by blast
  next
    assume "new = {#}"
    obtain zs where "mset zs = image_mset ?k old" using ex_mset by blast
    then have "mset (map ?k (dict_entries d') @ zs) = mset (map ?k (dict_entries d))"
      using im \<open>new = {#}\<close> by simp
    then have "distinct (map ?k (dict_entries d') @ zs)" using dist mset_eq_imp_distinct_iff by blast
    then show ?thesis by simp
  qed
  then show ?thesis using inv s ms by (simp add: dict_change_def dict_wf_def)
qed

lemma dictAddRaw_ok:
  fixes norm :: "'k \<Rightarrow> 'c"
  assumes T: "dictType_ok T norm" and wf: "dict_wf T norm d"
    and room: "pauseAutoResize d \<le> 0 \<or> 0 \<le> ht_size_exp (ht0 d)"
  shows "\<exists>r d'. dictAddRaw T cr d key = Some (r, d') \<and>
    (case r of
       Inl l \<Rightarrow> dict_change T norm d {#} {#} d' \<and> link_ok d' l \<and> norm (fst (link_entry d' l)) = norm key
     | Inr l \<Rightarrow> dict_change T norm d {#} {#(dup_key T key, None)#} d' \<and> link_ok d' l \<and>
         link_entry d' l = (dup_key T key, None) \<and>
         (\<forall>kv\<in>set (dict_entries d). norm (fst kv) \<noteq> norm key))"
proof -
  let ?hash = "dictHashKey T key (useStoredKeyApi d)"
  let ?idx = "hash_index ?hash (ht_size_exp (ht0 d))"
  have inv: "dict_inv T d" using wf by (simp add: dict_wf_def)
  obtain d1 where d1: "dictRehashStepIfNeeded T cr d ?idx = Some d1" "dict_inv T d1" "dict_step d d1"
      "d1 = d \<or> moved T d d1 \<or> \<not> dictIsRehashing d1"
      "0 \<le> ht_size_exp (ht0 d) \<longrightarrow> 0 \<le> ht_size_exp (ht0 d1)"
    using dictRehashStepIfNeeded_ok [OF inv] by blast
  have room1: "pauseAutoResize d1 \<le> 0 \<or> 0 \<le> ht_size_exp (ht0 d1)"
    using room d1(3,5) by (auto simp: dict_step_def)
  obtain b d2 where d2: "dictExpandIfAutoResizeAllowed T cr d1 = Some (b, d2)" "resized T d1 d2"
      "0 \<le> ht_size_exp (ht0 d2)"
    using dictExpandAuto_ok [OF d1(2) room1] by blast
  have inv2: "dict_inv T d2" and step2: "dict_step d d2"
    using d2(2) d1(3) by (auto simp: resized_def intro: dict_step_trans)
  have idx: "?idx = hash_index ?hash (ht_size_exp (ht0 d2))" if "int ?idx < rehashidx d2"
    using step_index [OF d1(4)] that d2(2) by (auto simp: resized_def)
  obtain l i where l: "search_tables False T d2 key ?hash ?idx = Some (l, i)" "found norm d2 key l"
      "l = None \<Longrightarrow> i = hash_index ?hash (ht_size_exp (get_ht d2 (if dictIsRehashing d2 then 1 else 0)))"
    using search_tables_ok [OF T inv2 idx, of False] d2(3)
    unfolding found_def by (auto split: option.splits)
  have eq: "dictFindLinkForInsert T cr d key = (case l of Some l \<Rightarrow> Some (Inl l, d2)
      | None \<Rightarrow> Some (Inr (if dictIsRehashing d2 then 1 else 0, i), d2))"
    using d1(1) d2(1) l(1) by (simp add: dictFindLinkForInsert_def Let_def)
  have keep: "dict_change T norm d {#} {#} d2"
    using step2 by (intro dict_changeI [OF wf inv2]) (simp_all add: dict_step_settings)
  show ?thesis
  proof (cases l)
    case (Some l')
    then show ?thesis using eq l(2) keep by (simp add: dictAddRaw_def found_def)
  next
    case None
    let ?k = "dup_key T key" and ?t = "if dictIsRehashing d2 then 1 else 0 :: nat"
    have fresh: "\<forall>kv\<in>set (dict_entries d). norm (fst kv) \<noteq> norm key"
      using l(2) None set_step [OF step2] by (simp add: found_def)
    have k: "norm ?k = norm key" using T by (simp add: dictType_ok_def)
    then have "dictHashKey T ?k True = ?hash" using T by (simp add: dictType_ok_def)
    then obtain d' where d': "dictInsertKeyAtLink T d2 ?k (?t, i) = Some ((?t, i, 0), d')" "dict_inv T d'"
        "same_settings d2 d'" "mset (dict_entries d') = add_mset (?k, None) (mset (dict_entries d2))"
        "link_ok d' (?t, i, 0)" "link_entry d' (?t, i, 0) = (?k, None)"
      using dictInsertKeyAtLink_ok [OF inv2 d2(3) refl, of i ?k] l(3) [OF None] by auto
    have "dict_change T norm d {#} {#(?k, None)#} d'"
      using d' step2 fresh k by (intro dict_changeI [OF wf d'(2)])
        (auto simp: dict_step_settings intro: same_settings_trans)
    then show ?thesis using eq None d' fresh by (simp add: dictAddRaw_def)
  qed
qed


text \<open>The value a setter stores.\<close>

definition dup_val :: "('k, 'v) dictType \<Rightarrow> 'v \<Rightarrow> 'v" where
  "dup_val T v = (case valDup T of None \<Rightarrow> v | Some dup \<Rightarrow> dup v)"

lemma dictSetVal_ok:
  assumes wf: "dict_wf T norm d" and l: "link_ok d l" and nv: "\<not> no_value T"
  shows "\<exists>d'. dictSetVal T d l v = Some d' \<and>
    dict_change T norm d {#link_entry d l#} {#(fst (link_entry d l), Some (dup_val T v))#} d'"
proof -
  have inv: "dict_inv T d" using wf by (simp add: dict_wf_def)
  obtain t i n where lk: "l = (t, i, n)" by (cases l) auto
  let ?f = "\<lambda>de. case de of ENormal k v' n \<Rightarrow> Some (ENormal k (Some (dup_val T v)) n) | _ \<Rightarrow> None"
  let ?kv = "(fst (link_entry d l), Some (dup_val T v))"
  have f: "\<exists>de'. ?f de = Some de' \<and> chain_shape (no_value T) de' \<and> chain de' = [?kv] @ chain (dictGetNext de)"
    if "de \<noteq> ENull" "chain_shape (no_value T) de" "chain de = link_entry d (t, i, n) # chain (dictGetNext de)" for de
    using that nv lk by (cases de) (auto dest: sym)
  have "\<exists>h. link_update d (t, i, n) ?f = Some (set_ht d t h) \<and> ht_used h = ht_used (get_ht d t) \<and>
    0 < ht_used h \<and>
    (\<forall>u. u + 1 = ht_used h + length [?kv] \<longrightarrow> dict_inv T (set_ht d t (h\<lparr>ht_used := u\<rparr>)) \<and>
      mset (dict_entries (set_ht d t (h\<lparr>ht_used := u\<rparr>))) + {#link_entry d (t, i, n)#} =
        mset (dict_entries d) + mset [?kv])"
    using l lk by (intro link_replace_ok [OF inv] f) simp_all
  then obtain h where h: "link_update d (t, i, n) ?f = Some (set_ht d t h)"
      "\<forall>u. u + 1 = ht_used h + length [?kv] \<longrightarrow> dict_inv T (set_ht d t (h\<lparr>ht_used := u\<rparr>)) \<and>
      mset (dict_entries (set_ht d t (h\<lparr>ht_used := u\<rparr>))) + {#link_entry d (t, i, n)#} =
        mset (dict_entries d) + mset [?kv]"
    by blast
  have "dict_inv T (set_ht d t h)" "mset (dict_entries (set_ht d t h)) + {#link_entry d l#} =
        mset (dict_entries d) + {#?kv#}"
    using h(2) [rule_format, of "ht_used h"] lk by simp_all
  then have "dict_change T norm d {#link_entry d l#} {#?kv#} (set_ht d t h)"
    by (intro dict_changeI [OF wf]) (simp_all add: same_settings_def set_ht_def)
  then show ?thesis
    using h(1) lk unfolding dictSetVal_def dup_val_def [symmetric] by auto
qed

lemma dict_change_trans:
  assumes "dict_change T norm d old mid d1" and "dict_change T norm d1 mid new d2"
  shows "dict_change T norm d old new d2"
proof -
  have "mset (dict_entries d2) + mid + old = mset (dict_entries d1) + old + new"
    using assms(2) by (simp add: dict_change_def ac_simps)
  also have "\<dots> = mset (dict_entries d) + mid + new" using assms(1) by (simp add: dict_change_def ac_simps)
  finally show ?thesis
    using assms by (auto simp: dict_change_def ac_simps intro: same_settings_trans)
qed

text \<open>Adding a key: either it is there and nothing changes, or the entry is new.\<close>

lemma dictAdd_ok:
  fixes norm :: "'k \<Rightarrow> 'c"
  assumes T: "dictType_ok T norm" and wf: "dict_wf T norm d"
    and room: "pauseAutoResize d \<le> 0 \<or> 0 \<le> ht_size_exp (ht0 d)"
  shows "\<exists>added d'. dictAdd T cr d key v = Some (added, d') \<and>
    (added \<longleftrightarrow> (\<forall>kv\<in>set (dict_entries d). norm (fst kv) \<noteq> norm key)) \<and>
    dict_change T norm d {#}
      (if added then {#(dup_key T key, if no_value T then None else Some (dup_val T v))#} else {#}) d'"
proof -
  obtain r d1 where r: "dictAddRaw T cr d key = Some (r, d1)"
    and cases: "case r of
       Inl l \<Rightarrow> dict_change T norm d {#} {#} d1 \<and> link_ok d1 l \<and> norm (fst (link_entry d1 l)) = norm key
     | Inr l \<Rightarrow> dict_change T norm d {#} {#(dup_key T key, None)#} d1 \<and> link_ok d1 l \<and>
         link_entry d1 l = (dup_key T key, None) \<and>
         (\<forall>kv\<in>set (dict_entries d). norm (fst kv) \<noteq> norm key)"
    using dictAddRaw_ok [OF T wf room] by blast
  show ?thesis
  proof (cases r)
    case (Inl l)
    then have l: "dict_change T norm d {#} {#} d1" "link_ok d1 l" "norm (fst (link_entry d1 l)) = norm key"
      using cases by simp_all
    then have "link_entry d1 l \<in> set (dict_entries d)"
      using link_entry_in [OF l(2)] by (auto simp: dict_change_def dest: mset_eq_setD)
    then show ?thesis using r Inl l by (auto simp: dictAdd_def)
  next
    case (Inr l)
    then have l: "dict_change T norm d {#} {#(dup_key T key, None)#} d1" "link_ok d1 l"
        "link_entry d1 l = (dup_key T key, None)" "\<forall>kv\<in>set (dict_entries d). norm (fst kv) \<noteq> norm key"
      using cases by simp_all
    show ?thesis
    proof (cases "no_value T")
      case True
      then show ?thesis using r Inr l by (auto simp: dictAdd_def)
    next
      case False
      have "dict_wf T norm d1" using l(1) by (simp add: dict_change_def)
      then obtain d2 where "dictSetVal T d1 l v = Some d2"
          "dict_change T norm d1 {#(dup_key T key, None)#} {#(dup_key T key, Some (dup_val T v))#} d2"
        using dictSetVal_ok [OF _ l(2) False] l(3) by fastforce
      then show ?thesis using r Inr l False dict_change_trans [OF l(1)] by (auto simp: dictAdd_def)
    qed
  qed
qed

lemma link_value:
  assumes inv: "dict_inv T d" and l: "link_ok d l" and nv: "\<not> no_value T"
  shows "\<exists>de. link_get d l = Some de \<and> dictGetVal de = Some (snd (link_entry d l))"
proof -
  obtain t i n where lk: "l = (t, i, n)" by (cases l) auto
  have ok: "i < length (ht_table (get_ht d t))" "n < length (chain (ht_table (get_ht d t) ! i))"
    using l lk by (simp_all add: link_ok_def)
  have "chain_shape False (ht_table (get_ht d t) ! i)"
    using ht_wf_bucket [OF dict_inv_get_ht [OF inv] ok(1)] nv by (simp add: bucket_ok_def)
  then show ?thesis
    using ok chain_at_key [OF ok(2), of False] lk by (simp add: link_get_def link_entry_def)
qed

lemma dict_change_emit [simp]: "dict_change T norm d old new (emit b e d') = dict_change T norm d old new d'"
  by (simp add: dict_change_def dict_wf_def dict_inv_def same_settings_def dictIsRehashing_def)

lemma dictReplace_ok:
  fixes norm :: "'k \<Rightarrow> 'c"
  assumes T: "dictType_ok T norm" and wf: "dict_wf T norm d"
    and room: "pauseAutoResize d \<le> 0 \<or> 0 \<le> ht_size_exp (ht0 d)" and nv: "\<not> no_value T"
  shows "\<exists>added d'. dictReplace T cr d key v = Some (added, d') \<and>
    (if added
     then (\<forall>kv\<in>set (dict_entries d). norm (fst kv) \<noteq> norm key) \<and>
       dict_change T norm d {#} {#(dup_key T key, Some (dup_val T v))#} d'
     else \<exists>kv\<in>set (dict_entries d). norm (fst kv) = norm key \<and>
       dict_change T norm d {#kv#} {#(fst kv, Some (dup_val T v))#} d')"
proof -
  obtain r d1 where r: "dictAddRaw T cr d key = Some (r, d1)"
    and cases: "case r of
       Inl l \<Rightarrow> dict_change T norm d {#} {#} d1 \<and> link_ok d1 l \<and> norm (fst (link_entry d1 l)) = norm key
     | Inr l \<Rightarrow> dict_change T norm d {#} {#(dup_key T key, None)#} d1 \<and> link_ok d1 l \<and>
         link_entry d1 l = (dup_key T key, None) \<and>
         (\<forall>kv\<in>set (dict_entries d). norm (fst kv) \<noteq> norm key)"
    using dictAddRaw_ok [OF T wf room] by blast
  show ?thesis
  proof (cases r)
    case (Inl l)
    then have l: "dict_change T norm d {#} {#} d1" "link_ok d1 l" "norm (fst (link_entry d1 l)) = norm key"
      using cases by simp_all
    have wf1: "dict_wf T norm d1" and same: "mset (dict_entries d1) = mset (dict_entries d)"
        and s1: "same_settings d d1"
      using l(1) by (simp_all add: dict_change_def)
    have mem: "link_entry d1 l \<in> set (dict_entries d)"
      using link_entry_in [OF l(2)] same by (auto dest: mset_eq_setD)
    obtain de where de: "link_get d1 l = Some de" "dictGetVal de = Some (snd (link_entry d1 l))"
      using link_value [OF _ l(2) nv] wf1 by (auto simp: dict_wf_def)
    obtain d2 where d2: "dictSetVal T d1 l v = Some d2"
        "dict_change T norm d1 {#link_entry d1 l#} {#(fst (link_entry d1 l), Some (dup_val T v))#} d2"
      using dictSetVal_ok [OF wf1 l(2) nv] by blast
    then have "dict_change T norm d {#link_entry d1 l#} {#(fst (link_entry d1 l), Some (dup_val T v))#} d2"
      using same s1 by (auto simp: dict_change_def intro: same_settings_trans)
    then show ?thesis using r Inl de d2 mem l(3) by (auto simp: dictReplace_def)
  next
    case (Inr l)
    then have l: "dict_change T norm d {#} {#(dup_key T key, None)#} d1" "link_ok d1 l"
        "link_entry d1 l = (dup_key T key, None)" "\<forall>kv\<in>set (dict_entries d). norm (fst kv) \<noteq> norm key"
      using cases by simp_all
    have "dict_wf T norm d1" using l(1) by (simp add: dict_change_def)
    then obtain d2 where "dictSetVal T d1 l v = Some d2"
        "dict_change T norm d1 {#(dup_key T key, None)#} {#(dup_key T key, Some (dup_val T v))#} d2"
      using dictSetVal_ok [OF _ l(2) nv] l(3) by fastforce
    then show ?thesis using r Inr l dict_change_trans [OF l(1)] by (auto simp: dictReplace_def)
  qed
qed


section \<open>Deletion\<close>

lemma free_entry_ok:
  assumes "dictType_ok T norm" and "de \<noteq> ENull" and "chain_shape (no_value T) de"
  shows "\<exists>ev. free_entry T de = Some ev"
  using assms by (cases de) (auto simp: free_entry_def dictType_ok_def)

lemma dict_change_trace [simp]:
  "dict_change T norm d old new (d'\<lparr>trace := tr\<rparr>) = dict_change T norm d old new d'"
  "dict_inv T (d'\<lparr>trace := tr\<rparr>) = dict_inv T d'"
  by (simp_all add: dict_change_def dict_wf_def dict_inv_def same_settings_def dictIsRehashing_def dict_entries_def)

text \<open>The entry at a link is a nonempty chain that starts with the entry.\<close>

lemma link_get_ok:
  assumes inv: "dict_inv T d" and l: "link_ok d l"
  shows "\<exists>de. link_get d l = Some de \<and> de \<noteq> ENull \<and> chain_shape (no_value T) de \<and>
    hd (chain de) = link_entry d l"
proof -
  obtain t i n where lk: "l = (t, i, n)" by (cases l) auto
  have ok: "i < length (ht_table (get_ht d t))" "n < length (chain (ht_table (get_ht d t) ! i))"
    using l lk by (simp_all add: link_ok_def)
  let ?de = "chain_at (ht_table (get_ht d t) ! i) n"
  have ch: "chain ?de = link_entry d l # drop (Suc n) (chain (ht_table (get_ht d t) ! i))"
    using ok(2) lk by (simp add: chain_at_drop link_entry_def Cons_nth_drop_Suc)
  then have "?de \<noteq> ENull" by auto
  moreover have "chain_shape (no_value T) ?de"
    using ht_wf_bucket [OF dict_inv_get_ht [OF inv] ok(1)] by (simp add: bucket_ok_def chain_shape_at)
  ultimately show ?thesis using ok ch lk by (simp add: link_get_def)
qed

text \<open>Unlinking an entry and decrementing the counter of its table.\<close>

lemma link_update_dec_used:
  "link_update (dec_used d t) (t, i, n) f = map_option (\<lambda>d. dec_used d t) (link_update d (t, i, n) f)"
  by (cases "chain_update (ht_table (get_ht d t) ! i) n f")
    (auto simp: link_update_def dec_used_def set_ht_def get_ht_def)

lemma unlink_ok:
  fixes d :: "('k, 'v) dict"
  assumes wf: "dict_wf T norm d" and l: "link_ok d (t, i, n)"
  shows "\<exists>d1. link_update d (t, i, n) (\<lambda>he. Some (dictGetNext he)) = Some d1 \<and>
    dict_change T norm d {#link_entry d (t, i, n)#} {#} (dec_used d1 t) \<and>
    link_update (dec_used d t) (t, i, n) (\<lambda>he. Some (dictGetNext he)) = Some (dec_used d1 t)"
proof -
  have inv: "dict_inv T d" using wf by (simp add: dict_wf_def)
  have "\<exists>h. link_update d (t, i, n) (\<lambda>he. Some (dictGetNext he)) = Some (set_ht d t h) \<and>
    ht_used h = ht_used (get_ht d t) \<and> 0 < ht_used h \<and>
    (\<forall>u. u + 1 = ht_used h + length ([] :: ('k \<times> 'v option) list) \<longrightarrow> dict_inv T (set_ht d t (h\<lparr>ht_used := u\<rparr>)) \<and>
      mset (dict_entries (set_ht d t (h\<lparr>ht_used := u\<rparr>))) + {#link_entry d (t, i, n)#} =
        mset (dict_entries d) + mset ([] :: ('k \<times> 'v option) list))"
    using l by (intro link_replace_ok [OF inv]) (auto simp: chain_shape_next)
  then obtain h where h: "link_update d (t, i, n) (\<lambda>he. Some (dictGetNext he)) = Some (set_ht d t h)"
      "ht_used h = ht_used (get_ht d t)" "0 < ht_used h"
      "\<forall>u. u + 1 = ht_used h \<longrightarrow> dict_inv T (set_ht d t (h\<lparr>ht_used := u\<rparr>)) \<and>
      mset (dict_entries (set_ht d t (h\<lparr>ht_used := u\<rparr>))) + {#link_entry d (t, i, n)#} = mset (dict_entries d)"
    by auto
  let ?d = "set_ht d t (h\<lparr>ht_used := ht_used h - 1\<rparr>)"
  have eq: "dec_used (set_ht d t h) t = ?d" by (simp add: dec_used_def set_ht_def get_ht_def)
  have "dict_inv T ?d" "mset (dict_entries ?d) + {#link_entry d (t, i, n)#} = mset (dict_entries d)"
    using h(3) h(4) [rule_format, of "ht_used h - 1"] by simp_all
  then have "dict_change T norm d {#link_entry d (t, i, n)#} {#} ?d"
    by (intro dict_changeI [OF wf]) (simp_all add: same_settings_def set_ht_def)
  moreover have "link_update (dec_used d t) (t, i, n) (\<lambda>he. Some (dictGetNext he)) = Some ?d"
    using h(1) eq by (simp add: link_update_dec_used)
  ultimately show ?thesis using h(1) eq by auto
qed

lemma resized_change:
  assumes "dict_change T norm d old new d1" and "resized T d1 d2"
  shows "dict_change T norm d old new d2"
  using assms dict_wf_step [of T norm d1 d2] same_settings_trans
  by (auto simp: dict_change_def resized_def dict_step_settings)

lemma dictGenericDelete_ok:
  fixes norm :: "'k \<Rightarrow> 'c"
  assumes T: "dictType_ok T norm" and wf: "dict_wf T norm d"
  shows "\<exists>he d'. dictGenericDelete T cr d key nofree = Some (he, d') \<and>
    (if he = ENull
     then (\<forall>kv\<in>set (dict_entries d). norm (fst kv) \<noteq> norm key) \<and> dict_change T norm d {#} {#} d'
     else hd (chain he) \<in> set (dict_entries d) \<and> norm (fst (hd (chain he))) = norm key \<and>
       dict_change T norm d {#hd (chain he)#} {#} d')"
proof (cases "dictSize d = 0")
  case True
  have inv: "dict_inv T d" using wf by (simp add: dict_wf_def)
  then have "dict_entries d = []" using True dictSize_entries by fastforce
  moreover have "dict_change T norm d {#} {#} d" using wf by (simp add: dict_change_def same_settings_def)
  ultimately show ?thesis using True by (simp add: dictGenericDelete_def)
next
  case False
  let ?hash = "dictHashKey T key (useStoredKeyApi d)"
  let ?idx = "hash_index ?hash (ht_size_exp (ht0 d))"
  have inv: "dict_inv T d" using wf by (simp add: dict_wf_def)
  then have ne: "dict_entries d \<noteq> []" using False dictSize_entries by fastforce
  obtain d1 where d1: "dictRehashStepIfNeeded T cr d ?idx = Some d1" "dict_inv T d1" "dict_step d d1"
      "d1 = d \<or> moved T d d1 \<or> \<not> dictIsRehashing d1"
      "0 \<le> ht_size_exp (ht0 d) \<longrightarrow> 0 \<le> ht_size_exp (ht0 d1)"
    using dictRehashStepIfNeeded_ok [OF inv] by blast
  have keep: "dict_change T norm d {#} {#} d1"
    using d1(3) by (intro dict_changeI [OF wf d1(2)]) (simp_all add: dict_step_settings)
  then have wf1: "dict_wf T norm d1" by (simp add: dict_change_def)
  have e1: "0 \<le> ht_size_exp (ht0 d1)" using d1(5) dict_inv_nonempty [OF inv ne] by simp
  obtain l i where l: "search_tables False T d1 key ?hash ?idx = Some (l, i)" "found norm d1 key l"
    using search_tables_ok [OF T d1(2), of ?idx key "useStoredKeyApi d" False] step_index [OF d1(4)] e1
    unfolding found_def by (auto split: option.splits)
  note set = set_step [OF d1(3)]
  show ?thesis
  proof (cases l)
    case None
    then show ?thesis
      using False d1(1) l keep set by (simp add: dictGenericDelete_def Let_def found_def)
  next
    case (Some lk)
    obtain t i n where lk: "lk = (t, i, n)" by (cases lk) auto
    have ok: "link_ok d1 (t, i, n)" and key: "norm (fst (link_entry d1 (t, i, n))) = norm key"
      using l(2) Some lk by (simp_all add: found_def)
    obtain he where he: "link_get d1 (t, i, n) = Some he" "he \<noteq> ENull" "chain_shape (no_value T) he"
        "hd (chain he) = link_entry d1 (t, i, n)"
      using link_get_ok [OF d1(2) ok] by blast
    obtain d2 where d2: "link_update d1 (t, i, n) (\<lambda>he. Some (dictGetNext he)) = Some d2"
        "dict_change T norm d1 {#link_entry d1 (t, i, n)#} {#} (dec_used d2 t)"
      using unlink_ok [OF wf1 ok] by blast
    obtain tr where tr: "(if nofree then Some d2 else dictFreeUnlinkedEntry T d2 he) = Some (d2\<lparr>trace := tr\<rparr>)"
      using free_entry_ok [OF T he(2,3)] he(2)
      by (cases nofree) (auto simp: dictFreeUnlinkedEntry_def intro: that [of "trace d2"])
    have dec: "dec_used (d2\<lparr>trace := tr\<rparr>) t = (dec_used d2 t)\<lparr>trace := tr\<rparr>"
      by (simp add: dec_used_def set_ht_def get_ht_def)
    have "dict_change T norm d {#link_entry d1 (t, i, n)#} {#} (dec_used d2 t)"
      using d2(2) keep by (auto simp: dict_change_def intro: same_settings_trans)
    then have change: "dict_change T norm d {#link_entry d1 (t, i, n)#} {#} (dec_used (d2\<lparr>trace := tr\<rparr>) t)"
      by (simp add: dec)
    then obtain d3 where d3: "dictShrinkIfAutoResizeAllowed T cr (dec_used (d2\<lparr>trace := tr\<rparr>) t) = Some d3"
        "resized T (dec_used (d2\<lparr>trace := tr\<rparr>) t) d3"
      using dictShrinkAuto_ok [of T "dec_used (d2\<lparr>trace := tr\<rparr>) t" cr]
      by (auto simp: dict_change_def dict_wf_def)
    have "link_entry d1 (t, i, n) \<in> set (dict_entries d)" using link_entry_in [OF ok] set by simp
    then show ?thesis
      using False d1(1) l(1) Some lk he d2(1) tr d3 key resized_change [OF change d3(2)]
      by (simp add: dictGenericDelete_def Let_def)
  qed
qed


lemma dictTwoPhaseUnlinkFind_ok:
  fixes norm :: "'k \<Rightarrow> 'c"
  assumes T: "dictType_ok T norm" and wf: "dict_wf T norm d"
  shows "\<exists>l d1. dictTwoPhaseUnlinkFind T cr d key =
      Some (l, if l = None then d1 else dictPauseRehashing d1) \<and>
    dict_change T norm d {#} {#} d1 \<and> found norm d1 key l"
proof (cases "dictSize d = 0")
  case True
  have "dict_inv T d" using wf by (simp add: dict_wf_def)
  then have "dict_entries d = []" using True dictSize_entries by fastforce
  moreover have "dict_change T norm d {#} {#} d" using wf by (simp add: dict_change_def same_settings_def)
  ultimately show ?thesis using True by (auto simp: dictTwoPhaseUnlinkFind_def found_def)
next
  case False
  have inv: "dict_inv T d" using wf by (simp add: dict_wf_def)
  then have ne: "dict_entries d \<noteq> []" using False dictSize_entries by fastforce
  obtain d1 where d1: "(if dictIsRehashing d then dictRehashStep T cr d else Some d) = Some d1"
      "dict_inv T d1" "dict_step d d1"
    using dictRehashStep_ok [OF inv, of cr] inv by (cases "dictIsRehashing d") auto
  have keep: "dict_change T norm d {#} {#} d1"
    using d1(3) by (intro dict_changeI [OF wf d1(2)]) (simp_all add: dict_step_settings)
  have "dict_entries d1 \<noteq> []" using ne d1(3) by (metis dict_step_def mset_zero_iff)
  then have e1: "0 \<le> ht_size_exp (ht0 d1)" using d1(2) dict_inv_nonempty by blast
  let ?h = "dictHashKey T key (useStoredKeyApi d1)"
  obtain l i where l: "search_tables False T d1 key ?h (hash_index ?h (ht_size_exp (ht0 d1))) = Some (l, i)"
      "found norm d1 key l"
    using search_tables_ok [OF T d1(2), of "hash_index ?h (ht_size_exp (ht0 d1))" key "useStoredKeyApi d1" False] e1
    unfolding found_def by (auto split: option.splits)
  then show ?thesis
    using False d1(1) keep by (cases l) (auto simp: dictTwoPhaseUnlinkFind_def Let_def)
qed

lemma pause_simps [simp]:
  "ht0 (dictPauseRehashing d) = ht0 d" "ht1 (dictPauseRehashing d) = ht1 d"
  "ht0 (dictResumeRehashing d) = ht0 d" "ht1 (dictResumeRehashing d) = ht1 d"
  "get_ht (dictPauseRehashing d) t = get_ht d t" "dict_entries (dictPauseRehashing d) = dict_entries d"
  "dict_entries (dictResumeRehashing d) = dict_entries d"
  "link_ok (dictPauseRehashing d) l = link_ok d l"
  "link_entry (dictPauseRehashing d) l = link_entry d l"
  "rehashidx (dictPauseRehashing d) = rehashidx d" "rehashidx (dictResumeRehashing d) = rehashidx d"
  by (simp_all add: dictPauseRehashing_def dictResumeRehashing_def get_ht_def dict_entries_def
      link_ok_def link_entry_def split: prod.splits)

lemma pause_wf [simp]:
  "dict_wf T norm (dictPauseRehashing d) = dict_wf T norm d"
  "dict_wf T norm (dictResumeRehashing d) = dict_wf T norm d"
  by (simp_all add: dict_wf_def dict_inv_def dictIsRehashing_def)

text \<open>Freeing the link that the first phase returned removes exactly the entry with the key, and
  the pause counter is what it was.\<close>

lemma dictTwoPhaseUnlinkFree_ok:
  assumes T: "dictType_ok T norm" and wf: "dict_wf T norm d" and l: "link_ok d (t, i, n)"
    and p: "pauserehash d < 2 ^ 15"
  shows "\<exists>d'. dictTwoPhaseUnlinkFree T cr (dictPauseRehashing d) (Some (t, i, n)) = Some d' \<and>
    dict_change T norm d {#link_entry d (t, i, n)#} {#} d'"
proof -
  let ?d = "dictPauseRehashing d"
  have wf': "dict_wf T norm ?d" and l': "link_ok ?d (t, i, n)" using wf l by simp_all
  obtain de where de: "link_get ?d (t, i, n) = Some de" "de \<noteq> ENull" "chain_shape (no_value T) de"
    using link_get_ok [OF _ l'] wf' by (auto simp: dict_wf_def)
  obtain d1 where d1: "dict_change T norm ?d {#link_entry ?d (t, i, n)#} {#} (dec_used d1 t)"
      "link_update (dec_used ?d t) (t, i, n) (\<lambda>he. Some (dictGetNext he)) = Some (dec_used d1 t)"
    using unlink_ok [OF wf' l'] by blast
  obtain ev where ev: "free_entry T de = Some ev" using free_entry_ok [OF T de(2,3)] by blast
  let ?d2 = "(dec_used d1 t)\<lparr>trace := trace (dec_used d1 t) @ ev\<rparr>"
  have c2: "dict_change T norm ?d {#link_entry ?d (t, i, n)#} {#} ?d2" using d1(1) by simp
  obtain d3 where d3: "dictShrinkIfAutoResizeAllowed T cr ?d2 = Some d3" "resized T ?d2 d3"
    using dictShrinkAuto_ok [of T ?d2 cr] c2 by (auto simp: dict_change_def dict_wf_def)
  have c3: "dict_change T norm ?d {#link_entry ?d (t, i, n)#} {#} d3"
    using c2 d3(2) by (rule resized_change)
  then have "pauserehash d3 = (pauserehash d + 1) mod 2 ^ 15"
    by (simp add: dict_change_def same_settings_def dictPauseRehashing_def)
  then have "pauserehash (dictResumeRehashing d3) = pauserehash d"
    using p by (simp add: dictResumeRehashing_def mod_simps)
  then have "dict_change T norm d {#link_entry d (t, i, n)#} {#} (dictResumeRehashing d3)"
    using c3 by (simp add: dict_change_def same_settings_def) (simp add: dictResumeRehashing_def dictPauseRehashing_def)
  then show ?thesis
    using de d1(2) ev d3(1) by (simp add: dictTwoPhaseUnlinkFree_def dictFreeUnlinkedEntry_def)
qed

section \<open>The dictionary as a map\<close>

definition dict_map :: "('k \<Rightarrow> 'c) \<Rightarrow> ('k, 'v) dict \<Rightarrow> 'c \<rightharpoonup> 'k \<times> 'v option" where
  "dict_map norm d = map_of (map (\<lambda>kv. (norm (fst kv), kv)) (dict_entries d))"

lemma dict_map_iff:
  "dict_wf T norm d \<Longrightarrow> dict_map norm d c = Some kv \<longleftrightarrow> kv \<in> set (dict_entries d) \<and> norm (fst kv) = c"
  by (auto simp: dict_map_def dict_wf_def comp_def intro!: map_of_is_SomeI dest!: map_of_SomeD)

lemma dict_map_None: "dict_map norm d c = None \<longleftrightarrow> (\<forall>kv\<in>set (dict_entries d). norm (fst kv) \<noteq> c)"
  by (force simp: dict_map_def map_of_eq_None_iff)

lemma map_eqI: "(\<And>c kv. m c = Some kv \<longleftrightarrow> m' c = Some kv) \<Longrightarrow> m = m'"
  by (rule ext, metis not_None_eq option.exhaust)

lemma dict_change_map:
  assumes wf: "dict_wf T norm d" and ch: "dict_change T norm d old new d'"
  shows "old = {#} \<Longrightarrow> new = {#} \<Longrightarrow> dict_map norm d' = dict_map norm d"
    and "old = {#} \<Longrightarrow> new = {#kv#} \<Longrightarrow> dict_map norm d' = (dict_map norm d)(norm (fst kv) \<mapsto> kv)"
    and "old = {#kv#} \<Longrightarrow> new = {#} \<Longrightarrow> dict_map norm d' = (dict_map norm d)(norm (fst kv) := None)"
    and "old = {#kv#} \<Longrightarrow> new = {#kv'#} \<Longrightarrow> norm (fst kv') = norm (fst kv) \<Longrightarrow> kv \<in> set (dict_entries d) \<Longrightarrow>
      dict_map norm d' = (dict_map norm d)(norm (fst kv) \<mapsto> kv')"
proof -
  have wf': "dict_wf T norm d'" and ms: "mset (dict_entries d') + old = mset (dict_entries d) + new"
    using ch by (simp_all add: dict_change_def)
  note iff = dict_map_iff [OF wf] dict_map_iff [OF wf']
  show "dict_map norm d' = dict_map norm d" if "old = {#}" "new = {#}"
    using that ms by (intro map_eqI) (auto simp: iff dest: mset_eq_setD)
  show "dict_map norm d' = (dict_map norm d)(norm (fst kv) \<mapsto> kv)" if "old = {#}" "new = {#kv#}"
  proof (rule map_eqI)
    fix c x
    have e: "mset (dict_entries d') = mset (kv # dict_entries d)" using that ms by simp
    have s: "set (dict_entries d') = insert kv (set (dict_entries d))"
      using mset_eq_setD [OF e] by simp
    have "distinct (map (norm \<circ> fst) (kv # dict_entries d))"
      using wf' e by (metis dict_wf_def mset_eq_imp_distinct_iff mset_map)
    then have "norm (fst x) \<noteq> norm (fst kv)" if "x \<in> set (dict_entries d)" for x using that by (force simp: image_iff)
    then show "dict_map norm d' c = Some x \<longleftrightarrow> ((dict_map norm d)(norm (fst kv) \<mapsto> kv)) c = Some x"
      using s by (cases x) (auto simp: iff)
  qed
  show "dict_map norm d' = (dict_map norm d)(norm (fst kv) := None)" if "old = {#kv#}" "new = {#}"
  proof (rule map_eqI)
    fix c x
    have e: "mset (dict_entries d) = mset (kv # dict_entries d')" using that ms by simp
    have s: "set (dict_entries d) = insert kv (set (dict_entries d'))"
      using mset_eq_setD [OF e] by simp
    have "distinct (map (norm \<circ> fst) (kv # dict_entries d'))"
      using wf e by (metis dict_wf_def mset_eq_imp_distinct_iff mset_map)
    then have "norm (fst x) \<noteq> norm (fst kv)" if "x \<in> set (dict_entries d')" for x using that by (force simp: image_iff)
    then show "dict_map norm d' c = Some x \<longleftrightarrow> ((dict_map norm d)(norm (fst kv) := None)) c = Some x"
      using s by (cases x) (auto simp: iff)
  qed
  show "dict_map norm d' = (dict_map norm d)(norm (fst kv) \<mapsto> kv')"
    if "old = {#kv#}" "new = {#kv'#}" "norm (fst kv') = norm (fst kv)" "kv \<in> set (dict_entries d)"
  proof (rule map_eqI)
    fix c x
    have e: "mset (kv # dict_entries d') = mset (kv' # dict_entries d)" using that ms by simp
    have s: "insert kv (set (dict_entries d')) = insert kv' (set (dict_entries d))"
      using mset_eq_setD [OF e] by simp
    have "kv' \<in> set (dict_entries d')"
      using s e that(4) by (cases "kv = kv'") (auto dest: mset_eq_setD)
    then have at: "dict_map norm d' (norm (fst kv)) = Some kv'" using iff(2) that(3) by simp
    have else: "x \<in> set (dict_entries d') \<longleftrightarrow> x \<in> set (dict_entries d)" if "norm (fst x) \<noteq> norm (fst kv)"
      using s that \<open>norm (fst kv') = norm (fst kv)\<close> by (metis insert_iff)
    show "dict_map norm d' c = Some x \<longleftrightarrow> ((dict_map norm d)(norm (fst kv) \<mapsto> kv')) c = Some x"
    proof (cases "c = norm (fst kv)")
      case True
      then show ?thesis using at by simp
    next
      case False
      then show ?thesis using else by (auto simp: iff)
    qed
  qed
qed

section \<open>The dictionary provides a map\<close>

definition dict_abs :: "('k \<Rightarrow> 'c) \<Rightarrow> ('k, 'v) dict \<Rightarrow> 'c \<rightharpoonup> 'v option" where
  "dict_abs norm d = (\<lambda>c. map_option snd (dict_map norm d c))"

text \<open>A dictionary with values, not in a section that pauses automatic resizing.\<close>

definition dict_usable :: "('k, 'v) dictType \<Rightarrow> ('k \<Rightarrow> 'c) \<Rightarrow> ('k, 'v) dict \<Rightarrow> bool" where
  "dict_usable T norm d \<longleftrightarrow>
     dictType_ok T norm \<and> \<not> no_value T \<and> dict_wf T norm d \<and> pauseAutoResize d \<le> 0"

lemma dict_usable_change:
  "dict_usable T norm d \<Longrightarrow> dict_change T norm d old new d' \<Longrightarrow> dict_usable T norm d'"
  by (simp add: dict_usable_def dict_change_def same_settings_def)

lemma dict_abs_None: "dict_abs norm d c = None \<longleftrightarrow> (\<forall>kv\<in>set (dict_entries d). norm (fst kv) \<noteq> c)"
  by (simp add: dict_abs_def dict_map_None)

lemma dict_abs_upd:
  "dict_map norm d' = (dict_map norm d)(c \<mapsto> kv) \<Longrightarrow> dict_abs norm d' = (dict_abs norm d)(c \<mapsto> snd kv)"
  "dict_map norm d' = (dict_map norm d)(c := None) \<Longrightarrow> dict_abs norm d' = (dict_abs norm d)(c := None)"
  "dict_map norm d' = dict_map norm d \<Longrightarrow> dict_abs norm d' = dict_abs norm d"
  by (auto simp: dict_abs_def)

lemma dict_step_change:
  "dict_wf T norm d \<Longrightarrow> dict_inv T d' \<Longrightarrow> dict_step d d' \<Longrightarrow> dict_change T norm d {#} {#} d'"
  by (intro dict_changeI) (simp_all add: dict_step_settings)

lemma dictFetchValue_ok:
  assumes u: "dict_usable T norm d"
  shows "\<exists>d'. dictFetchValue T cr d key = Some (dict_abs norm d (norm key), d') \<and>
    dict_change T norm d {#} {#} d'"
proof -
  have T: "dictType_ok T norm" "\<not> no_value T" "dict_wf T norm d" "dict_inv T d"
    using u by (simp_all add: dict_usable_def dict_wf_def)
  obtain de d' where d': "dictFind T cr d key = Some (de, d')" "dict_inv T d'" "dict_step d d'"
    and c: "if de = ENull then \<forall>kv\<in>set (dict_entries d). norm (fst kv) \<noteq> norm key
     else chain_shape (no_value T) de \<and> hd (chain de) \<in> set (dict_entries d) \<and>
       norm (fst (hd (chain de))) = norm key"
    using dictFind_ok [OF T(1,4)] by blast
  have ch: "dict_change T norm d {#} {#} d'" using dict_step_change [OF T(3) d'(2,3)] .
  show ?thesis
  proof (cases "de = ENull")
    case True
    then have "dict_abs norm d (norm key) = None" using c by (simp add: dict_abs_None)
    then show ?thesis using True d'(1) ch by (simp add: dictFetchValue_def)
  next
    case False
    then have m: "dict_map norm d (norm key) = Some (hd (chain de))"
      using c dict_map_iff [OF T(3)] by simp
    obtain k v n where "de = ENormal k v n" using False c T(2) by (cases de) auto
    then show ?thesis using d'(1) ch m by (simp add: dictFetchValue_def dict_abs_def)
  qed
qed

interpretation dict_map_store: map_store "dictAdd T" "dictReplace T" "dictDelete T" "dictFetchValue T"
  "dictRehash T" "dict_abs norm" "dict_usable T norm" norm "\<lambda>v. Some (dup_val T v)"
  for T :: "('k, 'v) dictType" and norm :: "'k \<Rightarrow> 'c"
proof (unfold_locales, goal_cases)
  case (1 d cr k v)
  then have T: "dictType_ok T norm" "dict_wf T norm d" "\<not> no_value T" "norm (dup_key T k) = norm k"
      "pauseAutoResize d \<le> 0 \<or> 0 \<le> ht_size_exp (ht0 d)"
    by (simp_all add: dict_usable_def dictType_ok_def)
  obtain added d' where d': "dictAdd T cr d k v = Some (added, d')"
      "added \<longleftrightarrow> dict_abs norm d (norm k) = None"
      "dict_change T norm d {#} (if added then {#(dup_key T k, Some (dup_val T v))#} else {#}) d'"
    using dictAdd_ok [OF T(1,2,5), of cr k v] unfolding dict_abs_None if_not_P [OF T(3)] by blast
  then show ?case
    using T dict_usable_change [OF 1 d'(3)] dict_change_map(1,2) [OF T(2) d'(3)]
      dict_abs_upd(1) [of norm d' d "norm k"] dict_abs_upd(3) [of norm d' d]
    by (cases added) auto
next
  case (2 d cr k v)
  then have T: "dictType_ok T norm" "dict_wf T norm d" "\<not> no_value T" "norm (dup_key T k) = norm k"
      "pauseAutoResize d \<le> 0 \<or> 0 \<le> ht_size_exp (ht0 d)"
    by (simp_all add: dict_usable_def dictType_ok_def)
  obtain added d' where d': "dictReplace T cr d k v = Some (added, d')"
      "if added then (\<forall>kv\<in>set (dict_entries d). norm (fst kv) \<noteq> norm k) \<and>
         dict_change T norm d {#} {#(dup_key T k, Some (dup_val T v))#} d'
       else \<exists>kv\<in>set (dict_entries d). norm (fst kv) = norm k \<and>
         dict_change T norm d {#kv#} {#(fst kv, Some (dup_val T v))#} d'"
    using dictReplace_ok [OF T(1,2,5,3), of cr k v] by blast
  show ?case
  proof (cases added)
    case True
    then have ch: "dict_change T norm d {#} {#(dup_key T k, Some (dup_val T v))#} d'"
        "dict_abs norm d (norm k) = None"
      using d'(2) by (simp_all add: dict_abs_None)
    then show ?thesis
      using True d'(1) T(4) dict_usable_change [OF 2 ch(1)] dict_change_map(2) [OF T(2) ch(1)]
        dict_abs_upd(1) [of norm d' d "norm k"] by auto
  next
    case False
    then obtain kv where kv: "kv \<in> set (dict_entries d)" "norm (fst kv) = norm k"
        "dict_change T norm d {#kv#} {#(fst kv, Some (dup_val T v))#} d'"
      using d'(2) by auto
    then have "dict_abs norm d (norm k) \<noteq> None" unfolding dict_abs_None by auto
    then show ?thesis
      using False d'(1) kv dict_usable_change [OF 2 kv(3)] dict_change_map(4) [OF T(2) kv(3)]
        dict_abs_upd(1) [of norm d' d "norm k"] by auto
  qed
next
  case (3 d cr k)
  then have T: "dictType_ok T norm" "dict_wf T norm d" by (simp_all add: dict_usable_def)
  obtain he d' where d': "dictGenericDelete T cr d k False = Some (he, d')"
      "if he = ENull then (\<forall>kv\<in>set (dict_entries d). norm (fst kv) \<noteq> norm k) \<and> dict_change T norm d {#} {#} d'
       else hd (chain he) \<in> set (dict_entries d) \<and> norm (fst (hd (chain he))) = norm k \<and>
         dict_change T norm d {#hd (chain he)#} {#} d'"
    using dictGenericDelete_ok [OF T] by blast
  show ?case
  proof (cases "he = ENull")
    case True
    then have none: "dict_abs norm d (norm k) = None" and ch: "dict_change T norm d {#} {#} d'"
      using d'(2) by (simp_all add: dict_abs_None)
    then have "dict_abs norm d' = dict_abs norm d"
      using dict_change_map(1) [OF T(2) ch] dict_abs_upd(3) by blast
    then show ?thesis
      using True d'(1) none dict_usable_change [OF 3 ch] by (auto simp: dictDelete_def)
  next
    case False
    let ?kv = "hd (chain he)"
    have kv: "?kv \<in> set (dict_entries d)" "norm (fst ?kv) = norm k" "dict_change T norm d {#?kv#} {#} d'"
      using False d'(2) by simp_all
    then have "dict_abs norm d (norm k) \<noteq> None" unfolding dict_abs_None by auto
    then show ?thesis
      using False d'(1) kv dict_usable_change [OF 3 kv(3)] dict_change_map(3) [OF T(2) kv(3)]
        dict_abs_upd(2) [of norm d' d "norm k"] by (auto simp: dictDelete_def)
  qed
next
  case (4 d cr k)
  obtain d' where d': "dictFetchValue T cr d k = Some (dict_abs norm d (norm k), d')"
      "dict_change T norm d {#} {#} d'"
    using dictFetchValue_ok [OF 4] by blast
  have "dict_wf T norm d" using 4 by (simp add: dict_usable_def)
  then show ?case
    using d' dict_usable_change [OF 4 d'(2)] dict_change_map(1) [OF _ d'(2)] dict_abs_upd(3) by blast
next
  case (5 d cr n)
  then have T: "dict_wf T norm d" "dict_inv T d" by (simp_all add: dict_usable_def dict_wf_def)
  obtain more d' where d': "dictRehash T cr d n = Some (more, d')" "dict_inv T d'" "dict_step d d'"
    using dictRehash_ok [OF T(2)] by blast
  have ch: "dict_change T norm d {#} {#} d'" using dict_step_change [OF T(1) d'(2,3)] .
  then show ?case
    using d'(1) dict_usable_change [OF 5 ch] dict_change_map(1) [OF T(1) ch] dict_abs_upd(3) by blast
qed


section \<open>Properties\<close>

lemma dictCreate_wf: "dict_wf T norm dictCreate" "dict_map norm dictCreate = Map.empty"
  by (simp_all add: dict_wf_def dict_inv_def dictCreate_def dictIsRehashing_def dict_entries_def dict_map_def)

text \<open>An example type: numbers hashed to themselves, and values that are not duplicated.\<close>

definition number_type :: "(nat, nat) dictType" where
  "number_type = \<lparr>hashFunction = word_of_nat, keyDup = None, valDup = None, keyCompare = None,
     keyDestructor = False, valDestructor = True, resizeAllowed = None, rehashingStarted = False,
     rehashingCompleted = False, bucketChanged = True, no_value = False, keys_are_odd = False,
     force_full_rehash = False, storedHashFunction = None, storedKeyCompare = None,
     onDictRelease = False\<rparr>"

lemma number_type_ok: "dictType_ok number_type (\<lambda>k. k)"
  by (simp add: dictType_ok_def number_type_def key_matches_def dictGetCmpFunc_def
      dictDefaultCompare_def dictHashKey_def dup_key_def)

text \<open>C2. The dictionary refines a finite map. For every type whose comparison agrees with its hash
  function, every well-formed dictionary and every sequence of adds, replacements, deletions, value
  lookups and calls of the incremental rehashing, each under any setting of the global resize policy,
  the operations return without an invalid access or a failed assertion, and give exactly the results
  of the abstract map, whatever bucket moves, expansions and shrinkings happen in between. The final
  dictionary is well formed and holds the final map.\<close>

theorem dict_runs_as_map:
  assumes "dictType_ok T norm" and "\<not> no_value T" and "dict_wf T norm d" and "pauseAutoResize d \<le> 0"
  shows "\<exists>d'. map_run (map_do (dictAdd T) (dictReplace T) (dictDelete T) (dictFetchValue T) (dictRehash T))
      ops d = Some (fst (spec_run norm (\<lambda>v. Some (dup_val T v)) ops (dict_abs norm d)), d') \<and>
    dict_wf T norm d' \<and> dict_abs norm d' = snd (spec_run norm (\<lambda>v. Some (dup_val T v)) ops (dict_abs norm d))"
  using dict_map_store.run_refines [of T norm d ops] assms by (auto simp: dict_usable_def)

theorem dict_runs_as_map_witness:
  "dictType_ok number_type (\<lambda>k. k) \<and> dict_wf number_type (\<lambda>k. k) dictCreate \<and>
   (\<exists>d'. map_run (map_do (dictAdd number_type) (dictReplace number_type) (dictDelete number_type)
       (dictFetchValue number_type) (dictRehash number_type))
     [(DICT_RESIZE_ENABLE, MAdd 5 50), (DICT_RESIZE_FORBID, MAdd 5 51), (DICT_RESIZE_AVOID, MReplace 5 52),
      (DICT_RESIZE_ENABLE, MFetch 5), (DICT_RESIZE_ENABLE, MRemove 5), (DICT_RESIZE_ENABLE, MFetch 5)] dictCreate =
     Some ([RBool True, RBool False, RBool False, RVal (Some (Some 52)), RBool True, RVal None], d') \<and>
     dict_wf number_type (\<lambda>k. k) d')"
proof -
  let ?ops = "[(DICT_RESIZE_ENABLE, MAdd 5 50), (DICT_RESIZE_FORBID, MAdd 5 51), (DICT_RESIZE_AVOID, MReplace 5 52),
      (DICT_RESIZE_ENABLE, MFetch 5), (DICT_RESIZE_ENABLE, MRemove 5), (DICT_RESIZE_ENABLE, MFetch 5)]
      :: (dictResizeEnable \<times> (nat, nat) map_op) list"
  have nv: "\<not> no_value number_type" "pauseAutoResize (dictCreate :: (nat, nat) dict) \<le> 0"
    by (simp_all add: number_type_def dictCreate_def)
  have abs: "dict_abs (\<lambda>k. k) (dictCreate :: (nat, nat) dict) = Map.empty"
    by (simp add: dict_abs_def dictCreate_wf(2))
  have put: "dup_val number_type v = v" for v by (simp add: dup_val_def number_type_def)
  have spec: "fst (spec_run (\<lambda>k. k) (\<lambda>v. Some (dup_val number_type v)) ?ops
      (dict_abs (\<lambda>k. k) (dictCreate :: (nat, nat) dict))) =
    [RBool True, RBool False, RBool False, RVal (Some (Some 52)), RBool True, RVal None]"
    by (simp add: abs put)
  show ?thesis
    using dict_runs_as_map [OF number_type_ok nv(1) dictCreate_wf(1) nv(2), of ?ops, unfolded spec]
      number_type_ok dictCreate_wf(1) [of number_type "\<lambda>k. k"] by blast
qed

text \<open>C18. A call of the incremental rehashing with a positive budget is invisible and makes progress: it
  returns, and the dictionary stays well formed and holds the same map. If there is nothing to rehash or the resize
  policy refuses, the call reports no work and changes nothing. In all other cases it either finishes the
  rehashing, or reports that work is left after it advanced the rehashing index inside the old table.\<close>

theorem dictRehash_progress:
  assumes "dict_wf T norm d" and "0 < n"
  shows "\<exists>more d'. dictRehash T cr d n = Some (more, d') \<and> dict_wf T norm d' \<and>
    dict_map norm d' = dict_map norm d \<and>
    (if rehash_refused cr d then \<not> more \<and> d' = d
     else if more then dictIsRehashing d' \<and> rehashidx d < rehashidx d' \<and>
       nat (rehashidx d') \<le> length (ht_table (ht0 d')) \<and> length (ht_table (ht0 d')) = length (ht_table (ht0 d))
     else \<not> dictIsRehashing d')"
proof -
  have inv: "dict_inv T d" using assms by (simp add: dict_wf_def)
  obtain more d' where d': "dictRehash T cr d n = Some (more, d')" "dict_inv T d'" "dict_step d d'"
      "if more then moved T d d' \<and> (0 < n \<longrightarrow> rehashidx d < rehashidx d')
       else rehash_refused cr d \<and> d' = d \<or> \<not> dictIsRehashing d'"
    using dictRehash_ok [OF inv] by blast
  have ch: "dict_change T norm d {#} {#} d'" using dict_step_change [OF assms(1) d'(2,3)] .
  have "dictIsRehashing d' \<and> rehashidx d < rehashidx d' \<and> nat (rehashidx d') \<le> length (ht_table (ht0 d')) \<and>
      length (ht_table (ht0 d')) = length (ht_table (ht0 d))" if more
    using that d'(4) assms(2) moved_length [OF _ inv, of d'] dict_inv_rehashing(6) [OF d'(2)]
    by (auto simp: moved_def)
  moreover have "\<not> more \<and> d' = d" if "rehash_refused cr d" using that d'(1) by (simp add: dictRehash_def)
  ultimately show ?thesis
    using d'(1,4) ch dict_change_map(1) [OF assms(1) ch] by (auto simp: dict_change_def)
qed


text \<open>The example dictionary in the middle of a rehashing: four keys in a table of four buckets are to be
  moved into a table of eight.\<close>

definition rehashing_dict :: "(nat, nat) dict" where
  "rehashing_dict = \<lparr>
     ht0 = \<lparr>ht_table = [ENull, ENormal 1 (Some 10) (ENormal 5 (Some 50) ENull), ENormal 2 (Some 20) ENull, ENull],
            ht_used = 3, ht_size_exp = 2\<rparr>,
     ht1 = \<lparr>ht_table = [ENull, ENull, ENull, ENull, ENormal 4 (Some 40) ENull, ENull, ENull, ENull],
            ht_used = 1, ht_size_exp = 3\<rparr>,
     rehashidx = 1, pauserehash = 0, useStoredKeyApi = False, pauseAutoResize = 0, trace = []\<rparr>"

lemma rehashing_dict_wf: "dict_wf number_type (\<lambda>k. k) rehashing_dict"
  by code_simp

theorem dictRehash_progress_witness:
  "dict_wf number_type (\<lambda>k. k) rehashing_dict \<and> \<not> rehash_refused DICT_RESIZE_ENABLE rehashing_dict \<and>
   (\<exists>more d'. dictRehash number_type DICT_RESIZE_ENABLE rehashing_dict 1 = Some (more, d') \<and>
     dict_wf number_type (\<lambda>k. k) d' \<and> dict_map (\<lambda>k. k) d' = dict_map (\<lambda>k. k) rehashing_dict \<and>
     (if more then rehashidx rehashing_dict < rehashidx d' else \<not> dictIsRehashing d'))"
proof -
  have "\<not> rehash_refused DICT_RESIZE_ENABLE rehashing_dict"
    by (simp add: rehash_refused_def rehashing_dict_def dictIsRehashing_def)
  then show ?thesis using dictRehash_progress [OF rehashing_dict_wf, of 1 DICT_RESIZE_ENABLE] rehashing_dict_wf by fastforce
qed

text \<open>C17. Incremental rehashing completes unless the resize policy refuses it: under every policy, repeating
  \<^verbatim>\<open>dictRehash\<close> until it reports that no work is left ends, with the same map. Afterwards no rehashing is in
  progress, except when the policy refuses the call: under \<^verbatim>\<open>DICT_RESIZE_FORBID\<close>, or under \<^verbatim>\<open>DICT_RESIZE_AVOID\<close> when the
  sizes of the tables are within the ratio; then the dictionary is unchanged.\<close>

theorem rehash_completes:
  assumes "dict_wf T norm d"
  shows "\<exists>d'. rehash_all T cr d = Some d' \<and> dict_wf T norm d' \<and> dict_map norm d' = dict_map norm d \<and>
    (if rehash_refused cr d then d' = d else \<not> dictIsRehashing d') \<and>
    (cr = DICT_RESIZE_ENABLE \<longrightarrow> \<not> dictIsRehashing d')"
proof -
  have inv: "dict_inv T d" using assms by (simp add: dict_wf_def)
  obtain d' where d': "rehash_all T cr d = Some d'" "dict_inv T d'" "dict_step d d'"
      "rehash_refused cr d \<and> d' = d \<or> \<not> dictIsRehashing d'"
    using rehash_all_ok [OF inv] by blast
  have ch: "dict_change T norm d {#} {#} d'" using dict_step_change [OF assms d'(2,3)] .
  have "d' = d" if "rehash_refused cr d" using d'(1) that by (simp add: rehash_all.simps [of T cr d] dictRehash_def)
  moreover have "\<not> dictIsRehashing d'" if "cr = DICT_RESIZE_ENABLE" using d'(4) that by (auto simp: rehash_refused_def Let_def)
  ultimately show ?thesis
    using d'(1,4) ch dict_change_map(1) [OF assms ch] by (auto simp: dict_change_def)
qed

theorem rehash_completes_witness:
  "dictIsRehashing rehashing_dict \<and>
   (\<exists>d'. rehash_all number_type DICT_RESIZE_ENABLE rehashing_dict = Some d' \<and> \<not> dictIsRehashing d' \<and>
     dict_wf number_type (\<lambda>k. k) d' \<and> dict_map (\<lambda>k. k) d' 5 = Some (5, Some 50))"
proof -
  have "dict_map (\<lambda>k. k) rehashing_dict 5 = Some (5, Some 50)"
    by (simp add: dict_map_def rehashing_dict_def dict_entries_def ht_entries_def)
  then show ?thesis
    using rehash_completes [OF rehashing_dict_wf, of DICT_RESIZE_ENABLE] by (auto simp: rehashing_dict_def dictIsRehashing_def)
qed

text \<open>C19. \<^verbatim>\<open>_dictNextExp\<close> returns the exponent of the least power of two, from the initial size up, that
  is at least the requested size.\<close>

theorem dictNextExp_least:
  assumes "sz \<le> 2 ^ 63 - 2"
  shows "2 \<le> dictNextExp sz \<and> sz \<le> DICTHT_SIZE (dictNextExp sz) \<and>
    (\<forall>e. 2 \<le> e \<and> e < dictNextExp sz \<longrightarrow> DICTHT_SIZE e < sz)"
proof -
  note ok = dictNextExp_ok [OF assms]
  have "DICTHT_SIZE e < sz" if e: "2 \<le> e" "e < dictNextExp sz" for e
  proof -
    have "4 < sz" using e by (auto simp: dictNextExp_def split: if_splits)
    moreover have "2 * DICTHT_SIZE e \<le> DICTHT_SIZE (dictNextExp sz)"
    proof -
      have "2 * (2::nat) ^ nat e = 2 ^ Suc (nat e)" by simp
      also have "\<dots> \<le> 2 ^ nat (dictNextExp sz)" using e by (intro power_increasing) auto
      finally show ?thesis using e by (simp add: DICTHT_SIZE_def)
    qed
    ultimately show ?thesis using ok(4) by linarith
  qed
  then show ?thesis using ok(1,3) by blast
qed

theorem dictNextExp_least_witness:
  "(1025::nat) \<le> 2 ^ 63 - 2 \<and> 2 \<le> dictNextExp 1025 \<and> 1025 \<le> DICTHT_SIZE (dictNextExp 1025)"
  using dictNextExp_least [of 1025] by simp

text \<open>C20. The two-phase deletion is a deletion: when the first phase finds the key, the second phase with
  its link returns, the dictionary stays well formed and loses exactly that key, and the pause of
  rehashing that the first phase started is over; when it finds nothing, the key was not there.\<close>

theorem two_phase_unlink_deletes:
  assumes "dictType_ok T norm" and "dict_wf T norm d" and "pauserehash d < 2 ^ 15"
  shows "\<exists>l d1. dictTwoPhaseUnlinkFind T cr d key = Some (l, d1) \<and> (l = None \<longleftrightarrow> dict_map norm d (norm key) = None) \<and>
    (\<exists>d2. dictTwoPhaseUnlinkFree T cr d1 l = Some d2 \<and> dict_wf T norm d2 \<and>
      dict_map norm d2 = (dict_map norm d)(norm key := None) \<and> pauserehash d2 = pauserehash d)"
proof -
  obtain l d1 where l: "dictTwoPhaseUnlinkFind T cr d key = Some (l, if l = None then d1 else dictPauseRehashing d1)"
      "dict_change T norm d {#} {#} d1" "found norm d1 key l"
    using dictTwoPhaseUnlinkFind_ok [OF assms(1,2)] by blast
  have wf1: "dict_wf T norm d1" and p1: "pauserehash d1 = pauserehash d"
    using l(2) by (simp_all add: dict_change_def same_settings_def)
  have m1: "dict_map norm d1 = dict_map norm d" using dict_change_map(1) [OF assms(2) l(2)] by simp
  show ?thesis
  proof (cases l)
    case None
    then have "dict_map norm d (norm key) = None" using l(3) by (simp add: found_def flip: m1 dict_map_None)
    then show ?thesis using None l(1) wf1 m1 p1 by (auto simp: dictTwoPhaseUnlinkFree_def)
  next
    case (Some lk)
    obtain t i n where lk: "lk = (t, i, n)" by (cases lk) auto
    have ok: "link_ok d1 (t, i, n)" and key: "norm (fst (link_entry d1 (t, i, n))) = norm key"
      using l(3) Some lk by (simp_all add: found_def)
    obtain d2 where d2: "dictTwoPhaseUnlinkFree T cr (dictPauseRehashing d1) (Some (t, i, n)) = Some d2"
        "dict_change T norm d1 {#link_entry d1 (t, i, n)#} {#} d2"
      using dictTwoPhaseUnlinkFree_ok [OF assms(1) wf1 ok] assms(3) p1 by auto
    have "dict_map norm d (norm key) \<noteq> None"
      using dict_map_iff [OF wf1] link_entry_in [OF ok] key m1 by (metis option.distinct(1))
    moreover have "dict_map norm d2 = (dict_map norm d)(norm key := None)"
      using dict_change_map(3) [OF wf1 d2(2)] key m1 by simp
    ultimately show ?thesis
      using Some lk l(1) d2 p1 by (auto simp: dict_change_def same_settings_def)
  qed
qed

theorem two_phase_unlink_deletes_witness:
  "\<exists>l d1 d2. dictTwoPhaseUnlinkFind number_type DICT_RESIZE_ENABLE rehashing_dict 5 = Some (l, d1) \<and> l \<noteq> None \<and>
    dictTwoPhaseUnlinkFree number_type DICT_RESIZE_ENABLE d1 l = Some d2 \<and> dict_map (\<lambda>k. k) d2 5 = None"
proof -
  have "pauserehash rehashing_dict < 2 ^ 15" "dict_map (\<lambda>k. k) rehashing_dict 5 \<noteq> None"
    by (simp_all add: dict_map_def rehashing_dict_def dict_entries_def ht_entries_def)
  then show ?thesis
    using two_phase_unlink_deletes [OF number_type_ok rehashing_dict_wf, of DICT_RESIZE_ENABLE 5] by fastforce
qed

text \<open>Only the entry at the link matters to the update of a link.\<close>

lemma chain_update_cong: "f (chain_at c n) = g (chain_at c n) \<Longrightarrow> chain_update c n f = chain_update c n g"
proof (induction n arbitrary: c)
  case (Suc n)
  then show ?case by (simp add: Suc.IH [of "dictGetNext c"])
qed simp

lemma link_update_cong:
  assumes "link_get d l = Some de" and "f de = g de"
  shows "link_update d l f = link_update d l g"
proof -
  obtain t i n where l: "l = (t, i, n)" by (cases l) auto
  then have "i < length (ht_table (get_ht d t))" "chain_at (ht_table (get_ht d t) ! i) n = de"
    using assms(1) by (simp_all add: link_get_def split: if_splits)
  then show ?thesis using l chain_update_cong [of f "ht_table (get_ht d t) ! i" n g] assms(2) by (simp add: link_update_def)
qed

text \<open>The tag of a key stored in place of an entry.\<close>

lemma aligned_ptr:
  fixes ptr :: u64
  assumes "ptr AND 7 = 0"
  shows "(ptr OR 1) AND 1 = 1" "(ptr OR 2) AND 1 = 0" "(ptr OR 2) AND NOT 7 = ptr" "ptr OR 1 \<noteq> ptr"
proof -
  have "ptr AND 1 = (ptr AND 7) AND 1" by (simp add: and.assoc)
  then have one: "ptr AND 1 = 0" using assms by simp
  show odd: "(ptr OR 1) AND 1 = 1" using one by (simp add: bit.conj_disj_distrib2)
  show "(ptr OR 2) AND 1 = 0" using one by (simp add: bit.conj_disj_distrib2)
  have "ptr = ptr AND (7 OR NOT 7)" by (simp only: bit.disj_cancel_right bit.conj_one_right)
  also have "\<dots> = ptr AND NOT 7" using assms by (simp only: bit.conj_disj_distrib or.left_neutral)
  finally have "ptr AND NOT 7 = ptr" ..
  moreover have "(2 :: u64) AND NOT 7 = 0" by simp
  ultimately show "(ptr OR 2) AND NOT 7 = ptr" by (simp only: bit.conj_disj_distrib2 or.right_neutral)
  show "ptr OR 1 \<noteq> ptr" using odd one by (metis zero_neq_one)
qed

lemma set_entry_key_EKey:
  "set_entry_key T key ptr (EKey k) = (if \<not> keys_are_odd T \<and> ptr AND 7 = 0 then Some (EKey key) else None)"
  using aligned_ptr [of ptr] by (simp add: encodeMaskedPtr_def masked_key_def decodeMaskedPtr_def)

lemma set_entry_key_ok:
  assumes wf: "dict_wf T norm d" and T: "dictType_ok T norm" and l: "link_ok d l" and key: "norm (fst (link_entry d l)) = norm key"
    and de: "link_get d l = Some de" and ok: "\<not> entryIsKey de \<or> \<not> keys_are_odd T \<and> ptr AND 7 = 0"
  shows "\<exists>d'. link_update d l (set_entry_key T (dup_key T key) ptr) = Some d' \<and>
    dict_change T norm d {#link_entry d l#} {#(dup_key T key, snd (link_entry d l))#} d'"
proof -
  have inv: "dict_inv T d" using wf by (simp add: dict_wf_def)
  obtain t i n where lk: "l = (t, i, n)" by (cases l) auto
  let ?k = "dup_key T key" and ?kv = "(dup_key T key, snd (link_entry d l))"
  let ?f = "\<lambda>de. if entryIsKey de then Some (EKey ?k) else set_entry_key T ?k ptr de"
  have norm: "norm ?k = norm key" "dictHashKey T ?k True = dictHashKey T (fst (link_entry d (t, i, n))) True"
    using T key lk by (auto simp: dictType_ok_def)
  have f: "\<exists>de'. ?f de = Some de' \<and> chain_shape (no_value T) de' \<and> chain de' = [?kv] @ chain (dictGetNext de)"
    if "de \<noteq> ENull" "chain_shape (no_value T) de" "chain de = link_entry d (t, i, n) # chain (dictGetNext de)" for de
  proof -
    have "dictGetKey de \<noteq> None" "link_entry d l = hd (chain de)" using that lk by (cases de; simp)+
    then show ?thesis using that(1,2) by (cases de) (auto simp del: set_entry_key.simps(2))
  qed
  have "\<exists>h. link_update d (t, i, n) ?f = Some (set_ht d t h) \<and> ht_used h = ht_used (get_ht d t) \<and> 0 < ht_used h \<and>
    (\<forall>u. u + 1 = ht_used h + length [?kv] \<longrightarrow> dict_inv T (set_ht d t (h\<lparr>ht_used := u\<rparr>)) \<and>
      mset (dict_entries (set_ht d t (h\<lparr>ht_used := u\<rparr>))) + {#link_entry d (t, i, n)#} = mset (dict_entries d) + mset [?kv])"
    by (rule link_replace_ok [OF inv _ f]) (use l lk norm(2) in simp_all)
  then obtain h where h0: "link_update d (t, i, n) ?f = Some (set_ht d t h)"
      "\<forall>u. u + 1 = ht_used h + length [?kv] \<longrightarrow> dict_inv T (set_ht d t (h\<lparr>ht_used := u\<rparr>)) \<and>
      mset (dict_entries (set_ht d t (h\<lparr>ht_used := u\<rparr>))) + {#link_entry d (t, i, n)#} = mset (dict_entries d) + mset [?kv]"
    by blast
  have h: "link_update d l ?f = Some (set_ht d t h)"
      "dict_inv T (set_ht d t h)" "mset (dict_entries (set_ht d t h)) + {#link_entry d l#} = mset (dict_entries d) + {#?kv#}"
    using h0(1) h0(2) [rule_format, of "ht_used h"] lk by simp_all
  have "dict_change T norm d {#link_entry d l#} {#?kv#} (set_ht d t h)"
    using norm(1) key by (intro dict_changeI [OF wf h(2) _ h(3)]) (simp_all add: same_settings_def set_ht_def)
  moreover have "?f de = set_entry_key T ?k ptr de" using ok by (cases de) (simp_all add: set_entry_key_EKey del: set_entry_key.simps(2))
  then have "link_update d l (set_entry_key T ?k ptr) = link_update d l ?f" by (intro link_update_cong [OF de]) (rule sym)
  ultimately show ?thesis using h(1) by auto
qed

text \<open>C21. Replacing the key of an existing entry through its link: \<^verbatim>\<open>dictSetKeyAtLink\<close> on the link of an entry whose key compares
  equal to the new one stores the new key, keeps its value and everything else. It fails exactly when the key is stored
  in the bucket in place of an entry and either the type has odd keys or the pointer to the new key is not aligned to eight bytes:
  then the assertion of \<^verbatim>\<open>encodeMaskedPtr\<close> fails or the tag spoils the pointer. So no such key of a set can be replaced.\<close>

theorem set_key_at_link:
  assumes "dictType_ok T norm" and "dict_wf T norm d" and "link_ok d l" and "norm (fst (link_entry d l)) = norm key"
    and "link_get d l = Some de"
  shows "if entryIsKey de \<and> (keys_are_odd T \<or> ptr AND 7 \<noteq> 0) then dictSetKeyAtLink T cr d key ptr (Some l) False = None
    else \<exists>d'. dictSetKeyAtLink T cr d key ptr (Some l) False = Some (l, d') \<and> dict_wf T norm d' \<and>
      dict_map norm d' = (dict_map norm d)(norm key \<mapsto> (dup_key T key, snd (link_entry d l)))"
proof (cases "entryIsKey de \<and> (keys_are_odd T \<or> ptr AND 7 \<noteq> 0)")
  case True
  then obtain k where k: "de = EKey k" by (cases de) simp_all
  have none: "link_update d l (\<lambda>_. None) = None"
  proof -
    have "chain_update c n (\<lambda>_. None) = None" for c :: "('a, 'b) dictEntry" and n by (induction n arbitrary: c) simp_all
    then show ?thesis by (simp add: link_update_def split: prod.splits)
  qed
  have "set_entry_key T (dup_key T key) ptr de = None"
    using True unfolding k set_entry_key_EKey by auto
  then have "link_update d l (set_entry_key T (dup_key T key) ptr) = None" 
    using link_update_cong [OF assms(5), of "set_entry_key T (dup_key T key) ptr" "\<lambda>_. None"] none by simp
  then show ?thesis using True by (simp add: dictSetKeyAtLink_def Let_def)
next
  case False
  then obtain d' where d': "link_update d l (set_entry_key T (dup_key T key) ptr) = Some d'"
      "dict_change T norm d {#link_entry d l#} {#(dup_key T key, snd (link_entry d l))#} d'"
    using set_entry_key_ok [OF assms(2,1,3-5)] by blast
  have "norm (dup_key T key) = norm key" using assms(1) by (simp add: dictType_ok_def)
  then have "dict_map norm d' = (dict_map norm d)(norm key \<mapsto> (dup_key T key, snd (link_entry d l)))"
    using dict_change_map(4) [OF assms(2) d'(2) refl refl] link_entry_in [OF assms(3)] assms(4) by simp
  then show ?thesis using False d' by (auto simp: dictSetKeyAtLink_def Let_def dict_change_def)
qed

theorem set_key_at_link_witness:
  "\<exists>d'. dictSetKeyAtLink number_type DICT_RESIZE_ENABLE rehashing_dict 5 24 (Some (0, 1, 1)) False = Some ((0, 1, 1), d') \<and>
     dict_map (\<lambda>k. k) d' 5 = Some (5, Some 50)"
proof -
  let ?l = "(0, 1, 1) :: link"
  have l: "link_ok rehashing_dict ?l" "link_entry rehashing_dict ?l = (5, Some 50)" "link_get rehashing_dict ?l = Some (ENormal 5 (Some 50) ENull)"
    by (simp_all add: link_ok_def link_entry_def link_get_def get_ht_def rehashing_dict_def)
  have "dup_key number_type 5 = 5" by (simp add: dup_key_def number_type_def)
  then show ?thesis
    using set_key_at_link [OF number_type_ok rehashing_dict_wf l(1) _ l(3), of 5 24 DICT_RESIZE_ENABLE] l(2) by auto
qed

end
