(* ===== verification/Bits.thy ===== *)
theory Bits
  imports Prelude
begin

text \<open>
  Bit reversal by exchanging neighbouring blocks of bits, the trick that \<^verbatim>\<open>rev\<close> of \<^verbatim>\<open>dict.c\<close> and \<^verbatim>\<open>crc_reflect\<close> of
  \<^verbatim>\<open>crc64.c\<close> share: exchanging blocks of 1, 2, 4, 8, 16 and 32 bits moves bit \<open>i\<close> to \<open>63 - i\<close>.
\<close>

unbundle bit_operations_syntax

text \<open>The exchange of neighbouring blocks of \<open>s\<close> bits; the mask selects the lower blocks.\<close>

definition swap_bits :: "nat \<Rightarrow> u64 \<Rightarrow> u64 \<Rightarrow> u64" where
  "swap_bits s m v = (drop_bit s v AND m) OR (push_bit s v AND NOT m)"

text \<open>The bit that position \<open>i\<close> gets from the exchange of neighbouring blocks of \<open>s\<close> bits.\<close>

definition swap_index :: "nat \<Rightarrow> nat \<Rightarrow> nat" where
  "swap_index s i = (if i div s mod 2 = 0 then i + s else i - s)"

lemma bit_swap_bits:
  assumes "i < 64" and "bit m i \<longleftrightarrow> i div s mod 2 = 0" and "swap_index s i < 64"
    and "i div s mod 2 \<noteq> 0 \<Longrightarrow> s \<le> i"
  shows "bit (swap_bits s m v) i \<longleftrightarrow> bit v (swap_index s i)"
  using assms by (auto simp: swap_bits_def swap_index_def bit_simps add.commute)


lemma swap_step:
  assumes "\<forall>i<64. (bit m i \<longleftrightarrow> i div s mod 2 = 0) \<and> swap_index s i < 64 \<and> (i div s mod 2 = 0 \<or> s \<le> i)"
    and "i < 64"
  shows "bit (swap_bits s m v) i \<longleftrightarrow> bit v (swap_index s i)" and "swap_index s i < 64"
proof -
  note a = assms(1) [rule_format, OF assms(2)]
  show "bit (swap_bits s m v) i \<longleftrightarrow> bit v (swap_index s i)"
    using a by (intro bit_swap_bits [OF assms(2)]) simp_all
  show "swap_index s i < 64" using a by blast
qed

lemma upt_64: "[0..<64] = [0, 1, 2, 3, 4, 5, 6, 7, 8, 9, 10, 11, 12, 13, 14, 15, 16, 17, 18, 19, 20, 21, 22, 23, 24,
    25, 26, 27, 28, 29, 30, 31, 32, 33, 34, 35, 36, 37, 38, 39, 40, 41, 42, 43, 44, 45, 46,
    47, 48, 49, 50, 51, 52, 53, 54, 55, 56, 57, 58, 59, 60, 61, 62, 63]"
  by (simp add: upt_rec)

lemma all_lt_64: "(\<forall>i<64. P i) \<longleftrightarrow> list_all P [0, 1, 2, 3, 4, 5, 6, 7, 8, 9, 10, 11, 12, 13, 14, 15, 16, 17, 18, 19, 20, 21, 22, 23, 24,
    25, 26, 27, 28, 29, 30, 31, 32, 33, 34, 35, 36, 37, 38, 39, 40, 41, 42, 43, 44, 45, 46,
    47, 48, 49, 50, 51, 52, 53, 54, 55, 56, 57, 58, 59, 60, 61, 62, 63]"
  for P :: "nat \<Rightarrow> bool"
  unfolding upt_64 [symmetric] by (auto simp: list_all_iff)

lemma swap_masks:
  "\<forall>i<64. (bit (0x5555555555555555 :: u64) i \<longleftrightarrow> i div 1 mod 2 = 0) \<and> swap_index 1 i < 64 \<and> (i div 1 mod 2 = 0 \<or> 1 \<le> i)"
  "\<forall>i<64. (bit (0x3333333333333333 :: u64) i \<longleftrightarrow> i div 2 mod 2 = 0) \<and> swap_index 2 i < 64 \<and> (i div 2 mod 2 = 0 \<or> 2 \<le> i)"
  "\<forall>i<64. (bit (0x0F0F0F0F0F0F0F0F :: u64) i \<longleftrightarrow> i div 4 mod 2 = 0) \<and> swap_index 4 i < 64 \<and> (i div 4 mod 2 = 0 \<or> 4 \<le> i)"
  "\<forall>i<64. (bit (0x00FF00FF00FF00FF :: u64) i \<longleftrightarrow> i div 8 mod 2 = 0) \<and> swap_index 8 i < 64 \<and> (i div 8 mod 2 = 0 \<or> 8 \<le> i)"
  "\<forall>i<64. (bit (0x0000FFFF0000FFFF :: u64) i \<longleftrightarrow> i div 16 mod 2 = 0) \<and> swap_index 16 i < 64 \<and> (i div 16 mod 2 = 0 \<or> 16 \<le> i)"
  "\<forall>i<64. (bit (0x00000000FFFFFFFF :: u64) i \<longleftrightarrow> i div 32 mod 2 = 0) \<and> swap_index 32 i < 64 \<and> (i div 32 mod 2 = 0 \<or> 32 \<le> i)"
  by (simp_all add: all_lt_64 swap_index_def)

lemma swap_index_xor:
  "\<forall>i<64. swap_index 1 i = i XOR 1" "\<forall>i<64. swap_index 2 i = i XOR 2" "\<forall>i<64. swap_index 4 i = i XOR 4"
  "\<forall>i<64. swap_index 8 i = i XOR 8" "\<forall>i<64. swap_index 16 i = i XOR 16" "\<forall>i<64. swap_index 32 i = i XOR 32"
  by (simp_all add: all_lt_64 swap_index_def)

lemma xor_63: "\<forall>i<64. i XOR 63 = 63 - (i :: nat)"
  by (simp add: all_lt_64)

lemma swap_index_chain:
  assumes "i < 64"
  shows "swap_index 32 (swap_index 16 (swap_index 8 (swap_index 4 (swap_index 2 (swap_index 1 i))))) = 63 - i"
proof -
  define i1 where "i1 = swap_index 1 i"
  define i2 where "i2 = swap_index 2 i1"
  define i3 where "i3 = swap_index 4 i2"
  define i4 where "i4 = swap_index 8 i3"
  define i5 where "i5 = swap_index 16 i4"
  note lt = swap_step(2) [OF swap_masks(1)] swap_step(2) [OF swap_masks(2)] swap_step(2) [OF swap_masks(3)]
    swap_step(2) [OF swap_masks(4)] swap_step(2) [OF swap_masks(5)]
  have l: "i1 < 64" "i2 < 64" "i3 < 64" "i4 < 64" "i5 < 64"
    unfolding i5_def i4_def i3_def i2_def i1_def using assms by (simp_all only: lt)
  have "swap_index 32 i5 = i XOR 1 XOR 2 XOR 4 XOR 8 XOR 16 XOR 32"
    using swap_index_xor(6) [rule_format, OF l(5)] swap_index_xor(5) [rule_format, OF l(4)]
      swap_index_xor(4) [rule_format, OF l(3)] swap_index_xor(3) [rule_format, OF l(2)]
      swap_index_xor(2) [rule_format, OF l(1)] swap_index_xor(1) [rule_format, OF assms]
    by (simp only: i1_def [symmetric] i2_def [symmetric] i3_def [symmetric] i4_def [symmetric] i5_def [symmetric]
        xor.assoc)
  also have "\<dots> = i XOR 63" by (simp add: xor.assoc)
  finally show ?thesis
    using xor_63 assms by (simp add: i1_def i2_def i3_def i4_def i5_def)
qed

end
