(* ===== verification/Dict_Scan.thy ===== *)
theory Dict_Scan
  imports Dict_Correct Bits
begin

text \<open>
  The stateless cursor iteration of \<^verbatim>\<open>dict.c\<close> (\<^verbatim>\<open>rev\<close>, \<^verbatim>\<open>dictScan\<close>). The bit trick of \<^verbatim>\<open>rev\<close>
  reverses the 64 bits of a word. On reversed cursors a scan is a walk up the number line: a call on a
  table of \<open>2 ^ e\<close> buckets visits all hashes whose reversal lies in one block of \<open>2 ^ (64 - e)\<close> numbers
  and moves the cursor to the start of the next block. This is why a full iteration visits every key
  that is present throughout, even when the table grows, shrinks or is being rehashed between calls.
\<close>

section \<open>Definitions\<close>

function rev_loop :: "nat \<Rightarrow> u64 \<Rightarrow> u64 \<Rightarrow> u64" where
  "rev_loop s m v =
     (let s = s div 2 in
      if s > 0 then
        let m = m XOR push_bit s m in
        rev_loop s m ((drop_bit s v AND m) OR (push_bit s v AND NOT m))
      else v)"
  by pat_completeness auto
termination
  by (relation "measure (\<lambda>(s, m, v). s)") auto

declare rev_loop.simps [simp del]

definition rev64 :: "u64 \<Rightarrow> u64" where
  "rev64 v = rev_loop 64 (- 1) v"

definition size_mask :: "int \<Rightarrow> u64" where
  "size_mask e = word_of_nat (DICTHT_SIZE_MASK e)"

text \<open>Increment the reversed cursor: set the unmasked bits, reverse, add one, reverse.\<close>

definition next_cursor :: "u64 \<Rightarrow> u64 \<Rightarrow> u64" where
  "next_cursor m v = rev64 (rev64 (v OR NOT m) + 1)"

text \<open>The callback only looks at the entries, so the visit of a bucket is the list of its entries.\<close>

definition dictScanDefragBucket :: "('k, 'v) dict \<Rightarrow> nat \<Rightarrow> u64 \<Rightarrow> ('k \<times> 'v option) list option" where
  "dictScanDefragBucket d htidx i =
     (if unat i < length (ht_table (get_ht d htidx))
      then Some (chain (ht_table (get_ht d htidx) ! unat i)) else None)"

text \<open>The loop over the buckets of the larger table that expand the cursor of the smaller one.\<close>

partial_function (option) scan_expansions :: "('k, 'v) dict \<Rightarrow> nat \<Rightarrow> u64 \<Rightarrow> u64 \<Rightarrow> u64 \<Rightarrow>
    (('k \<times> 'v option) list \<times> u64) option" where
  "scan_expansions d htidx1 m0 m1 v =
     Option.bind (dictScanDefragBucket d htidx1 (v AND m1)) (\<lambda>es.
       let v1 = next_cursor m1 v in
       if v1 AND (m0 XOR m1) \<noteq> 0
       then Option.bind (scan_expansions d htidx1 m0 m1 v1) (\<lambda>r. Some (es @ fst r, snd r))
       else Some (es, v1))"

definition dictScanDefrag :: "('k, 'v) dict \<Rightarrow> u64 \<Rightarrow> (('k \<times> 'v option) list \<times> u64 \<times> ('k, 'v) dict) option" where
  "dictScanDefrag d v =
     (if dictSize d = 0 then Some ([], 0, d)
      else
        let d = dictPauseRehashing d in
        Option.bind
          (if \<not> dictIsRehashing d then
             let m0 = size_mask (ht_size_exp (get_ht d 0)) in
             Option.bind (dictScanDefragBucket d 0 (v AND m0)) (\<lambda>es. Some (es, next_cursor m0 v))
           else
             let (htidx0, htidx1) =
                   (if DICTHT_SIZE (ht_size_exp (get_ht d 0)) > DICTHT_SIZE (ht_size_exp (get_ht d 1))
                    then (1, 0) else (0, 1));
                 m0 = size_mask (ht_size_exp (get_ht d htidx0));
                 m1 = size_mask (ht_size_exp (get_ht d htidx1)) in
             Option.bind (dictScanDefragBucket d htidx0 (v AND m0)) (\<lambda>es0.
               Option.bind (scan_expansions d htidx1 m0 m1 v) (\<lambda>(es1, v1). Some (es0 @ es1, v1))))
          (\<lambda>(es, v). Some (es, v, dictResumeRehashing d)))"

definition dictScan :: "('k, 'v) dict \<Rightarrow> u64 \<Rightarrow> (('k \<times> 'v option) list \<times> u64 \<times> ('k, 'v) dict) option" where
  "dictScan d v = dictScanDefrag d v"

section \<open>Bit reversal\<close>

lemma rev_loop_step:
  "s div 2 = t \<Longrightarrow> 0 < t \<Longrightarrow> m XOR push_bit t m = n \<Longrightarrow>
   rev_loop s m v = rev_loop t n (swap_bits t n v)"
  by (subst rev_loop.simps) (simp add: swap_bits_def)

lemma rev_loop_steps:
  "rev_loop 64 (- 1) v = rev_loop 32 0x00000000FFFFFFFF (swap_bits 32 0x00000000FFFFFFFF v)"
  "rev_loop 32 (0x00000000FFFFFFFF) v = rev_loop 16 0x0000FFFF0000FFFF (swap_bits 16 0x0000FFFF0000FFFF v)"
  "rev_loop 16 (0x0000FFFF0000FFFF) v = rev_loop 8 0x00FF00FF00FF00FF (swap_bits 8 0x00FF00FF00FF00FF v)"
  "rev_loop 8 (0x00FF00FF00FF00FF) v = rev_loop 4 0x0F0F0F0F0F0F0F0F (swap_bits 4 0x0F0F0F0F0F0F0F0F v)"
  "rev_loop 4 (0x0F0F0F0F0F0F0F0F) v = rev_loop 2 0x3333333333333333 (swap_bits 2 0x3333333333333333 v)"
  "rev_loop 2 (0x3333333333333333) v = rev_loop 1 0x5555555555555555 (swap_bits 1 0x5555555555555555 v)"
  by (rule rev_loop_step; simp add: mask_numeral)+

lemma rev_loop_1: "rev_loop 1 m v = v"
  by (subst rev_loop.simps) simp

lemma rev64_swaps: "rev64 v =
  swap_bits 1 0x5555555555555555 (swap_bits 2 0x3333333333333333 (swap_bits 4 0x0F0F0F0F0F0F0F0F
    (swap_bits 8 0x00FF00FF00FF00FF (swap_bits 16 0x0000FFFF0000FFFF (swap_bits 32 0x00000000FFFFFFFF v)))))"
  by (simp only: rev64_def rev_loop_steps rev_loop_1)

lemma bit_rev64: "bit (rev64 v) i \<longleftrightarrow> i < 64 \<and> bit v (63 - i)"
proof (cases "i < 64")
  case True
  note s = swap_step [OF swap_masks(1)] swap_step [OF swap_masks(2)] swap_step [OF swap_masks(3)]
    swap_step [OF swap_masks(4)] swap_step [OF swap_masks(5)] swap_step [OF swap_masks(6)]
  have "bit (rev64 v) i \<longleftrightarrow> bit v (swap_index 32 (swap_index 16 (swap_index 8 (swap_index 4 (swap_index 2 (swap_index 1 i))))))"
    unfolding rev64_swaps using True by (simp only: s)
  then show ?thesis using swap_index_chain [OF True] True by simp
next
  case False
  then show ?thesis using bit_imp_le_length [of "rev64 v" i] by auto
qed

lemma rev64_rev64 [simp]: "rev64 (rev64 v) = v"
proof (rule bit_word_eqI)
  fix i :: nat
  assume "i < LENGTH(64)"
  moreover have "63 - i < 64" by arith
  ultimately show "bit (rev64 (rev64 v)) i \<longleftrightarrow> bit v i" by (simp add: bit_rev64)
qed

text \<open>The position of a cursor or a hash on the number line.\<close>

definition pos :: "u64 \<Rightarrow> nat" where
  "pos v = unat (rev64 v)"

lemma pos_less: "pos v < 2 ^ 64"
proof -
  have "unat (rev64 v) < 2 ^ LENGTH(64)" by (rule unsigned_less)
  then show ?thesis by (simp add: pos_def)
qed

lemma pos_0 [simp]: "pos 0 = 0" and pos_eq_0: "pos v = 0 \<longleftrightarrow> v = 0"
proof -
  have z: "rev64 0 = 0" by (rule bit_word_eqI) (simp add: bit_rev64)
  then show "pos 0 = 0" by (simp add: pos_def)
  show "pos v = 0 \<longleftrightarrow> v = 0"
    using z by (metis pos_def rev64_rev64 unsigned_eq_0_iff)
qed

section \<open>A scan step on the number line\<close>

text \<open>Hashes in the same bucket of a table of \<open>2 ^ e\<close> buckets are in the same block.\<close>

lemma same_bucket:
  assumes "e \<le> 64"
  shows "h AND mask e = v AND mask e \<longleftrightarrow> pos h div 2 ^ (64 - e) = pos v div 2 ^ (64 - e)"
proof -
  have "pos h div 2 ^ (64 - e) = unat (drop_bit (64 - e) (rev64 h))" for h
    by (simp only: pos_def unat_drop_bit_eq drop_bit_eq_div [where 'a = nat])
  then have "pos h div 2 ^ (64 - e) = pos v div 2 ^ (64 - e) \<longleftrightarrow>
      drop_bit (64 - e) (rev64 h) = drop_bit (64 - e) (rev64 v)"
    by (metis unsigned_word_eqI)
  also have "\<dots> \<longleftrightarrow> h AND mask e = v AND mask e"
  proof
    assume eq: "drop_bit (64 - e) (rev64 h) = drop_bit (64 - e) (rev64 v)"
    show "h AND mask e = v AND mask e"
    proof (rule bit_word_eqI)
      fix i :: nat
      assume i: "i < LENGTH(64)"
      have "bit h i = bit v i" if "i < e"
      proof -
        have "bit (drop_bit (64 - e) (rev64 h)) (e - 1 - i) = bit (drop_bit (64 - e) (rev64 v)) (e - 1 - i)"
          by (simp only: eq)
        moreover have "63 - i < 64" by arith
        ultimately show ?thesis using that assms i by (simp add: bit_drop_bit_eq bit_rev64)
      qed
      then show "bit (h AND mask e) i = bit (v AND mask e) i" by (auto simp: bit_simps)
    qed
  next
    assume eq: "h AND mask e = v AND mask e"
    show "drop_bit (64 - e) (rev64 h) = drop_bit (64 - e) (rev64 v)"
    proof (rule bit_word_eqI)
      fix i :: nat
      have "bit h (e - 1 - i) = bit v (e - 1 - i)" if "i < e"
      proof -
        have "bit (h AND mask e) (e - 1 - i) = bit (v AND mask e) (e - 1 - i)" by (simp only: eq)
        moreover have "e - 1 - i < 64" using that assms by arith
        ultimately show ?thesis using that assms by (simp add: bit_simps)
      qed
      then show "bit (drop_bit (64 - e) (rev64 h)) i = bit (drop_bit (64 - e) (rev64 v)) i"
        using assms by (cases "i < e") (auto simp: bit_drop_bit_eq bit_rev64)
    qed
  qed
  finally show ?thesis by blast
qed

text \<open>The cursor moves to the next block.\<close>

lemma next_cursor_pos:
  assumes "e \<le> 64"
  shows "pos (next_cursor (mask e) v) = (pos v div 2 ^ (64 - e) + 1) * 2 ^ (64 - e) mod 2 ^ 64"
proof -
  let ?k = "64 - e"
  have r: "rev64 (v OR NOT (mask e)) = rev64 v OR mask ?k"
    using assms by (intro bit_word_eqI) (auto simp: bit_rev64 bit_simps)
  have "rev64 v OR mask ?k = push_bit ?k (drop_bit ?k (rev64 v)) + mask ?k"
  proof -
    have "rev64 v OR mask ?k = push_bit ?k (drop_bit ?k (rev64 v)) OR mask ?k"
      by (rule bit_word_eqI) (auto simp: bit_simps)
    also have "\<dots> = push_bit ?k (drop_bit ?k (rev64 v)) + mask ?k"
      by (rule disjunctive_add [symmetric]) (auto simp: bit_simps)
    finally show ?thesis .
  qed
  then have "rev64 (v OR NOT (mask e)) + 1 = (drop_bit ?k (rev64 v) + 1) * 2 ^ ?k"
    unfolding r by (simp add: push_bit_eq_mult mask_eq_exp_minus_1 algebra_simps)
  then have "pos (next_cursor (mask e) v) = unat ((drop_bit ?k (rev64 v) + 1) * 2 ^ ?k)"
    by (simp add: pos_def next_cursor_def)
  also have "(drop_bit ?k (rev64 v) + 1) * 2 ^ ?k =
      (word_of_nat ((pos v div 2 ^ ?k + 1) * 2 ^ ?k) :: u64)"
    by (simp add: pos_def algebra_simps flip: drop_bit_eq_div [where 'a = nat] unat_drop_bit_eq)
  also have "unat (word_of_nat ((pos v div 2 ^ ?k + 1) * 2 ^ ?k) :: u64) =
      (pos v div 2 ^ ?k + 1) * 2 ^ ?k mod 2 ^ 64"
    by (subst unat_of_nat) simp
  finally show ?thesis .
qed

text \<open>The start of the block after the one that holds a position.\<close>

definition block_end :: "nat \<Rightarrow> nat \<Rightarrow> nat" where
  "block_end e p = (p div 2 ^ (64 - e) + 1) * 2 ^ (64 - e)"

lemma block_end_gt: "p < block_end e p"
  by (simp add: block_end_def) (metis add.commute div_mult_mod_eq mod_less_divisor nat_add_left_cancel_less
      zero_less_numeral zero_less_power)

lemma block_same: "p \<le> q \<Longrightarrow> q < block_end e p \<Longrightarrow> q div 2 ^ (64 - e) = p div 2 ^ (64 - e)"
  unfolding block_end_def
  by (metis Suc_eq_plus1 div_le_mono le_antisym less_Suc_eq_le less_mult_imp_div_less)

lemma block_end_le: "p < 2 ^ 64 \<Longrightarrow> e \<le> 64 \<Longrightarrow> block_end e p \<le> 2 ^ 64"
proof -
  assume p: "p < 2 ^ 64" and e: "e \<le> 64"
  have s: "(2::nat) ^ 64 = 2 ^ e * 2 ^ (64 - e)" using e by (simp flip: power_add)
  then have "p div 2 ^ (64 - e) < 2 ^ e" using p by (simp add: less_mult_imp_div_less)
  then have "(p div 2 ^ (64 - e) + 1) * 2 ^ (64 - e) \<le> 2 ^ e * 2 ^ (64 - e)" by (intro mult_le_mono1) simp
  then show ?thesis unfolding block_end_def s .
qed

text \<open>A smaller block ends before the larger block around it, and either they end together or the next
  smaller block is in the same larger one.\<close>

lemma block_end_nested:
  assumes "e0 \<le> e1" and "e1 \<le> 64"
  shows "block_end e1 p \<le> block_end e0 p"
    and "block_end e1 p < block_end e0 p \<Longrightarrow> block_end e0 (block_end e1 p) = block_end e0 p"
    and "block_end e1 p mod 2 ^ (64 - e0) = 0 \<longleftrightarrow> block_end e1 p = block_end e0 p"
proof -
  let ?B0 = "2 ^ (64 - e0) :: nat" and ?B1 = "2 ^ (64 - e1) :: nat"
  obtain c where c: "?B0 = c * ?B1"
    using assms le_imp_power_dvd [of "64 - e1" "64 - e0" "2::nat"] by (metis diff_le_mono2 dvd_def mult.commute)
  have "p div ?B1 < (p div ?B0 + 1) * c"
  proof -
    have "p < (p div ?B0 + 1) * c * ?B1"
      using block_end_gt [of p e0] c by (simp add: block_end_def algebra_simps)
    then show ?thesis by (rule less_mult_imp_div_less)
  qed
  then have "(p div ?B1 + 1) * ?B1 \<le> (p div ?B0 + 1) * c * ?B1" by (intro mult_le_mono1) simp
  then show le: "block_end e1 p \<le> block_end e0 p" by (simp add: block_end_def c algebra_simps)
  show same: "block_end e0 (block_end e1 p) = block_end e0 p" if "block_end e1 p < block_end e0 p"
    using block_same [of p "block_end e1 p" e0] block_end_gt [of p e1] that by (simp add: block_end_def)
  show "block_end e1 p mod ?B0 = 0 \<longleftrightarrow> block_end e1 p = block_end e0 p"
  proof
    assume m: "block_end e1 p mod ?B0 = 0"
    show "block_end e1 p = block_end e0 p"
    proof (rule ccontr)
      assume "block_end e1 p \<noteq> block_end e0 p"
      then have "block_end e1 p div ?B0 = p div ?B0"
        using le block_same [of p "block_end e1 p" e0] block_end_gt [of p e1] by simp
      then have "block_end e1 p = p div ?B0 * ?B0" using m by (metis add.right_neutral div_mult_mod_eq)
      then show False using block_end_gt [of p e1] div_mult_mod_eq [of p ?B0] by linarith
    qed
  qed (simp add: block_end_def)
qed

lemma next_cursor_block:
  assumes "e \<le> 64"
  shows "pos (next_cursor (mask e) v) = block_end e (pos v) mod 2 ^ 64"
  using next_cursor_pos [OF assms] by (simp add: block_end_def)

text \<open>The test that ends the loop over the expansions.\<close>

lemma expansion_done:
  assumes e: "e0 \<le> e1" "e1 \<le> 64" and z: "pos v mod 2 ^ (64 - e1) = 0"
  shows "v AND (mask e0 XOR mask e1) = 0 \<longleftrightarrow> pos v mod 2 ^ (64 - e0) = 0"
proof -
  have low: "pos v mod 2 ^ k = 0 \<longleftrightarrow> (\<forall>i<k. \<not> bit (rev64 v) i)" for k
  proof -
    have "pos v mod 2 ^ k = 0 \<longleftrightarrow> take_bit k (rev64 v) = 0"
      by (simp add: pos_def flip: take_bit_eq_mod [where 'a = nat] unsigned_take_bit_eq)
        (simp add: unsigned_eq_0_iff)
    also have "\<dots> \<longleftrightarrow> (\<forall>i<k. \<not> bit (rev64 v) i)"
      by (auto simp: bit_eq_iff bit_take_bit_iff bit_rev64)
    finally show ?thesis .
  qed
  have b: "\<not> bit v j" if "e1 \<le> j" "j < 64" for j
    using z [unfolded low, rule_format, of "63 - j"] that by (simp add: bit_rev64)
  have "v AND (mask e0 XOR mask e1) = 0 \<longleftrightarrow> (\<forall>j. e0 \<le> j \<and> j < 64 \<longrightarrow> \<not> bit v j)"
  proof -
    have "v AND (mask e0 XOR mask e1) = 0 \<longleftrightarrow> (\<forall>j. bit v j \<longrightarrow> (j < e0 \<longleftrightarrow> j < e1))"
      using bit_imp_le_length [of v] by (auto simp: bit_eq_iff bit_simps)
    moreover have "(\<not> bit v j \<or> (j < e0 \<longleftrightarrow> j < e1)) \<longleftrightarrow> (e0 \<le> j \<and> j < 64 \<longrightarrow> \<not> bit v j)" for j
      using b [of j] e bit_imp_le_length [of v j] by (cases "j < e0"; cases "j < e1") auto
    ultimately show ?thesis by blast
  qed
  also have "\<dots> \<longleftrightarrow> (\<forall>i<64 - e0. \<not> bit (rev64 v) i)"
  proof
    assume "\<forall>j. e0 \<le> j \<and> j < 64 \<longrightarrow> \<not> bit v j"
    then have "\<not> bit v (63 - i)" if "i < 64 - e0" for i
      using that spec [of _ "63 - i"] by (simp add: less_diff_conv le_diff_conv2)
    then show "\<forall>i<64 - e0. \<not> bit (rev64 v) i" by (simp add: bit_rev64)
  next
    assume a: "\<forall>i<64 - e0. \<not> bit (rev64 v) i"
    have "\<not> bit v j" if "e0 \<le> j" "j < 64" for j
      using a [rule_format, of "63 - j"] that by (simp add: bit_rev64)
    then show "\<forall>j. e0 \<le> j \<and> j < 64 \<longrightarrow> \<not> bit v j" by blast
  qed
  finally show ?thesis by (simp add: low)
qed


section \<open>Visits\<close>

lemma size_mask_mask:
  assumes "0 \<le> e" and "e \<le> 60"
  shows "size_mask e = mask (nat e)"
  using assms by (simp add: size_mask_def DICTHT_SIZE_MASK_def DICTHT_SIZE_def mask_eq_exp_minus_1 of_nat_diff)

lemma hash_index_mask: "hash_index h e = unat (h AND size_mask e)"
  by (simp add: hash_index_def size_mask_def)

abbreviation key_pos :: "('k, 'v) dictType \<Rightarrow> 'k \<Rightarrow> nat" where
  "key_pos T k \<equiv> pos (dictHashKey T k True)"

text \<open>\<open>es\<close> are entries of a table, and all of them whose position is from \<open>lo\<close> up to \<open>hi\<close>.\<close>

definition visits :: "('k, 'v) dictType \<Rightarrow> ('k, 'v) dictht \<Rightarrow> nat \<Rightarrow> nat \<Rightarrow> ('k \<times> 'v option) list \<Rightarrow> bool" where
  "visits T h lo hi es \<longleftrightarrow> set es \<subseteq> set (ht_entries h) \<and>
     (\<forall>kv\<in>set (ht_entries h). lo \<le> key_pos T (fst kv) \<and> key_pos T (fst kv) < hi \<longrightarrow> kv \<in> set es)"

lemma visits_append: "visits T h lo mid es \<Longrightarrow> visits T h mid hi es' \<Longrightarrow> visits T h lo hi (es @ es')"
  unfolding visits_def by (metis Un_iff not_le set_append Un_least)

lemma scan_bucket_ok:
  assumes wf: "ht_wf T (get_ht d t)" and e: "0 \<le> ht_size_exp (get_ht d t)"
  shows "\<exists>es. dictScanDefragBucket d t (v AND size_mask (ht_size_exp (get_ht d t))) = Some es \<and>
    visits T (get_ht d t) (pos v) (block_end (nat (ht_size_exp (get_ht d t))) (pos v)) es"
proof -
  let ?h = "get_ht d t" and ?e = "ht_size_exp (get_ht d t)"
  let ?i = "unat (v AND size_mask ?e)"
  have e60: "?e \<le> 60" using wf by (simp add: ht_wf_def)
  have i: "?i < length (ht_table ?h)" using ht_wf_index [OF wf e, of v] by (simp add: hash_index_mask)
  have "kv \<in> set (chain (ht_table ?h ! ?i))"
    if kv: "kv \<in> set (ht_entries ?h)" "pos v \<le> key_pos T (fst kv)" "key_pos T (fst kv) < block_end (nat ?e) (pos v)" for kv
  proof -
    have "key_pos T (fst kv) div 2 ^ (64 - nat ?e) = pos v div 2 ^ (64 - nat ?e)"
      using block_same [OF kv(2,3)] .
    then have "dictHashKey T (fst kv) True AND mask (nat ?e) = v AND mask (nat ?e)"
      using same_bucket [of "nat ?e"] e60 by simp
    then have "hash_index (dictHashKey T (fst kv) True) ?e = ?i"
      using size_mask_mask [OF e e60] by (simp add: hash_index_mask)
    then show ?thesis using entries_of_bucket(2) [OF wf kv(1) refl] by simp
  qed
  moreover have "set (chain (ht_table ?h ! ?i)) \<subseteq> set (ht_entries ?h)"
    using nth_mem [OF i] by (auto simp: ht_entries_def)
  ultimately show ?thesis using i by (simp add: dictScanDefragBucket_def visits_def)
qed

text \<open>The loop over the expansions ends, and visits the larger table up to the end of the block of the
  smaller one.\<close>

lemma scan_expansions_ok:
  assumes wf: "ht_wf T (get_ht d t)" and e: "0 \<le> ht_size_exp (get_ht d t)"
    and e0: "e0 \<le> nat (ht_size_exp (get_ht d t))"
  shows "\<exists>es v'. scan_expansions d t (mask e0) (size_mask (ht_size_exp (get_ht d t))) v = Some (es, v') \<and>
    visits T (get_ht d t) (pos v) (block_end e0 (pos v)) es \<and> pos v' = block_end e0 (pos v) mod 2 ^ 64"
proof (induction "2 ^ 64 - pos v" arbitrary: v rule: less_induct)
  case less
  let ?h = "get_ht d t" and ?e = "ht_size_exp (get_ht d t)"
  let ?e1 = "nat ?e" and ?m1 = "size_mask ?e"
  have e60: "?e \<le> 60" using wf by (simp add: ht_wf_def)
  have m1: "?m1 = mask ?e1" using size_mask_mask [OF e e60] .
  have le: "e0 \<le> ?e1" "?e1 \<le> 64" using e0 e60 by simp_all
  obtain es where es: "dictScanDefragBucket d t (v AND ?m1) = Some es"
      "visits T ?h (pos v) (block_end ?e1 (pos v)) es"
    using scan_bucket_ok [OF wf e] by blast
  let ?v1 = "next_cursor ?m1 v"
  have p1: "pos ?v1 = block_end ?e1 (pos v) mod 2 ^ 64" using next_cursor_block [OF le(2)] m1 by simp
  have z: "pos ?v1 mod 2 ^ (64 - ?e1) = 0"
  proof -
    have "(2::nat) ^ (64 - ?e1) dvd 2 ^ 64" by (intro le_imp_power_dvd) simp
    then show ?thesis unfolding p1 block_end_def by (simp add: mod_mod_cancel)
  qed
  have fin: "?v1 AND (mask e0 XOR ?m1) = 0 \<longleftrightarrow> block_end ?e1 (pos v) = block_end e0 (pos v)"
  proof -
    have "(2::nat) ^ (64 - e0) dvd 2 ^ 64" by (intro le_imp_power_dvd) simp
    then have "pos ?v1 mod 2 ^ (64 - e0) = block_end ?e1 (pos v) mod 2 ^ (64 - e0)"
      unfolding p1 by (rule mod_mod_cancel)
    then show ?thesis using expansion_done [OF le z] block_end_nested(3) [OF le] m1 by simp
  qed
  show ?case
  proof (cases "?v1 AND (mask e0 XOR ?m1) = 0")
    case True
    then show ?thesis using es p1 fin by (subst scan_expansions.simps) (simp add: Let_def)
  next
    case False
    have lt: "block_end ?e1 (pos v) < block_end e0 (pos v)"
      using block_end_nested(1) [OF le, of "pos v"] False fin by simp
    also have "\<dots> \<le> 2 ^ 64" using block_end_le [OF pos_less] le by simp
    finally have p1': "pos ?v1 = block_end ?e1 (pos v)" using p1 by simp
    have "2 ^ 64 - pos ?v1 < 2 ^ 64 - pos v"
      using p1' block_end_gt [of "pos v" ?e1] pos_less [of v] by (intro diff_less_mono2) auto
    then obtain es' v' where r: "scan_expansions d t (mask e0) ?m1 ?v1 = Some (es', v')"
        "visits T ?h (pos ?v1) (block_end e0 (pos ?v1)) es'" "pos v' = block_end e0 (pos ?v1) mod 2 ^ 64"
      using less.hyps by blast
    have same: "block_end e0 (pos ?v1) = block_end e0 (pos v)"
      using block_end_nested(2) [OF le lt] p1' by simp
    have "visits T ?h (pos v) (block_end e0 (pos v)) (es @ es')"
      using visits_append [OF es(2)] r(2) p1' same by simp
    then show ?thesis using False es(1) r same by (subst scan_expansions.simps) (simp add: Let_def)
  qed
qed


lemma visits_mono: "visits T h lo hi es \<Longrightarrow> hi' \<le> hi \<Longrightarrow> visits T h lo hi' es"
  by (auto simp: visits_def)

text \<open>What one call promises, on the entries of both tables: it only emits entries of the dictionary,
  moves the cursor up to \<open>hi\<close>, and emits every entry between the two cursors.\<close>

definition scan_step :: "('k, 'v) dictType \<Rightarrow> ('k, 'v) dict \<Rightarrow> u64 \<Rightarrow> ('k \<times> 'v option) list \<Rightarrow> u64 \<Rightarrow> bool" where
  "scan_step T d v es v' \<longleftrightarrow> set es \<subseteq> set (dict_entries d) \<and> (v' = 0 \<or> pos v < pos v') \<and>
     (\<forall>kv\<in>set (dict_entries d). pos v \<le> key_pos T (fst kv) \<and> (v' = 0 \<or> key_pos T (fst kv) < pos v') \<longrightarrow> kv \<in> set es)"

lemma scan_stepI:
  assumes es: "set es \<subseteq> set (dict_entries d)" and v': "pos v' = hi mod 2 ^ 64" and hi: "pos v < hi" "hi \<le> 2 ^ 64"
    and all: "\<And>kv. kv \<in> set (dict_entries d) \<Longrightarrow> pos v \<le> key_pos T (fst kv) \<Longrightarrow> key_pos T (fst kv) < hi \<Longrightarrow> kv \<in> set es"
  shows "scan_step T d v es v'"
proof -
  consider "hi = 2 ^ 64" "v' = 0" | "pos v' = hi" "v' \<noteq> 0"
  proof (cases "hi = 2 ^ 64")
    case True
    then show ?thesis using that(1) v' pos_eq_0 [of v'] by simp
  next
    case False
    then show ?thesis using that(2) v' hi pos_eq_0 [of v'] by auto
  qed
  then show ?thesis
    using es hi all pos_less by cases (auto simp: scan_step_def)
qed

lemma scan_two_tables:
  assumes wf: "ht_wf T (get_ht d a)" "ht_wf T (get_ht d b)"
    and e: "0 \<le> ht_size_exp (get_ht d a)" "ht_size_exp (get_ht d a) \<le> ht_size_exp (get_ht d b)"
    and ab: "set (dict_entries d) = set (ht_entries (get_ht d a)) \<union> set (ht_entries (get_ht d b))"
  shows "\<exists>es0 es1 v'. dictScanDefragBucket d a (v AND size_mask (ht_size_exp (get_ht d a))) = Some es0 \<and>
    scan_expansions d b (size_mask (ht_size_exp (get_ht d a))) (size_mask (ht_size_exp (get_ht d b))) v = Some (es1, v') \<and>
    scan_step T d v (es0 @ es1) v'"
proof -
  let ?e0 = "nat (ht_size_exp (get_ht d a))"
  have e60: "ht_size_exp (get_ht d a) \<le> 60" using wf(1) by (simp add: ht_wf_def)
  have eb: "0 \<le> ht_size_exp (get_ht d b)" "?e0 \<le> nat (ht_size_exp (get_ht d b))" using e by simp_all
  obtain es0 where es0: "dictScanDefragBucket d a (v AND size_mask (ht_size_exp (get_ht d a))) = Some es0"
      "visits T (get_ht d a) (pos v) (block_end ?e0 (pos v)) es0"
    using scan_bucket_ok [OF wf(1) e(1)] by blast
  obtain es1 v' where es1: "scan_expansions d b (mask ?e0) (size_mask (ht_size_exp (get_ht d b))) v = Some (es1, v')"
      "visits T (get_ht d b) (pos v) (block_end ?e0 (pos v)) es1" "pos v' = block_end ?e0 (pos v) mod 2 ^ 64"
    using scan_expansions_ok [OF wf(2) eb] by blast
  have "scan_step T d v (es0 @ es1) v'"
    using es0(2) es1(2) ab block_end_gt [of "pos v" ?e0] block_end_le [OF pos_less, of ?e0 v] e60
    by (intro scan_stepI [OF _ es1(3)]) (auto simp: visits_def)
  then show ?thesis using es0(1) es1(1) size_mask_mask [OF e(1) e60] by simp
qed

lemma scan_one_table:
  assumes wf: "ht_wf T (get_ht d 0)" and e: "0 \<le> ht_size_exp (get_ht d 0)"
    and one: "set (dict_entries d) = set (ht_entries (get_ht d 0))"
  shows "\<exists>es. dictScanDefragBucket d 0 (v AND size_mask (ht_size_exp (get_ht d 0))) = Some es \<and>
    scan_step T d v es (next_cursor (size_mask (ht_size_exp (get_ht d 0))) v)"
proof -
  let ?e = "nat (ht_size_exp (get_ht d 0))"
  have e60: "ht_size_exp (get_ht d 0) \<le> 60" using wf by (simp add: ht_wf_def)
  obtain es where es: "dictScanDefragBucket d 0 (v AND size_mask (ht_size_exp (get_ht d 0))) = Some es"
      "visits T (get_ht d 0) (pos v) (block_end ?e (pos v)) es"
    using scan_bucket_ok [OF wf e] by blast
  have p: "pos (next_cursor (size_mask (ht_size_exp (get_ht d 0))) v) = block_end ?e (pos v) mod 2 ^ 64"
    using next_cursor_block [of ?e v] e60 size_mask_mask [OF e e60] by simp
  have "scan_step T d v es (next_cursor (size_mask (ht_size_exp (get_ht d 0))) v)"
    using es(2) one block_end_gt [of "pos v" ?e] block_end_le [OF pos_less, of ?e v] e60
    by (intro scan_stepI [OF _ p]) (auto simp: visits_def)
  then show ?thesis using es(1) by blast
qed

lemma DICTHT_SIZE_less: "0 \<le> a \<Longrightarrow> 0 \<le> b \<Longrightarrow> DICTHT_SIZE a < DICTHT_SIZE b \<longleftrightarrow> a < b"
  by (auto simp: DICTHT_SIZE_def)

lemma dictSize_zero: "dict_inv T d \<Longrightarrow> dictSize d = 0 \<longleftrightarrow> dict_entries d = []"
  by (auto simp: dict_inv_def dictSize_def dict_entries_def ht_wf_def)

lemma scan_step_cong: "dict_entries d = dict_entries d' \<Longrightarrow> scan_step T d = scan_step T d'"
  by (auto simp: scan_step_def fun_eq_iff)

lemma dictScan_ok:
  assumes inv: "dict_inv T d" and p: "pauserehash d < 2 ^ 15"
  shows "\<exists>es v'. dictScan d v = Some (es, v', d) \<and> scan_step T d v es v'"
proof (cases "dictSize d = 0")
  case True
  then show ?thesis using dictSize_zero [OF inv] by (simp add: dictScan_def dictScanDefrag_def scan_step_def)
next
  case False
  define d1 where "d1 = dictPauseRehashing d"
  have d1: "ht0 d1 = ht0 d" "ht1 d1 = ht1 d" "rehashidx d1 = rehashidx d" "dictResumeRehashing d1 = d"
    using p mod_add_left_eq [of "Suc (pauserehash d)" 32768 32767]
    by (simp_all add: d1_def dictPauseRehashing_def dictResumeRehashing_def)
  have same: "dict_entries d1 = dict_entries d" by (simp add: dict_entries_def d1)
  have e0: "0 \<le> ht_size_exp (ht0 d)"
    using dict_inv_nonempty [OF inv] False dictSize_zero [OF inv] by simp
  have wf: "ht_wf T (get_ht d1 t)" for t using inv by (simp add: dict_inv_def get_ht_def d1)
  show ?thesis
  proof (cases "dictIsRehashing d")
    case no: False
    have "ht1 d = dictReset" using inv no by (simp add: dict_inv_def)
    then have "set (dict_entries d1) = set (ht_entries (get_ht d1 0))"
      by (simp add: dict_entries_def get_ht_def d1 dictReset_def ht_entries_def)
    then obtain es where "dictScanDefragBucket d1 0 (v AND size_mask (ht_size_exp (get_ht d1 0))) = Some es"
        "scan_step T d1 v es (next_cursor (size_mask (ht_size_exp (get_ht d1 0))) v)"
      using scan_one_table [OF wf [of 0]] e0 by (auto simp: get_ht_def d1)
    then show ?thesis
      using no False scan_step_cong [OF same] d1
      by (simp add: dictScan_def dictScanDefrag_def dictIsRehashing_def flip: d1_def)
  next
    case yes: True
    have e1: "0 \<le> ht_size_exp (ht1 d)" using inv yes by (simp add: dict_inv_def)
    define a b where "a = (if DICTHT_SIZE (ht_size_exp (get_ht d1 0)) > DICTHT_SIZE (ht_size_exp (get_ht d1 1)) then 1 else 0 :: nat)"
      and "b = 1 - a"
    have "set (dict_entries d1) = set (ht_entries (get_ht d1 a)) \<union> set (ht_entries (get_ht d1 b))"
      and "0 \<le> ht_size_exp (get_ht d1 a)" and "ht_size_exp (get_ht d1 a) \<le> ht_size_exp (get_ht d1 b)"
      using e0 e1 by (auto simp: a_def b_def dict_entries_def get_ht_def d1 DICTHT_SIZE_less)
    then obtain es0 es1 v' where
        "dictScanDefragBucket d1 a (v AND size_mask (ht_size_exp (get_ht d1 a))) = Some es0"
        "scan_expansions d1 b (size_mask (ht_size_exp (get_ht d1 a))) (size_mask (ht_size_exp (get_ht d1 b))) v = Some (es1, v')"
        "scan_step T d1 v (es0 @ es1) v'"
      using scan_two_tables [OF wf wf] by blast
    moreover have "(if DICTHT_SIZE (ht_size_exp (get_ht d1 0)) > DICTHT_SIZE (ht_size_exp (get_ht d1 1))
        then (1, 0) else (0, 1)) = (a, b)"
      by (simp add: a_def b_def)
    ultimately show ?thesis
      using yes False scan_step_cong [OF same] d1
      by (simp add: dictScan_def dictScanDefrag_def dictIsRehashing_def flip: d1_def)
  qed
qed


section \<open>A complete iteration\<close>

text \<open>
  The calls of one iteration, each on the dictionary as it is at that moment, starting from cursor 0 and
  until the cursor is 0 again. The result is what the callbacks saw, or \<open>None\<close> when the calls are not
  exactly a complete iteration.
\<close>

fun scan_run :: "('k, 'v) dict list \<Rightarrow> u64 \<Rightarrow> ('k \<times> 'v option) list option" where
  "scan_run [] v = None"
| "scan_run (d # ds) v =
     (case dictScan d v of
        None \<Rightarrow> None
      | Some (es, v', _) \<Rightarrow>
          if v' = 0 then (if ds = [] then Some es else None)
          else map_option ((@) es) (scan_run ds v'))"

lemma scan_run_complete:
  assumes "\<forall>d\<in>set ds. dict_inv T d \<and> pauserehash d < 2 ^ 15" and "scan_run ds v = Some es"
    and "\<forall>d\<in>set ds. k \<in> fst ` set (dict_entries d)" and "pos v \<le> key_pos T k"
  shows "k \<in> fst ` set es"
  using assms
proof (induction ds arbitrary: v es)
  case (Cons d ds)
  obtain es1 v' where s: "dictScan d v = Some (es1, v', d)" "scan_step T d v es1 v'"
    using dictScan_ok [of T d v] Cons.prems(1) by auto
  obtain kv where kv: "kv \<in> set (dict_entries d)" "fst kv = k" using Cons.prems(3) by auto
  show ?case
  proof (cases "v' = 0 \<or> key_pos T k < pos v'")
    case True
    then have "kv \<in> set es1" using s(2) kv Cons.prems(4) by (auto simp: scan_step_def)
    moreover have "set es1 \<subseteq> set es" using Cons.prems(2) s(1) by (auto split: if_splits)
    ultimately show ?thesis using kv(2) by auto
  next
    case False
    then obtain es2 where "scan_run ds v' = Some es2" "es = es1 @ es2" using Cons.prems(2) s(1) by auto
    then show ?thesis using Cons.IH [of v' es2] Cons.prems False by auto
  qed
qed simp

lemma scan_run_sound:
  assumes "\<forall>d\<in>set ds. dict_inv T d \<and> pauserehash d < 2 ^ 15" and "scan_run ds v = Some es"
  shows "set es \<subseteq> (\<Union>d\<in>set ds. set (dict_entries d))"
  using assms
proof (induction ds arbitrary: v es)
  case (Cons d ds)
  obtain es1 v' where s: "dictScan d v = Some (es1, v', d)" "scan_step T d v es1 v'"
    using dictScan_ok [of T d v] Cons.prems(1) by auto
  then have "set es1 \<subseteq> set (dict_entries d)" by (simp add: scan_step_def)
  then show ?case using Cons s(1) by (fastforce split: if_splits)
qed simp

text \<open>C6. Guarantee of \<^verbatim>\<open>SCAN\<close>: when \<^verbatim>\<open>dictScan\<close> is called again and again with the cursor it returned, from
  cursor 0 until it returns 0, then every key that was in the dictionary at all of these calls is given
  to the callback, and the callback only gets entries that were there at some call. The dictionary may
  be any other one at each call: larger, smaller, or in the middle of a rehashing.\<close>

theorem dictScan_complete:
  assumes "\<forall>d\<in>set ds. dict_inv T d \<and> pauserehash d < 2 ^ 15" and "scan_run ds 0 = Some es"
  shows "(\<Inter>d\<in>set ds. fst ` set (dict_entries d)) \<subseteq> fst ` set es \<and>
    set es \<subseteq> (\<Union>d\<in>set ds. set (dict_entries d))"
  using scan_run_complete [OF assms] scan_run_sound [OF assms] by auto

text \<open>C16. One call of \<^verbatim>\<open>dictScan\<close> on a well-formed dictionary ends without a fault, leaves the dictionary as
  it was (the pause of the rehashing included), and either ends the iteration or moves the cursor up in
  the order of the reversed bits, so that an iteration has at most \<open>2 ^ 64\<close> calls.\<close>

theorem dictScan_progress:
  assumes "dict_inv T d" and "pauserehash d < 2 ^ 15"
  shows "\<exists>es v'. dictScan d v = Some (es, v', d) \<and>
    (v' = 0 \<or> unat (rev64 v) < unat (rev64 v')) \<and> set es \<subseteq> set (dict_entries d)"
  using dictScan_ok [OF assms] by (fastforce simp: scan_step_def pos_def)


text \<open>The example dictionary after its rehashing, and an iteration with the rehashing in the middle of it.\<close>

definition rehashed_dict :: "(nat, nat) dict" where
  "rehashed_dict = \<lparr>
     ht0 = \<lparr>ht_table = [ENull, ENormal 1 (Some 10) ENull, ENormal 2 (Some 20) ENull, ENull,
                       ENormal 4 (Some 40) ENull, ENormal 5 (Some 50) ENull, ENull, ENull],
            ht_used = 4, ht_size_exp = 3\<rparr>,
     ht1 = dictReset, rehashidx = -1, pauserehash = 0, useStoredKeyApi = False, pauseAutoResize = 0, trace = []\<rparr>"

definition scan_moments :: "(nat, nat) dict list" where
  "scan_moments = [rehashing_dict, rehashing_dict, rehashed_dict, rehashed_dict, rehashed_dict, rehashed_dict]"

lemma next_cursor_values:
  "next_cursor 7 0 = 4" "next_cursor 7 4 = 2" "next_cursor 7 2 = 6" "next_cursor 7 6 = 1"
  "next_cursor 7 1 = 5" "next_cursor 7 5 = 3" "next_cursor 7 3 = 7"
  by (simp_all add: next_cursor_def rev64_swaps swap_bits_def)

lemma next_cursor_last: "next_cursor 7 7 = 0"
proof -
  have "rev64 (- 1) = - 1" and "rev64 0 = 0" by (rule bit_word_eqI; simp add: bit_rev64)+
  then show ?thesis by (simp add: next_cursor_def)
qed

lemma scan_expansions_cases:
  "next_cursor m1 v AND (m0 XOR m1) \<noteq> 0 \<Longrightarrow> scan_expansions d t m0 m1 v =
     Option.bind (dictScanDefragBucket d t (v AND m1)) (\<lambda>es.
       Option.bind (scan_expansions d t m0 m1 (next_cursor m1 v)) (\<lambda>r. Some (es @ fst r, snd r)))"
  "next_cursor m1 v AND (m0 XOR m1) = 0 \<Longrightarrow> scan_expansions d t m0 m1 v =
     map_option (\<lambda>es. (es, next_cursor m1 v)) (dictScanDefragBucket d t (v AND m1))"
  by (subst scan_expansions.simps; cases "dictScanDefragBucket d t (v AND m1)"; simp add: Let_def)+

lemma scan_moments_scans:
  "dictScan rehashing_dict 0 = Some ([(4, Some 40)], 2, rehashing_dict)"
  "dictScan rehashing_dict 2 = Some ([(2, Some 20)], 1, rehashing_dict)"
  "dictScan rehashed_dict 1 = Some ([(1, Some 10)], 5, rehashed_dict)"
  "dictScan rehashed_dict 5 = Some ([(5, Some 50)], 3, rehashed_dict)"
  "dictScan rehashed_dict 3 = Some ([], 7, rehashed_dict)"
  "dictScan rehashed_dict 7 = Some ([], 0, rehashed_dict)"
  by (simp_all add: dictScan_def dictScanDefrag_def rehashing_dict_def rehashed_dict_def dictSize_def
    dictIsRehashing_def dictPauseRehashing_def dictResumeRehashing_def get_ht_def size_mask_def
    DICTHT_SIZE_MASK_def DICTHT_SIZE_def dictScanDefragBucket_def scan_expansions_cases next_cursor_values next_cursor_last)

lemma scan_moments_run:
  "scan_run scan_moments 0 = Some [(4, Some 40), (2, Some 20), (1, Some 10), (5, Some 50)]"
  by (simp add: scan_moments_def scan_moments_scans)

lemma scan_moments_inv: "\<forall>d\<in>set scan_moments. dict_inv number_type d \<and> pauserehash d < 2 ^ 15"
proof -
  have "dict_inv number_type rehashed_dict" by code_simp
  then show ?thesis
    using rehashing_dict_wf by (simp add: scan_moments_def dict_wf_def rehashing_dict_def rehashed_dict_def)
qed

theorem dictScan_complete_witness:
  "list_all (\<lambda>d. dict_inv number_type d \<and> pauserehash d < 2 ^ 15) scan_moments \<and>
   scan_run scan_moments 0 = Some [(4, Some 40), (2, Some 20), (1, Some 10), (5, Some 50)] \<and>
   (\<Inter>d\<in>set scan_moments. fst ` set (dict_entries d)) \<subseteq> {4, 2, 1, 5}"
  using dictScan_complete [OF scan_moments_inv scan_moments_run] scan_moments_inv scan_moments_run by (simp add: list_all_iff)

theorem dictScan_progress_witness:
  "dict_inv number_type rehashing_dict \<and> pauserehash rehashing_dict < 2 ^ 15 \<and>
   (\<exists>es v'. dictScan rehashing_dict 1 = Some (es, v', rehashing_dict) \<and>
     (v' = 0 \<or> unat (rev64 1) < unat (rev64 v')) \<and> set es \<subseteq> set (dict_entries rehashing_dict))"
proof -
  have h: "dict_inv number_type rehashing_dict" "pauserehash rehashing_dict < 2 ^ 15"
    using rehashing_dict_wf by (simp_all add: dict_wf_def rehashing_dict_def)
  show ?thesis using dictScan_progress [OF h, of 1] h by blast
qed

end
