(* ===== verification/Dict_Iter.thy ===== *)
theory Dict_Iter
  imports Dict_Correct
begin

text \<open>
  The iterators of \<^verbatim>\<open>dict.c\<close>. A safe iterator pauses rehashing while it runs; an unsafe one takes a fingerprint
  of the tables at its first step and compares it at the end. Both visit every entry once: first the buckets of
  the first table that are not rehashed yet, then those of the second.
\<close>

unbundle bit_operations_syntax

section \<open>Definitions\<close>

text \<open>The dictionary is passed along instead of the pointer to it. The address of a table is the allocator's choice,
  so it is a parameter, \<open>addr\<close>.\<close>

record ('k, 'v) dictIterator =
  it_index :: int
  it_table :: nat
  it_safe :: bool
  it_entry :: "('k, 'v) dictEntry"
  it_nextEntry :: "('k, 'v) dictEntry"
  it_fingerprint :: u64

definition fingerprint_mix :: "u64 \<Rightarrow> u64 \<Rightarrow> u64" where
  "fingerprint_mix hash n =
     (let hash = hash + n;
          hash = NOT hash + push_bit 21 hash;
          hash = hash XOR drop_bit 24 hash;
          hash = (hash + push_bit 3 hash) + push_bit 8 hash;
          hash = hash XOR drop_bit 14 hash;
          hash = (hash + push_bit 2 hash) + push_bit 4 hash;
          hash = hash XOR drop_bit 28 hash in
      hash + push_bit 31 hash)"

definition dictFingerprint :: "(nat \<Rightarrow> u64) \<Rightarrow> ('k, 'v) dict \<Rightarrow> u64" where
  "dictFingerprint addr d =
     foldl fingerprint_mix 0
       [addr 0, word_of_int (ht_size_exp (ht0 d)), word_of_nat (ht_used (ht0 d)),
        addr 1, word_of_int (ht_size_exp (ht1 d)), word_of_nat (ht_used (ht1 d))]"

definition dictInitIterator :: "('k, 'v) dictIterator" where
  "dictInitIterator = \<lparr>it_index = -1, it_table = 0, it_safe = False, it_entry = ENull, it_nextEntry = ENull, it_fingerprint = 0\<rparr>"

definition dictInitSafeIterator :: "('k, 'v) dictIterator" where
  "dictInitSafeIterator = dictInitIterator\<lparr>it_safe := True\<rparr>"

definition dictGetIterator :: "('k, 'v) dictIterator" where
  "dictGetIterator = dictInitIterator"

definition dictGetSafeIterator :: "('k, 'v) dictIterator" where
  "dictGetSafeIterator = dictGetIterator\<lparr>it_safe := True\<rparr>"

definition dictResetIterator :: "(nat \<Rightarrow> u64) \<Rightarrow> ('k, 'v) dictIterator \<Rightarrow> ('k, 'v) dict \<Rightarrow> ('k, 'v) dict option" where
  "dictResetIterator addr it d =
     (if \<not> (it_index it = -1 \<and> it_table it = 0) then
        if it_safe it then Some (dictResumeRehashing d)
        else if it_fingerprint it = dictFingerprint addr d then Some d else None
      else Some d)"

definition dictReleaseIterator :: "(nat \<Rightarrow> u64) \<Rightarrow> ('k, 'v) dictIterator \<Rightarrow> ('k, 'v) dict \<Rightarrow> ('k, 'v) dict option" where
  "dictReleaseIterator addr it d = dictResetIterator addr it d"

text \<open>The two parts of a pass of the loop of \<^verbatim>\<open>dictNext\<close> when there is no current entry: the preparation at the first
  step, and the move to the next bucket. The move gives nothing at the end of the tables.\<close>

definition iter_start :: "(nat \<Rightarrow> u64) \<Rightarrow> ('k, 'v) dictIterator \<Rightarrow> ('k, 'v) dict \<Rightarrow> ('k, 'v) dictIterator \<times> ('k, 'v) dict" where
  "iter_start addr it d =
     (if it_index it = -1 \<and> it_table it = 0 then
        let d' = (if it_safe it then dictPauseRehashing d else d);
            it' = (if it_safe it then it else it\<lparr>it_fingerprint := dictFingerprint addr d\<rparr>) in
        (if dictIsRehashing d' then it'\<lparr>it_index := rehashidx d' - 1\<rparr> else it', d')
      else (it, d))"

definition iter_advance :: "('k, 'v) dictIterator \<Rightarrow> ('k, 'v) dict \<Rightarrow> (bool \<times> ('k, 'v) dictIterator) option" where
  "iter_advance it d =
     (let it = it\<lparr>it_index := it_index it + 1\<rparr>;
          past = (it_index it \<ge> int (DICTHT_SIZE (ht_size_exp (get_ht d (it_table it)))));
          second = (dictIsRehashing d \<and> it_table it = 0);
          it = (if past \<and> second then it\<lparr>it_table := it_table it + 1, it_index := 0\<rparr> else it) in
      if past \<and> \<not> second then Some (False, it)
      else if it_index it < 0 \<or> nat (it_index it) \<ge> length (ht_table (get_ht d (it_table it))) then None
      else Some (True, it\<lparr>it_entry := ht_table (get_ht d (it_table it)) ! nat (it_index it)\<rparr>))"

definition dictNext_bucket :: "(nat \<Rightarrow> u64) \<Rightarrow> ('k, 'v) dictIterator \<Rightarrow> ('k, 'v) dict \<Rightarrow>
    (bool \<times> ('k, 'v) dictIterator \<times> ('k, 'v) dict) option" where
  "dictNext_bucket addr it d =
     (let (it, d) = iter_start addr it d in map_option (\<lambda>(more, it). (more, it, d)) (iter_advance it d))"

text \<open>The result is the entry, null at the end.\<close>

partial_function (option) dictNext :: "(nat \<Rightarrow> u64) \<Rightarrow> ('k, 'v) dictIterator \<Rightarrow> ('k, 'v) dict \<Rightarrow>
    (('k, 'v) dictEntry \<times> ('k, 'v) dictIterator \<times> ('k, 'v) dict) option" where
  "dictNext addr it d =
     Option.bind
       (if it_entry it = ENull then dictNext_bucket addr it d
        else Some (True, it\<lparr>it_entry := it_nextEntry it\<rparr>, d))
       (\<lambda>(more, it, d).
         if \<not> more then Some (ENull, it, d)
         else if it_entry it \<noteq> ENull then Some (it_entry it, it\<lparr>it_nextEntry := dictGetNext (it_entry it)\<rparr>, d)
         else dictNext addr it d)"

section \<open>What is left to visit\<close>

text \<open>The buckets after the bucket \<open>i\<close> of the table \<open>t\<close>.\<close>

definition buckets_left :: "('k, 'v) dict \<Rightarrow> nat \<Rightarrow> int \<Rightarrow> ('k, 'v) dictEntry list" where
  "buckets_left d t i = drop (nat (i + 1)) (ht_table (get_ht d t)) @ (if t = 0 \<and> dictIsRehashing d then ht_table (ht1 d) else [])"

definition it_begins :: "('k, 'v) dictIterator \<Rightarrow> bool" where
  "it_begins it \<longleftrightarrow> it_index it = -1 \<and> it_table it = 0"

definition it_rest :: "('k, 'v) dict \<Rightarrow> ('k, 'v) dictIterator \<Rightarrow> ('k \<times> 'v option) list" where
  "it_rest d it = (if it_begins it then dict_entries d
     else (if it_entry it = ENull then [] else chain (it_nextEntry it)) @ concat (map chain (buckets_left d (it_table it) (it_index it))))"

text \<open>The iterator is at its start, or points into the tables, with the fingerprint taken.\<close>

definition it_ok :: "(nat \<Rightarrow> u64) \<Rightarrow> ('k, 'v) dict \<Rightarrow> ('k, 'v) dictIterator \<Rightarrow> bool" where
  "it_ok addr d it \<longleftrightarrow>
     (if it_begins it then it_entry it = ENull
      else 0 \<le> it_index it \<and> it_table it \<le> 1 \<and> (it_table it = 1 \<longrightarrow> dictIsRehashing d) \<and>
        (it_safe it \<or> it_fingerprint it = dictFingerprint addr d))"

text \<open>The dictionary after a step: the first step of a safe iterator pauses rehashing.\<close>

definition it_dict :: "('k, 'v) dictIterator \<Rightarrow> ('k, 'v) dict \<Rightarrow> ('k, 'v) dict" where
  "it_dict it d = (if it_begins it \<and> it_safe it then dictPauseRehashing d else d)"

lemma it_dict_simps [simp]:
  "ht0 (it_dict it d) = ht0 d" "ht1 (it_dict it d) = ht1 d" "get_ht (it_dict it d) t = get_ht d t"
  "dictIsRehashing (it_dict it d) = dictIsRehashing d" "rehashidx (it_dict it d) = rehashidx d" "dict_entries (it_dict it d) = dict_entries d"
  by (auto simp: it_dict_def dictIsRehashing_def)

lemma it_dict_props [simp]:
  "dictFingerprint addr (it_dict it d) = dictFingerprint addr d" "buckets_left (it_dict it d) t i = buckets_left d t i"
  "dict_inv T (it_dict it d) = dict_inv T d" "it_rest (it_dict it d) it' = it_rest d it'" "it_ok addr (it_dict it d) it' = it_ok addr d it'"
  by (simp_all add: dictFingerprint_def buckets_left_def dict_inv_def it_rest_def it_ok_def)

section \<open>Each step visits the next entry\<close>

lemma dict_inv_table: "dict_inv T d \<Longrightarrow> length (ht_table (get_ht d t)) = DICTHT_SIZE (ht_size_exp (get_ht d t))"
  by (simp add: dict_inv_def ht_wf_def get_ht_def)

lemma dict_entries_left:
  assumes "dict_inv T d"
  shows "dict_entries d = concat (map chain (buckets_left d 0 (if dictIsRehashing d then rehashidx d - 1 else -1)))"
proof (cases "dictIsRehashing d")
  case True
  let ?n = "nat (rehashidx d)" and ?t = "ht_table (ht0 d)"
  have "\<forall>c\<in>set (take ?n ?t). c = ENull" using assms True by (auto simp: dict_inv_def in_set_conv_nth)
  then have "concat (map chain (take ?n ?t)) = []" by auto
  then have "concat (map chain ?t) = concat (map chain (drop ?n ?t))"
    by (metis append_Nil append_take_drop_id concat_append map_append)
  then show ?thesis using True by (simp add: dict_entries_def buckets_left_def ht_entries_def get_ht_def)
next
  case False
  then have "ht1 d = dictReset" using assms by (simp add: dict_inv_def)
  then show ?thesis using False by (simp add: dict_entries_def buckets_left_def ht_entries_def get_ht_def dictReset_def)
qed

lemma buckets_left_step:
  assumes "-1 \<le> i" and "i + 1 < int (length (ht_table (get_ht d t)))"
  shows "buckets_left d t i = ht_table (get_ht d t) ! nat (i + 1) # buckets_left d t (i + 1)"
proof -
  have "nat (i + 1) < length (ht_table (get_ht d t))" "nat (i + 1 + 1) = Suc (nat (i + 1))" using assms by linarith+
  then show ?thesis using Cons_nth_drop_Suc [of "nat (i + 1)" "ht_table (get_ht d t)", symmetric] by (simp add: buckets_left_def)
qed

lemma buckets_left_end:
  assumes "int (length (ht_table (get_ht d t))) \<le> i + 1"
  shows "buckets_left d t i = (if t = 0 \<and> dictIsRehashing d then buckets_left d 1 (-1) else [])"
  using assms by (simp add: buckets_left_def get_ht_def)

lemma iter_advance_ok:
  assumes inv: "dict_inv T d" and i: "-1 \<le> it_index it" and t: "it_table it \<le> 1" "it_table it = 1 \<longrightarrow> dictIsRehashing d"
  obtains (finish) "iter_advance it d = Some (False, it\<lparr>it_index := it_index it + 1\<rparr>)" "buckets_left d (it_table it) (it_index it) = []"
    | (bucket) t' i' c where "iter_advance it d = Some (True, it\<lparr>it_table := t', it_index := i', it_entry := c\<rparr>)"
      "buckets_left d (it_table it) (it_index it) = c # buckets_left d t' i'" "0 \<le> i'" "t' \<le> 1" "t' = 1 \<longrightarrow> dictIsRehashing d"
proof -
  let ?n = "length (ht_table (get_ht d (it_table it)))"
  have len: "DICTHT_SIZE (ht_size_exp (get_ht d t)) = length (ht_table (get_ht d t))" for t using dict_inv_table [OF inv] by simp
  consider "it_index it + 1 < int ?n" | "int ?n \<le> it_index it + 1" "dictIsRehashing d" "it_table it = 0"
    | "int ?n \<le> it_index it + 1" "\<not> (dictIsRehashing d \<and> it_table it = 0)" by linarith
  then show thesis
  proof cases
    case 1
    then show ?thesis
      using i t buckets_left_step [OF i 1] bucket [where t' = "it_table it" and i' = "it_index it + 1" and c = "ht_table (get_ht d (it_table it)) ! nat (it_index it + 1)"]
      by (simp add: iter_advance_def len Let_def)
  next
    case 2
    have pos: "0 < length (ht_table (get_ht d 1))" using inv 2(2) len [of 1] by (auto simp: dict_inv_def get_ht_def DICTHT_SIZE_def)
    have "buckets_left d (it_table it) (it_index it) = ht_table (get_ht d 1) ! 0 # buckets_left d 1 0"
      using buckets_left_end [OF 2(1)] buckets_left_step [of "-1" d 1] pos 2 by simp
    moreover have "iter_advance it d = Some (True, it\<lparr>it_table := 1, it_index := 0, it_entry := ht_table (get_ht d 1) ! 0\<rparr>)"
      using 2 pos len [of 0] by (simp add: iter_advance_def Let_def)
    ultimately show ?thesis using 2 bucket by simp
  next
    case 3
    then show ?thesis using finish buckets_left_end [OF 3(1)] by (auto simp: iter_advance_def len Let_def)
  qed
qed


lemma iter_start_ok:
  assumes inv: "dict_inv T d" and ok: "it_ok addr d it" and e: "it_entry it = ENull"
  obtains it1 where "iter_start addr it d = (it1, it_dict it d)" "it_rest d it = concat (map chain (buckets_left d (it_table it1) (it_index it1)))"
    "-1 \<le> it_index it1" "it_safe it1 = it_safe it" "it_safe it \<or> it_fingerprint it1 = dictFingerprint addr d"
    "it_table it1 \<le> 1" "it_table it1 = 1 \<longrightarrow> dictIsRehashing d"
proof (cases "it_begins it")
  case True
  define it1 where "it1 = (if it_safe it then it else it\<lparr>it_fingerprint := dictFingerprint addr d\<rparr>)
    \<lparr>it_index := if dictIsRehashing d then rehashidx d - 1 else -1\<rparr>"
  have "iter_start addr it d = (it1, it_dict it d)"
    using True by (cases it) (auto simp: iter_start_def it1_def it_dict_def it_begins_def dictIsRehashing_def)
  moreover have "it_rest d it = concat (map chain (buckets_left d 0 (it_index it1)))"
    using True dict_entries_left [OF inv] by (simp add: it_rest_def it1_def)
  moreover have "-1 \<le> it_index it1" using inv by (auto simp: it1_def dict_inv_def)
  moreover have "it_table it1 = 0" using True by (simp add: it1_def it_begins_def)
  ultimately show ?thesis using that [of it1] by (simp add: it1_def)
next
  case False
  then have "iter_start addr it d = (it, it_dict it d)" by (auto simp: iter_start_def it_dict_def it_begins_def)
  then show ?thesis using False that [of it] ok e by (simp add: it_rest_def it_ok_def)
qed

lemma it_begins_index: "0 \<le> it_index it \<Longrightarrow> \<not> it_begins it"
  by (simp add: it_begins_def)

lemma dictNext_bucket_ok:
  assumes inv: "dict_inv T d" and ok: "it_ok addr d it" and e: "it_entry it = ENull"
  obtains (finish) it' where "dictNext_bucket addr it d = Some (False, it', it_dict it d)" "it_rest d it = []"
      "it_ok addr d it'" "0 \<le> it_index it'" "it_safe it' = it_safe it"
    | (bucket) it' where "dictNext_bucket addr it d = Some (True, it', it_dict it d)"
      "it_rest d it = chain (it_entry it') @ concat (map chain (buckets_left d (it_table it') (it_index it')))"
      "it_ok addr d it'" "0 \<le> it_index it'" "it_safe it' = it_safe it"
      "it_begins it \<or> length (buckets_left d (it_table it') (it_index it')) < length (buckets_left d (it_table it) (it_index it))"
proof -
  obtain it1 where it1: "iter_start addr it d = (it1, it_dict it d)" "it_rest d it = concat (map chain (buckets_left d (it_table it1) (it_index it1)))"
    "-1 \<le> it_index it1" "it_safe it1 = it_safe it" "it_safe it \<or> it_fingerprint it1 = dictFingerprint addr d"
    "it_table it1 \<le> 1" "it_table it1 = 1 \<longrightarrow> dictIsRehashing d"
    using iter_start_ok [OF assms] by blast
  have same: "it_begins it \<or> it1 = it" using it1(1) by (auto simp: iter_start_def it_begins_def split: if_splits)
  have inv': "dict_inv T (it_dict it d)" "it_table it1 = 1 \<longrightarrow> dictIsRehashing (it_dict it d)" using inv it1(7) by simp_all
  show thesis
    using inv'(1) it1(3,6) inv'(2)
  proof (cases rule: iter_advance_ok)
    case finish
    then show ?thesis
      using that(1) [of "it1\<lparr>it_index := it_index it1 + 1\<rparr>"] it1 by (simp add: dictNext_bucket_def it_ok_def it_begins_def)
  next
    case (bucket t' i' c)
    then show ?thesis
      using that(2) [of "it1\<lparr>it_table := t', it_index := i', it_entry := c\<rparr>"] it1 same
      by (auto simp: dictNext_bucket_def it_ok_def it_begins_def)
  qed
qed

text \<open>What a step returns: the next entry and an iterator for the rest.\<close>

definition next_ok :: "(nat \<Rightarrow> u64) \<Rightarrow> ('k, 'v) dict \<Rightarrow> ('k, 'v) dictIterator \<Rightarrow> ('k \<times> 'v option) list \<Rightarrow> ('k, 'v) dictEntry \<Rightarrow> ('k, 'v) dictIterator \<Rightarrow> bool" where
  "next_ok addr d it rest de it' \<longleftrightarrow> it_ok addr d it' \<and> 0 \<le> it_index it' \<and> it_safe it' = it_safe it \<and>
    (if rest = [] then de = ENull else de \<noteq> ENull \<and> hd (chain de) = hd rest \<and> it_entry it' = de \<and> it_rest d it' = tl rest)"

lemma next_ok_dict [simp]: "next_ok addr (it_dict it d) = next_ok addr d"
  by (intro ext) (auto simp: next_ok_def)

lemma dictNext_started:
  assumes "dict_inv T d" and "it_ok addr d it" and "0 \<le> it_index it" and "it_rest d it = rest"
    and "it_entry it = ENull"
  shows "\<exists>de it'. dictNext addr it d = Some (de, it', d) \<and> next_ok addr d it rest de it'"
  using assms
proof (induction "length (buckets_left d (it_table it) (it_index it))" arbitrary: it rest rule: less_induct)
  case less
  have nb: "\<not> it_begins it" "it_dict it d = d" using less.prems(3) by (simp_all add: it_begins_def it_dict_def)
  show ?case
    using less.prems(1,2,5)
  proof (cases rule: dictNext_bucket_ok)
    case (finish it')
    then show ?thesis using nb less.prems by (subst dictNext.simps) (auto simp: next_ok_def)
  next
    case (bucket it')
    show ?thesis
    proof (cases "it_entry it' = ENull")
      case True
      have "it_rest d it' = rest" using bucket less.prems True it_begins_index [OF bucket(4)] by (simp add: it_rest_def)
      then have "\<exists>de it''. dictNext addr it' d = Some (de, it'', d) \<and> next_ok addr d it' rest de it''"
        using bucket nb True less.prems by (intro less.hyps) auto
      then show ?thesis using bucket nb True less.prems(5) by (subst dictNext.simps) (auto simp: next_ok_def)
    next
      case False
      then obtain kv kvs where c: "chain (it_entry it') = kv # kvs" by (cases "it_entry it'") auto
      have "rest = kv # kvs @ concat (map chain (buckets_left d (it_table it') (it_index it')))" using bucket(2) less.prems c by simp
      moreover have "chain (dictGetNext (it_entry it')) = kvs" using c by (simp add: chain_next)
      ultimately show ?thesis
        using bucket nb False less.prems(5) c it_begins_index [OF bucket(4)]
        by (subst dictNext.simps) (auto simp: next_ok_def it_rest_def it_ok_def it_begins_def)
    qed
  qed
qed


lemma next_ok_entry:
  assumes "it_ok addr d it" and "0 \<le> it_index it" and "it_entry it \<noteq> ENull" and "it_safe it = it_safe it0"
  shows "next_ok addr d it0 (chain (it_entry it) @ concat (map chain (buckets_left d (it_table it) (it_index it)))) (it_entry it)
    (it\<lparr>it_nextEntry := dictGetNext (it_entry it)\<rparr>)"
proof -
  obtain kv kvs where "chain (it_entry it) = kv # kvs" using assms(3) by (cases "it_entry it") auto
  moreover from this have "chain (dictGetNext (it_entry it)) = kvs" by (simp add: chain_next)
  ultimately show ?thesis using assms by (simp add: next_ok_def it_rest_def it_ok_def it_begins_def)
qed

lemma dictNext_ok:
  assumes inv: "dict_inv T d" and ok: "it_ok addr d it"
  shows "\<exists>de it'. dictNext addr it d = Some (de, it', it_dict it d) \<and> next_ok addr d it (it_rest d it) de it'"
proof -
  have started: ?thesis if "dictNext addr it d = dictNext addr it1 (it_dict it d)" "it_ok addr d it1" "0 \<le> it_index it1"
      "it_rest d it1 = it_rest d it" "it_entry it1 = ENull" "it_safe it1 = it_safe it" for it1
    using dictNext_started [of T "it_dict it d" addr it1 "it_rest d it"] that inv by (auto simp: next_ok_def [of _ _ it] next_ok_def [of _ _ it1])
  consider (null) "it_entry it = ENull" | (cur) "it_entry it \<noteq> ENull" "it_nextEntry it = ENull"
    | (rest) "it_entry it \<noteq> ENull" "it_nextEntry it \<noteq> ENull" by blast
  then show ?thesis
  proof cases
    case null
    from inv ok null show ?thesis
    proof (cases rule: dictNext_bucket_ok)
      case (finish it')
      then have "dictNext addr it d = Some (ENull, it', it_dict it d)" using null by (subst dictNext.simps) simp
      then show ?thesis using finish by (auto simp: next_ok_def)
    next
      case (bucket it')
      show ?thesis
      proof (cases "it_entry it' = ENull")
        case True
        then show ?thesis
          using bucket null it_begins_index [OF bucket(4)] by (intro started [of it'], subst dictNext.simps) (simp_all add: it_rest_def)
      next
        case False
        then have "dictNext addr it d = Some (it_entry it', it'\<lparr>it_nextEntry := dictGetNext (it_entry it')\<rparr>, it_dict it d)"
          using bucket null by (subst dictNext.simps) simp
        then show ?thesis using next_ok_entry [OF bucket(3,4) False bucket(5)] bucket(2) by auto
      qed
    qed
  next
    case cur
    then have nb: "\<not> it_begins it" "it_dict it d = d" using ok by (auto simp: it_ok_def it_dict_def split: if_splits)
    let ?it = "it\<lparr>it_entry := ENull\<rparr>"
    show ?thesis
      using cur nb ok by (intro started [of ?it], subst dictNext.simps) (auto simp: it_ok_def it_rest_def it_begins_def)
  next
    case rest
    then have nb: "\<not> it_begins it" "it_dict it d = d" using ok by (auto simp: it_ok_def it_dict_def split: if_splits)
    let ?it = "it\<lparr>it_entry := it_nextEntry it\<rparr>"
    have "it_ok addr d ?it" "0 \<le> it_index ?it" "it_entry ?it \<noteq> ENull" "it_safe ?it = it_safe it"
      using ok nb(1) rest by (auto simp: it_ok_def it_begins_def)
    from next_ok_entry [OF this] have "next_ok addr d it (it_rest d it) (it_nextEntry it) (?it\<lparr>it_nextEntry := dictGetNext (it_nextEntry it)\<rparr>)"
      using rest nb(1) by (simp add: it_rest_def)
    moreover have "dictNext addr it d = Some (it_nextEntry it, ?it\<lparr>it_nextEntry := dictGetNext (it_nextEntry it)\<rparr>, it_dict it d)"
      using rest nb by (subst dictNext.simps) simp
    ultimately show ?thesis by blast
  qed
qed

section \<open>A complete iteration\<close>

text \<open>The loop \<^verbatim>\<open>while ((de = dictNext(it)) != NULL)\<close> of the clients, which collects the entries.\<close>

partial_function (option) iterate :: "(nat \<Rightarrow> u64) \<Rightarrow> ('k, 'v) dictIterator \<Rightarrow> ('k, 'v) dict \<Rightarrow>
    (('k \<times> 'v option) list \<times> ('k, 'v) dictIterator \<times> ('k, 'v) dict) option" where
  "iterate addr it d =
     Option.bind (dictNext addr it d) (\<lambda>(de, it, d).
       if de = ENull then Some ([], it, d)
       else Option.bind (iterate addr it d) (\<lambda>(kvs, it, d). Some (hd (chain de) # kvs, it, d)))"

lemma iterate_ok:
  assumes "dict_inv T d" and "it_ok addr d it"
  shows "\<exists>it'. iterate addr it d = Some (it_rest d it, it', it_dict it d) \<and> it_ok addr d it' \<and> 0 \<le> it_index it' \<and> it_safe it' = it_safe it"
  using assms
proof (induction "it_rest d it" arbitrary: d it)
  case Nil
  then show ?case using dictNext_ok [OF Nil(2,3)] by (subst iterate.simps) (auto simp: next_ok_def)
next
  case (Cons kv rest)
  obtain de it' where n: "dictNext addr it d = Some (de, it', it_dict it d)" "next_ok addr d it (it_rest d it) de it'"
    using dictNext_ok [OF Cons.prems] by blast
  then have de: "de \<noteq> ENull" "hd (chain de) = kv" "it_rest d it' = rest" "it_ok addr d it'" "0 \<le> it_index it'" "it_safe it' = it_safe it"
    using Cons(2)[symmetric] by (simp_all add: next_ok_def)
  have "it_dict it' (it_dict it d) = it_dict it d" using de(5) by (simp add: it_dict_def it_begins_def)
  then obtain it'' where "iterate addr it' (it_dict it d) = Some (rest, it'', it_dict it d)" "it_ok addr d it''" "0 \<le> it_index it''" "it_safe it'' = it_safe it"
    using Cons.hyps(1) [of "it_dict it d" it'] de Cons.prems by auto
  then show ?case using n(1) de Cons(2)[symmetric] by (subst iterate.simps) simp
qed

lemma iterate_all:
  assumes inv: "dict_inv T d" and p: "pauserehash d < 2 ^ 15"
  shows "\<exists>it. iterate addr (if safe then dictGetSafeIterator else dictGetIterator) d = Some (dict_entries d, it, if safe then dictPauseRehashing d else d) \<and>
    dictReleaseIterator addr it (if safe then dictPauseRehashing d else d) = Some d"
proof -
  let ?it = "if safe then dictGetSafeIterator else dictGetIterator :: ('a, 'b) dictIterator"
  have b: "it_begins ?it" "it_ok addr d ?it" "it_safe ?it = safe"
    by (auto simp: it_begins_def it_ok_def dictGetSafeIterator_def dictGetIterator_def dictInitIterator_def)
  then have "it_rest d ?it = dict_entries d" "it_dict ?it d = (if safe then dictPauseRehashing d else d)"
    by (simp_all add: it_rest_def it_dict_def)
  then obtain it' where it': "iterate addr ?it d = Some (dict_entries d, it', if safe then dictPauseRehashing d else d)"
      "it_ok addr d it'" "0 \<le> it_index it'" "it_safe it' = safe"
    using iterate_ok [OF inv b(2)] b(3) by auto
  have "dictResumeRehashing (dictPauseRehashing d) = d"
    using p by (simp add: dictResumeRehashing_def dictPauseRehashing_def mod_Suc)
  then have "dictReleaseIterator addr it' (if safe then dictPauseRehashing d else d) = Some d"
    using it'(2-4) it_begins_index [OF it'(3)] by (auto simp: dictReleaseIterator_def dictResetIterator_def it_ok_def)
  with it'(1) show ?thesis by blast
qed

section \<open>Properties\<close>

text \<open>C22. A client loop over \<^verbatim>\<open>dictNext\<close>, with a safe or an unsafe iterator, ends, visits every entry of the
  dictionary exactly once in the order of the tables, also while the dictionary is being rehashed, and
  releasing the iterator passes the fingerprint assertion and leaves the dictionary as it was.\<close>

theorem dict_iterate_complete:
  assumes "dict_wf T norm d" and "pauserehash d < 2 ^ 15"
  shows "\<exists>kvs it. iterate addr (if safe then dictGetSafeIterator else dictGetIterator) d = Some (kvs, it, if safe then dictPauseRehashing d else d) \<and>
    dictReleaseIterator addr it (if safe then dictPauseRehashing d else d) = Some d \<and>
    kvs = dict_entries d \<and> distinct (map (norm \<circ> fst) kvs)"
  using iterate_all [of T d addr safe] assms by (auto simp: dict_wf_def)

theorem dict_iterate_complete_witness:
  "dict_wf number_type (\<lambda>k. k) rehashing_dict \<and>
   (\<exists>kvs it. iterate (\<lambda>_. 0) dictGetIterator rehashing_dict = Some (kvs, it, rehashing_dict) \<and>
     dictReleaseIterator (\<lambda>_. 0) it rehashing_dict = Some rehashing_dict \<and> distinct (map fst kvs))"
proof -
  have "pauserehash rehashing_dict < 2 ^ 15" by (simp add: rehashing_dict_def)
  then show ?thesis
    using dict_iterate_complete [OF rehashing_dict_wf, of "\<lambda>_. 0" False] rehashing_dict_wf by (auto simp: comp_def)
qed

end
