(* ===== verification/Lzf.thy ===== *)
theory Lzf
  imports Prelude
begin

text \<open>
  The LZF compressor and decompressor that the server uses for RDB strings and for list nodes
  (\<^verbatim>\<open>lzf_c.c\<close>, \<^verbatim>\<open>lzf_d.c\<close>, in the configuration of \<^verbatim>\<open>lzfP.h\<close>: \<open>HLOG\<close> 16, \<open>VERY_FAST\<close>, no \<open>INIT_HTAB\<close>,
  \<open>CHECK_INPUT\<close>). Pointers into the two buffers are offsets. The hash table is not initialised, so its
  first content is a parameter: pointers are offsets from \<^verbatim>\<open>in_data\<close>, \<open>None\<close> is the null pointer. An access
  out of bounds makes the result \<open>None\<close>.
\<close>

section \<open>The compressor\<close>

abbreviation (input) MAX_LIT :: nat where "MAX_LIT \<equiv> 32"
abbreviation (input) MAX_OFF :: int where "MAX_OFF \<equiv> 8192"
abbreviation (input) MAX_REF :: nat where "MAX_REF \<equiv> 264"

definition FRST :: "u8 list \<Rightarrow> nat \<Rightarrow> u32 option" where
  "FRST inp p = do {
     a \<leftarrow> byte_at inp p;
     b \<leftarrow> byte_at inp (p + 1);
     Some (push_bit 8 (ucast a) OR ucast b) }"

definition NEXT :: "u32 \<Rightarrow> u8 list \<Rightarrow> nat \<Rightarrow> u32 option" where
  "NEXT v inp p = do {
     c \<leftarrow> byte_at inp (p + 2);
     Some (push_bit 8 v OR ucast c) }"

definition IDX :: "u32 \<Rightarrow> nat" where
  "IDX h = unat ((drop_bit 8 h - h * 5) AND 0xFFFF)"

record lzf_state =
  ip :: nat
  op :: nat
  lit :: nat
  hval :: u32
  htab :: "nat \<Rightarrow> int option"
  out :: "u8 list"

datatype lzf_flow = Return0 lzf_state | Break lzf_state | Continue lzf_state

text \<open>\<^verbatim>\<open>*op++ = b\<close>.\<close>

definition put_op :: "lzf_state \<Rightarrow> u8 \<Rightarrow> lzf_state option" where
  "put_op s b = do { out' \<leftarrow> byte_put (out s) (op s) b; Some (s\<lparr>out := out', op := op s + 1\<rparr>) }"

text \<open>\<^verbatim>\<open>op [- lit - 1] = lit - 1\<close>.\<close>

definition stop_run :: "lzf_state \<Rightarrow> lzf_state option" where
  "stop_run s =
     (if op s < lit s + 1 then None
      else do {
        out' \<leftarrow> byte_put (out s) (op s - lit s - 1) (word_of_int (int (lit s) - 1));
        Some (s\<lparr>out := out'\<rparr>) })"

text \<open>\<^verbatim>\<open>lit++; *op++ = *ip++;\<close> and the end of a full run.\<close>

definition put_literal :: "u8 list \<Rightarrow> lzf_state \<Rightarrow> lzf_state option" where
  "put_literal inp s = do {
     b \<leftarrow> byte_at inp (ip s);
     s \<leftarrow> put_op (s\<lparr>lit := lit s + 1\<rparr>) b;
     let s = s\<lparr>ip := ip s + 1\<rparr>;
     if lit s = MAX_LIT then do { s \<leftarrow> stop_run s; Some (s\<lparr>lit := 0, op := op s + 1\<rparr>) } else Some s }"

text \<open>The sixteen comparisons that are written out in the source; the flag says that one of them failed.\<close>

fun match_unrolled :: "u8 list \<Rightarrow> nat \<Rightarrow> nat \<Rightarrow> nat \<Rightarrow> nat \<Rightarrow> (bool \<times> nat) option" where
  "match_unrolled inp ref p 0 len = Some (False, len)"
| "match_unrolled inp ref p (Suc n) len = do {
     a \<leftarrow> byte_at inp (ref + (len + 1));
     b \<leftarrow> byte_at inp (p + (len + 1));
     if a \<noteq> b then Some (True, len + 1) else match_unrolled inp ref p n (len + 1) }"

text \<open>\<^verbatim>\<open>do len++; while (len < maxlen && ref[len] == ip[len]);\<close>\<close>

partial_function (option) match_tail :: "u8 list \<Rightarrow> nat \<Rightarrow> nat \<Rightarrow> nat \<Rightarrow> nat \<Rightarrow> nat option" where
  "match_tail inp ref p maxlen len =
     (let len = len + 1 in
      if len < maxlen then do {
        a \<leftarrow> byte_at inp (ref + len);
        b \<leftarrow> byte_at inp (p + len);
        if a = b then match_tail inp ref p maxlen len else Some len }
      else Some len)"

definition match_len :: "u8 list \<Rightarrow> nat \<Rightarrow> nat \<Rightarrow> nat \<Rightarrow> nat option" where
  "match_len inp ref p maxlen =
     (if maxlen > 16 then do {
        (stop, len) \<leftarrow> match_unrolled inp ref p 16 2;
        if stop then Some len else match_tail inp ref p maxlen len }
      else match_tail inp ref p maxlen 2)"

definition rehash_one :: "u8 list \<Rightarrow> lzf_state \<Rightarrow> lzf_state option" where
  "rehash_one inp s = do {
     h \<leftarrow> NEXT (hval s) inp (ip s);
     Some (s\<lparr>hval := h, htab := (htab s)(IDX h := Some (int (ip s))), ip := ip s + 1\<rparr>) }"

text \<open>The two or three bytes of a back reference.\<close>

definition put_backref :: "lzf_state \<Rightarrow> nat \<Rightarrow> nat \<Rightarrow> lzf_state option" where
  "put_backref s len off = do {
     s \<leftarrow> (if len < 7 then put_op s (word_of_nat (off div 256 + len * 32))
           else do {
             s \<leftarrow> put_op s (word_of_nat (off div 256 + 7 * 32));
             put_op s (word_of_nat (len - 7)) });
     put_op s (word_of_nat off) }"

text \<open>After a match: leave the loop near the end of the input, otherwise enter the last two positions of
  the match into the hash table.\<close>

definition lzf_resume :: "u8 list \<Rightarrow> lzf_state \<Rightarrow> lzf_flow option" where
  "lzf_resume inp s =
     (if ip s + 2 \<ge> length inp then Some (Break s)
      else do {
        let s = s\<lparr>ip := ip s - 2\<rparr>;
        h \<leftarrow> FRST inp (ip s);
        s \<leftarrow> rehash_one inp (s\<lparr>hval := h\<rparr>);
        s \<leftarrow> rehash_one inp s;
        Some (Continue s) })"

text \<open>\<^verbatim>\<open>op - !lit\<close>: an empty run is undone.\<close>

definition run_start :: "lzf_state \<Rightarrow> nat" where
  "run_start s = op s - (if lit s = 0 then 1 else 0)"

definition lzf_match :: "u8 list \<Rightarrow> lzf_state \<Rightarrow> nat \<Rightarrow> nat \<Rightarrow> lzf_flow option" where
  "lzf_match inp s ref off =
     (let len = 2; maxlen = min MAX_REF (length inp - ip s - len) in
      if op s + 3 + 1 \<ge> length (out s) \<and> run_start s + 3 + 1 \<ge> length (out s) then Some (Return0 s)
      else do {
        s \<leftarrow> stop_run s;
        let s = s\<lparr>op := run_start s\<rparr>;
        len \<leftarrow> match_len inp ref (ip s) maxlen;
        let len = len - 2;
        let s = s\<lparr>ip := ip s + 1\<rparr>;
        s \<leftarrow> put_backref s len off;
        let s = s\<lparr>lit := 0, op := op s + 1, ip := ip s + (len + 1)\<rparr>;
        lzf_resume inp s })"

text \<open>The test of a slot of the hash table: a match is a position and its offset. The difference of two
  pointers is a \<^verbatim>\<open>size_t\<close>.\<close>

definition lzf_found :: "u8 list \<Rightarrow> nat \<Rightarrow> int option \<Rightarrow> (nat \<times> nat) option option" where
  "lzf_found inp p slot = (case slot of
       None \<Rightarrow> Some None
     | Some r \<Rightarrow>
         let off = wrap_u 64 (int p - r - 1) in
         if off < MAX_OFF \<and> r > 0 then do {
           a2 \<leftarrow> byte_at inp (nat r + 2);
           b2 \<leftarrow> byte_at inp (p + 2);
           if a2 \<noteq> b2 then Some None
           else do {
             a0 \<leftarrow> byte_at inp (nat r);
             b0 \<leftarrow> byte_at inp p;
             a1 \<leftarrow> byte_at inp (nat r + 1);
             b1 \<leftarrow> byte_at inp (p + 1);
             Some (if a0 = b0 \<and> a1 = b1 then Some (nat r, nat off) else None) } }
         else Some None)"

text \<open>The body of the main loop.\<close>

definition lzf_step :: "u8 list \<Rightarrow> lzf_state \<Rightarrow> lzf_flow option" where
  "lzf_step inp s = do {
     h \<leftarrow> NEXT (hval s) inp (ip s);
     found \<leftarrow> lzf_found inp (ip s) (htab s (IDX h));
     let s = s\<lparr>hval := h, htab := (htab s)(IDX h := Some (int (ip s)))\<rparr>;
     case found of
       Some (r, off) \<Rightarrow> lzf_match inp s r off
     | None \<Rightarrow> if op s \<ge> length (out s) then Some (Return0 s) else map_option Continue (put_literal inp s) }"

text \<open>The main loop: \<open>Inl\<close> is an early return of 0.\<close>

partial_function (option) lzf_loop :: "u8 list \<Rightarrow> lzf_state \<Rightarrow> (lzf_state + lzf_state) option" where
  "lzf_loop inp s =
     (if ip s + 2 < length inp then do {
        r \<leftarrow> lzf_step inp s;
        case r of
          Return0 s \<Rightarrow> Some (Inl s)
        | Break s \<Rightarrow> Some (Inr s)
        | Continue s \<Rightarrow> lzf_loop inp s }
      else Some (Inr s))"

partial_function (option) lzf_tail :: "u8 list \<Rightarrow> lzf_state \<Rightarrow> lzf_state option" where
  "lzf_tail inp s =
     (if ip s < length inp then do { s \<leftarrow> put_literal inp s; lzf_tail inp s } else Some s)"

text \<open>The result is the number of bytes written, or 0, and the output buffer.\<close>

definition lzf_compress :: "(nat \<Rightarrow> int option) \<Rightarrow> u8 list \<Rightarrow> u8 list \<Rightarrow> (nat \<times> u8 list) option" where
  "lzf_compress htab0 inp out0 =
     (if length inp = 0 \<or> length out0 = 0 then Some (0, out0)
      else do {
        h \<leftarrow> FRST inp 0;
        r \<leftarrow> lzf_loop inp \<lparr>ip = 0, op = 1, lit = 0, hval = h, htab = htab0, out = out0\<rparr>;
        case r of
          Inl s \<Rightarrow> Some (0, out s)
        | Inr s \<Rightarrow>
            if op s + 3 > length (out s) then Some (0, out s)
            else do {
              s \<leftarrow> lzf_tail inp s;
              s \<leftarrow> stop_run s;
              Some (run_start s, out s) } })"

section \<open>The decompressor\<close>

datatype lzf_errno = E2BIG | EINVAL

fun copy_lit :: "u8 list \<Rightarrow> nat \<Rightarrow> nat \<Rightarrow> u8 list \<Rightarrow> nat \<Rightarrow> u8 list option" where
  "copy_lit inp i p dst 0 = Some dst"
| "copy_lit inp i p dst (Suc n) = do {
     b \<leftarrow> byte_at inp i;
     dst \<leftarrow> byte_put dst p b;
     copy_lit inp (i + 1) (p + 1) dst n }"

fun copy_ref :: "nat \<Rightarrow> nat \<Rightarrow> u8 list \<Rightarrow> nat \<Rightarrow> u8 list option" where
  "copy_ref ref p dst 0 = Some dst"
| "copy_ref ref p dst (Suc n) = do {
     b \<leftarrow> byte_at dst ref;
     dst \<leftarrow> byte_put dst p b;
     copy_ref (ref + 1) (p + 1) dst n }"

definition memcpy :: "u8 list \<Rightarrow> nat \<Rightarrow> nat \<Rightarrow> nat \<Rightarrow> u8 list option" where
  "memcpy dst p ref n =
     (if ref + n \<le> length dst \<and> p + n \<le> length dst
      then Some (take p dst @ take n (drop ref dst) @ drop (p + n) dst) else None)"

text \<open>The switch on the length of a back reference: the short ones fall through single copies.\<close>

definition copy_back :: "nat \<Rightarrow> nat \<Rightarrow> u8 list \<Rightarrow> nat \<Rightarrow> u8 list option" where
  "copy_back ref p dst len =
     (if len > 9 then
        (if p \<ge> ref + (len + 2) then memcpy dst p ref (len + 2) else copy_ref ref p dst (len + 2))
      else copy_ref ref p dst (len + 2))"

text \<open>One round of the loop: an error, or the new \<open>ip\<close>, \<open>op\<close> and output buffer.\<close>

definition decompress_literal :: "u8 list \<Rightarrow> nat \<Rightarrow> nat \<Rightarrow> u8 list \<Rightarrow> nat \<Rightarrow>
    (lzf_errno + nat \<times> nat \<times> u8 list) option" where
  "decompress_literal inp i p dst ctrl =
     (let ctrl = ctrl + 1 in
      if p + ctrl > length dst then Some (Inl E2BIG)
      else if i + ctrl > length inp then Some (Inl EINVAL)
      else do { dst \<leftarrow> copy_lit inp i p dst ctrl; Some (Inr (i + ctrl, p + ctrl, dst)) })"

definition decompress_copy :: "u8 list \<Rightarrow> nat \<Rightarrow> nat \<Rightarrow> u8 list \<Rightarrow> nat \<Rightarrow> int \<Rightarrow>
    (lzf_errno + nat \<times> nat \<times> u8 list) option" where
  "decompress_copy inp i p dst len ref = do {
     b \<leftarrow> byte_at inp i;
     let i = i + 1;
     let ref = ref - int (unat b);
     if p + len + 2 > length dst then Some (Inl E2BIG)
     else if ref < 0 then Some (Inl EINVAL)
     else do { dst \<leftarrow> copy_back (nat ref) p dst len; Some (Inr (i, p + (len + 2), dst)) } }"

definition decompress_backref :: "u8 list \<Rightarrow> nat \<Rightarrow> nat \<Rightarrow> u8 list \<Rightarrow> nat \<Rightarrow>
    (lzf_errno + nat \<times> nat \<times> u8 list) option" where
  "decompress_backref inp i p dst ctrl =
     (let len = ctrl div 32; ref = int p - int (ctrl mod 32 * 256) - 1 in
      if i \<ge> length inp then Some (Inl EINVAL)
      else if len = 7 then do {
        b \<leftarrow> byte_at inp i;
        let i = i + 1;
        if i \<ge> length inp then Some (Inl EINVAL) else decompress_copy inp i p dst (len + unat b) ref }
      else decompress_copy inp i p dst len ref)"

partial_function (option) decompress_loop :: "u8 list \<Rightarrow> nat \<Rightarrow> nat \<Rightarrow> u8 list \<Rightarrow>
    (nat \<times> lzf_errno option \<times> u8 list) option" where
  "decompress_loop inp i p dst =
     (if i < length inp then do {
        b \<leftarrow> byte_at inp i;
        let ctrl = unat b;
        let i = i + 1;
        r \<leftarrow> (if ctrl < 32 then decompress_literal inp i p dst ctrl else decompress_backref inp i p dst ctrl);
        case r of
          Inl e \<Rightarrow> Some (0, Some e, dst)
        | Inr (i, p, dst) \<Rightarrow> decompress_loop inp i p dst }
      else Some (p, None, dst))"

text \<open>The result is the number of bytes, \<^verbatim>\<open>errno\<close> and the output buffer.\<close>

definition lzf_decompress :: "u8 list \<Rightarrow> u8 list \<Rightarrow> (nat \<times> lzf_errno option \<times> u8 list) option" where
  "lzf_decompress inp dst = decompress_loop inp 0 0 dst"

section \<open>The format\<close>

text \<open>A reference decoder on lists: the bytes to decode and the text decoded so far.\<close>

fun backcopy :: "'a list \<Rightarrow> nat \<Rightarrow> nat \<Rightarrow> 'a list" where
  "backcopy p off 0 = p"
| "backcopy p off (Suc n) = backcopy (p @ [p ! (length p - off - 1)]) off n"

definition dec_ref :: "nat \<Rightarrow> nat \<Rightarrow> u8 list \<Rightarrow> u8 list \<Rightarrow> (u8 list \<times> u8 list) option" where
  "dec_ref hi len bs p = (case bs of [] \<Rightarrow> None
     | lo # bs \<Rightarrow> let off = hi * 256 + unat lo in
         if off < length p then Some (bs, backcopy p off (len + 2)) else None)"

definition dec_token :: "u8 list \<Rightarrow> u8 list \<Rightarrow> (u8 list \<times> u8 list) option" where
  "dec_token bs p = (case bs of [] \<Rightarrow> None
     | b # bs \<Rightarrow>
       let c = unat b in
       if c < 32 then if c < length bs then Some (drop (c + 1) bs, p @ take (c + 1) bs) else None
       else if c div 32 = 7
       then (case bs of [] \<Rightarrow> None | l # bs \<Rightarrow> dec_ref (c mod 32) (7 + unat l) bs p)
       else dec_ref (c mod 32) (c div 32) bs p)"

inductive lzf_dec :: "u8 list \<Rightarrow> u8 list \<Rightarrow> u8 list \<Rightarrow> bool" where
  dec_end: "lzf_dec [] p p"
| dec_step: "dec_token bs p = Some (bs', p') \<Longrightarrow> lzf_dec bs' p' q \<Longrightarrow> lzf_dec bs p q"


section \<open>The reference decoder\<close>

lemma byte_at_Some [simp]: "i < length xs \<Longrightarrow> byte_at xs i = Some (xs ! i)"
  by (simp add: byte_at_def)

lemma byte_put_Some [simp]: "i < length xs \<Longrightarrow> byte_put xs i v = Some (xs[i := v])"
  by (simp add: byte_put_def)

lemma length_backcopy [simp]: "length (backcopy p off n) = length p + n"
  by (induction p off n rule: backcopy.induct) simp_all

lemma take_backcopy: "take (length p) (backcopy p off n) = p"
proof (induction p off n rule: backcopy.induct)
  case (2 p off n)
  then have "take (length p) (take (length (p @ [p ! (length p - off - 1)])) (backcopy (p @ [p ! (length p - off - 1)]) off n)) = p"
    by simp
  then show ?case by (simp add: min_def split: if_splits)
qed simp

lemma dec_ref_append: "dec_ref hi len bs p = Some (bs', p') \<Longrightarrow> dec_ref hi len (bs @ cs) p = Some (bs' @ cs, p')"
  by (auto simp: dec_ref_def Let_def split: list.splits if_splits)

lemma dec_token_append: "dec_token bs p = Some (bs', p') \<Longrightarrow> dec_token (bs @ cs) p = Some (bs' @ cs, p')"
  by (cases bs) (auto simp: dec_token_def Let_def dec_ref_append dest: dec_ref_append [of _ _ _ p _ _ cs]
    split: list.splits if_splits)

lemma lzf_dec_append: "lzf_dec bs p q \<Longrightarrow> lzf_dec cs q r \<Longrightarrow> lzf_dec (bs @ cs) p r"
  by (induction bs p q rule: lzf_dec.induct) (auto intro: dec_token_append lzf_dec.intros)

lemma dec_token_1: "dec_token bs p = Some ([], q) \<Longrightarrow> lzf_dec bs p q"
  by (auto intro: lzf_dec.intros)

lemma dec_token_length: "dec_token bs p = Some (bs', p') \<Longrightarrow> length bs' < length bs \<and> length p < length p'"
  by (auto simp: dec_token_def dec_ref_def Let_def split: list.splits if_splits)

lemma lzf_dec_length: "lzf_dec bs p q \<Longrightarrow> length p \<le> length q"
  by (induction bs p q rule: lzf_dec.induct) (auto dest: dec_token_length)

section \<open>The decompressor implements the format\<close>

lemma copy_lit_ok:
  "i + n \<le> length inp \<Longrightarrow> p + n \<le> length dst \<Longrightarrow>
   copy_lit inp i p dst n = Some (take p dst @ take n (drop i inp) @ drop (p + n) dst)"
proof (induction inp i p dst n rule: copy_lit.induct)
  case (2 inp i p dst n)
  have "take (Suc p) (dst[p := inp ! i]) = take p dst @ [inp ! i]"
    using 2(3) by (simp add: take_Suc_conv_app_nth)
  moreover have "drop i inp = inp ! i # drop (Suc i) inp"
    using 2(2) by (simp add: Cons_nth_drop_Suc)
  ultimately show ?case using 2 by simp
qed simp

lemma copy_ref_ok:
  "ref < p \<Longrightarrow> p + n \<le> length dst \<Longrightarrow>
   copy_ref ref p dst n = Some (backcopy (take p dst) (p - ref - 1) n @ drop (p + n) dst)"
proof (induction ref p dst n rule: copy_ref.induct)
  case (2 ref p dst n)
  have "take (Suc p) (dst[p := dst ! ref]) = take p dst @ [dst ! ref]"
    using 2(3) by (simp add: take_Suc_conv_app_nth)
  moreover have "take p dst ! (length (take p dst) - (p - ref - 1) - 1) = dst ! ref"
    using 2(2,3) by simp
  ultimately show ?case using 2 by simp
qed simp

lemma backcopy_disjoint:
  "off < length p \<Longrightarrow> n \<le> off + 1 \<Longrightarrow> backcopy p off n = p @ take n (drop (length p - off - 1) p)"
proof (induction p off n rule: backcopy.induct)
  case (2 p off n)
  let ?k = "length p - off - 1"
  have "drop ?k p = p ! ?k # drop (Suc ?k) p" using 2(2) by (simp add: Cons_nth_drop_Suc)
  moreover have "take n (drop (Suc ?k) p @ [p ! ?k]) = take n (drop (Suc ?k) p)" using 2(2,3) by simp
  moreover have "Suc (length p) - off - 1 = Suc ?k" using 2(2) by simp
  ultimately show ?case using 2 by simp
qed simp

lemma copy_back_ok:
  assumes "ref < p" and "p + (len + 2) \<le> length dst"
  shows "copy_back ref p dst len = Some (backcopy (take p dst) (p - ref - 1) (len + 2) @ drop (p + (len + 2)) dst)"
proof (cases "len > 9 \<and> p \<ge> ref + (len + 2)")
  case True
  then have "backcopy (take p dst) (p - ref - 1) (len + 2) = take p dst @ take (len + 2) (drop ref (take p dst))"
    using assms by (subst backcopy_disjoint) auto
  moreover have "take (len + 2) (drop ref (take p dst)) = take (len + 2) (drop ref dst)"
    using True by (auto simp: drop_take min_def)
  ultimately show ?thesis using assms True by (simp add: copy_back_def memcpy_def)
next
  case False
  then show ?thesis using copy_ref_ok [OF assms] by (auto simp: copy_back_def)
qed


lemma dec_ref_drop:
  assumes "dec_ref hi len (drop j inp) t = Some (bs', q)"
  shows "j < length inp \<and> hi * 256 + unat (inp ! j) < length t \<and> bs' = drop (j + 1) inp \<and>
    q = backcopy t (hi * 256 + unat (inp ! j)) (len + 2)"
proof (cases "j < length inp")
  case True
  then have "drop j inp = inp ! j # drop (j + 1) inp" by (simp add: Cons_nth_drop_Suc)
  then show ?thesis using assms True by (simp add: dec_ref_def Let_def split: if_splits)
qed (use assms in \<open>simp add: dec_ref_def\<close>)

declare backcopy.simps(2) [simp del]

text \<open>A round of the loop on a well-formed token writes what the token stands for.\<close>

lemma decompress_token:
  assumes tok: "dec_token (drop i inp) (take p dst) = Some (bs', q)" and p: "p \<le> length dst"
    and fits: "length q \<le> length dst" and i: "i < length inp"
  shows "\<exists>i'. i < i' \<and> bs' = drop i' inp \<and>
    (if unat (inp ! i) < 32 then decompress_literal inp (i + 1) p dst (unat (inp ! i))
     else decompress_backref inp (i + 1) p dst (unat (inp ! i))) = Some (Inr (i', length q, q @ drop (length q) dst))"
proof -
  let ?c = "unat (inp ! i)"
  have d: "drop i inp = inp ! i # drop (i + 1) inp" using i by (simp add: Cons_nth_drop_Suc)
  have bref: "decompress_backref inp (i + 1) p dst ?c =
      Some (Inr (j + 1, p + (len + 2), backcopy (take p dst) off (len + 2) @ drop (p + (len + 2)) dst))"
    if "(if ?c div 32 = 7 then Some (i + 2, 7 + unat (inp ! (i + 1))) else Some (i + 1, ?c div 32)) = Some (j, len)"
      and "i + 1 < length inp" and "j < length inp" and "off = ?c mod 32 * 256 + unat (inp ! j)"
      and "off < p" and "p + (len + 2) \<le> length dst" for j len off
  proof -
    have "nat (int p - int (?c mod 32 * 256) - 1 - int (unat (inp ! j))) = p - off - 1"
      using that(4,5) by linarith
    moreover have "p - (p - off - 1) - 1 = off" using that(5) by simp
    moreover have "copy_back (p - off - 1) p dst len =
        Some (backcopy (take p dst) off (len + 2) @ drop (p + (len + 2)) dst)"
      using copy_back_ok [of "p - off - 1" p len dst] that(5,6) by simp
    moreover have "\<not> int p - int (?c mod 32 * 256) - 1 - int (unat (inp ! j)) < 0" using that(4,5) by linarith
    ultimately show ?thesis
      using that by (cases "?c div 32 = 7") (simp_all add: decompress_backref_def decompress_copy_def Let_def)
  qed
  consider (literal) "?c < 32" "?c < length inp - (i + 1)" "bs' = drop (i + 1 + (?c + 1)) inp"
        "q = take p dst @ take (?c + 1) (drop (i + 1) inp)"
    | (backref) j len off where "?c \<ge> 32" and
        "(if ?c div 32 = 7 then Some (i + 2, 7 + unat (inp ! (i + 1))) else Some (i + 1, ?c div 32)) = Some (j, len)"
        "i + 1 < length inp" "j < length inp" "off = ?c mod 32 * 256 + unat (inp ! j)" "off < p"
        "bs' = drop (j + 1) inp" "q = backcopy (take p dst) off (len + 2)"
  proof (cases "?c < 32")
    case True
    then show ?thesis
      using literal tok d by (auto simp: dec_token_def Let_def drop_drop add.commute split: if_splits)
  next
    case False
    note r = this tok d
    show ?thesis
    proof (cases "?c div 32 = 7")
      case True
      then have i1: "i + 1 < length inp" using r by (cases "i + 1 < length inp") (simp_all add: dec_token_def)
      then have "drop (i + 1) inp = inp ! (i + 1) # drop (i + 2) inp" by (simp add: Cons_nth_drop_Suc)
      then have "dec_ref (?c mod 32) (7 + unat (inp ! (i + 1))) (drop (i + 2) inp) (take p dst) = Some (bs', q)"
        using r True by (simp add: dec_token_def Let_def)
      then show ?thesis using True i1 p False dec_ref_drop backref [of "i + 2"] by force
    next
      case no: False
      then have "dec_ref (?c mod 32) (?c div 32) (drop (i + 1) inp) (take p dst) = Some (bs', q)"
        using r by (simp add: dec_token_def Let_def)
      then show ?thesis using no p False dec_ref_drop backref [of "i + 1"] by force
    qed
  qed
  then show ?thesis
  proof cases
    case literal
    then have "decompress_literal inp (i + 1) p dst ?c = Some (Inr (i + 1 + (?c + 1), p + (?c + 1),
        take p dst @ take (?c + 1) (drop (i + 1) inp) @ drop (p + (?c + 1)) dst))"
      using fits p copy_lit_ok [of "i + 1" "?c + 1" inp p dst] by (simp add: decompress_literal_def Let_def)
    moreover have "length q = p + (?c + 1)" using literal p by simp
    ultimately show ?thesis using literal by (intro exI [of _ "i + 1 + (?c + 1)"]) simp
  next
    case backref
    have q: "length q = p + (len + 2)" using backref(8) p by simp
    have "i < j" using backref(2) by (auto split: if_splits)
    then show ?thesis
      using bref [OF backref(2-6)] backref(1,7,8) fits q by (intro exI [of _ "j + 1"]) simp
  qed
qed

lemma decompress_dec:
  "lzf_dec bs t q \<Longrightarrow> bs = drop i inp \<Longrightarrow> t = take p dst \<Longrightarrow> p \<le> length dst \<Longrightarrow> length q \<le> length dst \<Longrightarrow>
   decompress_loop inp i p dst = Some (length q, None, q @ drop (length q) dst)"
proof (induction bs t q arbitrary: i p dst rule: lzf_dec.induct)
  case (dec_end t)
  then show ?case by (subst decompress_loop.simps) (simp add: min_def)
next
  case (dec_step bs t bs' t' q)
  have i: "i < length inp" using dec_step.hyps(1) dec_step.prems(1) by (cases "i < length inp") (simp_all add: dec_token_def)
  have len: "length t' \<le> length q" using lzf_dec_length [OF dec_step.hyps(2)] .
  obtain i' where i': "i < i'" "bs' = drop i' inp"
      "(if unat (inp ! i) < 32 then decompress_literal inp (i + 1) p dst (unat (inp ! i))
        else decompress_backref inp (i + 1) p dst (unat (inp ! i))) = Some (Inr (i', length t', t' @ drop (length t') dst))"
    using decompress_token [of i inp p dst bs' t'] dec_step i len by auto
  have "decompress_loop inp i p dst = decompress_loop inp i' (length t') (t' @ drop (length t') dst)"
    using i i'(3) by (subst decompress_loop.simps; cases "unat (inp ! i) < 32") (simp_all add: Let_def)
  also have "\<dots> = Some (length q, None, q @ drop (length q) dst)"
    using dec_step.IH [of i' "length t'" "t' @ drop (length t') dst"] i'(2) dec_step.prems len by simp
  finally show ?case .
qed


section \<open>The decompressor is safe on every input\<close>

definition round_ok :: "nat \<Rightarrow> u8 list \<Rightarrow> lzf_errno + nat \<times> nat \<times> u8 list \<Rightarrow> bool" where
  "round_ok i dst r = (case r of Inl e \<Rightarrow> True | Inr (i', p', dst') \<Rightarrow> i < i' \<and> p' \<le> length dst' \<and> length dst' = length dst)"

lemma decompress_copy_safe:
  assumes "i < length inp" and "p \<le> length dst" and "ref < int p"
  shows "\<exists>r. decompress_copy inp i p dst len ref = Some r \<and> round_ok i dst r"
proof (cases "p + len + 2 > length dst \<or> ref - int (unat (inp ! i)) < 0")
  case True
  then show ?thesis using assms by (auto simp: decompress_copy_def round_ok_def Let_def)
next
  case False
  let ?r = "nat (ref - int (unat (inp ! i)))"
  have "?r < p" using assms(3) False by linarith
  then have "copy_back ?r p dst len = Some (backcopy (take p dst) (p - ?r - 1) (len + 2) @ drop (p + (len + 2)) dst)"
    using copy_back_ok [of ?r p len dst] False by simp
  then show ?thesis using False assms by (auto simp: decompress_copy_def round_ok_def Let_def)
qed

lemma decompress_round_safe:
  assumes "i < length inp" and "p \<le> length dst"
  shows "\<exists>r. (if unat (inp ! i) < 32 then decompress_literal inp (i + 1) p dst (unat (inp ! i))
      else decompress_backref inp (i + 1) p dst (unat (inp ! i))) = Some r \<and> round_ok i dst r"
proof (cases "unat (inp ! i) < 32")
  case True
  then show ?thesis
    using copy_lit_ok [of "i + 1" "unat (inp ! i) + 1" inp p dst]
    by (auto simp: decompress_literal_def Let_def round_ok_def)
next
  case False
  have "\<exists>r. decompress_copy inp j p dst len (int p - int (unat (inp ! i) mod 32 * 256) - 1) = Some r \<and> round_ok i dst r"
    if "i < j" "j < length inp" for j len
    using decompress_copy_safe [OF that(2) assms(2), of "int p - int (unat (inp ! i) mod 32 * 256) - 1" len] that(1)
    by (fastforce simp: round_ok_def split: sum.splits)
  then show ?thesis
    using False assms by (auto simp: decompress_backref_def Let_def round_ok_def)
qed

lemma decompress_safe:
  "p \<le> length dst \<Longrightarrow> \<exists>n e dst'. decompress_loop inp i p dst = Some (n, e, dst') \<and> n \<le> length dst \<and> length dst' = length dst"
proof (induction "length inp - i" arbitrary: i p dst rule: less_induct)
  case less
  show ?case
  proof (cases "i < length inp")
    case True
    obtain r where r: "(if unat (inp ! i) < 32 then decompress_literal inp (i + 1) p dst (unat (inp ! i))
        else decompress_backref inp (i + 1) p dst (unat (inp ! i))) = Some r"
        "round_ok i dst r"
      using decompress_round_safe [OF True less.prems] by blast
    have step: "decompress_loop inp i p dst = (case r of Inl e \<Rightarrow> Some (0, Some e, dst)
        | Inr (i, p, dst) \<Rightarrow> decompress_loop inp i p dst)"
      using True r(1) by (subst decompress_loop.simps; cases "unat (inp ! i) < 32") (simp_all add: Let_def)
    show ?thesis
    proof (cases r)
      case (Inr t)
      obtain i' p' dst' where t: "t = (i', p', dst')" by (cases t)
      then have "length inp - i' < length inp - i" "p' \<le> length dst'" "length dst' = length dst"
        using r(2) Inr True by (auto simp: round_ok_def)
      then show ?thesis using less.hyps [of i' p' dst'] step Inr t by simp
    qed (use step in simp)
  qed (use less.prems in \<open>subst decompress_loop.simps; simp\<close>)
qed

text \<open>The output is at most 88 times as long as the input: three bytes stand for at most 264.\<close>

lemma decompress_copy_grows:
  "decompress_copy inp i p dst len ref = Some (Inr (i', p', dst')) \<Longrightarrow> i' = i + 1 \<and> p' = p + len + 2 \<and> i' \<le> length inp"
  by (auto simp: decompress_copy_def byte_at_def Let_def bind_eq_Some_conv split: if_splits)

lemma decompress_round_grows:
  assumes "(if ctrl < 32 then decompress_literal inp (i + 1) p dst ctrl else decompress_backref inp (i + 1) p dst ctrl) =
      Some (Inr (i', p', dst'))" and "ctrl < 256"
  shows "p' + 88 * i \<le> p + 88 * i' \<and> i' \<le> length inp"
proof (cases "ctrl < 32")
  case True
  then have "i' = i + 1 + (ctrl + 1)" "p' = p + (ctrl + 1)" "i' \<le> length inp"
    using assms(1) by (auto simp: decompress_literal_def Let_def bind_eq_Some_conv split: if_splits)
  then show ?thesis by simp
next
  case False
  have l: "ctrl div 32 \<le> 7" using assms(2) by simp
  have b: "unat (b :: u8) < 256" for b using unsigned_less [of b] by simp
  show ?thesis
  proof (cases "ctrl div 32 = 7")
    case True
    then obtain b where "decompress_copy inp (i + 2) p dst (7 + unat (b :: u8)) (int p - int (ctrl mod 32 * 256) - 1) = Some (Inr (i', p', dst'))"
      using assms(1) False by (auto simp: decompress_backref_def Let_def bind_eq_Some_conv split: if_splits)
    from decompress_copy_grows [OF this] show ?thesis using b [of b] by simp
  next
    case n: False
    then have "decompress_copy inp (i + 1) p dst (ctrl div 32) (int p - int (ctrl mod 32 * 256) - 1) = Some (Inr (i', p', dst'))"
      using assms(1) False by (auto simp: decompress_backref_def Let_def split: if_splits)
    from decompress_copy_grows [OF this] show ?thesis using l by simp
  qed
qed

lemma decompress_grows: "decompress_loop inp i p dst = Some (n, e, dst') \<Longrightarrow> i \<le> length inp \<Longrightarrow> p \<le> length dst \<Longrightarrow> n + 88 * i \<le> p + 88 * length inp"
proof (induction "length inp - i" arbitrary: i p dst rule: less_induct)
  case less
  show ?case
  proof (cases "i < length inp")
    case True
    obtain r where r: "(if unat (inp ! i) < 32 then decompress_literal inp (i + 1) p dst (unat (inp ! i))
        else decompress_backref inp (i + 1) p dst (unat (inp ! i))) = Some r" "round_ok i dst r"
      using decompress_round_safe [OF True less.prems(3)] by blast
    have step: "decompress_loop inp i p dst = (case r of Inl e \<Rightarrow> Some (0, Some e, dst)
        | Inr (i, p, dst) \<Rightarrow> decompress_loop inp i p dst)"
      using True r(1) by (subst decompress_loop.simps; cases "unat (inp ! i) < 32") (simp_all add: Let_def)
    show ?thesis
    proof (cases r)
      case (Inl x)
      then show ?thesis using step less.prems by simp
    next
      case (Inr t)
      obtain i' p' d' where t: "t = (i', p', d')" by (cases t)
      have "unat (inp ! i) < 256" using unsigned_less [of "inp ! i"] by simp
      from decompress_round_grows [OF _ this] have "p' + 88 * i \<le> p + 88 * i'" "i' \<le> length inp" using r(1) Inr t by blast+
      moreover have "length inp - i' < length inp - i" "p' \<le> length d'" using r(2) Inr t True by (auto simp: round_ok_def)
      moreover have "decompress_loop inp i' p' d' = Some (n, e, dst')" using less.prems(1) step Inr t by simp
      ultimately show ?thesis using less.hyps [of i' p' d'] by linarith
    qed
  next
    case False
    then have "n = p" using less.prems(1) by (subst (asm) decompress_loop.simps) simp
    then show ?thesis using False less.prems(2) by simp
  qed
qed

end
