(* ===== verification/Lzf_Roundtrip.thy ===== *)
theory Lzf_Roundtrip
  imports Lzf
begin

text \<open>
  The compressor of \<^verbatim>\<open>lzf_c.c\<close> makes only valid accesses and writes the format, so that what it writes
  decompresses to its input.
\<close>

section \<open>The compressor writes the format\<close>

definition agree :: "u8 list \<Rightarrow> nat \<Rightarrow> nat \<Rightarrow> nat \<Rightarrow> bool" where
  "agree inp ref p n \<longleftrightarrow> (\<forall>j<n. inp ! (ref + j) = inp ! (p + j))"

lemma agree_Suc: "agree inp ref p (Suc n) \<longleftrightarrow> agree inp ref p n \<and> inp ! (ref + n) = inp ! (p + n)"
  by (auto simp: agree_def less_Suc_eq)

lemma agree_3: "agree inp r p 3 \<longleftrightarrow> inp ! r = inp ! p \<and> inp ! Suc r = inp ! Suc p \<and> inp ! Suc (Suc r) = inp ! Suc (Suc p)"
  by (auto simp: numeral_3_eq_3 agree_Suc) (simp add: agree_def)

lemma agree_mono: "agree inp ref p n \<Longrightarrow> m \<le> n \<Longrightarrow> agree inp ref p m"
  by (simp add: agree_def)

lemma match_tail_ok:
  assumes "len + 1 \<le> m" and "maxlen \<le> m" and "ref < p" and "p + m \<le> length inp" and "agree inp ref p (len + 1)"
  shows "\<exists>n. match_tail inp ref p maxlen len = Some n \<and> len < n \<and> n \<le> m \<and> agree inp ref p n"
  using assms
proof (induction "maxlen - len" arbitrary: len rule: less_induct)
  case less
  show ?case
  proof (cases "len + 1 < maxlen \<and> inp ! (ref + (len + 1)) = inp ! (p + (len + 1))")
    case True
    then have "agree inp ref p (len + 1 + 1)" and "maxlen - (len + 1) < maxlen - len"
      using less.prems(5) by (auto simp: agree_Suc)
    then obtain n where n: "match_tail inp ref p maxlen (len + 1) = Some n" "len + 1 < n" "n \<le> m" "agree inp ref p n"
      using less.hyps [of "len + 1"] True less.prems by auto
    then show ?thesis using True less.prems by (subst match_tail.simps) (simp add: Let_def)
  next
    case False
    then have "match_tail inp ref p maxlen len = Some (len + 1)"
      using less.prems by (subst match_tail.simps) (auto simp: Let_def)
    then show ?thesis using less.prems by simp
  qed
qed

lemma match_unrolled_ok:
  "ref < p \<Longrightarrow> p + (len + n) < length inp \<Longrightarrow> agree inp ref p (len + 1) \<Longrightarrow>
   \<exists>stop m. match_unrolled inp ref p n len = Some (stop, m) \<and> m \<le> len + n \<and> agree inp ref p m \<and>
     (if stop then len < m else m = len + n \<and> agree inp ref p (m + 1))"
proof (induction inp ref p n len rule: match_unrolled.induct)
  case (1 inp ref p len)
  then show ?case by (intro exI [of _ False] exI [of _ len]) (simp add: agree_Suc)
next
  case (2 inp ref p n len)
  let ?a = "inp ! (ref + (len + 1))" and ?b = "inp ! (p + (len + 1))"
  have eq: "match_unrolled inp ref p (Suc n) len =
      (if ?a \<noteq> ?b then Some (True, len + 1) else match_unrolled inp ref p n (len + 1))"
    using 2(2,3) by simp
  show ?case
  proof (cases "?a = ?b")
    case True
    then have "agree inp ref p (len + 1 + 1)" using 2(4) by (simp add: agree_Suc)
    then obtain stop m where m: "match_unrolled inp ref p n (len + 1) = Some (stop, m)" "m \<le> len + 1 + n"
        "agree inp ref p m" "if stop then len + 1 < m else m = len + 1 + n \<and> agree inp ref p (m + 1)"
      using 2(1) [of ?a ?b] 2(2,3) True by auto
    have "match_unrolled inp ref p (Suc n) len = Some (stop, m)" unfolding eq using True m(1) by simp
    moreover have "if stop then len < m else m = len + Suc n \<and> agree inp ref p (m + 1)"
      using m(4) by (auto split: if_splits)
    ultimately show ?thesis using m(2,3) by (intro exI [of _ stop] exI [of _ m]) simp
  next
    case False
    then show ?thesis using eq 2(4) by (intro exI [of _ True] exI [of _ "len + 1"]) simp
  qed
qed

lemma match_len_ok:
  assumes "ref < p" and "p + 2 < length inp" and "agree inp ref p 3"
  shows "\<exists>n. match_len inp ref p (min MAX_REF (length inp - p - 2)) = Some n \<and> 3 \<le> n \<and> n \<le> MAX_REF \<and>
    p + n \<le> length inp \<and> agree inp ref p n"
proof -
  define maxlen where "maxlen = min MAX_REF (length inp - p - 2)"
  define m where "m = min MAX_REF (length inp - p)"
  have m: "maxlen \<le> m" "p + m \<le> length inp" "m \<le> MAX_REF" "3 \<le> m" using assms by (auto simp: maxlen_def m_def)
  have tail: "\<exists>n. match_tail inp ref p maxlen len = Some n \<and> len < n \<and> n \<le> m \<and> agree inp ref p n"
    if "len + 1 \<le> m" "agree inp ref p (len + 1)" for len
    using match_tail_ok [OF that(1) m(1) assms(1) m(2) that(2)] .
  have "\<exists>n. match_len inp ref p maxlen = Some n \<and> 3 \<le> n \<and> n \<le> m \<and> agree inp ref p n"
  proof (cases "maxlen > 16")
    case True
    have "\<exists>stop k. match_unrolled inp ref p 16 2 = Some (stop, k) \<and> k \<le> 2 + 16 \<and> agree inp ref p k \<and>
        (if stop then 2 < k else k = 2 + 16 \<and> agree inp ref p (k + 1))"
      using True assms by (intro match_unrolled_ok) (auto simp: maxlen_def)
    then obtain stop k where k: "match_unrolled inp ref p 16 2 = Some (stop, k)" "k \<le> 2 + 16" "agree inp ref p k"
        "if stop then 2 < k else k = 2 + 16 \<and> agree inp ref p (k + 1)"
      by blast
    have "18 + 1 \<le> m" "18 \<le> m" using True by (auto simp: maxlen_def m_def)
    then show ?thesis
      using k tail [of k] True by (cases stop) (auto simp: match_len_def)
  next
    case False
    have "agree inp ref p (2 + 1)" using assms(3) by simp
    then show ?thesis using tail [of 2] False m(4) by (auto simp: match_len_def)
  qed
  then obtain n where "match_len inp ref p maxlen = Some n" "3 \<le> n" "n \<le> m" "agree inp ref p n" by blast
  then show ?thesis using m by (intro exI [of _ n]) (simp add: maxlen_def)
qed


text \<open>The invariant of the main loop: what was written before the current run decodes to the input before
  the run, and the run holds the input bytes since then. Slots hold addresses of one half of the address
  space around the input.\<close>

definition htab_ok :: "(nat \<Rightarrow> int option) \<Rightarrow> bool" where
  "htab_ok h \<longleftrightarrow> (\<forall>i r. h i = Some r \<longrightarrow> \<bar>r\<bar> < 2 ^ 63)"

definition lzf_inv :: "u8 list \<Rightarrow> lzf_state \<Rightarrow> bool" where
  "lzf_inv inp s \<longleftrightarrow> ip s \<le> length inp \<and> lit s < MAX_LIT \<and> lit s \<le> ip s \<and> lit s < op s \<and>
     op s \<le> length (out s) + 1 \<and> (lit s = 0 \<or> op s \<le> length (out s)) \<and> htab_ok (htab s) \<and>
     lzf_dec (take (op s - lit s - 1) (out s)) [] (take (ip s - lit s) inp) \<and>
     take (lit s) (drop (op s - lit s) (out s)) = take (lit s) (drop (ip s - lit s) inp)"

text \<open>Closing the run makes everything before it decodable.\<close>

lemma dec_literal_token: "unat c + 1 = length ys \<Longrightarrow> unat c < 32 \<Longrightarrow> lzf_dec (c # ys) t (t @ ys)"
  by (intro dec_token_1) (simp add: dec_token_def Let_def)

lemma dec_backref_token:
  assumes "off < length t" and "off < 8192" and "len \<le> 262" and "0 < len"
  shows "lzf_dec ((if len < 7 then [word_of_nat (off div 256 + len * 32)]
      else [word_of_nat (off div 256 + 7 * 32), word_of_nat (len - 7)]) @ [word_of_nat off]) t (backcopy t off (len + 2))"
proof -
  have hi: "off div 256 < 32" using assms(2) by auto
  have c: "unat (word_of_nat (off div 256 + k * 32) :: u8) = off div 256 + k * 32" if "k < 8" for k
    using that hi by (simp only: unat_of_nat) simp
  have o: "off div 256 * 256 + unat (word_of_nat off :: u8) = off" by (simp add: unat_of_nat)
  have m: "(off div 256 + k * 32) mod 32 = off div 256" "(off div 256 + k * 32) div 32 = k" for k using hi by simp_all
  show ?thesis
  proof (cases "len < 7")
    case True
    then show ?thesis
      using assms o hi c [of len] m [of len] by (intro dec_token_1) (simp add: dec_token_def dec_ref_def Let_def del: of_nat_add of_nat_mult)
  next
    case False
    have "unat (word_of_nat (len - 7) :: u8) = len - 7" using assms(3) by (simp only: unat_of_nat) simp
    then show ?thesis
      using False assms o hi c [of 7] m [of 7] by (intro dec_token_1) (simp add: dec_token_def dec_ref_def Let_def del: of_nat_add of_nat_mult)
  qed
qed

lemma close_run_dec:
  assumes o: "n < p" "p \<le> length xs" and l: "n \<le> MAX_LIT" "n \<le> i" "i \<le> length inp"
    and dec: "lzf_dec (take (p - n - 1) xs) [] (take (i - n) inp)"
    and run: "take n (drop (p - n) xs) = take n (drop (i - n) inp)"
  shows "lzf_dec (take (p - (if n = 0 then 1 else 0)) (xs[p - n - 1 := word_of_int (int n - 1)])) [] (take i inp)"
proof (cases "n = 0")
  case False
  let ?b = "word_of_int (int n - 1) :: u8"
  have "?b = word_of_nat (n - 1)" using False by (simp add: of_nat_diff)
  then have b: "unat ?b = n - 1" using l(1) by (simp only: unat_of_nat) simp
  have "take p (xs[p - n - 1 := ?b]) = take (p - n - 1) xs @ ?b # take n (drop (p - n) xs)"
  proof -
    have k: "Suc (p - n - 1) = p - n" "p - (p - n) = n" "min (p - n - 1) p = p - n - 1" using o False by simp_all
    have "take p (xs[p - n - 1 := ?b]) = (take p xs)[p - n - 1 := ?b]" by (rule take_update_swap)
    also have "\<dots> = take (p - n - 1) (take p xs) @ ?b # drop (Suc (p - n - 1)) (take p xs)"
      using o by (intro upd_conv_take_nth_drop) simp
    finally show ?thesis unfolding k drop_take take_take .
  qed
  moreover have "lzf_dec (?b # take n (drop (p - n) xs)) (take (i - n) inp) (take i inp)"
  proof -
    have "take (i - n) inp @ take n (drop (p - n) xs) = take i inp"
      unfolding run using l(2) by (simp flip: take_add)
    moreover have "unat ?b + 1 = length (take n (drop (p - n) xs))" and "unat ?b < 32" using False l(1) o b by auto
    ultimately show ?thesis using dec_literal_token by metis
  qed
  ultimately show ?thesis using lzf_dec_append [OF dec] False by simp
qed (use assms in simp)

lemma stop_run_ok:
  assumes inv: "lzf_inv inp s" and op: "op s \<le> length (out s)"
  shows "\<exists>out'. stop_run s = Some (s\<lparr>out := out'\<rparr>) \<and> length out' = length (out s) \<and>
    lzf_dec (take (run_start s) out') [] (take (ip s) inp)"
  using close_run_dec [of "lit s" "op s" "out s" "ip s" inp] assms
  by (auto simp: lzf_inv_def stop_run_def run_start_def)


lemma backcopy_agree:
  "ref < p \<Longrightarrow> p + n \<le> length inp \<Longrightarrow> agree inp ref p n \<Longrightarrow> backcopy (take p inp) (p - ref - 1) n = take (p + n) inp"
proof (induction n arbitrary: ref p)
  case (Suc n)
  have "take p inp ! (length (take p inp) - (p - ref - 1) - 1) = inp ! p"
    using Suc.prems(3) [unfolded agree_def, rule_format, of 0] Suc.prems by simp
  then have "take p inp @ [take p inp ! (length (take p inp) - (p - ref - 1) - 1)] = take (Suc p) inp"
    using Suc.prems by (simp add: take_Suc_conv_app_nth)
  moreover have "agree inp (Suc ref) (Suc p) n" using Suc.prems(3) by (force simp: agree_def)
  moreover have "Suc p - Suc ref - 1 = p - ref - 1" by simp
  ultimately show ?case using Suc.IH [of "Suc ref" "Suc p"] Suc.prems by (simp add: backcopy.simps)
qed simp

lemma take_put: "p + length ys \<le> length xs \<Longrightarrow> take (p + length ys) (take p xs @ ys @ drop (p + length ys) xs) = take p xs @ ys"
  by simp

text \<open>The bytes of a back reference, written one by one.\<close>

lemma put_op_ok: "op s < length (out s) \<Longrightarrow> put_op s b = Some (s\<lparr>out := (out s)[op s := b], op := op s + 1\<rparr>)"
  by (simp add: put_op_def)

lemma take_update_end: "p < length xs \<Longrightarrow> take (Suc p) (xs[p := b]) = take p xs @ [b]"
  by (simp add: take_Suc_conv_app_nth)


lemma put_backref_ok:
  assumes "op s + 3 \<le> length (out s)"
  shows "\<exists>out' n. put_backref s len off = Some (s\<lparr>out := out', op := n\<rparr>) \<and> length out' = length (out s) \<and>
    op s < n \<and> n \<le> op s + 3 \<and>
    take n out' = take (op s) (out s) @ (if len < 7 then [word_of_nat (off div 256 + len * 32)]
      else [word_of_nat (off div 256 + 7 * 32), word_of_nat (len - 7)]) @ [word_of_nat off]"
proof (cases "len < 7")
  case True
  let ?b = "word_of_nat (off div 256 + len * 32)"
  have "put_backref s len off = Some (s\<lparr>out := (out s)[op s := ?b, Suc (op s) := word_of_nat off], op := op s + 2\<rparr>)"
    using assms True by (simp add: put_backref_def put_op_ok)
  then show ?thesis
    using assms True by (intro exI conjI, simp) (simp_all add: take_update_end numeral_2_eq_2)
next
  case False
  let ?b = "word_of_nat (off div 256 + 7 * 32)"
  have "put_backref s len off = Some (s\<lparr>out := (out s)[op s := ?b, Suc (op s) := word_of_nat (len - 7),
      Suc (Suc (op s)) := word_of_nat off], op := op s + 3\<rparr>)"
    using assms False by (simp add: put_backref_def put_op_ok)
  then show ?thesis
    using assms False by (intro exI conjI, simp) (simp_all add: take_update_end numeral_3_eq_3)
qed

lemma htab_ok_upd: "htab_ok h \<Longrightarrow> n < 2 ^ 63 \<Longrightarrow> htab_ok (h(i := Some (int n)))"
  by (auto simp: htab_ok_def)

lemma NEXT_Some: "p + 2 < length inp \<Longrightarrow> \<exists>h. NEXT v inp p = Some h"
  by (simp add: NEXT_def)

definition flow_ok :: "u8 list \<Rightarrow> lzf_state \<Rightarrow> lzf_flow \<Rightarrow> bool" where
  "flow_ok inp s f = (case f of
       Return0 s' \<Rightarrow> length (out s') = length (out s)
     | Break s' \<Rightarrow> lzf_inv inp s' \<and> length (out s') = length (out s) \<and> length inp \<le> ip s' + 2
     | Continue s' \<Rightarrow> lzf_inv inp s' \<and> length (out s') = length (out s) \<and> ip s < ip s')"

lemma lzf_resume_ok:
  assumes inv: "lzf_inv inp s" and ip: "2 \<le> ip s" and small: "length inp < 2 ^ 63"
    and t: "length (out s) = length (out t)" "ip t < ip s"
  shows "\<exists>f. lzf_resume inp s = Some f \<and> flow_ok inp t f"
proof (cases "ip s + 2 \<ge> length inp")
  case True
  then show ?thesis using inv t by (simp add: lzf_resume_def flow_ok_def)
next
  case False
  have "\<exists>h g i. lzf_resume inp s = Some (Continue (s\<lparr>hval := h, htab := (htab s)(g := Some (int (ip s - 2)), i := Some (int (ip s - 1))), ip := ip s\<rparr>))"
  proof -
    obtain i where i: "ip s = Suc (Suc i)" using ip by (metis add_2_eq_Suc le_Suc_ex)
    show ?thesis
      using False by (simp add: lzf_resume_def FRST_def NEXT_def rehash_one_def i Let_def) (intro exI, rule refl)
  qed
  moreover have "htab_ok ((htab s)(g := Some (int (ip s - 2)), i := Some (int (ip s - 1))))" for g i
    using inv False small by (intro htab_ok_upd) (auto simp: lzf_inv_def)
  ultimately show ?thesis using inv t by (auto simp: flow_ok_def lzf_inv_def)
qed


lemma lzf_match_ok:
  assumes inv: "lzf_inv inp s" and ip: "ip s + 2 < length inp" and small: "length inp < 2 ^ 63"
    and ref: "ref < ip s" "ip s - ref - 1 < 8192" "agree inp ref (ip s) 3"
  shows "\<exists>f. lzf_match inp s ref (ip s - ref - 1) = Some f \<and> flow_ok inp s f"
proof (cases "op s + 3 + 1 \<ge> length (out s) \<and> run_start s + 3 + 1 \<ge> length (out s)")
  case True
  then show ?thesis by (simp add: lzf_match_def flow_ok_def Let_def)
next
  case False
  then have room: "run_start s + 3 + 1 < length (out s)" and op: "op s \<le> length (out s)"
    by (auto simp: run_start_def split: if_splits)
  obtain out1 where out1: "stop_run s = Some (s\<lparr>out := out1\<rparr>)" "length out1 = length (out s)"
      "lzf_dec (take (run_start s) out1) [] (take (ip s) inp)"
    using stop_run_ok [OF inv op] by blast
  obtain n where n: "match_len inp ref (ip s) (min MAX_REF (length inp - ip s - 2)) = Some n" "3 \<le> n" "n \<le> MAX_REF"
      "ip s + n \<le> length inp" "agree inp ref (ip s) n"
    using match_len_ok [OF ref(1) ip ref(3)] by blast
  define s1 where "s1 = s\<lparr>out := out1, op := run_start s, ip := ip s + 1\<rparr>"
  let ?off = "ip s - ref - 1" and ?len = "n - 2"
  obtain out2 p where p: "put_backref s1 ?len ?off = Some (s1\<lparr>out := out2, op := p\<rparr>)" "length out2 = length out1"
      "run_start s < p" "p \<le> run_start s + 3"
      "take p out2 = take (run_start s) out1 @ (if ?len < 7 then [word_of_nat (?off div 256 + ?len * 32)]
        else [word_of_nat (?off div 256 + 7 * 32), word_of_nat (?len - 7)]) @ [word_of_nat ?off]"
    using put_backref_ok [of s1 ?len ?off] room out1(2) by (auto simp: s1_def)
  define s2 where "s2 = s1\<lparr>out := out2, lit := 0, op := p + 1, ip := ip s + n\<rparr>"
  have "lzf_dec (take p out2) [] (backcopy (take (ip s) inp) ?off (?len + 2))"
    unfolding p(5) using ip ref(1,2) n(2,3)
    by (intro lzf_dec_append [OF out1(3)] dec_backref_token) auto
  moreover have "?len + 2 = n" using n(2) by simp
  ultimately have "lzf_dec (take p out2) [] (take (ip s + n) inp)"
    using backcopy_agree [OF ref(1) n(4,5)] by simp
  then have "lzf_inv inp s2"
    using inv n(4) p(2-4) out1(2) room by (simp add: lzf_inv_def s2_def s1_def)
  moreover have "lzf_match inp s ref ?off = lzf_resume inp s2"
  proof -
    have "ip s + 1 + (?len + 1) = ip s + n" using n(2) by simp
    moreover have "run_start (s\<lparr>out := out1\<rparr>) = run_start s" by (simp add: run_start_def)
    ultimately show ?thesis
      using False out1(1) n(1) p(1) by (auto simp: lzf_match_def s1_def s2_def Let_def)
  qed
  ultimately show ?thesis
    using lzf_resume_ok [of inp s2 s] small n(2) p(2) out1(2) ip ref(1) by (auto simp: s2_def)
qed


lemma take_run: "a + n < length xs \<Longrightarrow> take (Suc n) (drop a xs) = take n (drop a xs) @ [xs ! (a + n)]"
  by (simp add: take_Suc_conv_app_nth)

text \<open>One more literal byte.\<close>

lemma put_literal_ok:
  assumes inv: "lzf_inv inp s" and ip: "ip s < length inp" and op: "op s < length (out s)"
  shows "\<exists>s'. put_literal inp s = Some s' \<and> lzf_inv inp s' \<and> length (out s') = length (out s) \<and>
    ip s' = ip s + 1 \<and> htab s' = htab s \<and>
    (if lit s + 1 = MAX_LIT then lit s' = 0 \<and> op s' = op s + 2 else lit s' = lit s + 1 \<and> op s' = op s + 1)"
proof -
  let ?b = "inp ! ip s"
  define s1 where "s1 = s\<lparr>lit := lit s + 1, out := (out s)[op s := ?b], op := op s + 1, ip := ip s + 1\<rparr>"
  have i: "lit s < MAX_LIT" "lit s \<le> ip s" "lit s < op s"
      "lzf_dec (take (op s - lit s - 1) (out s)) [] (take (ip s - lit s) inp)"
      "take (lit s) (drop (op s - lit s) (out s)) = take (lit s) (drop (ip s - lit s) inp)" "htab_ok (htab s)"
    using inv by (simp_all add: lzf_inv_def)
  have dec: "lzf_dec (take (op s1 - lit s1 - 1) (out s1)) [] (take (ip s1 - lit s1) inp)"
    using i(4) by (simp add: s1_def)
  have run: "take (lit s1) (drop (op s1 - lit s1) (out s1)) = take (lit s1) (drop (ip s1 - lit s1) inp)"
  proof -
    have "take (Suc (lit s)) (drop (op s - lit s) ((out s)[op s := ?b])) = take (lit s) (drop (op s - lit s) (out s)) @ [?b]"
      using op i(3) by (subst take_run) (simp_all add: drop_update_swap)
    moreover have "take (Suc (lit s)) (drop (ip s - lit s) inp) = take (lit s) (drop (ip s - lit s) inp) @ [?b]"
      using ip i(2) by (subst take_run) simp_all
    ultimately show ?thesis using i(5) by (simp add: s1_def)
  qed
  have eq: "put_literal inp s = (if lit s1 = MAX_LIT then map_option (\<lambda>s. s\<lparr>lit := 0, op := op s + 1\<rparr>) (stop_run s1) else Some s1)"
    using ip op by (simp add: put_literal_def put_op_def s1_def Let_def map_conv_bind_option comp_def)
  show ?thesis
  proof (cases "lit s + 1 = MAX_LIT")
    case True
    have l: "lit s1 = MAX_LIT" "lit s1 < op s1" "op s1 \<le> length (out s1)" "lit s1 \<le> ip s1" "ip s1 \<le> length inp"
      using True i op ip by (simp_all add: s1_def)
    then have stop: "stop_run s1 = Some (s1\<lparr>out := (out s1)[op s1 - lit s1 - 1 := word_of_int (int (lit s1) - 1)]\<rparr>)"
      by (simp add: stop_run_def)
    then have "put_literal inp s = Some (s1\<lparr>out := (out s1)[op s1 - lit s1 - 1 := word_of_int (int (lit s1) - 1)],
        lit := 0, op := op s1 + 1\<rparr>)"
      using eq l(1) by simp
    moreover have "lzf_dec (take (op s1) ((out s1)[op s1 - lit s1 - 1 := word_of_int (int (lit s1) - 1)])) [] (take (ip s1) inp)"
      using close_run_dec [OF l(2,3) _ l(4,5) dec run] l(1) by simp
    ultimately show ?thesis
      using True l i(6) by (auto simp: lzf_inv_def s1_def)
  next
    case False
    then have "put_literal inp s = Some s1" using eq by (simp add: s1_def)
    moreover have "lzf_inv inp s1" using dec run False i(1,2,3,6) ip op by (simp add: lzf_inv_def s1_def)
    ultimately show ?thesis using False by (simp add: s1_def)
  qed
qed


lemma slot_before:
  assumes "\<bar>r\<bar> < 2 ^ 63" and "p < (2 ^ 63 :: nat)" and "wrap_u 64 (int p - r - 1) < 8192" and "0 < r"
  shows "nat r < p \<and> wrap_u 64 (int p - r - 1) = int (p - nat r - 1)"
proof (cases "r < int p")
  case True
  then show ?thesis using assms by (auto simp: wrap_u_def)
next
  case False
  then have "(int p - r - 1) mod 2 ^ 64 = int p - r - 1 + 2 ^ 64"
    using assms(1,2) by (subst mod_add_self2 [symmetric], subst mod_pos_pos_trivial) auto
  then show ?thesis using False assms by (simp add: wrap_u_def)
qed

lemma lzf_found_ok:
  assumes slot: "\<And>r. slot = Some r \<Longrightarrow> \<bar>r\<bar> < 2 ^ 63" and p: "p + 2 < length inp" "length inp < 2 ^ 63"
  shows "\<exists>f. lzf_found inp p slot = Some f \<and>
    (case f of None \<Rightarrow> True | Some (r, off) \<Rightarrow> r < p \<and> off = p - r - 1 \<and> off < 8192 \<and> agree inp r p 3)"
proof (cases slot)
  case (Some r)
  show ?thesis
  proof (cases "wrap_u 64 (int p - r - 1) < 8192 \<and> r > 0")
    case True
    then have r: "nat r < p" "wrap_u 64 (int p - r - 1) = int (p - nat r - 1)"
      using slot_before [of r p] slot [OF Some] p by auto
    have "p - nat r - 1 < 8192" using True unfolding r(2) by simp
    then show ?thesis
      using r True p unfolding lzf_found_def Some Let_def r(2)
      by (auto simp: agree_3)
  qed (auto simp: lzf_found_def Some Let_def)
qed (simp add: lzf_found_def)

lemma flow_ok_cong: "ip s1 = ip s \<Longrightarrow> length (out s1) = length (out s) \<Longrightarrow> flow_ok inp s1 f = flow_ok inp s f"
  by (simp add: flow_ok_def split: lzf_flow.split)

lemma lzf_step_ok:
  assumes inv: "lzf_inv inp s" and ip: "ip s + 2 < length inp" and small: "length inp < 2 ^ 63"
  shows "\<exists>f. lzf_step inp s = Some f \<and> flow_ok inp s f"
proof -
  obtain h where h: "NEXT (hval s) inp (ip s) = Some h" using NEXT_Some [OF ip] by blast
  define s1 where "s1 = s\<lparr>hval := h, htab := (htab s)(IDX h := Some (int (ip s)))\<rparr>"
  have s1: "ip s1 = ip s" "op s1 = op s" "out s1 = out s" by (simp_all add: s1_def)
  have inv1: "lzf_inv inp s1"
    using inv htab_ok_upd [of "htab s" "ip s" "IDX h"] ip small by (simp add: lzf_inv_def s1_def)
  obtain f where f: "lzf_found inp (ip s) (htab s (IDX h)) = Some f"
      "case f of None \<Rightarrow> True | Some (r, off) \<Rightarrow> r < ip s \<and> off = ip s - r - 1 \<and> off < 8192 \<and> agree inp r (ip s) 3"
    using lzf_found_ok [OF _ ip small, of "htab s (IDX h)"] inv by (auto simp: lzf_inv_def htab_ok_def)
  have eq: "lzf_step inp s = (case f of Some (r, off) \<Rightarrow> lzf_match inp s1 r off
      | None \<Rightarrow> if op s1 \<ge> length (out s1) then Some (Return0 s1) else map_option Continue (put_literal inp s1))"
    using h f(1) by (simp add: lzf_step_def flip: s1_def)
  show ?thesis
  proof (cases f)
    case None
    then show ?thesis using put_literal_ok [OF inv1] s1 ip eq by (auto simp: flow_ok_def)
  next
    case (Some m)
    obtain r off where m: "m = (r, off)" by (cases m)
    then have "\<exists>f. lzf_match inp s1 r (ip s1 - r - 1) = Some f \<and> flow_ok inp s1 f"
      using f(2) Some ip s1 by (intro lzf_match_ok [OF inv1 _ small]) auto
    then show ?thesis using eq f(2) Some m s1 flow_ok_cong [of s1 s] by simp
  qed
qed

lemma lzf_loop_ok:
  assumes "length inp < 2 ^ 63" and "lzf_inv inp s"
  shows "\<exists>r. lzf_loop inp s = Some r \<and> (case r of Inl s' \<Rightarrow> length (out s') = length (out s)
    | Inr s' \<Rightarrow> lzf_inv inp s' \<and> length (out s') = length (out s) \<and> length inp \<le> ip s' + 2)"
  using assms(2)
proof (induction "length inp - ip s" arbitrary: s rule: less_induct)
  case less
  show ?case
  proof (cases "ip s + 2 < length inp")
    case True
    obtain f where f: "lzf_step inp s = Some f" "flow_ok inp s f"
      using lzf_step_ok [OF less.prems True assms(1)] by blast
    show ?thesis
    proof (cases f)
      case (Continue s')
      then have s': "lzf_inv inp s'" "length (out s') = length (out s)" "ip s < ip s'" using f(2) by (auto simp: flow_ok_def)
      then have "length inp - ip s' < length inp - ip s" using True by linarith
      then show ?thesis
        using less.hyps [of s'] s' f(1) True Continue by (subst lzf_loop.simps) (auto split: sum.splits)
    qed (use f True in \<open>subst lzf_loop.simps; simp add: flow_ok_def\<close>)+
  next
    case False
    then show ?thesis using less.prems by (subst lzf_loop.simps) simp
  qed
qed

lemma lzf_tail_ok:
  assumes "lzf_inv inp s" and "op s + (length inp - ip s) + (if lit s + (length inp - ip s) \<ge> MAX_LIT then 1 else 0) \<le> length (out s)"
    and "length inp \<le> ip s + 2"
  shows "\<exists>s'. lzf_tail inp s = Some s' \<and> lzf_inv inp s' \<and> ip s' = length inp \<and> length (out s') = length (out s) \<and> op s' \<le> length (out s)"
  using assms
proof (induction "length inp - ip s" arbitrary: s rule: less_induct)
  case less
  show ?case
  proof (cases "ip s < length inp")
    case True
    then have "op s < length (out s)" using less.prems(2) by simp
    then obtain s1 where s1: "put_literal inp s = Some s1" "lzf_inv inp s1" "length (out s1) = length (out s)" "ip s1 = ip s + 1"
        "if lit s + 1 = MAX_LIT then lit s1 = 0 \<and> op s1 = op s + 2 else lit s1 = lit s + 1 \<and> op s1 = op s + 1"
      using put_literal_ok [OF less.prems(1) True] by blast
    have "lit s < MAX_LIT" using less.prems(1) by (simp add: lzf_inv_def)
    then have "op s1 + (length inp - ip s1) + (if lit s1 + (length inp - ip s1) \<ge> MAX_LIT then 1 else 0) \<le> length (out s1)"
      using less.prems(2,3) s1(3-5) True by (auto split: if_splits)
    moreover have "length inp - ip s1 < length inp - ip s" "length inp \<le> ip s1 + 2" using s1(4) True less.prems(3) by auto
    ultimately obtain s' where "lzf_tail inp s1 = Some s'" "lzf_inv inp s'" "ip s' = length inp" "length (out s') = length (out s)" "op s' \<le> length (out s)"
      using less.hyps [of s1] s1(2,3) by auto
    then show ?thesis using s1(1) True by (subst lzf_tail.simps) simp
  next
    case False
    then have "ip s = length inp" using less.prems(1) by (simp add: lzf_inv_def)
    then show ?thesis using less.prems by (subst lzf_tail.simps) simp
  qed
qed


lemma lzf_compress_ok:
  assumes "2 \<le> length inp" and "length inp < 2 ^ 63" and "htab_ok htab0"
  shows "\<exists>n out'. lzf_compress htab0 inp out0 = Some (n, out') \<and> length out' = length out0 \<and> n \<le> length out0 \<and>
    (n \<noteq> 0 \<longrightarrow> lzf_dec (take n out') [] inp)"
proof (cases "out0 = []")
  case True
  then show ?thesis by (simp add: lzf_compress_def)
next
  case False
  have "0 < length inp" "1 < length inp" using assms(1) by auto
  then obtain h where h: "FRST inp 0 = Some h" by (simp add: FRST_def)
  let ?s = "\<lparr>ip = 0, op = 1, lit = 0, hval = h, htab = htab0, out = out0\<rparr>"
  have "lzf_inv inp ?s" using assms(3) dec_end [of "[]"] by (simp add: lzf_inv_def)
  then obtain r where r: "lzf_loop inp ?s = Some r" "case r of Inl s' \<Rightarrow> length (out s') = length out0
      | Inr s' \<Rightarrow> lzf_inv inp s' \<and> length (out s') = length out0 \<and> length inp \<le> ip s' + 2"
    using lzf_loop_ok [OF assms(2), of ?s] unfolding lzf_state.select_convs by blast
  have eq: "lzf_compress htab0 inp out0 = (case r of Inl s \<Rightarrow> Some (0, out s)
      | Inr s \<Rightarrow> if op s + 3 > length (out s) then Some (0, out s)
          else do { s \<leftarrow> lzf_tail inp s; s \<leftarrow> stop_run s; Some (run_start s, out s) })"
    using False assms(1) h r(1) by (auto simp: lzf_compress_def)
  show ?thesis
  proof (cases r)
    case (Inl s)
    then show ?thesis using eq r(2) by simp
  next
    case (Inr s)
    then have s: "lzf_inv inp s" "length (out s) = length out0" "length inp \<le> ip s + 2" using r(2) by simp_all
    show ?thesis
    proof (cases "op s + 3 > length (out s)")
      case True
      then show ?thesis using eq Inr s(2) by simp
    next
      case room: False
      then have "op s + (length inp - ip s) + (if lit s + (length inp - ip s) \<ge> MAX_LIT then 1 else 0) \<le> length (out s)"
        using s(3) by auto
      then obtain s1 where s1: "lzf_tail inp s = Some s1" "lzf_inv inp s1" "ip s1 = length inp"
          "length (out s1) = length (out s)" "op s1 \<le> length (out s)"
        using lzf_tail_ok [OF s(1) _ s(3)] by blast
      then obtain out' where "stop_run s1 = Some (s1\<lparr>out := out'\<rparr>)" "length out' = length (out s1)"
          "lzf_dec (take (run_start s1) out') [] (take (ip s1) inp)"
        using stop_run_ok [OF s1(2)] by auto
      then show ?thesis using eq Inr room s1 s(2) by (simp add: run_start_def)
    qed
  qed
qed


section \<open>Properties\<close>

text \<open>C7. Compression is lossless: whatever the uninitialised hash table holds, when \<^verbatim>\<open>lzf_compress\<close> returns a
  length other than 0, \<^verbatim>\<open>lzf_decompress\<close> of these bytes into a buffer that is large enough returns the length
  of the input, without an error, and the buffer then starts with the input.\<close>

theorem lzf_roundtrip:
  assumes "2 \<le> length inp" and "length inp < 2 ^ 63" and "htab_ok htab0"
    and "lzf_compress htab0 inp out0 = Some (n, out')" and "n \<noteq> 0" and "length inp \<le> length dst"
  shows "lzf_decompress (take n out') dst = Some (length inp, None, inp @ drop (length inp) dst)"
proof -
  have "lzf_dec (take n out') [] inp" using lzf_compress_ok [OF assms(1-3), of out0] assms(4,5) by auto
  then show ?thesis
    unfolding lzf_decompress_def using decompress_dec [of "take n out'" "[]" inp 0 "take n out'" 0 dst] assms(6) by simp
qed

text \<open>An example: eight equal bytes become a run of two literals, a back reference for four bytes and
  another run.\<close>

definition example_text :: "u8 list" where
  "example_text = [97, 97, 97, 97, 97, 97, 97, 97]"

lemma list_update_numeral: "(x # xs)[numeral k := y] = x # xs[pred_numeral k := y]"
  by (simp add: numeral_eq_Suc)

lemma lzf_loop_steps:
  "ip s + 2 < length inp \<Longrightarrow> lzf_step inp s = Some (Continue s') \<Longrightarrow> lzf_loop inp s = lzf_loop inp s'"
  "ip s + 2 < length inp \<Longrightarrow> lzf_step inp s = Some (Break s') \<Longrightarrow> lzf_loop inp s = Some (Inr s')"
  by (subst lzf_loop.simps; simp)+

lemma lzf_tail_steps:
  "ip s < length inp \<Longrightarrow> put_literal inp s = Some s' \<Longrightarrow> lzf_tail inp s = lzf_tail inp s'"
  "\<not> ip s < length inp \<Longrightarrow> lzf_tail inp s = Some s"
  by (subst lzf_tail.simps; simp)+

lemma match_tail_steps:
  "len + 1 < maxlen \<Longrightarrow> byte_at inp (ref + (len + 1)) = byte_at inp (p + (len + 1)) \<Longrightarrow> byte_at inp (p + (len + 1)) \<noteq> None \<Longrightarrow>
    match_tail inp ref p maxlen len = match_tail inp ref p maxlen (len + 1)"
  "\<not> len + 1 < maxlen \<Longrightarrow> match_tail inp ref p maxlen len = Some (len + 1)"
  by (subst match_tail.simps; auto simp: Let_def)+

lemma example_compress:
  "lzf_compress (\<lambda>_. None) example_text [0, 0, 0, 0, 0, 0, 0, 0, 0, 0, 0, 0] = Some (8, [1, 97, 97, 64, 0, 1, 97, 97, 0, 0, 0, 0])"
  by (simp add: lzf_compress_def example_text_def FRST_def NEXT_def lzf_step_def lzf_found_def Let_def
    lzf_loop_steps lzf_tail_steps match_tail_steps put_literal_def put_op_def stop_run_def lzf_match_def match_len_def run_start_def
    put_backref_def lzf_resume_def wrap_u_def IDX_def list_update_numeral)


theorem lzf_roundtrip_witness:
  "2 \<le> length example_text \<and> length example_text < 2 ^ 63 \<and> htab_ok (\<lambda>_. None) \<and>
   lzf_compress (\<lambda>_. None) example_text [0, 0, 0, 0, 0, 0, 0, 0, 0, 0, 0, 0] =
     Some (8, [1, 97, 97, 64, 0, 1, 97, 97, 0, 0, 0, 0]) \<and>
   lzf_decompress [1, 97, 97, 64, 0, 1, 97, 97] [5, 5, 5, 5, 5, 5, 5, 5, 5] = Some (8, None, example_text @ [5])"
proof -
  have h: "2 \<le> length example_text" "length example_text < 2 ^ 63" "htab_ok (\<lambda>_. None)"
    by (simp_all add: example_text_def htab_ok_def)
  show ?thesis
    using lzf_roundtrip [OF h example_compress, of "[5, 5, 5, 5, 5, 5, 5, 5, 5]"] h example_compress
    by (simp add: example_text_def)
qed

text \<open>C24. \<^verbatim>\<open>lzf_compress\<close> on at least two bytes returns, reads and writes only inside its buffers, and uses at
  most the length of the output buffer.\<close>

theorem lzf_compress_safe:
  assumes "2 \<le> length inp" and "length inp < 2 ^ 63" and "htab_ok htab0"
  shows "\<exists>n out'. lzf_compress htab0 inp out0 = Some (n, out') \<and> length out' = length out0 \<and> n \<le> length out0"
  using lzf_compress_ok [OF assms, of out0] by auto

theorem lzf_compress_safe_witness:
  "2 \<le> length example_text \<and> length example_text < 2 ^ 63 \<and> htab_ok (\<lambda>i. if i = 7 then Some 3 else None) \<and>
   (\<exists>n out'. lzf_compress (\<lambda>i. if i = 7 then Some 3 else None) example_text [1, 2, 3] = Some (n, out') \<and>
     length out' = 3 \<and> n \<le> 3)"
proof -
  have h: "2 \<le> length example_text" "length example_text < 2 ^ 63" "htab_ok (\<lambda>i. if i = 7 then Some 3 else None)"
    by (simp_all add: example_text_def htab_ok_def)
  show ?thesis using lzf_compress_safe [OF h, of "[1, 2, 3]"] h by (simp add: numeral_3_eq_3)
qed

text \<open>C23. \<^verbatim>\<open>lzf_decompress\<close> of any bytes, also corrupt ones, returns, reads and writes only inside its buffers,
  and reports at most the length of the output buffer.\<close>

theorem lzf_decompress_safe:
  "\<exists>n e dst'. lzf_decompress inp dst = Some (n, e, dst') \<and> n \<le> length dst \<and> length dst' = length dst"
  using decompress_safe [of 0 dst inp 0] by (simp add: lzf_decompress_def)

text \<open>C25. On an input of a single byte \<^verbatim>\<open>lzf_compress\<close> reads past its input: \<^verbatim>\<open>FRST\<close> looks at two bytes before
  the length is compared.\<close>

theorem lzf_compress_one_byte: "lzf_compress htab0 [b] (o0 # os) = None"
  by (simp add: lzf_compress_def FRST_def byte_at_def)

end
