(* ===== verification/Listpack.thy ===== *)
theory Listpack
  imports Numbers
begin

text \<open>
  The listpack of \<^verbatim>\<open>listpack.c\<close>: a serialised list of strings and integers in one block of memory, with a
  header of the total length (4 bytes) and the number of elements (2 bytes, 65535 for unknown), entries
  that end with their own length written backwards, and an end byte. This theory holds the definitions.

  A listpack is the block of memory that holds it, a pointer into it is an offset, and a null pointer is
  \<open>None\<close>. The block may be larger than the listpack: the allocator gives \<open>usable n\<close> bytes for a request of
  \<open>n\<close>, as \<^verbatim>\<open>lp_malloc_size\<close> reports. The outer \<open>None\<close> of a result is an invalid access or a failed assertion.
\<close>

abbreviation (input) LP_HDR_SIZE :: nat where "LP_HDR_SIZE \<equiv> 6"
abbreviation (input) LP_HDR_NUMELE_UNKNOWN :: nat where "LP_HDR_NUMELE_UNKNOWN \<equiv> 65535"
abbreviation (input) LP_EOF :: u8 where "LP_EOF \<equiv> 0xFF"
abbreviation (input) LP_INTBUF_SIZE :: nat where "LP_INTBUF_SIZE \<equiv> 21"
abbreviation (input) UINT32_MAX :: nat where "UINT32_MAX \<equiv> 4294967295"
abbreviation (input) UINT64_MAX :: nat where "UINT64_MAX \<equiv> 18446744073709551615"

section \<open>Bytes and header\<close>

definition lp_byte :: "mem \<Rightarrow> nat \<Rightarrow> u8 option" where
  "lp_byte m i = (if i < length m then m ! i else None)"

definition IS_7BIT_UINT :: "u8 \<Rightarrow> bool" where "IS_7BIT_UINT b \<longleftrightarrow> b AND 0x80 = 0"
definition IS_6BIT_STR :: "u8 \<Rightarrow> bool" where "IS_6BIT_STR b \<longleftrightarrow> b AND 0xC0 = 0x80"
definition IS_13BIT_INT :: "u8 \<Rightarrow> bool" where "IS_13BIT_INT b \<longleftrightarrow> b AND 0xE0 = 0xC0"
definition IS_12BIT_STR :: "u8 \<Rightarrow> bool" where "IS_12BIT_STR b \<longleftrightarrow> b AND 0xF0 = 0xE0"
definition IS_32BIT_STR :: "u8 \<Rightarrow> bool" where "IS_32BIT_STR b \<longleftrightarrow> b = 0xF0"
definition IS_16BIT_INT :: "u8 \<Rightarrow> bool" where "IS_16BIT_INT b \<longleftrightarrow> b = 0xF1"
definition IS_24BIT_INT :: "u8 \<Rightarrow> bool" where "IS_24BIT_INT b \<longleftrightarrow> b = 0xF2"
definition IS_32BIT_INT :: "u8 \<Rightarrow> bool" where "IS_32BIT_INT b \<longleftrightarrow> b = 0xF3"
definition IS_64BIT_INT :: "u8 \<Rightarrow> bool" where "IS_64BIT_INT b \<longleftrightarrow> b = 0xF4"

definition str_len_6 :: "mem \<Rightarrow> nat \<Rightarrow> nat option" where
  "str_len_6 m p = do { b \<leftarrow> lp_byte m p; Some (unat (b AND 0x3F)) }"

definition str_len_12 :: "mem \<Rightarrow> nat \<Rightarrow> nat option" where
  "str_len_12 m p = do { b \<leftarrow> lp_byte m p; c \<leftarrow> lp_byte m (p + 1); Some (256 * unat (b AND 0x0F) + unat c) }"

definition str_len_32 :: "mem \<Rightarrow> nat \<Rightarrow> nat option" where
  "str_len_32 m p = map_option (nat \<circ> le_uint) (mem_read m (p + 1) 4)"

definition lpGetTotalBytes :: "mem \<Rightarrow> nat option" where
  "lpGetTotalBytes m = map_option (nat \<circ> le_uint) (mem_read m 0 4)"

definition lpGetNumElements :: "mem \<Rightarrow> nat option" where
  "lpGetNumElements m = map_option (nat \<circ> le_uint) (mem_read m 4 2)"

definition lpSetTotalBytes :: "mem \<Rightarrow> nat \<Rightarrow> mem option" where
  "lpSetTotalBytes m v = mem_write m 0 (le_bytes 4 (int v))"

definition lpSetNumElements :: "mem \<Rightarrow> int \<Rightarrow> mem option" where
  "lpSetNumElements m v = mem_write m 4 (le_bytes 2 v)"

definition lpBytes :: "mem \<Rightarrow> nat option" where
  "lpBytes m = lpGetTotalBytes m"

definition lpSafeToAdd :: "mem option \<Rightarrow> nat \<Rightarrow> bool option" where
  "lpSafeToAdd lp add = do {
     len \<leftarrow> (case lp of None \<Rightarrow> Some 0 | Some m \<Rightarrow> lpGetTotalBytes m);
     Some (\<not> len + add > 2 ^ 30) }"

section \<open>Encoding\<close>

definition lpStringToInt64 :: "bytes \<Rightarrow> int option" where
  "lpStringToInt64 s =
     (if s = [] \<or> length s \<ge> LONG_STR_SIZE then None
      else if s = ascii ''0'' then Some 0
      else
        let negative = (hd s = 45); p = (if negative then tl s else s) in
        if p = [] then None
        else if \<not> (49 \<le> hd p \<and> hd p \<le> 57) then None
        else (case string2ll_loop (uint (hd p) - 48) (tl p) of
            None \<Rightarrow> None
          | Some (v, rest) \<Rightarrow>
              if rest \<noteq> [] then None
              else if negative
              then (if v > - (LLONG_MIN + 1) + 1 then None else Some (wrap_s 64 (wrap_u 64 (- v))))
              else (if v > LLONG_MAX then None else Some v)))"

text \<open>The bytes of \<^verbatim>\<open>intenc\<close>; their number is \<^verbatim>\<open>enclen\<close>.\<close>

definition lpEncodeIntegerGetType :: "int \<Rightarrow> bytes" where
  "lpEncodeIntegerGetType v =
     (if v \<ge> 0 \<and> v \<le> 127 then [word_of_int v]
      else if v \<ge> -4096 \<and> v \<le> 4095 then
        let v = (if v < 0 then 2 ^ 13 + v else v) in [word_of_int (v div 256) OR 0xC0, word_of_int v]
      else if v \<ge> -32768 \<and> v \<le> 32767 then
        let v = (if v < 0 then 2 ^ 16 + v else v) in 0xF1 # le_bytes 2 v
      else if v \<ge> -8388608 \<and> v \<le> 8388607 then
        let v = (if v < 0 then 2 ^ 24 + v else v) in 0xF2 # le_bytes 3 v
      else if v \<ge> -2147483648 \<and> v \<le> 2147483647 then
        let v = (if v < 0 then 2 ^ 32 + v else v) in 0xF3 # le_bytes 4 v
      else
        let uv = wrap_u 64 v in 0xF4 # le_bytes 8 uv)"

text \<open>The encoded integer, if the string is one, and the length of the encoding.\<close>

definition lpEncodeGetType :: "bytes \<Rightarrow> bytes option \<times> nat" where
  "lpEncodeGetType ele =
     (case lpStringToInt64 ele of
        Some v \<Rightarrow> (let intenc = lpEncodeIntegerGetType v in (Some intenc, length intenc))
      | None \<Rightarrow>
          let sz = length ele in
          (None, if sz < 64 then 1 + sz else if sz < 4096 then 2 + sz else 5 + sz))"

definition lpEncodeBacklen :: "nat \<Rightarrow> bytes" where
  "lpEncodeBacklen l =
     (if l \<le> 127 then [word_of_nat l]
      else if l < 16383 then [word_of_nat (l div 2 ^ 7), word_of_nat (l mod 128 + 128)]
      else if l < 2097151 then
        [word_of_nat (l div 2 ^ 14), word_of_nat (l div 2 ^ 7 mod 128 + 128), word_of_nat (l mod 128 + 128)]
      else if l < 268435455 then
        [word_of_nat (l div 2 ^ 21), word_of_nat (l div 2 ^ 14 mod 128 + 128),
         word_of_nat (l div 2 ^ 7 mod 128 + 128), word_of_nat (l mod 128 + 128)]
      else
        [word_of_nat (l div 2 ^ 28), word_of_nat (l div 2 ^ 21 mod 128 + 128), word_of_nat (l div 2 ^ 14 mod 128 + 128),
         word_of_nat (l div 2 ^ 7 mod 128 + 128), word_of_nat (l mod 128 + 128)])"

definition lpEncodeBacklenBytes :: "nat \<Rightarrow> nat" where
  "lpEncodeBacklenBytes l =
     (if l \<le> 127 then 1 else if l < 16383 then 2 else if l < 2097151 then 3
      else if l < 268435455 then 4 else 5)"

function decode_backlen :: "mem \<Rightarrow> nat \<Rightarrow> nat \<Rightarrow> nat \<Rightarrow> nat option" where
  "decode_backlen m p val shift =
     (case lp_byte m p of
        None \<Rightarrow> None
      | Some b \<Rightarrow>
          let val = val OR push_bit shift (unat (b AND 127)) in
          if b AND 128 = 0 then Some val
          else
            let shift' = shift + 7 in
            if shift' > 28 then Some UINT64_MAX
            else if p = 0 then None
            else decode_backlen m (p - 1) val shift')"
  by pat_completeness auto
termination
  by (relation "measure (\<lambda>(m, p, val, shift). 29 - shift)") auto

declare decode_backlen.simps [simp del]

definition lpDecodeBacklen :: "mem \<Rightarrow> nat \<Rightarrow> nat option" where
  "lpDecodeBacklen m p = decode_backlen m p 0 0"

definition lpEncodeString :: "bytes \<Rightarrow> bytes" where
  "lpEncodeString s =
     (let len = length s in
      if len < 64 then (word_of_nat len OR 0x80) # s
      else if len < 4096 then (word_of_nat (len div 256) OR 0xE0) # word_of_nat len # s
      else 0xF0 # le_bytes 4 (int len) @ s)"

section \<open>Moving over entries\<close>

definition lpCurrentEncodedSizeUnsafe :: "mem \<Rightarrow> nat \<Rightarrow> nat option" where
  "lpCurrentEncodedSizeUnsafe m p = do {
     b \<leftarrow> lp_byte m p;
     if IS_7BIT_UINT b then Some 1
     else if IS_6BIT_STR b then map_option (\<lambda>n. 1 + n) (str_len_6 m p)
     else if IS_13BIT_INT b then Some 2
     else if IS_16BIT_INT b then Some 3
     else if IS_24BIT_INT b then Some 4
     else if IS_32BIT_INT b then Some 5
     else if IS_64BIT_INT b then Some 9
     else if IS_12BIT_STR b then map_option (\<lambda>n. 2 + n) (str_len_12 m p)
     else if IS_32BIT_STR b then map_option (\<lambda>n. (5 + n) mod 2 ^ 32) (str_len_32 m p)
     else if b = LP_EOF then Some 1
     else Some 0 }"

definition lpCurrentEncodedSizeBytes :: "u8 \<Rightarrow> nat" where
  "lpCurrentEncodedSizeBytes encoding =
     (if IS_7BIT_UINT encoding then 1
      else if IS_6BIT_STR encoding then 1
      else if IS_13BIT_INT encoding then 1
      else if IS_16BIT_INT encoding then 1
      else if IS_24BIT_INT encoding then 1
      else if IS_32BIT_INT encoding then 1
      else if IS_64BIT_INT encoding then 1
      else if IS_12BIT_STR encoding then 2
      else if IS_32BIT_STR encoding then 5
      else if encoding = LP_EOF then 1
      else 0)"

definition lpSkip :: "mem \<Rightarrow> nat \<Rightarrow> nat option" where
  "lpSkip m p = do {
     entrylen \<leftarrow> lpCurrentEncodedSizeUnsafe m p;
     Some (p + (entrylen + lpEncodeBacklenBytes entrylen)) }"

text \<open>The result is the verdict and the advanced pointer.\<close>

definition lpValidateNext :: "mem \<Rightarrow> nat option \<Rightarrow> nat \<Rightarrow> (bool \<times> nat option) option" where
  "lpValidateNext m pp lpbytes = (case pp of
       None \<Rightarrow> Some (False, pp)
     | Some p \<Rightarrow>
         let out_of_range = (\<lambda>q. q < LP_HDR_SIZE \<or> int q > int lpbytes - 1) in
         if out_of_range p then Some (False, pp)
         else do {
           b \<leftarrow> lp_byte m p;
           if b = LP_EOF then Some (True, None)
           else
             let lenbytes = lpCurrentEncodedSizeBytes b in
             if lenbytes = 0 then Some (False, pp)
             else if out_of_range (p + lenbytes) then Some (False, pp)
             else do {
               entrylen \<leftarrow> lpCurrentEncodedSizeUnsafe m p;
               let encodedBacklen = lpEncodeBacklenBytes entrylen;
               let entrylen = entrylen + encodedBacklen;
               if out_of_range (p + entrylen) then Some (False, pp)
               else do {
                 let p = p + entrylen;
                 prevlen \<leftarrow> lpDecodeBacklen m (p - 1);
                 if (prevlen + encodedBacklen) mod 2 ^ 64 \<noteq> entrylen then Some (False, pp)
                 else Some (True, Some p) } } })"

definition lpAssertValidEntry :: "mem \<Rightarrow> nat \<Rightarrow> nat \<Rightarrow> unit option" where
  "lpAssertValidEntry m lpbytes p = do {
     (ok, _) \<leftarrow> lpValidateNext m (Some p) lpbytes;
     if ok then Some () else None }"

definition lpNextWithBytes :: "mem \<Rightarrow> nat \<Rightarrow> nat \<Rightarrow> nat option option" where
  "lpNextWithBytes m p lpbytes = do {
     p \<leftarrow> lpSkip m p;
     b \<leftarrow> lp_byte m p;
     if b = LP_EOF then Some None
     else do { lpAssertValidEntry m lpbytes p; Some (Some p) } }"

definition lpNext :: "mem \<Rightarrow> nat \<Rightarrow> nat option option" where
  "lpNext m p = do {
     p \<leftarrow> lpSkip m p;
     b \<leftarrow> lp_byte m p;
     if b = LP_EOF then Some None
     else do { lpbytes \<leftarrow> lpBytes m; lpAssertValidEntry m lpbytes p; Some (Some p) } }"

definition lpPrev :: "mem \<Rightarrow> nat \<Rightarrow> nat option option" where
  "lpPrev m p =
     (if p = LP_HDR_SIZE then Some None
      else if p = 0 then None
      else do {
        let p = p - 1;
        prevlen \<leftarrow> lpDecodeBacklen m p;
        let prevlen = (prevlen + lpEncodeBacklenBytes prevlen) mod 2 ^ 64;
        let p = int p - (int prevlen - 1);
        if p < 0 then None
        else do {
          lpbytes \<leftarrow> lpBytes m;
          lpAssertValidEntry m lpbytes (nat p);
          Some (Some (nat p)) } })"

definition lpFirst :: "mem \<Rightarrow> nat option option" where
  "lpFirst m = do {
     let p = LP_HDR_SIZE;
     b \<leftarrow> lp_byte m p;
     if b = LP_EOF then Some None
     else do { lpbytes \<leftarrow> lpBytes m; lpAssertValidEntry m lpbytes p; Some (Some p) } }"

definition lpLast :: "mem \<Rightarrow> nat option option" where
  "lpLast m = do {
     total \<leftarrow> lpGetTotalBytes m;
     if total = 0 then None else lpPrev m (total - 1) }"

partial_function (option) count_entries :: "mem \<Rightarrow> nat option \<Rightarrow> nat \<Rightarrow> nat option" where
  "count_entries m p count = (case p of
       None \<Rightarrow> Some count
     | Some q \<Rightarrow> do { p' \<leftarrow> lpNext m q; count_entries m p' ((count + 1) mod 2 ^ 32) })"

definition lpLength :: "mem \<Rightarrow> (nat \<times> mem) option" where
  "lpLength m = do {
     numele \<leftarrow> lpGetNumElements m;
     if numele \<noteq> LP_HDR_NUMELE_UNKNOWN then Some (numele, m)
     else do {
       p \<leftarrow> lpFirst m;
       count \<leftarrow> count_entries m p 0;
       m \<leftarrow> (if count < LP_HDR_NUMELE_UNKNOWN then lpSetNumElements m (int count) else Some m);
       Some (count, m) } }"


section \<open>Reading entries\<close>

text \<open>An element is a string inside the listpack (pointer and length), an integer, or the integer printed
  into the buffer of the caller.\<close>

datatype lp_got = LpStr nat nat | LpInt int | LpBuf mem nat

definition int_bytes :: "mem \<Rightarrow> nat \<Rightarrow> nat \<Rightarrow> int option" where
  "int_bytes m p n = map_option le_uint (mem_read m (p + 1) n)"

text \<open>Two's complement: the three steps at the end of \<^verbatim>\<open>lpGetWithSize\<close> and \<^verbatim>\<open>lpGetWithBuf\<close>.\<close>

definition lp_signed :: "int \<Rightarrow> int \<Rightarrow> int \<Rightarrow> int" where
  "lp_signed uval negstart negmax =
     (if uval \<ge> negstart then - wrap_s 64 (wrap_u 64 (negmax - uval)) - 1 else wrap_s 64 uval)"

definition int_result :: "mem option \<Rightarrow> int \<Rightarrow> lp_got option" where
  "int_result intbuf val = (case intbuf of
       None \<Rightarrow> Some (LpInt val)
     | Some buf \<Rightarrow> do { (buf, n) \<leftarrow> ll2string buf val; Some (LpBuf buf n) })"

text \<open>The second result is \<^verbatim>\<open>*entry_size\<close>, which an unknown encoding leaves as it was.\<close>

definition lpGetWithSize :: "mem \<Rightarrow> nat \<Rightarrow> mem option \<Rightarrow> (lp_got \<times> nat option) option" where
  "lpGetWithSize m p intbuf = do {
     b \<leftarrow> lp_byte m p;
     let res = (\<lambda>uval negstart negmax sz. do {
       v \<leftarrow> int_result intbuf (lp_signed uval negstart negmax); Some (v, sz) });
     if IS_7BIT_UINT b then res (uint (b AND 0x7F)) (int UINT64_MAX) 0 (Some 2)
     else if IS_6BIT_STR b then do {
       n \<leftarrow> str_len_6 m p; Some (LpStr (p + 1) n, Some (1 + n + lpEncodeBacklenBytes (n + 1))) }
     else if IS_13BIT_INT b then do {
       c \<leftarrow> lp_byte m (p + 1); res (256 * uint (b AND 0x1F) + uint c) (2 ^ 12) 8191 (Some 3) }
     else if IS_16BIT_INT b then do { u \<leftarrow> int_bytes m p 2; res u (2 ^ 15) (2 ^ 16 - 1) (Some 4) }
     else if IS_24BIT_INT b then do { u \<leftarrow> int_bytes m p 3; res u (2 ^ 23) (2 ^ 24 - 1) (Some 5) }
     else if IS_32BIT_INT b then do { u \<leftarrow> int_bytes m p 4; res u (2 ^ 31) (2 ^ 32 - 1) (Some 6) }
     else if IS_64BIT_INT b then do { u \<leftarrow> int_bytes m p 8; res u (2 ^ 63) (2 ^ 64 - 1) (Some 10) }
     else if IS_12BIT_STR b then do {
       n \<leftarrow> str_len_12 m p; Some (LpStr (p + 2) n, Some (2 + n + lpEncodeBacklenBytes (n + 2))) }
     else if IS_32BIT_STR b then do {
       n \<leftarrow> str_len_32 m p; Some (LpStr (p + 5) n, Some (5 + n + lpEncodeBacklenBytes (n + 5))) }
     else res (12345678900000000 + uint b) (int UINT64_MAX) 0 None }"

definition lpGetWithBuf :: "mem \<Rightarrow> nat \<Rightarrow> mem option \<Rightarrow> lp_got option" where
  "lpGetWithBuf m p intbuf = do {
     b \<leftarrow> lp_byte m p;
     let res = (\<lambda>uval negstart negmax. int_result intbuf (lp_signed uval negstart negmax));
     if IS_6BIT_STR b then do { n \<leftarrow> str_len_6 m p; Some (LpStr (p + 1) n) }
     else if IS_12BIT_STR b then do { n \<leftarrow> str_len_12 m p; Some (LpStr (p + 2) n) }
     else if IS_32BIT_STR b then do { n \<leftarrow> str_len_32 m p; Some (LpStr (p + 5) n) }
     else if IS_7BIT_UINT b then res (uint (b AND 0x7F)) (int UINT64_MAX) 0
     else if IS_13BIT_INT b then do {
       c \<leftarrow> lp_byte m (p + 1); res (256 * uint (b AND 0x1F) + uint c) (2 ^ 12) 8191 }
     else if IS_16BIT_INT b then do { u \<leftarrow> int_bytes m p 2; res u (2 ^ 15) (2 ^ 16 - 1) }
     else if IS_24BIT_INT b then do { u \<leftarrow> int_bytes m p 3; res u (2 ^ 23) (2 ^ 24 - 1) }
     else if IS_32BIT_INT b then do { u \<leftarrow> int_bytes m p 4; res u (2 ^ 31) (2 ^ 32 - 1) }
     else if IS_64BIT_INT b then do { u \<leftarrow> int_bytes m p 8; res u (2 ^ 63) (2 ^ 64 - 1) }
     else res (12345678900000000 + uint b) (int UINT64_MAX) 0 }"

definition lpGet :: "mem \<Rightarrow> nat \<Rightarrow> mem option \<Rightarrow> lp_got option" where
  "lpGet m p intbuf = lpGetWithBuf m p intbuf"

text \<open>\<^verbatim>\<open>lpGetValue\<close>: the string pointer with its length, or the integer.\<close>

definition lpGetValue :: "mem \<Rightarrow> nat \<Rightarrow> ((nat \<times> nat) + int) option" where
  "lpGetValue m p = do {
     v \<leftarrow> lpGet m p None;
     case v of LpStr q n \<Rightarrow> Some (Inl (q, n)) | LpInt i \<Rightarrow> Some (Inr i) | LpBuf _ _ \<Rightarrow> None }"

definition lpGetIntegerValue :: "mem \<Rightarrow> nat \<Rightarrow> int option option" where
  "lpGetIntegerValue m p = do {
     v \<leftarrow> lpGet m p None;
     case v of LpInt i \<Rightarrow> Some (Some i) | _ \<Rightarrow> Some None }"

section \<open>Searching\<close>

text \<open>The comparator has a state of its own, \<^verbatim>\<open>user\<close>, and says whether the entry is the one.\<close>

type_synonym 'u lp_cmp = "'u \<Rightarrow> lp_got \<Rightarrow> (bool \<times> 'u) option"

partial_function (option) find_loop :: "mem \<Rightarrow> nat \<Rightarrow> 'u lp_cmp \<Rightarrow> nat \<Rightarrow> nat option \<Rightarrow> nat \<Rightarrow> nat \<Rightarrow> 'u \<Rightarrow>
    nat option option" where
  "find_loop m lp_bytes cmp skip p skipcnt entry_size user = (case p of
       None \<Rightarrow> Some None
     | Some p \<Rightarrow> do {
         r \<leftarrow> (if skipcnt = 0 then do {
             (v, sz) \<leftarrow> lpGetWithSize m p None;
             let entry_size = (case sz of Some n \<Rightarrow> n | None \<Rightarrow> entry_size);
             if (case v of LpStr _ _ \<Rightarrow> \<not> (p \<ge> LP_HDR_SIZE \<and> p + entry_size < lp_bytes) | _ \<Rightarrow> False) then None
             else do {
               (eq, user) \<leftarrow> cmp user v;
               if eq then Some (Inl p) else Some (Inr (p + entry_size, skip, entry_size, user)) } }
           else do { p \<leftarrow> lpSkip m p; Some (Inr (p, skipcnt - 1, entry_size, user)) });
         case r of
           Inl p \<Rightarrow> Some (Some p)
         | Inr (p, skipcnt, entry_size, user) \<Rightarrow> do {
             (if p + 8 \<ge> lp_bytes then lpAssertValidEntry m lp_bytes p
              else if p \<ge> LP_HDR_SIZE \<and> p < lp_bytes then Some () else None);
             b \<leftarrow> lp_byte m p;
             if b = LP_EOF then Some None
             else find_loop m lp_bytes cmp skip (Some p) skipcnt entry_size user } })"

definition lpFindCbInternal :: "mem \<Rightarrow> nat option \<Rightarrow> 'u \<Rightarrow> 'u lp_cmp \<Rightarrow> nat \<Rightarrow> nat option option" where
  "lpFindCbInternal m p user cmp skip = do {
     lp_bytes \<leftarrow> lpBytes m;
     p \<leftarrow> (case p of None \<Rightarrow> lpFirst m | Some q \<Rightarrow> Some (Some q));
     find_loop m lp_bytes cmp skip p 0 123456789 user }"

definition lpFindCb :: "mem \<Rightarrow> nat option \<Rightarrow> 'u \<Rightarrow> 'u lp_cmp \<Rightarrow> nat \<Rightarrow> nat option option" where
  "lpFindCb m p user cmp skip = lpFindCbInternal m p user cmp skip"

record lpFindArg =
  arg_s :: bytes
  vencoding :: nat
  vll :: int

definition lpFindCmp :: "mem \<Rightarrow> lpFindArg lp_cmp" where
  "lpFindCmp m arg v = (case v of
       LpStr q n \<Rightarrow>
         if n = length (arg_s arg) then do { bs \<leftarrow> mem_read m q n; Some (arg_s arg = bs, arg) } else Some (False, arg)
     | LpInt i \<Rightarrow>
         let arg =
           (if vencoding arg = 0 then
              if length (arg_s arg) \<ge> 32 \<or> arg_s arg = [] then arg\<lparr>vencoding := 255\<rparr>
              else (case lpStringToInt64 (arg_s arg) of
                  None \<Rightarrow> arg\<lparr>vencoding := 255\<rparr>
                | Some w \<Rightarrow> arg\<lparr>vll := w, vencoding := 1\<rparr>)
            else arg) in
         Some (vencoding arg \<noteq> 255 \<and> i = vll arg, arg)
     | LpBuf _ _ \<Rightarrow> None)"

definition lpFind :: "mem \<Rightarrow> nat option \<Rightarrow> bytes \<Rightarrow> nat \<Rightarrow> nat option option" where
  "lpFind m p s skip = lpFindCbInternal m p \<lparr>arg_s = s, vencoding = 0, vll = 0\<rparr> (lpFindCmp m) skip"

text \<open>The cache of \<^verbatim>\<open>lpCompare\<close>, \<^verbatim>\<open>cached_longval\<close> and \<^verbatim>\<open>cached_valid\<close>, is passed by reference or absent.\<close>

definition lpCompare :: "mem \<Rightarrow> nat \<Rightarrow> bytes \<Rightarrow> (int \<times> int) option \<Rightarrow> (bool \<times> (int \<times> int) option) option" where
  "lpCompare m p s cached = do {
     b \<leftarrow> lp_byte m p;
     if b = LP_EOF then Some (False, cached)
     else do {
       v \<leftarrow> lpGet m p None;
       case v of
         LpStr q n \<Rightarrow> if length s = n then do { bs \<leftarrow> mem_read m q n; Some (bs = s, cached) } else Some (False, cached)
       | LpInt i \<Rightarrow> (case cached of
             Some (longval, valid) \<Rightarrow>
               let (longval, valid) =
                 (if valid = 0 then
                    (case lpStringToInt64 s of Some w \<Rightarrow> (w, 1) | None \<Rightarrow> (longval, -1))
                  else (longval, valid)) in
               Some (valid = 1 \<and> i = longval, Some (longval, valid))
           | None \<Rightarrow> Some (case lpStringToInt64 s of None \<Rightarrow> False | Some sval \<Rightarrow> i = sval, None))
       | LpBuf _ _ \<Rightarrow> None } }"

partial_function (option) seek_forward :: "mem \<Rightarrow> int \<Rightarrow> nat option \<Rightarrow> nat option option" where
  "seek_forward m index ele = (case ele of
       Some p \<Rightarrow> if index > 0 then do { ele \<leftarrow> lpNext m p; seek_forward m (index - 1) ele } else Some ele
     | None \<Rightarrow> Some None)"

partial_function (option) seek_backward :: "mem \<Rightarrow> int \<Rightarrow> nat option \<Rightarrow> nat option option" where
  "seek_backward m index ele = (case ele of
       Some p \<Rightarrow> if index < -1 then do { ele \<leftarrow> lpPrev m p; seek_backward m (index + 1) ele } else Some ele
     | None \<Rightarrow> Some None)"

definition lpSeek :: "mem \<Rightarrow> int \<Rightarrow> nat option option" where
  "lpSeek m index = do {
     numele \<leftarrow> lpGetNumElements m;
     let numele = int numele;
     let known = (numele \<noteq> int LP_HDR_NUMELE_UNKNOWN);
     let index = (if known \<and> index < 0 then numele + index else index);
     if known \<and> index < 0 then Some None
     else if known \<and> index \<ge> numele then Some None
     else
       let forward = (if known then \<not> index > numele div 2 else \<not> index < 0);
           index = (if known \<and> \<not> forward then index - numele else index) in
       if forward then do { ele \<leftarrow> lpFirst m; seek_forward m index ele }
       else do { ele \<leftarrow> lpLast m; seek_backward m index ele } }"


section \<open>Allocation\<close>

text \<open>\<^verbatim>\<open>lp_realloc\<close> keeps the first \<open>n\<close> bytes. Running out of memory ends the process in \<^verbatim>\<open>zmalloc.c\<close>, so there is no
  null result.\<close>

definition lp_realloc :: "(nat \<Rightarrow> nat) \<Rightarrow> mem \<Rightarrow> nat \<Rightarrow> mem" where
  "lp_realloc usable m n = mem_realloc (take n m) (usable n)"

definition lpNew :: "(nat \<Rightarrow> nat) \<Rightarrow> nat \<Rightarrow> mem option" where
  "lpNew usable capacity = do {
     let m = replicate (usable (if capacity > LP_HDR_SIZE + 1 then capacity else LP_HDR_SIZE + 1)) None;
     m \<leftarrow> lpSetTotalBytes m (LP_HDR_SIZE + 1);
     m \<leftarrow> lpSetNumElements m 0;
     mem_write m LP_HDR_SIZE [LP_EOF] }"

definition lpShrinkToFit :: "(nat \<Rightarrow> nat) \<Rightarrow> mem \<Rightarrow> mem option" where
  "lpShrinkToFit usable m = do {
     sz \<leftarrow> lpGetTotalBytes m;
     Some (if sz < length m then lp_realloc usable m sz else m) }"

definition lpDup :: "(nat \<Rightarrow> nat) \<Rightarrow> mem \<Rightarrow> mem option" where
  "lpDup usable m = do {
     lpbytes \<leftarrow> lpBytes m;
     bs \<leftarrow> mem_read m 0 lpbytes;
     mem_write (replicate (usable lpbytes) None) 0 bs }"

section \<open>Inserting, replacing and deleting\<close>

datatype lp_where = LP_BEFORE | LP_AFTER | LP_REPLACE

text \<open>The element that \<^verbatim>\<open>lpInsert\<close> gets: \<^verbatim>\<open>elestr\<close>, \<^verbatim>\<open>eleint\<close> (an encoded integer), or neither, to delete.\<close>

datatype lp_ele = EleStr bytes | EleInt bytes | EleNone

text \<open>The bytes to write and \<^verbatim>\<open>enclen\<close>.\<close>

definition ele_encoding :: "lp_ele \<Rightarrow> bytes \<times> nat" where
  "ele_encoding ele = (case ele of
       EleStr s \<Rightarrow> (case lpEncodeGetType s of
           (Some intenc, enclen) \<Rightarrow> (intenc, enclen)
         | (None, enclen) \<Rightarrow> (lpEncodeString s, enclen))
     | EleInt intenc \<Rightarrow> (intenc, length intenc)
     | EleNone \<Rightarrow> ([], 0))"

text \<open>Make room for \<open>n\<close> bytes in place of the \<open>replaced\<close> bytes at \<open>poff\<close>.\<close>

definition lp_relocate :: "(nat \<Rightarrow> nat) \<Rightarrow> mem \<Rightarrow> nat \<Rightarrow> nat \<Rightarrow> nat \<Rightarrow> nat \<Rightarrow> nat \<Rightarrow> mem option" where
  "lp_relocate usable m poff n replaced old_bytes new_bytes = do {
     let m = (if new_bytes > old_bytes \<and> new_bytes > length m then lp_realloc usable m new_bytes else m);
     m \<leftarrow> mem_move m (poff + n) (poff + replaced) (old_bytes - poff - replaced);
     Some (if new_bytes < old_bytes then lp_realloc usable m new_bytes else m) }"

definition lp_count :: "mem \<Rightarrow> int \<Rightarrow> mem option" where
  "lp_count m diff = do {
     num \<leftarrow> lpGetNumElements m;
     if num \<noteq> LP_HDR_NUMELE_UNKNOWN then lpSetNumElements m (int num + diff) else Some m }"

text \<open>The result \<open>Some None\<close> is the null pointer of a listpack that would be too large; otherwise it is the
  new listpack and \<^verbatim>\<open>*newp\<close>.\<close>

definition lpInsert :: "(nat \<Rightarrow> nat) \<Rightarrow> mem \<Rightarrow> lp_ele \<Rightarrow> nat \<Rightarrow> lp_where \<Rightarrow> (mem \<times> nat option) option option" where
  "lpInsert usable m ele p wh = do {
     let delete = (ele = EleNone);
     let wh = (if delete then LP_REPLACE else wh);
     (p, wh) \<leftarrow> (if wh = LP_AFTER then do {
         q \<leftarrow> lpSkip m p;
         total \<leftarrow> lpGetTotalBytes m;
         if q \<ge> LP_HDR_SIZE \<and> q < total then Some (q, LP_BEFORE) else None }
       else Some (p, wh));
     let poff = p;
     let (entry, enclen) = ele_encoding ele;
     let backlen = (if delete then [] else lpEncodeBacklen enclen);
     let backlen_size = length backlen;
     old_listpack_bytes \<leftarrow> lpGetTotalBytes m;
     replaced_len \<leftarrow> (if wh = LP_REPLACE then do {
         n \<leftarrow> lpCurrentEncodedSizeUnsafe m p;
         let n = (n + lpEncodeBacklenBytes n) mod 2 ^ 32;
         if p \<ge> LP_HDR_SIZE \<and> p + n < old_listpack_bytes then Some n else None }
       else Some 0);
     let new_listpack_bytes = old_listpack_bytes + enclen + backlen_size - replaced_len;
     if new_listpack_bytes > UINT32_MAX then Some None
     else do {
       m \<leftarrow> lp_relocate usable m poff (enclen + backlen_size) replaced_len old_listpack_bytes new_listpack_bytes;
       newp \<leftarrow> (if delete then do { b \<leftarrow> lp_byte m poff; Some (if b = LP_EOF then None else Some poff) }
                else Some (Some poff));
       m \<leftarrow> (if delete then Some m
             else do { m \<leftarrow> mem_write m poff entry; mem_write m (poff + enclen) backlen });
       m \<leftarrow> (if wh \<noteq> LP_REPLACE \<or> delete then lp_count m (if delete then -1 else 1) else Some m);
       m \<leftarrow> lpSetTotalBytes m new_listpack_bytes;
       Some (Some (m, newp)) } }"

definition lpInsertString :: "(nat \<Rightarrow> nat) \<Rightarrow> mem \<Rightarrow> bytes \<Rightarrow> nat \<Rightarrow> lp_where \<Rightarrow> (mem \<times> nat option) option option" where
  "lpInsertString usable m s p wh = lpInsert usable m (EleStr s) p wh"

definition lpInsertInteger :: "(nat \<Rightarrow> nat) \<Rightarrow> mem \<Rightarrow> int \<Rightarrow> nat \<Rightarrow> lp_where \<Rightarrow> (mem \<times> nat option) option option" where
  "lpInsertInteger usable m lval p wh = lpInsert usable m (EleInt (lpEncodeIntegerGetType lval)) p wh"

definition lpAppend :: "(nat \<Rightarrow> nat) \<Rightarrow> mem \<Rightarrow> bytes \<Rightarrow> mem option option" where
  "lpAppend usable m s = do {
     listpack_bytes \<leftarrow> lpGetTotalBytes m;
     r \<leftarrow> lpInsert usable m (EleStr s) (listpack_bytes - 1) LP_BEFORE;
     Some (map_option fst r) }"

definition lpAppendInteger :: "(nat \<Rightarrow> nat) \<Rightarrow> mem \<Rightarrow> int \<Rightarrow> mem option option" where
  "lpAppendInteger usable m lval = do {
     listpack_bytes \<leftarrow> lpGetTotalBytes m;
     r \<leftarrow> lpInsertInteger usable m lval (listpack_bytes - 1) LP_BEFORE;
     Some (map_option fst r) }"

definition lpPrepend :: "(nat \<Rightarrow> nat) \<Rightarrow> mem \<Rightarrow> bytes \<Rightarrow> mem option option" where
  "lpPrepend usable m s = do {
     p \<leftarrow> lpFirst m;
     case p of
       None \<Rightarrow> lpAppend usable m s
     | Some p \<Rightarrow> do { r \<leftarrow> lpInsert usable m (EleStr s) p LP_BEFORE; Some (map_option fst r) } }"

definition lpPrependInteger :: "(nat \<Rightarrow> nat) \<Rightarrow> mem \<Rightarrow> int \<Rightarrow> mem option option" where
  "lpPrependInteger usable m lval = do {
     p \<leftarrow> lpFirst m;
     case p of
       None \<Rightarrow> lpAppendInteger usable m lval
     | Some p \<Rightarrow> do { r \<leftarrow> lpInsertInteger usable m lval p LP_BEFORE; Some (map_option fst r) } }"

definition lpReplace :: "(nat \<Rightarrow> nat) \<Rightarrow> mem \<Rightarrow> nat \<Rightarrow> bytes \<Rightarrow> (mem \<times> nat option) option option" where
  "lpReplace usable m p s = lpInsert usable m (EleStr s) p LP_REPLACE"

definition lpReplaceInteger :: "(nat \<Rightarrow> nat) \<Rightarrow> mem \<Rightarrow> nat \<Rightarrow> int \<Rightarrow> (mem \<times> nat option) option option" where
  "lpReplaceInteger usable m p lval = lpInsertInteger usable m lval p LP_REPLACE"

definition lpDelete :: "(nat \<Rightarrow> nat) \<Rightarrow> mem \<Rightarrow> nat \<Rightarrow> (mem \<times> nat option) option option" where
  "lpDelete usable m p = lpInsert usable m EleNone p LP_REPLACE"

section \<open>Batches\<close>

text \<open>A \<^verbatim>\<open>listpackEntry\<close> holds a string, or an integer when its \<^verbatim>\<open>sval\<close> is null.\<close>

datatype listpackEntry = SVal bytes | LVal int

text \<open>One \<^verbatim>\<open>listpackInsertEntry\<close>: the bytes of the element, \<^verbatim>\<open>enclen\<close>, and \<^verbatim>\<open>backlen\<close>.\<close>

definition batch_encode :: "listpackEntry \<Rightarrow> bytes \<times> nat \<times> bytes" where
  "batch_encode e =
     (let (entry, enclen) = ele_encoding (case e of SVal s \<Rightarrow> EleStr s | LVal v \<Rightarrow> EleInt (lpEncodeIntegerGetType v))
      in (entry, enclen, lpEncodeBacklen enclen))"

fun batch_write :: "mem \<Rightarrow> nat \<Rightarrow> nat option \<Rightarrow> (bytes \<times> nat \<times> bytes) list \<Rightarrow> (mem \<times> nat option) option" where
  "batch_write m dst newp [] = Some (m, newp)"
| "batch_write m dst newp ((entry, enclen, backlen) # enc) = do {
     let newp = Some dst;
     m \<leftarrow> mem_write m dst entry;
     let dst = dst + enclen;
     m \<leftarrow> mem_write m dst backlen;
     batch_write m (dst + length backlen) newp enc }"

definition lpBatchInsert :: "(nat \<Rightarrow> nat) \<Rightarrow> mem \<Rightarrow> nat \<Rightarrow> lp_where \<Rightarrow> listpackEntry list \<Rightarrow> (mem \<times> nat option) option option" where
  "lpBatchInsert usable m p wh entries =
     (if wh = LP_REPLACE \<or> entries = [] then None
      else do {
        p \<leftarrow> (if wh = LP_AFTER then do {
            q \<leftarrow> lpSkip m p;
            total \<leftarrow> lpGetTotalBytes m;
            if q \<ge> LP_HDR_SIZE \<and> q < total then Some q else None }
          else Some p);
        let enc = map batch_encode entries;
        let addedlen = sum_list (map (\<lambda>(_, enclen, backlen). enclen + length backlen) enc);
        old_listpack_bytes \<leftarrow> lpGetTotalBytes m;
        let new_listpack_bytes = old_listpack_bytes + addedlen;
        if new_listpack_bytes > UINT32_MAX then Some None
        else do {
          let poff = p;
          let m = (if new_listpack_bytes > old_listpack_bytes \<and> new_listpack_bytes > length m
                   then lp_realloc usable m new_listpack_bytes else m);
          m \<leftarrow> mem_move m (poff + addedlen) poff (old_listpack_bytes - poff);
          (m, newp) \<leftarrow> batch_write m poff None enc;
          num_elements \<leftarrow> lpGetNumElements m;
          m \<leftarrow> (if num_elements \<noteq> LP_HDR_NUMELE_UNKNOWN then
                  if length entries > LP_HDR_NUMELE_UNKNOWN - num_elements
                  then lpSetNumElements m (int LP_HDR_NUMELE_UNKNOWN)
                  else lpSetNumElements m (int (num_elements + length entries))
                else Some m);
          m \<leftarrow> lpSetTotalBytes m new_listpack_bytes;
          Some (Some (m, newp)) } })"

definition lpBatchAppend :: "(nat \<Rightarrow> nat) \<Rightarrow> mem \<Rightarrow> listpackEntry list \<Rightarrow> mem option option" where
  "lpBatchAppend usable m entries = do {
     listpack_bytes \<leftarrow> lpGetTotalBytes m;
     r \<leftarrow> lpBatchInsert usable m (listpack_bytes - 1) LP_BEFORE entries;
     Some (map_option fst r) }"

text \<open>The loop of \<^verbatim>\<open>lpBatchDelete\<close> over the pointers; the result is the block and \<^verbatim>\<open>dst\<close>.\<close>

fun batch_move :: "mem \<Rightarrow> nat \<Rightarrow> nat \<Rightarrow> nat list \<Rightarrow> (mem \<times> nat) option" where
  "batch_move m lp_end dst [] = Some (m, dst)"
| "batch_move m lp_end dst (skip # ps) = do {
     b \<leftarrow> lp_byte m skip;
     if b = LP_EOF then None
     else do {
       keep_start \<leftarrow> lpSkip m skip;
       let keep_end = (case ps of next # _ \<Rightarrow> next | [] \<Rightarrow> lp_end);
       if ps \<noteq> [] \<and> keep_start = keep_end then batch_move m lp_end dst ps
       else if \<not> keep_end > keep_start then None
       else do {
         let bytes_to_keep = keep_end - keep_start;
         m \<leftarrow> mem_move m dst keep_start bytes_to_keep;
         batch_move m lp_end (dst + bytes_to_keep) ps } } }"

definition lpBatchDelete :: "(nat \<Rightarrow> nat) \<Rightarrow> mem \<Rightarrow> nat list \<Rightarrow> mem option" where
  "lpBatchDelete usable m ps = (case ps of
       [] \<Rightarrow> Some m
     | dst # _ \<Rightarrow> do {
         total_bytes \<leftarrow> lpGetTotalBytes m;
         let lp_end = total_bytes;
         if lp_end = 0 then None
         else do {
           b \<leftarrow> lp_byte m (lp_end - 1);
           if b \<noteq> LP_EOF then None
           else do {
             (m, dst) \<leftarrow> batch_move m lp_end dst ps;
             let deleted_bytes = lp_end - dst;
             let total_bytes = total_bytes - deleted_bytes;
             if total_bytes = 0 then None
             else do {
               b \<leftarrow> lp_byte m (total_bytes - 1);
               if b \<noteq> LP_EOF then None
               else do {
                 m \<leftarrow> lpSetTotalBytes m total_bytes;
                 numele \<leftarrow> lpGetNumElements m;
                 m \<leftarrow> (if numele \<noteq> LP_HDR_NUMELE_UNKNOWN then lpSetNumElements m (int numele - int (length ps)) else Some m);
                 lpShrinkToFit usable m } } } } })"

section \<open>Ranges\<close>

text \<open>The loop that looks for the end of the range: the number of entries passed and the pointer.\<close>

fun range_tail :: "mem \<Rightarrow> nat \<Rightarrow> nat \<Rightarrow> nat \<Rightarrow> nat \<Rightarrow> (nat \<times> nat) option" where
  "range_tail m lpbytes 0 deleted tail = Some (deleted, tail)"
| "range_tail m lpbytes (Suc num) deleted tail = do {
     tail \<leftarrow> lpSkip m tail;
     b \<leftarrow> lp_byte m tail;
     if b = LP_EOF then Some (deleted + 1, tail)
     else do { lpAssertValidEntry m lpbytes tail; range_tail m lpbytes num (deleted + 1) tail } }"

definition lpDeleteRangeWithEntry :: "(nat \<Rightarrow> nat) \<Rightarrow> mem \<Rightarrow> nat \<Rightarrow> nat \<Rightarrow> (mem \<times> nat option) option" where
  "lpDeleteRangeWithEntry usable m p num = do {
     lpbytes \<leftarrow> lpBytes m;
     if num = 0 then Some (m, Some p)
     else do {
       (deleted, tail) \<leftarrow> range_tail m lpbytes num 0 p;
       m \<leftarrow> mem_move m p tail (lpbytes - 1 - tail + 1);
       m \<leftarrow> lpSetTotalBytes m (lpbytes - (tail - p));
       m \<leftarrow> lp_count m (- int deleted);
       m \<leftarrow> lpShrinkToFit usable m;
       b \<leftarrow> lp_byte m p;
       Some (m, if b = LP_EOF then None else Some p) } }"

definition lpDeleteRange :: "(nat \<Rightarrow> nat) \<Rightarrow> mem \<Rightarrow> int \<Rightarrow> nat \<Rightarrow> mem option" where
  "lpDeleteRange usable m index num = do {
     numele \<leftarrow> lpGetNumElements m;
     if num = 0 then Some m
     else do {
       p \<leftarrow> lpSeek m index;
       case p of
         None \<Rightarrow> Some m
       | Some p \<Rightarrow>
           let known = (numele \<noteq> LP_HDR_NUMELE_UNKNOWN);
               index = (if known \<and> index < 0 then int numele + index else index) in
           if known \<and> wrap_u 64 (int numele - index) \<le> int num then do {
             m \<leftarrow> mem_write m p [LP_EOF];
             m \<leftarrow> lpSetTotalBytes m (p + 1);
             m \<leftarrow> lpSetNumElements m index;
             lpShrinkToFit usable m }
           else map_option fst (lpDeleteRangeWithEntry usable m p num) } }"

section \<open>Merging\<close>

text \<open>Two different listpacks; the larger one is extended. The result is the merged listpack.\<close>

definition lpMerge :: "(nat \<Rightarrow> nat) \<Rightarrow> mem \<Rightarrow> mem \<Rightarrow> mem option" where
  "lpMerge usable first second = do {
     first_bytes \<leftarrow> lpBytes first;
     (first_len, first) \<leftarrow> lpLength first;
     second_bytes \<leftarrow> lpBytes second;
     (second_len, second) \<leftarrow> lpLength second;
     let append = (first_bytes \<ge> second_bytes);
     let (target, target_bytes, source, source_bytes) =
       (if append then (first, first_bytes, second, second_bytes) else (second, second_bytes, first, first_bytes));
     let lpbytes = first_bytes + second_bytes - LP_HDR_SIZE - 1;
     if \<not> lpbytes < UINT32_MAX then None
     else do {
       let lplength = min (first_len + second_len) 65535;
       let target = lp_realloc usable target lpbytes;
       target \<leftarrow> (if append then do {
           bs \<leftarrow> mem_read source LP_HDR_SIZE (source_bytes - LP_HDR_SIZE);
           mem_write target (target_bytes - 1) bs }
         else do {
           target \<leftarrow> mem_move target (source_bytes - 1) LP_HDR_SIZE (target_bytes - LP_HDR_SIZE);
           bs \<leftarrow> mem_read source 0 (source_bytes - 1);
           mem_write target 0 bs });
       target \<leftarrow> lpSetNumElements target (int lplength);
       lpSetTotalBytes target lpbytes } }"

section \<open>Validation\<close>

definition lpValidateFirst :: "mem \<Rightarrow> nat option option" where
  "lpValidateFirst m = do {
     let p = LP_HDR_SIZE;
     b \<leftarrow> lp_byte m p;
     if b = LP_EOF then Some None else Some (Some p) }"

text \<open>The callback for the entries may be null; it gets the entry, the number of elements of the header and user data.\<close>

type_synonym 'd listpackValidateEntryCB = "(nat \<Rightarrow> nat \<Rightarrow> 'd \<Rightarrow> (bool \<times> 'd) option) option"

definition call_cb :: "'d listpackValidateEntryCB \<Rightarrow> nat \<Rightarrow> nat \<Rightarrow> 'd \<Rightarrow> (bool \<times> 'd) option" where
  "call_cb entry_cb p numele d = (case entry_cb of None \<Rightarrow> Some (True, d) | Some cb \<Rightarrow> cb p numele d)"

partial_function (option) validate_entries :: "mem \<Rightarrow> nat \<Rightarrow> nat \<Rightarrow> 'd listpackValidateEntryCB \<Rightarrow> nat option \<Rightarrow> nat \<Rightarrow> 'd \<Rightarrow>
    ((nat option \<times> nat) option \<times> 'd) option" where
  "validate_entries m lpbytes numele entry_cb p count d = (case p of
       None \<Rightarrow> Some (Some (None, count), d)
     | Some q \<Rightarrow> do {
         b \<leftarrow> lp_byte m q;
         if b = LP_EOF then Some (Some (p, count), d)
         else do {
           (ok, p') \<leftarrow> lpValidateNext m p lpbytes;
           if \<not> ok then Some (None, d)
           else do {
             (ok, d) \<leftarrow> call_cb entry_cb q numele d;
             if \<not> ok then Some (None, d)
             else validate_entries m lpbytes numele entry_cb p' ((count + 1) mod 2 ^ 32) d } } })"

definition lpValidateIntegrity :: "mem \<Rightarrow> nat \<Rightarrow> bool \<Rightarrow> 'd listpackValidateEntryCB \<Rightarrow> 'd \<Rightarrow> (bool \<times> 'd) option" where
  "lpValidateIntegrity m sz deep entry_cb d =
     (if sz < LP_HDR_SIZE + 1 then Some (False, d)
      else do {
        lpbytes \<leftarrow> lpGetTotalBytes m;
        if lpbytes \<noteq> sz then Some (False, d)
        else do {
          b \<leftarrow> lp_byte m (sz - 1);
          if b \<noteq> LP_EOF then Some (False, d)
          else if \<not> deep then Some (True, d)
          else do {
            numele \<leftarrow> lpGetNumElements m;
            (r, d) \<leftarrow> validate_entries m lpbytes numele entry_cb (Some LP_HDR_SIZE) 0 d;
            case r of
              None \<Rightarrow> Some (False, d)
            | Some (p, count) \<Rightarrow>
                if p \<noteq> Some (sz - 1) then Some (False, d)
                else if numele \<noteq> LP_HDR_NUMELE_UNKNOWN \<and> numele \<noteq> count then Some (False, d)
                else Some (True, d) } } })"

definition lpEntrySizeInteger :: "int \<Rightarrow> nat" where
  "lpEntrySizeInteger lval =
     (let enclen = length (lpEncodeIntegerGetType lval) in enclen + lpEncodeBacklenBytes enclen)"

definition lpEstimateBytesRepeatedInteger :: "int \<Rightarrow> nat \<Rightarrow> nat" where
  "lpEstimateBytesRepeatedInteger lval rep = LP_HDR_SIZE + lpEntrySizeInteger lval * rep + 1"

end
