(* ===== verification/Listpack_Encoding.thy ===== *)
theory Listpack_Encoding
  imports Listpack
begin

text \<open>
  The codec of the listpack: the entries as the encoder writes them are read back by the accessors, and
  the lengths agree in both directions.
\<close>

section \<open>The first byte\<close>

lemma u8_less: "unat (b :: u8) < 256"
  using unsigned_less [of b, where 'a = nat] by simp

lemma and_high: "k \<le> 8 \<Longrightarrow> unat (b AND push_bit k (mask (8 - k)) :: u8) = unat b div 2 ^ k * 2 ^ k"
proof -
  assume k: "k \<le> 8"
  have "b AND push_bit k (mask (8 - k)) = push_bit k (drop_bit k b)"
    using k by (intro bit_word_eqI) (auto simp: bit_simps)
  also have "unat (push_bit k (drop_bit k b)) = unat b div 2 ^ k * 2 ^ k"
  proof -
    have "unat b div 2 ^ k * 2 ^ k < 256" using u8_less [of b] by (metis div_times_less_eq_dividend le_less_trans)
    then show ?thesis
      by (simp only: unsigned_push_bit_eq unat_drop_bit_eq) (simp add: push_bit_eq_mult drop_bit_eq_div take_bit_eq_mod)
  qed
  finally show ?thesis .
qed

lemma u8_eq_iff: "(b :: u8) = c \<longleftrightarrow> unat b = unat c"
  by (simp add: word_unat_eq_iff)

lemma byte_classes:
  shows "IS_7BIT_UINT b \<longleftrightarrow> unat b < 128" and "IS_6BIT_STR b \<longleftrightarrow> 128 \<le> unat b \<and> unat b < 192"
    and "IS_13BIT_INT b \<longleftrightarrow> 192 \<le> unat b \<and> unat b < 224" and "IS_12BIT_STR b \<longleftrightarrow> 224 \<le> unat b \<and> unat b < 240"
    and "IS_32BIT_STR b \<longleftrightarrow> unat b = 240" and "IS_16BIT_INT b \<longleftrightarrow> unat b = 241" and "IS_24BIT_INT b \<longleftrightarrow> unat b = 242"
    and "IS_32BIT_INT b \<longleftrightarrow> unat b = 243" and "IS_64BIT_INT b \<longleftrightarrow> unat b = 244" and "b = LP_EOF \<longleftrightarrow> unat b = 255"
  using and_high [of 7 b] and_high [of 6 b] and_high [of 5 b] and_high [of 4 b] u8_less [of b]
  by (auto simp: IS_7BIT_UINT_def IS_6BIT_STR_def IS_13BIT_INT_def IS_12BIT_STR_def IS_32BIT_STR_def IS_16BIT_INT_def
      IS_24BIT_INT_def IS_32BIT_INT_def IS_64BIT_INT_def u8_eq_iff mask_eq_exp_minus_1)


lemma and_low: "unat (b AND mask k :: u8) = unat b mod 2 ^ k"
  by (simp only: take_bit_eq_mask [symmetric] unsigned_take_bit_eq) (simp add: take_bit_eq_mod)

lemma low_bits:
  "unat (b AND 0x0F :: u8) = unat b mod 16" "unat (b AND 0x1F :: u8) = unat b mod 32"
  "unat (b AND 0x3F :: u8) = unat b mod 64" "unat (b AND 0x7F :: u8) = unat b mod 128"
  using and_low [of b 4] and_low [of b 5] and_low [of b 6] and_low [of b 7] by (simp_all add: mask_eq_exp_minus_1)

lemma bit_128: "(b :: u8) AND 128 = 0 \<longleftrightarrow> unat b < 128"
  using byte_classes(1) [of b] by (simp add: IS_7BIT_UINT_def)

lemma or_high:
  assumes k: "k \<le> 8" and x: "unat x < 2 ^ k" and c: "unat c mod 2 ^ k = 0"
  shows "unat (x OR c :: u8) = unat x + unat c"
proof -
  let ?hi = "push_bit k (mask (8 - k)) :: u8" and ?lo = "mask k :: u8"
  have zero: "x AND ?hi = 0" "c AND ?lo = 0"
    using and_high [OF k, of x] and_low [of c k] x c by (simp_all add: u8_eq_iff)
  have "(x OR c) AND ?hi = c AND ?hi" "(x OR c) AND ?lo = x AND ?lo"
    using zero by (simp_all add: bit.conj_disj_distrib2)
  then have "unat (x OR c) div 2 ^ k * 2 ^ k = unat c div 2 ^ k * 2 ^ k" "unat (x OR c) mod 2 ^ k = unat x mod 2 ^ k"
    using and_high [OF k, of "x OR c"] and_high [OF k, of c] and_low [of "x OR c" k] and_low [of x k] by simp_all
  then have "unat (x OR c) = unat c div 2 ^ k * 2 ^ k + unat x mod 2 ^ k"
    by (metis div_mult_mod_eq)
  also have "unat c div 2 ^ k * 2 ^ k = unat c" using c by (metis add_0_right div_mult_mod_eq)
  finally show ?thesis using x by simp
qed

lemma unat_u8: "n < 256 \<Longrightarrow> unat (word_of_nat n :: u8) = n"
  by (simp add: unat_of_nat)

lemma or_codes:
  "n < 64 \<Longrightarrow> unat (word_of_nat n OR 0x80 :: u8) = n + 128"
  "n < 32 \<Longrightarrow> unat (word_of_nat n OR 0xC0 :: u8) = n + 192"
  "n < 16 \<Longrightarrow> unat (word_of_nat n OR 0xE0 :: u8) = n + 224"
  using or_high [of 6 "word_of_nat n" "0x80"] or_high [of 5 "word_of_nat n" "0xC0"] or_high [of 4 "word_of_nat n" "0xE0"]
  by (simp_all add: unat_u8)

section \<open>Memory that holds given bytes\<close>

definition mem_has :: "mem \<Rightarrow> nat \<Rightarrow> bytes \<Rightarrow> bool" where
  "mem_has m p bs \<longleftrightarrow> mem_read m p (length bs) = Some bs"

lemma mem_has_alt: "mem_has m p bs \<longleftrightarrow> p + length bs \<le> length m \<and> take (length bs) (drop p m) = map Some bs"
proof -
  have "those xs = Some ys \<longleftrightarrow> xs = map Some ys" for xs :: "cell list" and ys
    by (induction xs arbitrary: ys) (auto split: option.splits)
  then show ?thesis by (simp add: mem_has_def mem_read_def)
qed

lemma mem_has_append: "mem_has m p (as @ bs) \<longleftrightarrow> mem_has m p as \<and> mem_has m (p + length as) bs"
  by (auto simp: mem_has_alt take_add add.assoc add.commute [of p] drop_drop dest: arg_cong [where f = "take (length as)"] arg_cong [where f = "drop (length as)"])


lemma mem_has_byte: "mem_has m p bs \<Longrightarrow> i < length bs \<Longrightarrow> lp_byte m (p + i) = Some (bs ! i)"
proof -
  assume h: "mem_has m p bs" and i: "i < length bs"
  then have "take (length bs) (drop p m) ! i = map Some bs ! i" by (simp add: mem_has_alt)
  then show ?thesis using h i by (simp add: mem_has_alt lp_byte_def)
qed

lemma mem_has_Cons: "mem_has m p (b # bs) \<longleftrightarrow> lp_byte m p = Some b \<and> mem_has m (p + 1) bs"
  using mem_has_append [of m p "[b]" bs]
  by (auto simp: mem_has_alt lp_byte_def take_Suc_conv_app_nth)

lemma mem_has_Nil [simp]: "mem_has m p [] \<longleftrightarrow> p \<le> length m"
  by (simp add: mem_has_alt)

lemma mem_has_read: "mem_has m p bs \<Longrightarrow> n = length bs \<Longrightarrow> mem_read m p n = Some bs"
  by (simp add: mem_has_def)

section \<open>Entries\<close>

datatype lp_val = LInt int | LStr bytes

text \<open>The string that an element stands for.\<close>

fun lp_str :: "lp_val \<Rightarrow> bytes" where
  "lp_str (LInt v) = ll_dec v"
| "lp_str (LStr s) = s"

fun lp_enc :: "lp_val \<Rightarrow> bytes" where
  "lp_enc (LInt v) = lpEncodeIntegerGetType v"
| "lp_enc (LStr s) = lpEncodeString s"

definition lp_entry :: "lp_val \<Rightarrow> bytes" where
  "lp_entry e = lp_enc e @ lpEncodeBacklen (length (lp_enc e))"

text \<open>Integers are always stored as integers.\<close>

fun lp_val_ok :: "lp_val \<Rightarrow> bool" where
  "lp_val_ok (LInt v) \<longleftrightarrow> in_s 64 v"
| "lp_val_ok (LStr s) \<longleftrightarrow> lpStringToInt64 s = None"

definition lp_val_of :: "bytes \<Rightarrow> lp_val" where
  "lp_val_of s = (case lpStringToInt64 s of Some v \<Rightarrow> LInt v | None \<Rightarrow> LStr s)"

lemma lpStringToInt64_eq: "lpStringToInt64 s = string2ll s"
  by (simp add: lpStringToInt64_def string2ll_def)

lemma lp_val_of_ok: "lp_val_ok (lp_val_of s)" and lp_val_of_str [simp]: "lp_str (lp_val_of s) = s"
  by (auto simp: lp_val_of_def lpStringToInt64_eq string2ll_iff split: option.splits)

lemma lp_val_of_lp_str: "lp_val_ok e \<Longrightarrow> lp_val_of (lp_str e) = e"
  using ll_dec_inj by (cases e) (auto simp: lp_val_of_def lpStringToInt64_eq string2ll_iff split: option.splits)

lemma lpEncodeGetType_eq:
  "lpEncodeGetType s = (case lp_val_of s of LInt v \<Rightarrow> (Some (lp_enc (LInt v)), length (lp_enc (LInt v)))
     | LStr _ \<Rightarrow> (None, length (lp_enc (LStr s))))"
  by (auto simp: lpEncodeGetType_def lp_val_of_def lpEncodeString_def Let_def split: option.splits)

lemma ele_encoding_str: "ele_encoding (EleStr s) = (lp_enc (lp_val_of s), length (lp_enc (lp_val_of s)))"
  by (auto simp: ele_encoding_def lpEncodeGetType_eq lp_val_of_def split: lp_val.splits option.splits)

lemma length_lpEncodeBacklen: "length (lpEncodeBacklen l) = lpEncodeBacklenBytes l"
  by (simp add: lpEncodeBacklen_def lpEncodeBacklenBytes_def)

lemma lpEncodeBacklenBytes_bounds: "0 < lpEncodeBacklenBytes l" "lpEncodeBacklenBytes l \<le> 5"
  by (simp_all add: lpEncodeBacklenBytes_def)

lemma lp_enc_not_Nil: "lp_enc e \<noteq> []"
  by (cases e) (simp_all add: lpEncodeIntegerGetType_def lpEncodeString_def Let_def)


lemma wrap_u_64: "in_s 64 v \<Longrightarrow> wrap_u 64 v = (if v < 0 then 18446744073709551616 + v else v)"
proof -
  assume "in_s 64 v"
  then have "(v + 2 ^ 64) mod 2 ^ 64 = v + 2 ^ 64" if "v < 0" using that by (intro mod_pos_pos_trivial) auto
  then show ?thesis using \<open>in_s 64 v\<close> by (auto simp: wrap_u_def)
qed

text \<open>The integer encodings: the tag byte, the number of bytes that follow it, and the unsigned number
  in them.\<close>

lemma int_enc_cases:
  assumes "in_s 64 v"
  obtains (seven) b where "0 \<le> v" "v \<le> 127" "lp_enc (LInt v) = [b]" "unat b = nat v"
    | (thirteen) w b c where "0 \<le> w" "w < 8192" "v = (if w \<ge> 4096 then w - 8192 else w)"
        "lp_enc (LInt v) = [b, c]" "unat b = 192 + nat (w div 256)" "uint c = w mod 256"
    | (multi) t k w where "(t, k) \<in> {(0xF1, 2), (0xF2, 3), (0xF3, 4), (0xF4, 8)}" "0 \<le> w" "w < 256 ^ k"
        "v = (if w \<ge> 256 ^ k div 2 then w - 256 ^ k else w)" "lp_enc (LInt v) = t # le_bytes k w"
proof -
  have big: thesis if "in_s (8 * k) v" "(t, k) \<in> {(0xF1, 2), (0xF2, 3), (0xF3, 4), (0xF4, 8 :: nat)}"
      "lp_enc (LInt v) = t # le_bytes k (if v < 0 then 256 ^ k + v else v)" for t k
    using that(2) by (intro multi [of t k "if v < 0 then 256 ^ k + v else v"] that) (use that(1) in auto)
  consider "0 \<le> v" "v \<le> 127" | "\<not> (0 \<le> v \<and> v \<le> 127)" "-4096 \<le> v" "v \<le> 4095"
    | "\<not> (-4096 \<le> v \<and> v \<le> 4095)" "-32768 \<le> v" "v \<le> 32767"
    | "\<not> (-32768 \<le> v \<and> v \<le> 32767)" "-8388608 \<le> v" "v \<le> 8388607"
    | "\<not> (-8388608 \<le> v \<and> v \<le> 8388607)" "-2147483648 \<le> v" "v \<le> 2147483647"
    | "\<not> (-2147483648 \<le> v \<and> v \<le> 2147483647)"
    by linarith
  then show thesis
  proof cases
    case 1
    then show ?thesis
      using unat_u8 [of "nat v"] by (intro seven [of "word_of_nat (nat v)"]) (simp_all add: lpEncodeIntegerGetType_def)
  next
    case 2
    let ?w = "if v < 0 then 8192 + v else v"
    have "nat (?w div 256) < 32" using 2 by auto
    then show ?thesis
      using 2 or_codes(2) [of "nat (?w div 256)"]
      by (intro thirteen [of ?w "word_of_nat (nat (?w div 256)) OR 0xC0" "word_of_int ?w"])
        (auto simp: lpEncodeIntegerGetType_def uint_word_of_int take_bit_eq_mod)
  next
    case 3
    then show ?thesis by (intro big [of 2 "0xF1"]) (auto simp: lpEncodeIntegerGetType_def)
  next
    case 4
    then show ?thesis by (intro big [of 3 "0xF2"]) (auto simp: lpEncodeIntegerGetType_def)
  next
    case 5
    then show ?thesis by (intro big [of 4 "0xF3"]) (auto simp: lpEncodeIntegerGetType_def)
  next
    case 6
    then show ?thesis
      using assms by (intro big [of 8 "0xF4"]) (auto simp: lpEncodeIntegerGetType_def wrap_u_64 Let_def)
  qed
qed

lemma str_enc_cases:
  assumes "length s < 2 ^ 32"
  obtains (six) b where "length s < 64" "lp_enc (LStr s) = b # s" "unat b = 128 + length s"
    | (twelve) b c where "64 \<le> length s" "length s < 4096" "lp_enc (LStr s) = b # c # s"
        "unat b = 224 + length s div 256" "unat c = length s mod 256"
    | (large) "4096 \<le> length s" "lp_enc (LStr s) = 0xF0 # le_bytes 4 (int (length s)) @ s"
proof -
  consider "length s < 64" | "64 \<le> length s" "length s < 4096" | "4096 \<le> length s" by linarith
  then show thesis
  proof cases
    case 1
    then show ?thesis
      using or_codes(1) [of "length s"] by (intro six [of "word_of_nat (length s) OR 0x80"]) (simp_all add: lpEncodeString_def Let_def)
  next
    case 2
    then have "length s div 256 < 16" by auto
    then show ?thesis
      using 2 or_codes(3) [of "length s div 256"]
      by (intro twelve [of "word_of_nat (length s div 256) OR 0xE0" "word_of_nat (length s)"])
        (simp_all add: lpEncodeString_def Let_def unat_of_nat)
  next
    case 3
    then show ?thesis by (intro large) (simp_all add: lpEncodeString_def Let_def)
  qed
qed

lemma tag_mods: "n < 64 \<Longrightarrow> (128 + n) mod 64 = (n::nat)" "n < 16 \<Longrightarrow> (224 + n) mod 16 = (n::nat)" "n < 32 \<Longrightarrow> (192 + n) mod 32 = (n::nat)"
  using mod_mult_self1 [of n 2 64] mod_mult_self1 [of n 14 16] mod_mult_self1 [of n 6 32] by (simp_all add: add.commute)

lemma lp_signed_eq:
  assumes "(k :: nat) \<in> {2, 3, 4, 8}" and "0 \<le> w" and "w < 256 ^ k"
  shows "lp_signed w (2 ^ (8 * k - 1)) (2 ^ (8 * k) - 1) = (if w \<ge> 256 ^ k div 2 then w - 256 ^ k else w)"
  using assms by (auto simp: lp_signed_def)


lemma length_lp_enc_int: "in_s 64 v \<Longrightarrow> length (lp_enc (LInt v)) \<le> 9"
  by (erule int_enc_cases) auto

section \<open>Reading an entry\<close>

lemmas enc_defs = lpCurrentEncodedSizeUnsafe_def lpCurrentEncodedSizeBytes_def byte_classes low_bits tag_mods
  mem_has_Cons mem_has_append str_len_6_def str_len_12_def

lemma large_len:
  assumes "mem_has m p (0xF0 # le_bytes 4 (int (length s)) @ s)" and "length s < 2 ^ 32"
  shows "str_len_32 m p = Some (length s)"
proof -
  have "mem_read m (p + 1) 4 = Some (le_bytes 4 (int (length s)))"
    using assms(1) by (intro mem_has_read) (auto simp: mem_has_Cons mem_has_append)
  moreover have "nat (int (length s) mod 4294967296) = length s" using assms(2) by (simp add: nat_mod_distrib)
  ultimately show ?thesis by (simp add: str_len_32_def)
qed

lemma enc_int_size:
  assumes ok: "in_s 64 v" and m: "mem_has m p (lp_enc (LInt v))"
  shows "lpCurrentEncodedSizeUnsafe m p = Some (length (lp_enc (LInt v))) \<and>
    (\<exists>b. lp_byte m p = Some b \<and> b \<noteq> LP_EOF \<and> lpCurrentEncodedSizeBytes b = 1)"
  using ok
proof (cases rule: int_enc_cases)
  case (seven b)
  then show ?thesis using m by (auto simp: enc_defs)
next
  case (thirteen w b c)
  then have "nat (w div 256) < 32" by auto
  then show ?thesis using m thirteen by (auto simp: enc_defs)
next
  case (multi t k w)
  then show ?thesis using m by (auto simp: enc_defs)
qed

lemma length_str_enc: "length s < length (lp_enc (LStr s))" "length (lp_enc (LStr s)) \<le> length s + 5"
  by (auto simp: lpEncodeString_def Let_def)

lemma enc_str_size:
  assumes len: "length (lp_enc (LStr s)) < 2 ^ 32" and m: "mem_has m p (lp_enc (LStr s))"
  shows "lpCurrentEncodedSizeUnsafe m p = Some (length (lp_enc (LStr s))) \<and>
    (\<exists>b. lp_byte m p = Some b \<and> b \<noteq> LP_EOF \<and> 0 < lpCurrentEncodedSizeBytes b \<and>
      lpCurrentEncodedSizeBytes b \<le> length (lp_enc (LStr s)))"
proof -
  have s: "length s < 2 ^ 32" using len length_str_enc(1) [of s] by linarith
  then show ?thesis
  proof (cases rule: str_enc_cases)
    case (six b)
    then show ?thesis using m by (auto simp: enc_defs)
  next
    case (twelve b c)
    then have "length s div 256 < 16" by auto
    then show ?thesis using m twelve by (auto simp: enc_defs)
  next
    case large
    have "str_len_32 m p = Some (length s)" using m large s by (intro large_len) simp_all
    then show ?thesis using m len large by (auto simp: enc_defs)
  qed
qed


lemma enc_size:
  assumes "lp_val_ok e" and "length (lp_enc e) < 2 ^ 32" and "mem_has m p (lp_enc e)"
  shows "lpCurrentEncodedSizeUnsafe m p = Some (length (lp_enc e))"
    and "\<exists>b. lp_byte m p = Some b \<and> b \<noteq> LP_EOF \<and> 0 < lpCurrentEncodedSizeBytes b \<and>
      lpCurrentEncodedSizeBytes b \<le> length (lp_enc e)"
proof -
  have "0 < length (lp_enc e)" using lp_enc_not_Nil [of e] by blast
  then have one: "1 \<le> length (lp_enc e)" by linarith
  show "lpCurrentEncodedSizeUnsafe m p = Some (length (lp_enc e))"
    using assms enc_int_size [of _ m p] enc_str_size [of _ m p] by (cases e) (simp_all only: lp_val_ok.simps)
  show "\<exists>b. lp_byte m p = Some b \<and> b \<noteq> LP_EOF \<and> 0 < lpCurrentEncodedSizeBytes b \<and>
      lpCurrentEncodedSizeBytes b \<le> length (lp_enc e)"
  proof (cases e)
    case (LInt v)
    then obtain b where "lp_byte m p = Some b" "b \<noteq> LP_EOF" "lpCurrentEncodedSizeBytes b = 1"
      using assms enc_int_size [of v m p] by (auto simp only: lp_val_ok.simps)
    then show ?thesis using one by simp
  next
    case (LStr s)
    then show ?thesis using enc_str_size [of s m p] assms(2,3) by blast
  qed
qed

text \<open>What \<^verbatim>\<open>lpGet\<close> says about an entry at \<open>p\<close>.\<close>

definition lp_got_val :: "lp_val \<Rightarrow> nat \<Rightarrow> lp_got" where
  "lp_got_val e p = (case e of LInt v \<Rightarrow> LpInt v
     | LStr s \<Rightarrow> LpStr (p + length (lp_enc e) - length s) (length s))"

lemma multi_bytes:
  assumes "mem_has m p (t # le_bytes k w)" and "0 \<le> w" and "w < 256 ^ k"
  shows "int_bytes m p k = Some w"
proof -
  have "mem_read m (p + 1) k = Some (le_bytes k w)"
    using assms(1) by (intro mem_has_read) (auto simp: mem_has_Cons)
  then show ?thesis using assms by (simp add: int_bytes_def)
qed

lemma signed_13: "0 \<le> w \<Longrightarrow> w < 8192 \<Longrightarrow> lp_signed w 4096 8191 = (if w \<ge> 4096 then w - 8192 else w)"
  by (simp add: lp_signed_def)

lemma signed_7: "0 \<le> w \<Longrightarrow> w \<le> 127 \<Longrightarrow> lp_signed w (int UINT64_MAX) 0 = w"
  by (simp add: lp_signed_def)

lemma uint_low: "uint (b AND 0x7F :: u8) = uint b mod 128" "uint (b AND 0x1F :: u8) = uint b mod 32"
  using arg_cong [OF low_bits(4), of int b] arg_cong [OF low_bits(2), of int b] by (simp_all add: zmod_int)

lemma entry_size: "length (lp_entry e) = length (lp_enc e) + lpEncodeBacklenBytes (length (lp_enc e))"
  by (simp add: lp_entry_def length_lpEncodeBacklen)

lemma int_result_None: "int_result None v = Some (LpInt v)"
  by (simp add: int_result_def)

text \<open>The branches of the two accessors by the first byte.\<close>

lemma get_branches:
  assumes b: "lp_byte m p = Some b"
  shows "unat b < 128 \<Longrightarrow> lpGetWithSize m p None = Some (LpInt (lp_signed (uint (b AND 0x7F)) (int UINT64_MAX) 0), Some 2) \<and>
      lpGet m p intbuf = int_result intbuf (lp_signed (uint (b AND 0x7F)) (int UINT64_MAX) 0)"
    and "192 \<le> unat b \<Longrightarrow> unat b < 224 \<Longrightarrow> lp_byte m (p + 1) = Some c \<Longrightarrow>
      lpGetWithSize m p None = Some (LpInt (lp_signed (256 * uint (b AND 0x1F) + uint c) (2 ^ 12) 8191), Some 3) \<and>
      lpGet m p intbuf = int_result intbuf (lp_signed (256 * uint (b AND 0x1F) + uint c) (2 ^ 12) 8191)"
    and "(b, k) \<in> {(0xF1, 2), (0xF2, 3), (0xF3, 4), (0xF4, 8)} \<Longrightarrow> int_bytes m p k = Some u \<Longrightarrow>
      lpGetWithSize m p None = Some (LpInt (lp_signed u (2 ^ (8 * k - 1)) (2 ^ (8 * k) - 1)), Some (k + 2)) \<and>
      lpGet m p intbuf = int_result intbuf (lp_signed u (2 ^ (8 * k - 1)) (2 ^ (8 * k) - 1))"
    and "128 \<le> unat b \<Longrightarrow> unat b < 192 \<Longrightarrow> str_len_6 m p = Some n \<Longrightarrow>
      lpGetWithSize m p None = Some (LpStr (p + 1) n, Some (1 + n + lpEncodeBacklenBytes (n + 1))) \<and>
      lpGet m p intbuf = Some (LpStr (p + 1) n)"
    and "224 \<le> unat b \<Longrightarrow> unat b < 240 \<Longrightarrow> str_len_12 m p = Some n \<Longrightarrow>
      lpGetWithSize m p None = Some (LpStr (p + 2) n, Some (2 + n + lpEncodeBacklenBytes (n + 2))) \<and>
      lpGet m p intbuf = Some (LpStr (p + 2) n)"
    and "b = 0xF0 \<Longrightarrow> str_len_32 m p = Some n \<Longrightarrow>
      lpGetWithSize m p None = Some (LpStr (p + 5) n, Some (5 + n + lpEncodeBacklenBytes (n + 5))) \<and>
      lpGet m p intbuf = Some (LpStr (p + 5) n)"
  using b by (auto simp: lpGetWithSize_def lpGet_def lpGetWithBuf_def byte_classes Let_def int_result_None)


lemma get_int:
  assumes ok: "in_s 64 v" and m: "mem_has m p (lp_enc (LInt v))"
  shows "lpGetWithSize m p None = Some (LpInt v, Some (length (lp_entry (LInt v)))) \<and> lpGet m p intbuf = int_result intbuf v"
  using ok
proof (cases rule: int_enc_cases)
  case (seven b)
  then have "uint b = v" using arg_cong [OF seven(4), of int] by simp
  then have "lp_signed (uint (b AND 0x7F)) (int UINT64_MAX) 0 = v"
    using seven signed_7 [of v] unfolding uint_low(1) by simp
  moreover have "lp_byte m p = Some b" "unat b < 128" using m seven by (simp_all add: mem_has_Cons)
  ultimately show ?thesis
    using get_branches(1) [of m p b] seven(3) by (simp add: entry_size lpEncodeBacklenBytes_def)
next
  case (thirteen w b c)
  have "uint b = 192 + w div 256" using arg_cong [OF thirteen(5), of int] thirteen(1) by simp
  moreover have "(192 + w div 256) mod 32 = w div 256"
    using mod_mult_self1 [of "w div 256" 6 32] thirteen(1,2) by (simp add: add.commute)
  ultimately have "256 * uint (b AND 0x1F) + uint c = w"
    unfolding uint_low(2) thirteen(6) by simp
  then have "lp_signed (256 * uint (b AND 0x1F) + uint c) (2 ^ 12) 8191 = v"
    using signed_13 [of w] thirteen(1-3) by simp
  moreover have "lp_byte m p = Some b" "lp_byte m (p + 1) = Some c" using m thirteen by (simp_all add: mem_has_Cons)
  moreover have "192 \<le> unat b" "unat b < 224" using thirteen by auto
  ultimately show ?thesis
    using get_branches(2) [of m p b c] thirteen(4) by (simp add: entry_size lpEncodeBacklenBytes_def)
next
  case (multi t k w)
  have "int_bytes m p k = Some w" using multi_bytes [of m p t k w] m multi by simp
  moreover have "lp_signed w (2 ^ (8 * k - 1)) (2 ^ (8 * k) - 1) = v" using lp_signed_eq [of k w] multi by auto
  moreover have "lp_byte m p = Some t" using m multi(5) by (simp add: mem_has_Cons)
  moreover have "length (lp_entry (LInt v)) = k + 2" using multi(1,5) by (auto simp: entry_size lpEncodeBacklenBytes_def)
  ultimately show ?thesis using get_branches(3) [of m p t k w] multi(1) by simp
qed

lemma get_str:
  assumes len: "length (lp_enc (LStr s)) < 2 ^ 32" and m: "mem_has m p (lp_enc (LStr s))"
  shows "lpGetWithSize m p None = Some (lp_got_val (LStr s) p, Some (length (lp_entry (LStr s)))) \<and>
    lpGet m p intbuf = Some (lp_got_val (LStr s) p)"
proof -
  have s: "length s < 2 ^ 32" using len length_str_enc(1) [of s] by linarith
  then show ?thesis
  proof (cases rule: str_enc_cases)
    case (six b)
    moreover have "lp_byte m p = Some b" using m six(2) by (simp add: mem_has_Cons)
    ultimately show ?thesis
      using get_branches(4) [of m p b "length s"] by (simp add: entry_size lp_got_val_def str_len_6_def low_bits tag_mods)
  next
    case (twelve b c)
    then have "length s div 256 < 16" by auto
    moreover have "lp_byte m p = Some b" "lp_byte m (p + 1) = Some c" using m twelve(3) by (simp_all add: mem_has_Cons)
    ultimately show ?thesis
      using get_branches(5) [of m p b "length s"] twelve
      by (simp add: entry_size lp_got_val_def str_len_12_def low_bits tag_mods)
  next
    case large
    have "str_len_32 m p = Some (length s)" using m large s by (intro large_len) simp_all
    moreover have "lp_byte m p = Some 0xF0" using m large(2) by (simp add: mem_has_Cons)
    ultimately show ?thesis
      using get_branches(6) [of m p "0xF0" "length s"] large by (simp add: entry_size lp_got_val_def add.commute)
  qed
qed

lemma got_size:
  assumes "lp_val_ok e" and "length (lp_enc e) < 2 ^ 32" and "mem_has m p (lp_enc e)"
  shows "lpGetWithSize m p None = Some (lp_got_val e p, Some (length (lp_entry e)))"
  using assms get_int [of _ m p] get_str [of _ m p] by (cases e) (simp_all only: lp_val_ok.simps lp_got_val_def lp_val.case)

text \<open>With a buffer of the documented size \<^verbatim>\<open>lpGet\<close> gives the string of every element.\<close>

lemma get_with_buf:
  assumes "in_s 64 v" and "mem_has m p (lp_enc (LInt v))" and "length buf = LP_INTBUF_SIZE"
  shows "\<exists>buf'. lpGet m p (Some buf) = Some (LpBuf buf' (length (ll_dec v))) \<and> mem_has buf' 0 (ll_dec v)"
proof -
  have "length (ll_dec v) < length buf" using length_ll_dec [OF assms(1)] assms(3) by simp
  then show ?thesis
    using get_int [OF assms(1,2)] ll2string_correct(1) [OF assms(1)]
    by (simp add: int_result_def mem_has_def mem_read_def)
qed


section \<open>The length at the end of an entry\<close>

lemma or_shift: "a < 2 ^ k \<Longrightarrow> a OR push_bit k b = a + 2 ^ k * (b :: nat)"
proof -
  assume "a < 2 ^ k"
  then have "take_bit k a = a" by (simp add: take_bit_eq_mod)
  then have "bit a n \<Longrightarrow> n < k" for n by (metis bit_take_bit_iff)
  then have "\<not> bit a n \<or> \<not> bit (push_bit k b) n" for n by (metis bit_push_bit_iff_nat not_le)
  then have "a + push_bit k b = a OR push_bit k b" by (intro disjunctive_add)
  then show ?thesis by (simp add: push_bit_eq_mult mult.commute)
qed

lemma backlen_last:
  assumes "lp_byte m p = Some b" and "unat b < 128" and "val < 2 ^ shift"
  shows "decode_backlen m p val shift = Some (val + 2 ^ shift * unat b)"
  using assms low_bits(4) [of b] bit_128 [of b] or_shift [of val shift "unat b"]
  by (subst decode_backlen.simps) (simp add: Let_def)

lemma backlen_more:
  assumes "lp_byte m (Suc p) = Some b" and "unat b = 128 + c" and "c < 128" and "val < 2 ^ shift" and "shift \<le> 21"
  shows "decode_backlen m (Suc p) val shift = decode_backlen m p (val + 2 ^ shift * c) (shift + 7)"
proof -
  have "unat (b AND 0x7F) = c" using assms(2,3) low_bits(4) [of b] by simp
  then show ?thesis
    using assms bit_128 [of b] or_shift [of val shift c] by (subst decode_backlen.simps) (simp add: Let_def)
qed

lemma backlen_byte: "unat (word_of_nat (n mod 128 + 128) :: u8) = 128 + n mod 128"
  by (subst unat_u8) (use mod_less_divisor [of 128 n] in linarith, simp)

lemma split_128: "l mod 128 + 128 * (l div 128 mod 128) + 16384 * (l div 16384 mod 128) + 2097152 * (l div 2097152 mod 128) +
    268435456 * (l div 268435456) = (l :: nat)"
proof -
  have "n mod 128 + 128 * (n div 128) = n" for n :: nat by simp
  from this [of "l div 128"] this [of "l div 16384"] this [of "l div 2097152"]
  have "l div 128 mod 128 + 128 * (l div 16384) = l div 128" "l div 16384 mod 128 + 128 * (l div 2097152) = l div 16384"
    "l div 2097152 mod 128 + 128 * (l div 268435456) = l div 2097152"
    by (simp_all add: div_mult2_eq [symmetric])
  moreover have "l mod 128 + 128 * (l div 128) = l" by (rule mod_mult_div_eq)
  ultimately show ?thesis by linarith
qed

lemma decode_encode_backlen:
  assumes m: "mem_has m q (lpEncodeBacklen l)" and l: "l < 2 ^ 35"
  shows "lpDecodeBacklen m (q + lpEncodeBacklenBytes l - 1) = Some l"
proof -
  note d = lpDecodeBacklen_def lpEncodeBacklenBytes_def backlen_more [OF _ backlen_byte] backlen_last unat_u8
  have lt: "n mod 128 < 128" for n :: nat by simp
  consider "l \<le> 127" | "127 < l" "l < 16383" | "16383 \<le> l" "l < 2097151" | "2097151 \<le> l" "l < 268435455" | "268435455 \<le> l"
    by linarith
  then show ?thesis
  proof cases
    case 1
    then show ?thesis
      using m by (simp add: lpDecodeBacklen_def lpEncodeBacklen_def lpEncodeBacklenBytes_def mem_has_Cons unat_u8 backlen_last)
  next
    case 2
    then have "lp_byte m q = Some (word_of_nat (l div 128))" "lp_byte m (Suc q) = Some (word_of_nat (l mod 128 + 128))"
      using m by (simp_all add: lpEncodeBacklen_def mem_has_Cons)
    moreover have "l div 128 < 128" using 2 by auto
    ultimately show ?thesis
      using 2 by (simp add: d)
  next
    case 3
    then have "lp_byte m q = Some (word_of_nat (l div 16384))" "lp_byte m (Suc q) = Some (word_of_nat (l div 128 mod 128 + 128))"
        "lp_byte m (Suc (Suc q)) = Some (word_of_nat (l mod 128 + 128))"
      using m by (simp_all add: lpEncodeBacklen_def mem_has_Cons)
    moreover have "l div 16384 < 128" using 3 by auto
    moreover have "l mod 128 + 128 * (l div 128 mod 128) < 2 ^ 14" using lt [of l] lt [of "l div 128"] by simp
    ultimately show ?thesis
      using 3 split_128 [of l] by (simp add: d)
  next
    case 4
    then have "lp_byte m q = Some (word_of_nat (l div 2097152))" "lp_byte m (Suc q) = Some (word_of_nat (l div 16384 mod 128 + 128))"
        "lp_byte m (Suc (Suc q)) = Some (word_of_nat (l div 128 mod 128 + 128))"
        "lp_byte m (Suc (Suc (Suc q))) = Some (word_of_nat (l mod 128 + 128))"
      using m by (simp_all add: lpEncodeBacklen_def mem_has_Cons)
    moreover have q: "3 + q = Suc (Suc (Suc q))" by simp
    moreover have "l div 2097152 < 128" using 4 by auto
    moreover have "l mod 128 + 128 * (l div 128 mod 128) < 2 ^ 14"
      "l mod 128 + 128 * (l div 128 mod 128) + 16384 * (l div 16384 mod 128) < 2 ^ 21"
      using lt [of l] lt [of "l div 128"] lt [of "l div 16384"] by simp_all
    ultimately show ?thesis
      using 4 split_128 [of l] by (simp add: d q)
  next
    case 5
    then have "lp_byte m q = Some (word_of_nat (l div 268435456))" "lp_byte m (Suc q) = Some (word_of_nat (l div 2097152 mod 128 + 128))"
        "lp_byte m (Suc (Suc q)) = Some (word_of_nat (l div 16384 mod 128 + 128))"
        "lp_byte m (Suc (Suc (Suc q))) = Some (word_of_nat (l div 128 mod 128 + 128))"
        "lp_byte m (Suc (Suc (Suc (Suc q)))) = Some (word_of_nat (l mod 128 + 128))"
      using m by (simp_all add: lpEncodeBacklen_def mem_has_Cons)
    moreover have q: "4 + q = Suc (Suc (Suc (Suc q)))" by simp
    moreover have "l div 268435456 < 128" using l by auto
    moreover have "l mod 128 + 128 * (l div 128 mod 128) < 2 ^ 14"
      "l mod 128 + 128 * (l div 128 mod 128) + 16384 * (l div 16384 mod 128) < 2 ^ 21"
      "l mod 128 + 128 * (l div 128 mod 128) + 16384 * (l div 16384 mod 128) + 2097152 * (l div 2097152 mod 128) < 2 ^ 28"
      using lt [of l] lt [of "l div 128"] lt [of "l div 16384"] lt [of "l div 2097152"] by simp_all
    ultimately show ?thesis
      using 5 split_128 [of l] by (simp add: d q)
  qed
qed


section \<open>Moving over an entry\<close>

definition entry_at :: "mem \<Rightarrow> nat \<Rightarrow> lp_val \<Rightarrow> bool" where
  "entry_at m p e \<longleftrightarrow> mem_has m p (lp_entry e) \<and> lp_val_ok e \<and> length (lp_entry e) < 2 ^ 32"

lemma entry_atD:
  assumes "entry_at m p e"
  shows "mem_has m p (lp_enc e)" and "mem_has m (p + length (lp_enc e)) (lpEncodeBacklen (length (lp_enc e)))"
    and "lp_val_ok e" and "length (lp_enc e) < 2 ^ 32"
  using assms by (auto simp: entry_at_def lp_entry_def mem_has_append)

lemma entry_skip: "entry_at m p e \<Longrightarrow> lpSkip m p = Some (p + length (lp_entry e))"
  using entry_atD [of m p e] enc_size(1) [of e m p] by (simp add: lpSkip_def entry_size)

lemma entry_first: "entry_at m p e \<Longrightarrow> \<exists>b. lp_byte m p = Some b \<and> b \<noteq> LP_EOF"
  using entry_atD [of m p e] enc_size(2) [of e m p] by blast

lemma entry_get: "entry_at m p e \<Longrightarrow> lpGetWithSize m p None = Some (lp_got_val e p, Some (length (lp_entry e)))"
  using entry_atD [of m p e] got_size [of e m p] by blast

lemma entry_back: "entry_at m p e \<Longrightarrow> lpDecodeBacklen m (p + length (lp_entry e) - 1) = Some (length (lp_enc e))"
  using entry_atD [of m p e] decode_encode_backlen [of m "p + length (lp_enc e)" "length (lp_enc e)"]
  by (simp add: entry_size add.assoc)

lemma entry_length: "0 < length (lp_enc e)" "length (lp_enc e) < length (lp_entry e)"
  using lp_enc_not_Nil [of e] lpEncodeBacklenBytes_bounds(1) [of "length (lp_enc e)"] by (auto simp: entry_size)

lemma entry_validate:
  assumes e: "entry_at m p e" and p: "LP_HDR_SIZE \<le> p" "p + length (lp_entry e) < lpbytes"
  shows "lpValidateNext m (Some p) lpbytes = Some (True, Some (p + length (lp_entry e)))"
proof -
  note d = entry_atD [OF e]
  obtain b where b: "lp_byte m p = Some b" "b \<noteq> LP_EOF" "0 < lpCurrentEncodedSizeBytes b"
      "lpCurrentEncodedSizeBytes b \<le> length (lp_enc e)"
    using enc_size(2) [OF d(3,4,1)] by blast
  have "(length (lp_enc e) + lpEncodeBacklenBytes (length (lp_enc e))) mod 2 ^ 64 = length (lp_entry e)"
    using e by (simp add: entry_at_def entry_size)
  then show ?thesis
    using b p enc_size(1) [OF d(3,4,1)] entry_back [OF e] entry_length [of e]
    by (simp add: lpValidateNext_def Let_def entry_size)
qed

lemma entry_assert:
  "entry_at m p e \<Longrightarrow> LP_HDR_SIZE \<le> p \<Longrightarrow> p + length (lp_entry e) < lpbytes \<Longrightarrow> lpAssertValidEntry m lpbytes p = Some ()"
  using entry_validate by (simp add: lpAssertValidEntry_def)

end
