(* ===== verification/Listpack_Read.thy ===== *)
theory Listpack_Read
  imports Listpack_Encoding
begin

text \<open>
  The listpack as a list of elements: the representation relation between a block of memory and the list,
  and what the operations that do not change the listpack return in terms of the list.
\<close>

section \<open>The representation\<close>

definition lp_body :: "lp_val list \<Rightarrow> bytes" where
  "lp_body es = concat (map lp_entry es)"

definition lp_len :: "lp_val list \<Rightarrow> nat" where
  "lp_len es = length (lp_body es)"

lemma lp_body_simps [simp]:
  "lp_body [] = []" "lp_body (e # es) = lp_entry e @ lp_body es" "lp_body (es @ fs) = lp_body es @ lp_body fs"
  by (simp_all add: lp_body_def)

lemma lp_len_simps [simp]:
  "lp_len [] = 0" "lp_len (e # es) = length (lp_entry e) + lp_len es" "lp_len (es @ fs) = lp_len es + lp_len fs"
  "length (lp_body es) = lp_len es"
  by (simp_all add: lp_len_def)

definition lp_num_ok :: "nat \<Rightarrow> nat \<Rightarrow> bool" where
  "lp_num_ok num n \<longleftrightarrow> num = LP_HDR_NUMELE_UNKNOWN \<or> (num = n \<and> num < LP_HDR_NUMELE_UNKNOWN)"

text \<open>The block \<open>m\<close> holds the elements \<open>es\<close>, and \<open>num\<close> is the number in the header.\<close>

definition lp_rep_num :: "mem \<Rightarrow> nat \<Rightarrow> lp_val list \<Rightarrow> bool" where
  "lp_rep_num m num es \<longleftrightarrow> lp_len es + 7 \<le> UINT32_MAX \<and> list_all lp_val_ok es \<and> lp_num_ok num (length es) \<and>
     mem_has m 0 (le_bytes 4 (int (lp_len es + 7))) \<and> mem_has m 4 (le_bytes 2 (int num)) \<and>
     mem_has m LP_HDR_SIZE (lp_body es @ [LP_EOF])"

definition lp_rep :: "mem \<Rightarrow> lp_val list \<Rightarrow> bool" where
  "lp_rep m es \<longleftrightarrow> (\<exists>num. lp_rep_num m num es)"

lemma lp_rep_bytes: "lp_rep m es \<Longrightarrow> lpGetTotalBytes m = Some (lp_len es + 7)"
proof -
  assume "lp_rep m es"
  then have s: "lp_len es + 7 \<le> UINT32_MAX" and "mem_has m 0 (le_bytes 4 (int (lp_len es + 7)))"
    by (auto simp: lp_rep_def lp_rep_num_def)
  then have "mem_read m 0 4 = Some (le_bytes 4 (int (lp_len es + 7)))" by (intro mem_has_read) simp_all
  moreover have "int (lp_len es + 7) mod 256 ^ 4 = int (lp_len es + 7)"
    using s by (intro mod_pos_pos_trivial) simp_all
  ultimately show ?thesis by (simp add: lpGetTotalBytes_def del: of_nat_add)
qed

lemma lp_rep_num_get: "lp_rep_num m num es \<Longrightarrow> lpGetNumElements m = Some num"
proof -
  assume h: "lp_rep_num m num es"
  then have "mem_read m 4 2 = Some (le_bytes 2 (int num))" by (intro mem_has_read) (simp_all add: lp_rep_num_def)
  moreover have "num \<le> 65535" using h by (auto simp: lp_rep_num_def lp_num_ok_def)
  then have "int num mod 256 ^ 2 = int num" by (intro mod_pos_pos_trivial) simp_all
  ultimately show ?thesis by (simp add: lpGetNumElements_def)
qed

lemma lp_entry_pos: "2 \<le> length (lp_entry e)"
  using entry_length [of e] by linarith

lemma lp_len_length: "2 * length es \<le> lp_len es"
  using add_mono [OF lp_entry_pos] by (induction es) auto

lemma lp_len_0: "lp_len es = 0 \<longleftrightarrow> es = []"
  using lp_len_length [of es] by auto

lemma lp_repD:
  assumes "lp_rep m (xs @ ys)"
  shows "mem_has m (6 + lp_len xs) (lp_body ys @ [LP_EOF])" and "lp_len xs + lp_len ys + 7 \<le> UINT32_MAX"
    and "list_all lp_val_ok xs" and "list_all lp_val_ok ys"
  using assms by (auto simp: lp_rep_def lp_rep_num_def mem_has_append)

lemma lp_rep_entry:
  assumes "lp_rep m (xs @ e # ys)"
  shows "entry_at m (6 + lp_len xs) e"
  using lp_repD [OF assms] by (simp add: entry_at_def mem_has_append)

lemma lp_rep_eof: "lp_rep m es \<Longrightarrow> lp_byte m (6 + lp_len es) = Some LP_EOF"
  using lp_repD [of m es "[]"] by (simp add: mem_has_Cons)

text \<open>The pointer to the first element of \<open>ys\<close> in the listpack of \<open>xs @ ys\<close>.\<close>

definition lp_ptr :: "lp_val list \<Rightarrow> lp_val list \<Rightarrow> nat option" where
  "lp_ptr xs ys = (if ys = [] then None else Some (LP_HDR_SIZE + lp_len xs))"

lemma lp_ptr_simps [simp]: "lp_ptr xs [] = None" "lp_ptr xs (y # ys) = Some (LP_HDR_SIZE + lp_len xs)"
  by (simp_all add: lp_ptr_def)

section \<open>Moving over the list\<close>

lemma lp_valid_at:
  assumes "lp_rep m (xs @ e # ys)"
  shows "lpValidateNext m (Some (6 + lp_len xs)) (lp_len (xs @ e # ys) + 7) = Some (True, Some (6 + lp_len (xs @ [e])))"
  using entry_validate [OF lp_rep_entry [OF assms], of "lp_len (xs @ e # ys) + 7"] by (simp add: add.assoc)

lemma lp_valid_eof:
  assumes "lp_rep m es"
  shows "lpValidateNext m (Some (6 + lp_len es)) (lp_len es + 7) = Some (True, None)"
  using lp_rep_eof [OF assms] by (simp add: lpValidateNext_def)

lemma lp_assert_at:
  "lp_rep m (xs @ ys) \<Longrightarrow> lpAssertValidEntry m (lp_len xs + lp_len ys + 7) (6 + lp_len xs) = Some ()"
  using lp_valid_at [of m xs "hd ys" "tl ys"] lp_valid_eof [of m xs] by (cases ys) (simp_all add: lpAssertValidEntry_def)

lemma lp_at_byte:
  assumes "lp_rep m (xs @ ys)"
  shows "\<exists>b. lp_byte m (6 + lp_len xs) = Some b \<and> (b = LP_EOF \<longleftrightarrow> ys = [])"
  using assms lp_rep_eof [of m xs] entry_first [OF lp_rep_entry, of m xs "hd ys" "tl ys"] by (cases ys) auto

lemma lpBytes_rep: "lp_rep m es \<Longrightarrow> lpBytes m = Some (lp_len es + 7)"
  by (simp add: lpBytes_def lp_rep_bytes)

lemma lpFirst_rep:
  assumes "lp_rep m es"
  shows "lpFirst m = Some (lp_ptr [] es)"
  using lp_at_byte [of m "[]" es] lp_assert_at [of m "[]" es] lpBytes_rep [of m es] assms
  by (auto simp: lpFirst_def lp_ptr_def)

lemma lpSkip_rep: "lp_rep m (xs @ e # ys) \<Longrightarrow> lpSkip m (6 + lp_len xs) = Some (6 + lp_len (xs @ [e]))"
  using entry_skip [OF lp_rep_entry] by (simp add: add.assoc)

lemma lpNext_rep:
  assumes "lp_rep m (xs @ e # ys)"
  shows "lpNext m (6 + lp_len xs) = Some (lp_ptr (xs @ [e]) ys)"
  using lpSkip_rep [OF assms] lp_at_byte [of m "xs @ [e]" ys] lp_assert_at [of m "xs @ [e]" ys] lpBytes_rep [OF assms] assms
  by (auto simp: lpNext_def lp_ptr_def add_ac)

lemma lpNextWithBytes_rep:
  assumes "lp_rep m (xs @ e # ys)"
  shows "lpNextWithBytes m (6 + lp_len xs) (lp_len (xs @ e # ys) + 7) = Some (lp_ptr (xs @ [e]) ys)"
  using lpSkip_rep [OF assms] lp_at_byte [of m "xs @ [e]" ys] lp_assert_at [of m "xs @ [e]" ys] assms
  by (auto simp: lpNextWithBytes_def lp_ptr_def add_ac)

lemma lpPrev_rep:
  assumes r: "lp_rep m (xs @ ys)"
  shows "lpPrev m (6 + lp_len xs) = Some (if xs = [] then None else Some (6 + lp_len (butlast xs)))"
proof (cases xs rule: rev_cases)
  case Nil
  then show ?thesis by (simp add: lpPrev_def)
next
  case (snoc zs e)
  note r' = r [unfolded snoc append.assoc append.simps]
  have "lpDecodeBacklen m (6 + lp_len xs - 1) = Some (length (lp_enc e))"
    using entry_back [OF lp_rep_entry [OF r']] snoc by (simp add: add.assoc)
  moreover have "(length (lp_enc e) + lpEncodeBacklenBytes (length (lp_enc e))) mod 2 ^ 64 = length (lp_entry e)"
    using lp_repD(2) [OF r'] by (simp add: entry_size)
  moreover have "lpBytes m = Some (lp_len zs + lp_len (e # ys) + 7)" using lpBytes_rep [OF r'] by simp
  moreover have "lpAssertValidEntry m (lp_len zs + lp_len (e # ys) + 7) (6 + lp_len zs) = Some ()"
    using lp_assert_at [OF r'] .
  moreover have "nat (int (6 + lp_len xs - 1) - (int (length (lp_entry e)) - 1)) = 6 + lp_len zs"
    using snoc by simp
  moreover have "\<not> int (6 + lp_len xs - 1) - (int (length (lp_entry e)) - 1) < 0" "6 + lp_len xs \<noteq> 6"
    using snoc lp_entry_pos [of e] by auto
  ultimately show ?thesis using snoc by (simp add: lpPrev_def Let_def)
qed

lemma lpLast_rep: "lp_rep m es \<Longrightarrow> lpLast m = Some (if es = [] then None else Some (6 + lp_len (butlast es)))"
  using lpPrev_rep [of m es "[]"] by (simp add: lpLast_def lp_rep_bytes add.commute)

section \<open>Counting and seeking\<close>

lemma count_entries_rep:
  "lp_rep m (xs @ ys) \<Longrightarrow> count + length ys < 2 ^ 32 \<Longrightarrow> count_entries m (lp_ptr xs ys) count = Some (count + length ys)"
proof (induction ys arbitrary: xs count)
  case Nil
  then show ?case by (simp add: count_entries.simps)
next
  case (Cons y ys)
  then show ?case
    using Cons.IH [of "xs @ [y]" "count + 1"] lpNext_rep [OF Cons.prems(1)] by (simp add: count_entries.simps [of m "Some _"])
qed


lemma lp_rep_length: "lp_rep m es \<Longrightarrow> length es < 2 ^ 32"
  using lp_repD(2) [of m es "[]"] lp_len_length [of es] by simp

text \<open>A write next to a region keeps it.\<close>

lemma mem_write_has:
  assumes "p + length bs \<le> length m"
  obtains m' where "mem_write m p bs = Some m'" "length m' = length m" "mem_has m' p bs"
    "\<And>q cs. q + length cs \<le> p \<or> p + length bs \<le> q \<Longrightarrow> mem_has m q cs \<Longrightarrow> mem_has m' q cs"
proof -
  let ?m = "take p m @ map Some bs @ drop (p + length bs) m"
  have "mem_has ?m q cs" if "q + length cs \<le> p \<or> p + length bs \<le> q" "mem_has m q cs" for q cs
    using assms that by (auto simp: mem_has_alt drop_take min_def)
  moreover have "mem_has ?m p bs" using assms by (simp add: mem_has_alt)
  ultimately show thesis using assms that [of ?m] by (simp add: mem_write_def)
qed

lemma lp_set_num:
  assumes "lp_rep_num m num es" and n: "lp_num_ok (nat (v mod 65536)) (length es)"
  obtains m' where "lpSetNumElements m v = Some m'" "lp_rep_num m' (nat (v mod 65536)) es"
proof -
  have "4 + length (le_bytes 2 v) \<le> length m" using assms(1) by (simp add: lp_rep_num_def mem_has_alt)
  then obtain m' where "mem_write m 4 (le_bytes 2 v) = Some m'" "mem_has m' 4 (le_bytes 2 v)"
      "\<And>q cs. q + length cs \<le> 4 \<or> 4 + 2 \<le> q \<Longrightarrow> mem_has m q cs \<Longrightarrow> mem_has m' q cs"
    using mem_write_has [of 4 "le_bytes 2 v" m] by (metis length_le_bytes)
  then show thesis
    using that [of m'] assms le_bytes_mod [of 2 v] by (simp add: lpSetNumElements_def lp_rep_num_def)
qed

theorem lpLength_rep:
  assumes "lp_rep m es"
  shows "\<exists>m'. lpLength m = Some (length es, m') \<and> lp_rep m' es"
proof -
  obtain num where num: "lp_rep_num m num es" using assms by (auto simp: lp_rep_def)
  show ?thesis
  proof (cases "num = LP_HDR_NUMELE_UNKNOWN")
    case False
    then show ?thesis
      using num assms lp_rep_num_get [OF num] by (auto simp: lpLength_def lp_rep_num_def lp_num_ok_def)
  next
    case True
    have c: "count_entries m (lp_ptr [] es) 0 = Some (length es)"
      using count_entries_rep [of m "[]" es 0] assms lp_rep_length [OF assms] by simp
    show ?thesis
    proof (cases "length es < 65535")
      case small: True
      then obtain m' where "lpSetNumElements m (int (length es)) = Some m'" "lp_rep_num m' (nat (int (length es) mod 65536)) es"
        using lp_set_num [OF num, of "int (length es)"] by (auto simp: lp_num_ok_def nat_mod_distrib)
      then show ?thesis
        using True small c lp_rep_num_get [OF num] lpFirst_rep [OF assms] by (auto simp: lpLength_def lp_rep_def)
    next
      case False
      then show ?thesis
        using True c lp_rep_num_get [OF num] lpFirst_rep [OF assms] assms by (auto simp: lpLength_def)
    qed
  qed
qed

lemma seek_forward_rep:
  "lp_rep m (xs @ ys) \<Longrightarrow> seek_forward m (int i) (lp_ptr xs ys) = Some (lp_ptr (xs @ take i ys) (drop i ys))"
proof (induction ys arbitrary: xs i)
  case Nil
  then show ?case by (simp add: seek_forward.simps)
next
  case (Cons y ys)
  show ?case
  proof (cases i)
    case 0
    then show ?thesis by (simp add: seek_forward.simps)
  next
    case (Suc j)
    then show ?thesis
      using Cons.IH [of "xs @ [y]" j] Cons.prems lpNext_rep [OF Cons.prems] by (simp add: seek_forward.simps [of m _ "Some _"])
  qed
qed

lemma seek_backward_rep:
  assumes "lp_rep m (xs @ ys)"
  shows "seek_backward m (- int i - 1) (if xs = [] then None else Some (6 + lp_len (butlast xs))) =
    Some (if i < length xs then Some (6 + lp_len (take (length xs - Suc i) xs)) else None)"
  using assms
proof (induction i arbitrary: xs ys)
  case 0
  then show ?case by (simp add: seek_backward.simps butlast_conv_take)
next
  case (Suc i)
  show ?case
  proof (cases xs rule: rev_cases)
    case Nil
    then show ?thesis by (simp add: seek_backward.simps)
  next
    case (snoc zs z)
    have "lpPrev m (6 + lp_len zs) = Some (if zs = [] then None else Some (6 + lp_len (butlast zs)))"
      using lpPrev_rep [of m zs "z # ys"] Suc.prems snoc by simp
    moreover have c: "- 1 - int i = - int i - 1" by simp
    moreover have "seek_backward m (- int (Suc i) - 1) (Some p) = lpPrev m p \<bind> seek_backward m (- int i - 1)" for p
      by (subst seek_backward.simps) (simp add: c)
    ultimately show ?thesis
      using Suc.IH [of zs "z # ys"] Suc.prems snoc by simp
  qed
qed

text \<open>The element that an index of \<^verbatim>\<open>lpSeek\<close> means: negative indexes count from the end.\<close>

definition seek_index :: "int \<Rightarrow> nat \<Rightarrow> nat option" where
  "seek_index index n =
     (let i = (if index < 0 then int n + index else index) in if 0 \<le> i \<and> i < int n then Some (nat i) else None)"

lemma lpSeek_rep:
  assumes r: "lp_rep m es"
  shows "lpSeek m index = Some (map_option (\<lambda>i. LP_HDR_SIZE + lp_len (take i es)) (seek_index index (length es)))"
proof -
  obtain num where num: "lp_rep_num m num es" using assms by (auto simp: lp_rep_def)
  have fwd: "seek_forward m i (lp_ptr [] es) = Some (if i < int (length es) then Some (6 + lp_len (take (nat i) es)) else None)"
    if "0 \<le> i" for i
    using seek_forward_rep [of m "[]" es "nat i"] that r by (auto simp: lp_ptr_def)
  have bwd: "seek_backward m i (if es = [] then None else Some (6 + lp_len (butlast es))) =
      Some (if - i \<le> int (length es) then Some (6 + lp_len (take (nat (int (length es) + i)) es)) else None)" if "i < 0" for i
  proof -
    have "int (length es) + i = int (length es) - int (Suc (nat (- i - 1)))" "- int (nat (- i - 1)) - 1 = i"
      using that by simp_all
    moreover from this have "nat (int (length es) + i) = length es - Suc (nat (- i - 1))"
      by linarith
    ultimately show ?thesis using seek_backward_rep [of m es "[]" "nat (- i - 1)"] r that by auto
  qed
  show ?thesis
  proof (cases "num = LP_HDR_NUMELE_UNKNOWN")
    case True
    then show ?thesis
      using lp_rep_num_get [OF num] lpFirst_rep [OF r] lpLast_rep [OF r] fwd [of index] bwd [of index]
      by (auto simp: lpSeek_def seek_index_def Let_def)
  next
    case False
    define i where "i = (if index < 0 then int (length es) + index else index)"
    have "num = length es" using num False by (auto simp: lp_rep_num_def lp_num_ok_def)
    then show ?thesis
      using False lp_rep_num_get [OF num] lpFirst_rep [OF r] lpLast_rep [OF r] fwd [of i] bwd [of "i - int (length es)"]
      by (auto simp: lpSeek_def seek_index_def Let_def i_def [symmetric])
  qed
qed


section \<open>Reading elements\<close>

lemma got_str_has: "entry_at m p (LStr s) \<Longrightarrow> mem_has m (p + length (lp_enc (LStr s)) - length s) s"
proof -
  assume "entry_at m p (LStr s)"
  then have "mem_has m p (lpEncodeString s)" using entry_atD(1) by fastforce
  then show ?thesis by (auto simp: lpEncodeString_def Let_def mem_has_Cons mem_has_append add.commute split: if_splits)
qed

lemma entry_got:
  assumes "entry_at m p e"
  shows "lpGet m p None = Some (lp_got_val e p)"
  using entry_atD [OF assms] get_int [of _ m p None] get_str [of _ m p None]
  by (cases e) (auto simp: lp_got_val_def int_result_None simp del: lp_enc.simps)

lemma lpGetIntegerValue_rep:
  "entry_at m p e \<Longrightarrow> lpGetIntegerValue m p = Some (case e of LInt v \<Rightarrow> Some v | LStr _ \<Rightarrow> None)"
  by (cases e) (simp_all add: lpGetIntegerValue_def entry_got lp_got_val_def)

lemma lpGetValue_rep:
  assumes "entry_at m p e"
  shows "case e of LInt v \<Rightarrow> lpGetValue m p = Some (Inr v)
    | LStr s \<Rightarrow> \<exists>q. lpGetValue m p = Some (Inl (q, length s)) \<and> mem_read m q (length s) = Some s"
  using assms got_str_has [of m p]
  by (cases e) (auto simp: lpGetValue_def entry_got lp_got_val_def mem_has_def simp del: lp_enc.simps)

text \<open>\<^verbatim>\<open>lpGet\<close> with a buffer gives the string of every element, wherever it is stored.\<close>

definition got_string :: "mem \<Rightarrow> lp_got \<Rightarrow> bytes option" where
  "got_string m v = (case v of LpStr q n \<Rightarrow> mem_read m q n | LpBuf buf n \<Rightarrow> mem_read buf 0 n | LpInt _ \<Rightarrow> None)"

lemma lpGet_rep:
  assumes "entry_at m p e" and "length buf = LP_INTBUF_SIZE"
  shows "(lpGet m p (Some buf) \<bind> got_string m) = Some (lp_str e)"
proof (cases e)
  case (LInt v)
  then show ?thesis
    using get_with_buf [of v m p buf] entry_atD [OF assms(1)] assms(2) by (auto simp: got_string_def mem_has_def simp del: lp_enc.simps)
next
  case (LStr s)
  then show ?thesis
    using get_str [of s m p "Some buf"] entry_atD [OF assms(1)] got_str_has [of m p s] assms(1)
    by (simp add: got_string_def lp_got_val_def mem_has_def del: lp_enc.simps)
qed

lemma lp_str_int_iff: "lp_val_ok (LInt v) \<Longrightarrow> lp_str (LInt v) = s \<longleftrightarrow> lpStringToInt64 s = Some v"
  by (auto simp: lpStringToInt64_eq string2ll_iff)

text \<open>The cache is empty, or holds the outcome of converting the string.\<close>

definition cmp_cache_ok :: "bytes \<Rightarrow> (int \<times> int) option \<Rightarrow> bool" where
  "cmp_cache_ok s cached \<longleftrightarrow> (case cached of None \<Rightarrow> True
     | Some (longval, valid) \<Rightarrow> valid = 0 \<or> valid = 1 \<and> lpStringToInt64 s = Some longval \<or> valid = -1 \<and> lpStringToInt64 s = None)"

lemma lpCompare_rep:
  assumes "entry_at m p e" and c: "cmp_cache_ok s cached"
  shows "\<exists>cached'. lpCompare m p s cached = Some (lp_str e = s, cached') \<and> cmp_cache_ok s cached'"
proof -
  obtain b where b: "lp_byte m p = Some b" "b \<noteq> LP_EOF" using entry_first [OF assms(1)] by blast
  show ?thesis
  proof (cases e)
    case (LStr t)
    then show ?thesis
      using b c entry_got [OF assms(1)] got_str_has [of m p t] assms(1) by (auto simp: lpCompare_def lp_got_val_def mem_has_def simp del: lp_enc.simps)
  next
    case (LInt v)
    then have "lp_str e = s \<longleftrightarrow> lpStringToInt64 s = Some v" using lp_str_int_iff [of v s] entry_atD(3) [OF assms(1)] by simp
    then show ?thesis
      using LInt b c entry_got [OF assms(1)]
      by (cases cached; cases "lpStringToInt64 s") (auto simp: lpCompare_def lp_got_val_def cmp_cache_ok_def Let_def)
  qed
qed

section \<open>Searching\<close>

text \<open>The index of the first element that satisfies the condition, looking at every \<open>skip + 1\<close>-th one after
  the first \<open>k\<close>.\<close>

fun lp_search :: "(lp_val \<Rightarrow> bool) \<Rightarrow> nat \<Rightarrow> nat \<Rightarrow> lp_val list \<Rightarrow> nat option" where
  "lp_search P skip k [] = None"
| "lp_search P skip 0 (e # es) = (if P e then Some 0 else map_option Suc (lp_search P skip skip es))"
| "lp_search P skip (Suc k) (e # es) = map_option Suc (lp_search P skip k es)"

text \<open>What a search relies on: the comparator decides the condition and keeps its state consistent.\<close>

locale lp_comparator =
  fixes m :: mem and cmp :: "'u lp_cmp" and inv :: "'u \<Rightarrow> bool" and P :: "lp_val \<Rightarrow> bool"
  assumes cmp_decides: "entry_at m p e \<Longrightarrow> inv u \<Longrightarrow> \<exists>u'. cmp u (lp_got_val e p) = Some (P e, u') \<and> inv u'"
begin

lemma find_step:
  assumes r: "lp_rep m (xs @ e # ys)" and i: "inv u"
  obtains sz u' where "find_loop m (lp_len (xs @ e # ys) + 7) cmp skip (Some (6 + lp_len xs)) k sz0 u =
      (if k = 0 \<and> P e then Some (Some (6 + lp_len xs))
       else if ys = [] then Some None
       else find_loop m (lp_len (xs @ e # ys) + 7) cmp skip (Some (6 + lp_len (xs @ [e]))) (if k = 0 then skip else k - 1) sz u')"
    "inv u'"
proof -
  let ?n = "lp_len (xs @ e # ys) + 7"
  obtain u' where u': "cmp u (lp_got_val e (6 + lp_len xs)) = Some (P e, u')" "inv u'"
    using cmp_decides [OF lp_rep_entry [OF r] i] by blast
  have "lpAssertValidEntry m ?n (6 + lp_len (xs @ [e])) = Some ()"
    using lp_assert_at [of m "xs @ [e]" ys] r by (simp add: add.assoc)
  moreover obtain b where "lp_byte m (6 + lp_len (xs @ [e])) = Some b" "b = LP_EOF \<longleftrightarrow> ys = []"
    using lp_at_byte [of m "xs @ [e]" ys] r by auto
  moreover note entry_get [OF lp_rep_entry [OF r]] lpSkip_rep [OF r]
  ultimately have "find_loop m ?n cmp skip (Some (6 + lp_len xs)) k sz0 u =
      (if k = 0 \<and> P e then Some (Some (6 + lp_len xs))
       else if ys = [] then Some None
       else find_loop m ?n cmp skip (Some (6 + lp_len (xs @ [e]))) (if k = 0 then skip else k - 1)
         (if k = 0 then length (lp_entry e) else sz0) (if k = 0 then u' else u))"
    using u' by (subst find_loop.simps) (auto simp: Let_def add.assoc split: lp_got.splits)
  then show thesis
    using that [of "if k = 0 then length (lp_entry e) else sz0" "if k = 0 then u' else u"] u' i by simp
qed

lemma find_loop_rep:
  assumes "lp_rep m (xs @ ys)" and "inv u"
  shows "find_loop m (lp_len (xs @ ys) + 7) cmp skip (lp_ptr xs ys) k sz u =
    Some (map_option (\<lambda>i. 6 + lp_len (xs @ take i ys)) (lp_search P skip k ys))"
  using assms
proof (induction ys arbitrary: xs k sz u)
  case Nil
  then show ?case by (simp add: find_loop.simps)
next
  case (Cons e ys)
  obtain sz' u' where step: "find_loop m (lp_len (xs @ e # ys) + 7) cmp skip (Some (6 + lp_len xs)) k sz u =
      (if k = 0 \<and> P e then Some (Some (6 + lp_len xs))
       else if ys = [] then Some None
       else find_loop m (lp_len (xs @ e # ys) + 7) cmp skip (Some (6 + lp_len (xs @ [e]))) (if k = 0 then skip else k - 1) sz' u')"
    "inv u'"
    using find_step [OF Cons.prems] by blast
  have "find_loop m (lp_len (xs @ e # ys) + 7) cmp skip (lp_ptr (xs @ [e]) ys) k' sz' u' =
      Some (map_option (\<lambda>i. 6 + lp_len (xs @ e # take i ys)) (lp_search P skip k' ys))" for k'
    using Cons.IH [of "xs @ [e]" u' k' sz'] Cons.prems(1) step(2) by simp
  then show ?case
    using step(1) by (cases k; cases ys) (auto simp: option.map_comp comp_def)
qed

lemma lpFindCb_rep:
  assumes "lp_rep m (xs @ ys)" and "inv u" and "p = lp_ptr xs ys" and "xs = [] \<or> ys \<noteq> []"
  shows "lpFindCb m p u cmp skip = Some (map_option (\<lambda>i. LP_HDR_SIZE + lp_len (xs @ take i ys)) (lp_search P skip 0 ys))"
proof -
  have "lpFirst m = Some p" if "p = None" using that assms lpFirst_rep [of m "xs @ ys"] by (auto simp: lp_ptr_def split: if_splits)
  then show ?thesis
    using assms find_loop_rep [OF assms(1,2)] lpBytes_rep [OF assms(1)]
    by (auto simp: lpFindCb_def lpFindCbInternal_def split: option.splits)
qed

end


text \<open>The comparator of \<^verbatim>\<open>lpFind\<close> converts the string once and remembers the outcome.\<close>

definition find_arg_ok :: "bytes \<Rightarrow> lpFindArg \<Rightarrow> bool" where
  "find_arg_ok s arg \<longleftrightarrow> arg_s arg = s \<and>
     (vencoding arg = 0 \<or> vencoding arg = 255 \<and> lpStringToInt64 s = None \<or> vencoding arg = 1 \<and> lpStringToInt64 s = Some (vll arg))"

interpretation find_cmp: lp_comparator m "lpFindCmp m" "find_arg_ok s" "\<lambda>e. lp_str e = s" for m s
proof unfold_locales
  fix p e u
  assume e: "entry_at m p e" and u: "find_arg_ok s u"
  have long: "lpStringToInt64 s = None" if "32 \<le> length s \<or> s = []"
    using that by (auto simp: lpStringToInt64_def)
  show "\<exists>u'. lpFindCmp m u (lp_got_val e p) = Some (lp_str e = s, u') \<and> find_arg_ok s u'"
  proof (cases e)
    case (LStr t)
    then show ?thesis
      using e u got_str_has [of m p t] by (auto simp: lpFindCmp_def lp_got_val_def mem_has_def find_arg_ok_def simp del: lp_enc.simps)
  next
    case (LInt v)
    then have "lp_str e = s \<longleftrightarrow> lpStringToInt64 s = Some v" using lp_str_int_iff [of v s] entry_atD(3) [OF e] by simp
    then show ?thesis
      using LInt u long by (auto simp: lpFindCmp_def lp_got_val_def find_arg_ok_def Let_def split: option.splits)
  qed
qed

lemma lpFind_rep:
  assumes "lp_rep m (xs @ ys)" and "p = lp_ptr xs ys" and "xs = [] \<or> ys \<noteq> []"
  shows "lpFind m p s skip =
    Some (map_option (\<lambda>i. LP_HDR_SIZE + lp_len (xs @ take i ys)) (lp_search (\<lambda>e. lp_str e = s) skip 0 ys))"
  using find_cmp.lpFindCb_rep [OF assms(1) _ assms(2,3), of s] by (simp add: lpFind_def lpFindCb_def find_arg_ok_def)

text \<open>What the search returns: the first of the elements \<open>k\<close>, \<open>k + (skip + 1)\<close>, \<open>k + 2 (skip + 1)\<close>, \<dots> that
  satisfies the condition.\<close>

definition search_hits :: "nat \<Rightarrow> nat \<Rightarrow> nat \<Rightarrow> bool" where
  "search_hits skip k i \<longleftrightarrow> (i + (skip + 1) - k) mod (skip + 1) = 0"

lemma search_hits_simps [simp]:
  "search_hits skip 0 i \<longleftrightarrow> i mod (skip + 1) = 0"
  "search_hits skip (Suc k) (Suc i) \<longleftrightarrow> search_hits skip k i"
  "search_hits skip skip i \<longleftrightarrow> Suc i mod (skip + 1) = 0"
  using mod_add_self2 [of i "skip + 1"] by (simp_all add: search_hits_def)

lemma lp_search_spec:
  "k \<le> skip \<Longrightarrow> (case lp_search P skip k es of
      Some i \<Rightarrow> i < length es \<and> search_hits skip k i \<and> P (es ! i) \<and> (\<forall>j<i. search_hits skip k j \<longrightarrow> \<not> P (es ! j))
    | None \<Rightarrow> \<forall>j<length es. search_hits skip k j \<longrightarrow> \<not> P (es ! j))"
proof (induction P skip k es rule: lp_search.induct)
  case (2 P skip e es)
  then show ?case by (auto split: option.splits simp: All_less_Suc2)
next
  case (3 P skip k e es)
  have "\<not> search_hits skip (Suc k) 0" using 3(2) by (simp add: search_hits_def)
  then show ?case using 3 by (auto split: option.splits simp: All_less_Suc2)
qed auto

section \<open>Validation\<close>

text \<open>A callback that accepts the entries one after the other; \<open>J\<close> relates the entries seen so far to the user data.\<close>

definition cb_accepts :: "'d listpackValidateEntryCB \<Rightarrow> nat \<Rightarrow> (lp_val list \<Rightarrow> 'd \<Rightarrow> bool) \<Rightarrow> lp_val list \<Rightarrow> bool" where
  "cb_accepts entry_cb numele J es \<longleftrightarrow> (\<forall>zs e ws d. es = zs @ e # ws \<longrightarrow> J zs d \<longrightarrow>
     (\<exists>d'. call_cb entry_cb (6 + lp_len zs) numele d = Some (True, d') \<and> J (zs @ [e]) d'))"

lemma cb_accepts_null: "cb_accepts None numele (\<lambda>zs d'. d' = d) es"
  by (simp add: cb_accepts_def call_cb_def)

lemma validate_entries_rep:
  assumes "lp_rep m (xs @ ys)" and "count + length ys < 2 ^ 32" and "cb_accepts entry_cb numele J (xs @ ys)" and "J xs d"
  shows "\<exists>d'. validate_entries m (lp_len (xs @ ys) + 7) numele entry_cb (Some (6 + lp_len xs)) count d =
    Some (Some (Some (6 + lp_len (xs @ ys)), count + length ys), d') \<and> J (xs @ ys) d'"
  using assms
proof (induction ys arbitrary: xs count d)
  case Nil
  then show ?case using lp_rep_eof [of m xs] by (subst validate_entries.simps) simp
next
  case (Cons e ys)
  obtain b where b: "lp_byte m (6 + lp_len xs) = Some b" "b \<noteq> LP_EOF" using lp_at_byte [OF Cons.prems(1)] by auto
  obtain d1 where d1: "call_cb entry_cb (6 + lp_len xs) numele d = Some (True, d1)" "J (xs @ [e]) d1"
    using Cons.prems(3,4) unfolding cb_accepts_def by blast
  obtain d' where d': "validate_entries m (lp_len (xs @ e # ys) + 7) numele entry_cb (Some (6 + lp_len (xs @ [e]))) (count + 1) d1 =
      Some (Some (Some (6 + lp_len (xs @ e # ys)), count + 1 + length ys), d')" "J (xs @ e # ys) d'"
    using Cons.IH [of "xs @ [e]" "count + 1" d1] Cons.prems d1(2) by auto
  then show ?case
    using b d1(1) Cons.prems(2) lp_valid_at [OF Cons.prems(1)]
    by (intro exI [of _ d']) (subst validate_entries.simps, simp add: add.assoc)
qed

lemma lpValidateIntegrity_rep:
  assumes r: "lp_rep m es" and cb: "\<And>num. cb_accepts entry_cb num J es" and d: "J [] d"
  shows "\<exists>d'. lpValidateIntegrity m (lp_len es + 7) True entry_cb d = Some (True, d') \<and> J es d'"
proof -
  obtain num where num: "lp_rep_num m num es" using r by (auto simp: lp_rep_def)
  obtain d' where "validate_entries m (lp_len es + 7) num entry_cb (Some 6) 0 d = Some (Some (Some (6 + lp_len es), length es), d')"
      "J es d'"
    using validate_entries_rep [of m "[]" es 0 entry_cb num J d] r cb d lp_rep_length [OF r] by auto
  then show ?thesis
    using lp_rep_bytes [OF r] lp_rep_eof [OF r] lp_rep_num_get [OF num] num
    by (auto simp: lpValidateIntegrity_def lp_rep_num_def lp_num_ok_def add.commute)
qed

lemma lpValidateIntegrity_shallow:
  assumes "lp_rep m es"
  shows "lpValidateIntegrity m (lp_len es + 7) False entry_cb d = Some (True, d)"
  using lp_rep_bytes [OF assms] lp_rep_eof [OF assms] by (simp add: lpValidateIntegrity_def add.commute)

lemma lpValidateIntegrity_null: "lp_rep m es \<Longrightarrow> lpValidateIntegrity m (lp_len es + 7) deep None d = Some (True, d)"
  using lpValidateIntegrity_rep [OF _ cb_accepts_null, of m es d d] lpValidateIntegrity_shallow [of m es None d] by (cases deep) auto

end
