(* ===== verification/Listpack_Update.thy ===== *)
theory Listpack_Update
  imports Listpack_Read
begin

text \<open>
  The operations that change a listpack, as operations on the list of elements: creation, insertion,
  replacement, deletion, ranges and merging. The allocator gives at least what is asked for.
\<close>

definition usable_ok :: "(nat \<Rightarrow> nat) \<Rightarrow> bool" where
  "usable_ok usable \<longleftrightarrow> (\<forall>n. n \<le> usable n)"

section \<open>Memory\<close>

lemma mem_move_has:
  assumes "mem_has m src bs" and "dst + length bs \<le> length m"
  obtains m' where "mem_move m dst src (length bs) = Some m'" "length m' = length m" "mem_has m' dst bs"
    "\<And>q cs. q + length cs \<le> dst \<or> dst + length bs \<le> q \<Longrightarrow> mem_has m q cs \<Longrightarrow> mem_has m' q cs"
proof -
  have "src + length bs \<le> length m" "take (length bs) (drop src m) = map Some bs"
    using assms(1) by (simp_all add: mem_has_alt)
  then have "mem_move m dst src (length bs) = mem_write m dst bs"
    using assms(2) by (simp add: mem_move_def mem_write_def)
  then show thesis using mem_write_has [OF assms(2)] that by metis
qed

lemma lp_realloc_has:
  assumes "mem_has m q cs" and "q + length cs \<le> n" and "usable_ok usable"
  shows "mem_has (lp_realloc usable m n) q cs"
proof -
  have "n \<le> usable n" using assms(3) by (simp add: usable_ok_def)
  then show ?thesis
    using assms(1,2) by (auto simp: lp_realloc_def mem_realloc_def mem_has_alt drop_take min_def)
qed

lemma length_lp_realloc: "usable_ok usable \<Longrightarrow> n \<le> length (lp_realloc usable m n)"
  by (auto simp: lp_realloc_def mem_realloc_def usable_ok_def min_def)

text \<open>Opening a gap of \<open>n\<close> bytes in place of a region: what precedes and what follows it is kept.\<close>

lemma lp_relocate_has:
  assumes u: "usable_ok usable" and a: "mem_has m 0 as" and t: "mem_has m (length as + r) ts"
    and old: "old = length as + r + length ts" and new: "new = length as + n + length ts"
  obtains m' where "lp_relocate usable m (length as) n r old new = Some m'" "new \<le> length m'" "mem_has m' 0 as"
    "mem_has m' (length as + n) ts"
proof -
  define m1 where "m1 = (if new > old \<and> new > length m then lp_realloc usable m new else m)"
  have a1: "mem_has m1 0 as" using a u new by (auto simp: m1_def intro!: lp_realloc_has)
  have t1: "mem_has m1 (length as + r) ts" using t u new old by (auto simp: m1_def intro!: lp_realloc_has)
  have "old \<le> length m" using t old by (simp add: mem_has_alt)
  then have len: "length as + n + length ts \<le> length m1"
    using length_lp_realloc [OF u, of new m] new by (auto simp: m1_def)
  obtain m2 where m2: "mem_move m1 (length as + n) (length as + r) (length ts) = Some m2" "length m2 = length m1"
      "mem_has m2 (length as + n) ts" "\<And>q cs. q + length cs \<le> length as + n \<Longrightarrow> mem_has m1 q cs \<Longrightarrow> mem_has m2 q cs"
    using mem_move_has [OF t1 len] by metis
  have a2: "mem_has m2 0 as" using m2(4) [of 0 as] a1 by simp
  define m3 where "m3 = (if new < old then lp_realloc usable m2 new else m2)"
  have "lp_relocate usable m (length as) n r old new = Some m3"
    using m2(1) unfolding old by (simp add: lp_relocate_def m1_def m3_def old)
  moreover have "new \<le> length m3" using len m2(2) length_lp_realloc [OF u, of new m2] new by (auto simp: m3_def)
  moreover have "mem_has m3 0 as" using a2 u new by (auto simp: m3_def intro!: lp_realloc_has)
  moreover have "mem_has m3 (length as + n) ts" using m2(3) u new by (auto simp: m3_def intro!: lp_realloc_has)
  ultimately show thesis using that by blast
qed

lemma lp_gap_write:
  assumes "mem_has m 0 as" and "mem_has m (length as + length bs) ts"
  obtains m' where "mem_write m (length as) bs = Some m'" "length m' = length m" "mem_has m' 0 (as @ bs @ ts)"
proof -
  have "length as + length bs \<le> length m" using assms(2) by (simp add: mem_has_alt)
  then obtain m' where m': "mem_write m (length as) bs = Some m'" "length m' = length m" "mem_has m' (length as) bs"
      "\<And>q cs. q + length cs \<le> length as \<or> length as + length bs \<le> q \<Longrightarrow> mem_has m q cs \<Longrightarrow> mem_has m' q cs"
    using mem_write_has by metis
  have "mem_has m' 0 as" "mem_has m' (length as + length bs) ts"
    using assms by (auto intro!: m'(4))
  with m'(1-3) show thesis using that [of m'] by (simp add: mem_has_append)
qed

section \<open>The header\<close>

text \<open>The block between two updates of the header: any numbers there, and the entries.\<close>

definition lp_block :: "mem \<Rightarrow> nat \<Rightarrow> nat \<Rightarrow> lp_val list \<Rightarrow> bool" where
  "lp_block m tot num es \<longleftrightarrow>
     mem_has m 0 (le_bytes 4 (int tot) @ le_bytes 2 (int num) @ lp_body es @ [LP_EOF])"

lemma lp_rep_num_block:
  "lp_rep_num m num es \<longleftrightarrow> lp_len es + 7 \<le> UINT32_MAX \<and> list_all lp_val_ok es \<and> lp_num_ok num (length es) \<and>
     lp_block m (lp_len es + 7) num es"
  by (auto simp: lp_rep_num_def lp_block_def mem_has_append)

lemma lp_block_num:
  assumes "lp_block m tot num es" and "num < 65536"
  shows "lpGetNumElements m = Some num"
proof -
  have "mem_read m 4 2 = Some (le_bytes 2 (int num))"
    using assms by (intro mem_has_read) (simp_all add: lp_block_def mem_has_append)
  moreover have "int num mod 256 ^ 2 = int num" using assms(2) by (intro mod_pos_pos_trivial) simp_all
  ultimately show ?thesis by (simp add: lpGetNumElements_def)
qed

lemma lp_block_set_num:
  assumes "lp_block m tot num es"
  obtains m' where "lpSetNumElements m v = Some m'" "lp_block m' tot (nat (v mod 65536)) es" "length m' = length m"
proof -
  let ?as = "le_bytes 4 (int tot)" and ?ts = "lp_body es @ [LP_EOF]"
  have "mem_has m 0 ?as" "mem_has m (length ?as + length (le_bytes 2 v)) ?ts"
    using assms by (simp_all add: lp_block_def mem_has_append)
  then obtain m' where "mem_write m (length ?as) (le_bytes 2 v) = Some m'" "length m' = length m" "mem_has m' 0 (?as @ le_bytes 2 v @ ?ts)"
    by (rule lp_gap_write)
  then show thesis using that [of m'] le_bytes_mod [of 2 v] by (simp add: lpSetNumElements_def lp_block_def)
qed

lemma lp_block_set_total:
  assumes "lp_block m tot num es"
  obtains m' where "lpSetTotalBytes m v = Some m'" "lp_block m' v num es" "length m' = length m"
proof -
  let ?ts = "le_bytes 2 (int num) @ lp_body es @ [LP_EOF]"
  have "mem_has m 0 []" "mem_has m (length ([] :: bytes) + length (le_bytes 4 (int v))) ?ts"
    using assms by (simp_all add: lp_block_def mem_has_append)
  then obtain m' where "mem_write m (length ([] :: bytes)) (le_bytes 4 (int v)) = Some m'" "length m' = length m" "mem_has m' 0 ([] @ le_bytes 4 (int v) @ ?ts)"
    by (rule lp_gap_write)
  then show thesis using that [of m'] by (simp add: lpSetTotalBytes_def lp_block_def)
qed


lemma lp_block_count:
  assumes "lp_block m tot num es" and "num < 65536"
  obtains m' where "lp_count m d = Some m'"
    "lp_block m' tot (if num = 65535 then 65535 else nat ((int num + d) mod 65536)) es"
proof (cases "num = 65535")
  case True
  then show ?thesis using that [of m] assms lp_block_num [OF assms] by (simp add: lp_count_def)
next
  case False
  obtain m' where "lpSetNumElements m (int num + d) = Some m'" "lp_block m' tot (nat ((int num + d) mod 65536)) es"
    using lp_block_set_num [OF assms(1)] by metis
  then show ?thesis using that [of m'] False lp_block_num [OF assms] by (simp add: lp_count_def)
qed

lemma lp_rep_of_block:
  assumes "lp_block m tot num es" and "lp_num_ok num (length es)" and "list_all lp_val_ok es" and "lp_len es + 7 \<le> UINT32_MAX"
  obtains m' where "lpSetTotalBytes m (lp_len es + 7) = Some m'" "lp_rep m' es" "length m' = length m"
  using lp_block_set_total [OF assms(1), of "lp_len es + 7"] assms(2-4) by (metis lp_rep_def lp_rep_num_block)

section \<open>Splicing\<close>

definition lp_head :: "nat \<Rightarrow> nat \<Rightarrow> lp_val list \<Rightarrow> bytes" where
  "lp_head tot num xs = le_bytes 4 (int tot) @ le_bytes 2 (int num) @ lp_body xs"

lemma length_lp_head [simp]: "length (lp_head tot num xs) = 6 + lp_len xs"
  by (simp add: lp_head_def)

lemma lp_block_head:
  "lp_block m tot num (xs @ ys) \<longleftrightarrow>
     mem_has m 0 (lp_head tot num xs) \<and> mem_has m (6 + lp_len xs) (lp_body ys @ [LP_EOF])"
  using mem_has_append [of m 0 "lp_head tot num xs" "lp_body ys @ [LP_EOF]"] by (simp add: lp_block_def lp_head_def)

lemma lp_splice:
  assumes u: "usable_ok usable" and b: "lp_block m tot num (xs @ rs @ ys)"
  obtains m' where "lp_relocate usable m (6 + lp_len xs) (lp_len ns) (lp_len rs) (lp_len (xs @ rs @ ys) + 7) (lp_len (xs @ ns @ ys) + 7) = Some m'"
    "mem_has m' 0 (lp_head tot num xs)" "mem_has m' (6 + lp_len xs + lp_len ns) (lp_body ys @ [LP_EOF])"
proof -
  have "mem_has m 0 (lp_head tot num xs)" "mem_has m (length (lp_head tot num xs) + lp_len rs) (lp_body ys @ [LP_EOF])"
    using b lp_block_head [of m tot num xs "rs @ ys"] by (simp_all add: mem_has_append)
  then show thesis
    using lp_relocate_has [OF u, of m "lp_head tot num xs" "lp_len rs" "lp_body ys @ [LP_EOF]" "lp_len (xs @ rs @ ys) + 7"
      "lp_len (xs @ ns @ ys) + 7" "lp_len ns"] that by (simp add: add.assoc) blast
qed

lemma mem_write_append:
  "(mem_write m p as \<bind> (\<lambda>m. mem_write m (p + length as) bs)) = mem_write m p (as @ bs)"
  by (simp add: mem_write_def add_ac)

lemma lp_splice_write:
  assumes "mem_has m 0 (lp_head tot num xs)" and "mem_has m (6 + lp_len xs + length (lp_entry e)) (lp_body ys @ [LP_EOF])"
  obtains m' where "(mem_write m (6 + lp_len xs) (lp_enc e) \<bind>
      (\<lambda>m. mem_write m (6 + lp_len xs + length (lp_enc e)) (lpEncodeBacklen (length (lp_enc e))))) = Some m'"
    "lp_block m' tot num (xs @ e # ys)"
proof -
  obtain m' where "mem_write m (6 + lp_len xs) (lp_entry e) = Some m'" "mem_has m' 0 (lp_head tot num xs @ lp_entry e @ lp_body ys @ [LP_EOF])"
    using lp_gap_write [of m "lp_head tot num xs" "lp_entry e" "lp_body ys @ [LP_EOF]"] assms by auto
  then show thesis
    using that [of m'] by (simp add: mem_write_append lp_entry_def [symmetric] lp_block_def lp_head_def)
qed

text \<open>What an update returns: the null pointer if the listpack would be too large, otherwise the new
  listpack and the pointer.\<close>

definition lp_updated :: "(mem \<times> nat option) option option \<Rightarrow> nat option \<Rightarrow> lp_val list \<Rightarrow> bool" where
  "lp_updated r p es \<longleftrightarrow>
     (if lp_len es + 7 > UINT32_MAX then r = Some None else \<exists>m'. r = Some (Some (m', p)) \<and> lp_rep m' es)"


section \<open>Insertion, replacement and deletion\<close>

text \<open>The element that the caller gives, a string or an encoded integer.\<close>

definition ele_is :: "lp_ele \<Rightarrow> lp_val \<Rightarrow> bool" where
  "ele_is ele e \<longleftrightarrow> ele \<noteq> EleNone \<and> ele_encoding ele = (lp_enc e, length (lp_enc e)) \<and> lp_val_ok e"

lemma ele_is_str: "ele_is (EleStr s) (lp_val_of s)"
  by (simp add: ele_is_def ele_encoding_str lp_val_of_ok)

lemma ele_is_int: "in_s 64 v \<Longrightarrow> ele_is (EleInt (lpEncodeIntegerGetType v)) (LInt v)"
  by (simp add: ele_is_def ele_encoding_def)

lemma lp_num_ok_update:
  assumes "lp_num_ok num n" and "int n + d = int n'" and "d \<le> 1"
  shows "lp_num_ok (if num = 65535 then 65535 else nat ((int num + d) mod 65536)) n'"
proof (cases "num = 65535")
  case False
  then have "int num + d = int n'" "n' \<le> 65535" using assms by (auto simp: lp_num_ok_def)
  then show ?thesis using False by (auto simp: lp_num_ok_def)
qed (simp add: lp_num_ok_def)

text \<open>The straight-line part of \<^verbatim>\<open>lpInsert\<close> when an element is given.\<close>

lemma lpInsert_run:
  assumes "wh \<noteq> LP_AFTER" and "ele \<noteq> EleNone" and "ele_encoding ele = (entry, enclen)" and "lpGetTotalBytes m = Some old"
    and "if wh = LP_REPLACE
      then lpCurrentEncodedSizeUnsafe m p = Some n0 \<and> (n0 + lpEncodeBacklenBytes n0) mod 2 ^ 32 = r \<and> LP_HDR_SIZE \<le> p \<and> p + r < old
      else r = 0"
    and "old + enclen + length (lpEncodeBacklen enclen) - r = new"
  shows "new > UINT32_MAX \<Longrightarrow> lpInsert usable m ele p wh = Some None"
    and "\<not> new > UINT32_MAX \<Longrightarrow> lp_relocate usable m p (enclen + length (lpEncodeBacklen enclen)) r old new = Some m1 \<Longrightarrow>
      mem_write m1 p entry = Some ma \<Longrightarrow> mem_write ma (p + enclen) (lpEncodeBacklen enclen) = Some m2 \<Longrightarrow>
      (if wh = LP_REPLACE then Some m2 else lp_count m2 1) = Some m3 \<Longrightarrow> lpSetTotalBytes m3 new = Some m4 \<Longrightarrow>
      lpInsert usable m ele p wh = Some (Some (m4, Some p))"
  using assms by (cases wh; simp add: lpInsert_def)+

lemma lpInsert_put:
  assumes u: "usable_ok usable" and r: "lp_rep m (xs @ rs @ ys)" and e: "ele_is ele e"
    and wh: "wh = LP_BEFORE \<and> rs = [] \<or> wh = LP_REPLACE \<and> rs = [d]"
  shows "lp_updated (lpInsert usable m ele (6 + lp_len xs) wh) (Some (6 + lp_len xs)) (xs @ e # ys)"
proof -
  let ?p = "6 + lp_len xs" and ?old = "lp_len (xs @ rs @ ys) + 7" and ?new = "lp_len (xs @ e # ys) + 7"
  have guard: "if wh = LP_REPLACE
      then lpCurrentEncodedSizeUnsafe m ?p = Some (length (lp_enc d)) \<and>
        (length (lp_enc d) + lpEncodeBacklenBytes (length (lp_enc d))) mod 2 ^ 32 = lp_len rs \<and> LP_HDR_SIZE \<le> ?p \<and> ?p + lp_len rs < ?old
      else lp_len rs = 0"
    using wh lp_rep_entry [of m xs d ys] r entry_atD [of m ?p d] enc_size(1) [of d m ?p] lp_repD(2) [OF r]
    by (auto simp: entry_size)
  have eq: "?old + length (lp_enc e) + length (lpEncodeBacklen (length (lp_enc e))) - lp_len rs = ?new"
    by (simp add: entry_size length_lpEncodeBacklen)
  have enc: "ele \<noteq> EleNone" "ele_encoding ele = (lp_enc e, length (lp_enc e))" "wh \<noteq> LP_AFTER" using e wh by (auto simp: ele_is_def)
  note run = lpInsert_run [OF enc(3,1,2) lp_rep_bytes [OF r] guard eq, of usable]
  show ?thesis
  proof (cases "?new > UINT32_MAX")
    case True
    then show ?thesis using run(1) by (simp add: lp_updated_def)
  next
    case False
    obtain num where num: "lp_rep_num m num (xs @ rs @ ys)" using r by (auto simp: lp_rep_def)
    then have b: "lp_block m ?old num (xs @ rs @ ys)" and n: "lp_num_ok num (length (xs @ rs @ ys))" "num < 65536"
        and ok: "list_all lp_val_ok (xs @ e # ys)"
      using e by (auto simp: lp_rep_num_block lp_num_ok_def ele_is_def)
    obtain m1 where m1: "lp_relocate usable m ?p (lp_len [e]) (lp_len rs) ?old (lp_len (xs @ [e] @ ys) + 7) = Some m1"
        "mem_has m1 0 (lp_head ?old num xs)" "mem_has m1 (?p + lp_len [e]) (lp_body ys @ [LP_EOF])"
      using lp_splice [OF u b, of "[e]"] by blast
    obtain m2 where m2: "(mem_write m1 ?p (lp_enc e) \<bind>
        (\<lambda>m. mem_write m (?p + length (lp_enc e)) (lpEncodeBacklen (length (lp_enc e))))) = Some m2" "lp_block m2 ?old num (xs @ e # ys)"
      using lp_splice_write [of m1 ?old num xs e ys] m1(2,3) by auto
    obtain m3 num' where m3: "(if wh = LP_REPLACE then Some m2 else lp_count m2 1) = Some m3" "lp_block m3 ?old num' (xs @ e # ys)"
        "lp_num_ok num' (length (xs @ e # ys))"
    proof (cases "wh = LP_REPLACE")
      case True
      then show ?thesis using that [of m2 num] m2(2) n(1) wh by simp
    next
      case False
      obtain m3 where "lp_count m2 1 = Some m3" "lp_block m3 ?old (if num = 65535 then 65535 else nat ((int num + 1) mod 65536)) (xs @ e # ys)"
        using lp_block_count [OF m2(2) n(2)] by blast
      then show ?thesis
        using that [of m3] False lp_num_ok_update [OF n(1), of 1 "length (xs @ e # ys)"] wh by simp
    qed
    have "lp_len (xs @ e # ys) + 7 \<le> UINT32_MAX" using False by linarith
    from lp_rep_of_block [OF m3(2,3) ok this] obtain m4 where m4: "lpSetTotalBytes m3 ?new = Some m4" "lp_rep m4 (xs @ e # ys)" by blast
    obtain ma where ma: "mem_write m1 ?p (lp_enc e) = Some ma"
        "mem_write ma (?p + length (lp_enc e)) (lpEncodeBacklen (length (lp_enc e))) = Some m2"
      using m2(1) by (auto simp: bind_eq_Some_conv)
    have "lpInsert usable m ele ?p wh = Some (Some (m4, Some ?p))"
      using m1(1) ma m3(1) m4(1) by (intro run(2) [OF False]) (simp_all add: entry_size length_lpEncodeBacklen)
    then show ?thesis using m4(2) False by (simp add: lp_updated_def)
  qed
qed


lemma lpInsert_before:
  "usable_ok usable \<Longrightarrow> lp_rep m (xs @ ys) \<Longrightarrow> ele_is ele e \<Longrightarrow>
    lp_updated (lpInsert usable m ele (6 + lp_len xs) LP_BEFORE) (Some (6 + lp_len xs)) (xs @ e # ys)"
  using lpInsert_put [of usable m xs "[]" ys ele e LP_BEFORE] by simp

lemma lpInsert_replace:
  "usable_ok usable \<Longrightarrow> lp_rep m (xs @ d # ys) \<Longrightarrow> ele_is ele e \<Longrightarrow>
    lp_updated (lpInsert usable m ele (6 + lp_len xs) LP_REPLACE) (Some (6 + lp_len xs)) (xs @ e # ys)"
  using lpInsert_put [of usable m xs "[d]" ys ele e LP_REPLACE] by simp

text \<open>Inserting after an element is inserting before the next one.\<close>

lemma lpInsert_after_eq:
  assumes "lp_rep m (xs @ d # ys)" and "ele \<noteq> EleNone"
  shows "lpInsert usable m ele (6 + lp_len xs) LP_AFTER = lpInsert usable m ele (6 + lp_len (xs @ [d])) LP_BEFORE"
proof -
  have "6 \<le> 6 + lp_len (xs @ [d]) \<and> 6 + lp_len (xs @ [d]) < lp_len (xs @ d # ys) + 7" by simp
  then show ?thesis
    using assms(2) lpSkip_rep [OF assms(1)] lp_rep_bytes [OF assms(1)] by (simp add: lpInsert_def del: lp_len_simps)
qed

lemma lpInsert_after:
  assumes "usable_ok usable" and "lp_rep m (xs @ d # ys)" and "ele_is ele e"
  shows "lp_updated (lpInsert usable m ele (6 + lp_len xs) LP_AFTER) (Some (6 + lp_len (xs @ [d]))) (xs @ d # e # ys)"
  using assms lpInsert_after_eq [OF assms(2)] lpInsert_before [of usable m "xs @ [d]" ys ele e] by (simp add: ele_is_def)

lemma lpDelete_run:
  assumes "lpGetTotalBytes m = Some old" and "lpCurrentEncodedSizeUnsafe m p = Some n0"
    and "(n0 + lpEncodeBacklenBytes n0) mod 2 ^ 32 = r" and "LP_HDR_SIZE \<le> p \<and> p + r < old" and "old - r = new"
    and "\<not> new > UINT32_MAX" and "lp_relocate usable m p 0 r old new = Some m1" and "lp_byte m1 p = Some b"
    and "lp_count m1 (-1) = Some m2" and "lpSetTotalBytes m2 new = Some m3"
  shows "lpDelete usable m p = Some (Some (m3, if b = LP_EOF then None else Some p))"
  using assms by (simp add: lpDelete_def lpInsert_def ele_encoding_def)

lemma lp_block_byte:
  assumes "lp_block m tot num (xs @ ys)" and "list_all lp_val_ok ys" and "lp_len ys < 2 ^ 32"
  obtains b where "lp_byte m (6 + lp_len xs) = Some b" "b = LP_EOF \<longleftrightarrow> ys = []"
proof (cases ys)
  case Nil
  then show thesis using assms(1) that [of LP_EOF] lp_block_head [of m tot num xs "[]"] by (simp add: mem_has_Cons)
next
  case (Cons y ys')
  then have "mem_has m (6 + lp_len xs) (lp_enc y)" "lp_val_ok y" "length (lp_enc y) < 2 ^ 32"
    using assms lp_block_head [of m tot num xs ys] by (simp_all add: mem_has_append lp_entry_def)
  then show thesis using that enc_size(2) [of y m] Cons by blast
qed

lemma lpDelete_rep:
  assumes u: "usable_ok usable" and r: "lp_rep m (xs @ d # ys)"
  shows "\<exists>m'. lpDelete usable m (6 + lp_len xs) = Some (Some (m', lp_ptr xs ys)) \<and> lp_rep m' (xs @ ys)"
proof -
  let ?p = "6 + lp_len xs" and ?old = "lp_len (xs @ d # ys) + 7" and ?new = "lp_len (xs @ ys) + 7"
  obtain num where num: "lp_rep_num m num (xs @ d # ys)" using r by (auto simp: lp_rep_def)
  then have b: "lp_block m ?old num (xs @ [d] @ ys)" and n: "lp_num_ok num (length (xs @ d # ys))" "num < 65536"
      and ok: "list_all lp_val_ok (xs @ ys)" and sz: "?new \<le> UINT32_MAX"
    by (auto simp: lp_rep_num_block lp_num_ok_def)
  obtain m1 where m1: "lp_relocate usable m ?p 0 (length (lp_entry d)) ?old ?new = Some m1"
      and "mem_has m1 0 (lp_head ?old num xs)" "mem_has m1 ?p (lp_body ys @ [LP_EOF])"
    using lp_splice [OF u b, of "[]"] by auto
  then have b1: "lp_block m1 ?old num (xs @ ys)" using lp_block_head [of m1 ?old num xs ys] by simp
  obtain m2 where m2: "lp_count m1 (-1) = Some m2" "lp_block m2 ?old (if num = 65535 then 65535 else nat ((int num + -1) mod 65536)) (xs @ ys)"
    using lp_block_count [OF b1 n(2)] by blast
  have "lp_num_ok (if num = 65535 then 65535 else nat ((int num + -1) mod 65536)) (length (xs @ ys))"
    using n(1) by (rule lp_num_ok_update) auto
  from lp_rep_of_block [OF m2(2) this ok sz] obtain m3 where m3: "lpSetTotalBytes m2 ?new = Some m3" "lp_rep m3 (xs @ ys)"
    by blast
  have enc: "lpCurrentEncodedSizeUnsafe m ?p = Some (length (lp_enc d))"
    "(length (lp_enc d) + lpEncodeBacklenBytes (length (lp_enc d))) mod 2 ^ 32 = length (lp_entry d)"
    using lp_rep_entry [OF r] entry_atD [of m ?p d] enc_size(1) [of d m ?p] lp_repD(2) [OF r] by (auto simp: entry_size)
  obtain b where "lp_byte m1 ?p = Some b" "b = LP_EOF \<longleftrightarrow> ys = []"
    using lp_block_byte [OF b1] ok sz by auto
  then have "lpDelete usable m ?p = Some (Some (m3, lp_ptr xs ys))"
    using lpDelete_run [OF lp_rep_bytes [OF r] enc _ _ _ m1 _ m2(1) m3(1)] sz by (simp add: lp_ptr_def)
  then show ?thesis using m3(2) by blast
qed

section \<open>The wrappers\<close>

text \<open>What the operations without a pointer return.\<close>

definition lp_grown :: "mem option option \<Rightarrow> lp_val list \<Rightarrow> bool" where
  "lp_grown r es \<longleftrightarrow> (if lp_len es + 7 > UINT32_MAX then r = Some None else \<exists>m'. r = Some (Some m') \<and> lp_rep m' es)"

lemma lp_grown_updated: "lp_updated r p es \<Longrightarrow> lp_grown (r \<bind> (\<lambda>r. Some (map_option fst r))) es"
  by (auto simp: lp_updated_def lp_grown_def split: if_splits)

lemma append_before:
  assumes "usable_ok usable" and "lp_rep m es" and "ele_is ele e"
  shows "lp_updated (lpInsert usable m ele (lp_len es + 7 - 1) LP_BEFORE) (Some (6 + lp_len es)) (es @ [e])"
  using lpInsert_before [of usable m es "[]" ele e] assms by (simp add: add.commute)

lemma lpAppend_rep: "usable_ok usable \<Longrightarrow> lp_rep m es \<Longrightarrow> lp_grown (lpAppend usable m s) (es @ [lp_val_of s])"
  using lp_grown_updated [OF append_before [OF _ _ ele_is_str]] by (simp add: lpAppend_def lp_rep_bytes)

lemma lpAppendInteger_rep:
  "usable_ok usable \<Longrightarrow> lp_rep m es \<Longrightarrow> in_s 64 v \<Longrightarrow> lp_grown (lpAppendInteger usable m v) (es @ [LInt v])"
  using lp_grown_updated [OF append_before [OF _ _ ele_is_int]] by (simp add: lpAppendInteger_def lpInsertInteger_def lp_rep_bytes)

lemma lpPrepend_rep:
  assumes "usable_ok usable" and "lp_rep m es"
  shows "lp_grown (lpPrepend usable m s) (lp_val_of s # es)"
proof (cases "es = []")
  case True
  then show ?thesis using lpAppend_rep [OF assms] lpFirst_rep [OF assms(2)] by (simp add: lpPrepend_def)
next
  case False
  then show ?thesis
    using lp_grown_updated [OF lpInsert_before [of usable m "[]" es, OF _ _ ele_is_str]] assms lpFirst_rep [OF assms(2)]
    by (simp add: lpPrepend_def lp_ptr_def)
qed

lemma lpPrependInteger_rep:
  assumes "usable_ok usable" and "lp_rep m es" and "in_s 64 v"
  shows "lp_grown (lpPrependInteger usable m v) (LInt v # es)"
proof (cases "es = []")
  case True
  then show ?thesis using lpAppendInteger_rep [OF assms] lpFirst_rep [OF assms(2)] by (simp add: lpPrependInteger_def)
next
  case False
  then show ?thesis
    using lp_grown_updated [OF lpInsert_before [of usable m "[]" es, OF _ _ ele_is_int]] assms lpFirst_rep [OF assms(2)]
    by (simp add: lpPrependInteger_def lpInsertInteger_def lp_ptr_def)
qed

lemma lpReplace_rep:
  "usable_ok usable \<Longrightarrow> lp_rep m (xs @ d # ys) \<Longrightarrow>
    lp_updated (lpReplace usable m (6 + lp_len xs) s) (Some (6 + lp_len xs)) (xs @ lp_val_of s # ys)"
  by (simp add: lpReplace_def lpInsert_replace ele_is_str)

lemma lpReplaceInteger_rep:
  "usable_ok usable \<Longrightarrow> lp_rep m (xs @ d # ys) \<Longrightarrow> in_s 64 v \<Longrightarrow>
    lp_updated (lpReplaceInteger usable m (6 + lp_len xs) v) (Some (6 + lp_len xs)) (xs @ LInt v # ys)"
  unfolding lpReplaceInteger_def lpInsertInteger_def by (rule lpInsert_replace) (assumption | rule ele_is_int)+


section \<open>Creation and copies\<close>

lemma lpNew_rep:
  assumes "usable_ok usable"
  shows "\<exists>m. lpNew usable capacity = Some m \<and> lp_rep m []"
proof -
  define n where "n = usable (if capacity > LP_HDR_SIZE + 1 then capacity else LP_HDR_SIZE + 1)"
  have n: "7 \<le> n" using assms by (auto simp: n_def usable_ok_def intro: order_trans [of 7 capacity] less_imp_le)
  let ?bs = "le_bytes 4 7 @ le_bytes 2 0 @ [LP_EOF]"
  have w: "mem_write m 0 ?bs = (mem_write m 0 (le_bytes 4 7) \<bind> (\<lambda>m. mem_write m 4 (le_bytes 2 0) \<bind> (\<lambda>m. mem_write m 6 [LP_EOF])))" for m
    using mem_write_append [of m 0 "le_bytes 4 7" "le_bytes 2 0 @ [LP_EOF]"] mem_write_append [of _ 4 "le_bytes 2 0" "[LP_EOF]"]
    by simp
  have "0 + length ?bs \<le> length (replicate n None :: mem)" using n by simp
  then obtain m where m: "mem_write (replicate n None) 0 ?bs = Some m" "mem_has m 0 ?bs" by (rule mem_write_has) blast
  have "lpNew usable capacity = mem_write (replicate n None) 0 ?bs"
    unfolding n_def w by (simp add: lpNew_def lpSetTotalBytes_def lpSetNumElements_def)
  moreover have "lp_rep_num m 0 []" using m(2) by (simp add: lp_rep_num_block lp_num_ok_def lp_block_def)
  ultimately show ?thesis using m(1) by (auto simp: lp_rep_def)
qed

lemma lp_block_realloc:
  "usable_ok usable \<Longrightarrow> lp_block m tot num es \<Longrightarrow> lp_len es + 7 \<le> n \<Longrightarrow> lp_block (lp_realloc usable m n) tot num es"
  unfolding lp_block_def by (rule lp_realloc_has) simp_all

lemma lpShrinkToFit_rep:
  assumes "usable_ok usable" and "lp_rep m es"
  shows "\<exists>m'. lpShrinkToFit usable m = Some m' \<and> lp_rep m' es"
  using assms lp_rep_bytes [OF assms(2)] lp_block_realloc [OF assms(1), of m "lp_len es + 7" _ es "lp_len es + 7"]
  by (auto simp: lpShrinkToFit_def lp_rep_def lp_rep_num_block)

lemma lpDup_rep:
  assumes "usable_ok usable" and "lp_rep m es"
  shows "\<exists>m'. lpDup usable m = Some m' \<and> lp_rep m' es"
proof -
  obtain num where num: "lp_rep_num m num es" using assms(2) by (auto simp: lp_rep_def)
  define bs where "bs = le_bytes 4 (int (lp_len es + 7)) @ le_bytes 2 (int num) @ lp_body es @ [LP_EOF]"
  have len: "length bs = lp_len es + 7" by (simp add: bs_def)
  have "mem_has m 0 bs" using num by (simp add: lp_rep_num_block lp_block_def bs_def)
  then have "mem_read m 0 (lp_len es + 7) = Some bs" using len by (intro mem_has_read) simp_all
  moreover have "0 + length bs \<le> length (replicate (usable (lp_len es + 7)) None :: mem)"
    using assms(1) len by (simp add: usable_ok_def)
  then obtain m' where "mem_write (replicate (usable (lp_len es + 7)) None) 0 bs = Some m'" "mem_has m' 0 bs"
    by (rule mem_write_has) blast
  ultimately show ?thesis
    using num by (auto simp: lpDup_def lpBytes_rep [OF assms(2)] lp_rep_def lp_rep_num_block lp_block_def bs_def)
qed

section \<open>Ranges\<close>

lemma range_tail_rep:
  "lp_rep m (xs @ ys) \<Longrightarrow> ys \<noteq> [] \<Longrightarrow> range_tail m (lp_len (xs @ ys) + 7) num k (6 + lp_len xs) =
    Some (k + min num (length ys), 6 + lp_len (xs @ take num ys))"
proof (induction num arbitrary: xs ys k)
  case 0
  then show ?case by simp
next
  case (Suc num)
  then obtain e zs where ys: "ys = e # zs" by (cases ys) auto
  have r: "lp_rep m ((xs @ [e]) @ zs)" using Suc.prems(1) ys by simp
  obtain b where "lp_byte m (6 + lp_len (xs @ [e])) = Some b" "b = LP_EOF \<longleftrightarrow> zs = []" using lp_at_byte [OF r] by blast
  moreover have "lpSkip m (6 + lp_len xs) = Some (6 + lp_len (xs @ [e]))" using lpSkip_rep Suc.prems(1) ys by blast
  moreover have "lpAssertValidEntry m (lp_len (xs @ ys) + 7) (6 + lp_len (xs @ [e])) = Some ()"
    using lp_assert_at [OF r] ys by (simp add: add.assoc)
  moreover have "range_tail m (lp_len (xs @ ys) + 7) num (k + 1) (6 + lp_len (xs @ [e])) =
      Some (k + 1 + min num (length zs), 6 + lp_len ((xs @ [e]) @ take num zs))" if "zs \<noteq> []"
    using Suc.IH [OF r that, of "k + 1"] ys by simp
  ultimately show ?case by (simp add: ys)
qed


lemma lp_block_shrink:
  assumes u: "usable_ok usable" and b: "lp_block m (lp_len es + 7) num es" and "lp_len es + 7 \<le> UINT32_MAX"
    and "list_all lp_val_ok es" and "lp_num_ok num (length es)"
  obtains m' where "lpShrinkToFit usable m = Some m'" "lp_rep m' es"
  using lpShrinkToFit_rep [OF u, of m es] assms by (auto simp: lp_rep_def lp_rep_num_block)

lemma lpDeleteRangeWithEntry_rep:
  assumes u: "usable_ok usable" and r: "lp_rep m (xs @ ys)" and ys: "ys \<noteq> []"
  shows "\<exists>m'. lpDeleteRangeWithEntry usable m (6 + lp_len xs) num = Some (m', lp_ptr xs (drop num ys)) \<and> lp_rep m' (xs @ drop num ys)"
proof (cases "num = 0")
  case True
  then show ?thesis using r ys lpBytes_rep [OF r] by (auto simp: lpDeleteRangeWithEntry_def lp_ptr_def)
next
  case False
  let ?p = "6 + lp_len xs" and ?old = "lp_len (xs @ ys) + 7" and ?zs = "drop num ys" and ?k = "min num (length ys)"
  let ?tail = "6 + lp_len (xs @ take num ys)" and ?new = "lp_len (xs @ drop num ys) + 7"
  have len: "lp_len ys = lp_len (take num ys) + lp_len ?zs" by (metis append_take_drop_id lp_len_simps(3))
  obtain n where n: "lp_rep_num m n (xs @ ys)" using r by (auto simp: lp_rep_def)
  then have b: "lp_block m ?old n (xs @ ys)" and nk: "lp_num_ok n (length (xs @ ys))" "n < 65536"
      and ok: "list_all lp_val_ok (xs @ ?zs)" and sz: "?new \<le> UINT32_MAX"
    using len list_all_append [of lp_val_ok "take num ys" ?zs] by (auto simp: lp_rep_num_block lp_num_ok_def)
  have t: "mem_has m ?tail (lp_body ?zs @ [LP_EOF])" using lp_repD(1) [of m "xs @ take num ys" ?zs] r by simp
  have "?p + length (lp_body ?zs @ [LP_EOF]) \<le> length m" using t by (simp add: mem_has_alt)
  then obtain m1 where m1: "mem_move m ?p ?tail (length (lp_body ?zs @ [LP_EOF])) = Some m1" "mem_has m1 ?p (lp_body ?zs @ [LP_EOF])"
      "\<And>q cs. q + length cs \<le> ?p \<Longrightarrow> mem_has m q cs \<Longrightarrow> mem_has m1 q cs"
    using mem_move_has [OF t] by metis
  have b1: "lp_block m1 ?old n (xs @ ?zs)"
    using b m1(2,3) lp_block_head [of m ?old n xs ys] lp_block_head [of m1 ?old n xs ?zs] by simp
  obtain m2 where m2: "lpSetTotalBytes m1 ?new = Some m2" "lp_block m2 ?new n (xs @ ?zs)" using lp_block_set_total [OF b1] by blast
  obtain m3 where m3: "lp_count m2 (- int ?k) = Some m3"
      "lp_block m3 ?new (if n = 65535 then 65535 else nat ((int n + - int ?k) mod 65536)) (xs @ ?zs)"
    using lp_block_count [OF m2(2) nk(2)] by blast
  have nk': "lp_num_ok (if n = 65535 then 65535 else nat ((int n + - int ?k) mod 65536)) (length (xs @ ?zs))"
    using nk(1) by (rule lp_num_ok_update) (auto simp: min_def)
  obtain m4 where m4: "lpShrinkToFit usable m3 = Some m4" "lp_rep m4 (xs @ ?zs)"
    using lp_block_shrink [OF u m3(2) sz ok nk'] by blast
  obtain c where c: "lp_byte m4 ?p = Some c" "c = LP_EOF \<longleftrightarrow> ?zs = []" using lp_at_byte [OF m4(2)] by blast
  have "range_tail m ?old num 0 ?p = Some (?k, ?tail)" using range_tail_rep [OF r ys, of num 0] by simp
  moreover have "?old - 1 - ?tail + 1 = length (lp_body ?zs @ [LP_EOF])" "?old - (?tail - ?p) = ?new" using len by simp_all
  ultimately have "lpDeleteRangeWithEntry usable m ?p num = Some (m4, if c = LP_EOF then None else Some ?p)"
    using False lpBytes_rep [OF r] m1(1) m2(1) m3(1) m4(1) c(1) by (simp add: lpDeleteRangeWithEntry_def del: lp_len_simps)
  then show ?thesis using m4(2) c(2) by (simp add: lp_ptr_def)
qed

lemma lp_block_cut:
  assumes "lp_block m tot num (xs @ ys)"
  obtains m' where "mem_write m (6 + lp_len xs) [LP_EOF] = Some m'" "lp_block m' tot num xs"
proof -
  have h: "mem_has m 0 (lp_head tot num xs)" "mem_has m (6 + lp_len xs) (lp_body ys @ [LP_EOF])"
    using assms by (simp_all add: lp_block_head)
  then have "mem_has m (length (lp_head tot num xs) + length [LP_EOF]) []" by (simp add: mem_has_alt)
  then obtain m' where "mem_write m (length (lp_head tot num xs)) [LP_EOF] = Some m'" "mem_has m' 0 (lp_head tot num xs @ [LP_EOF] @ [])"
    using lp_gap_write [OF h(1)] by blast
  then show thesis using that [of m'] by (simp add: lp_block_def lp_head_def)
qed

lemma lp_truncate:
  assumes u: "usable_ok usable" and r: "lp_rep_num m num es" and "num \<noteq> LP_HDR_NUMELE_UNKNOWN" and i: "i \<le> length es"
  shows "\<exists>m'. (do { m \<leftarrow> mem_write m (6 + lp_len (take i es)) [LP_EOF]; m \<leftarrow> lpSetTotalBytes m (7 + lp_len (take i es));
    m \<leftarrow> lpSetNumElements m (int i); lpShrinkToFit usable m }) = Some m' \<and> lp_rep m' (take i es)"
proof -
  let ?xs = "take i es"
  have b: "lp_block m (lp_len es + 7) num (?xs @ drop i es)" and n: "num = length es" "num < 65535"
    using r assms(3) by (auto simp: lp_rep_num_block lp_num_ok_def)
  have le: "lp_len ?xs \<le> lp_len es" by (metis append_take_drop_id le_add1 lp_len_simps(3))
  obtain m1 where m1: "mem_write m (6 + lp_len ?xs) [LP_EOF] = Some m1" "lp_block m1 (lp_len es + 7) num ?xs"
    using lp_block_cut [OF b] by blast
  obtain m2 where m2: "lpSetTotalBytes m1 (lp_len ?xs + 7) = Some m2" "lp_block m2 (lp_len ?xs + 7) num ?xs"
    using lp_block_set_total [OF m1(2)] by blast
  obtain m3 where m3: "lpSetNumElements m2 (int i) = Some m3" "lp_block m3 (lp_len ?xs + 7) (nat (int i mod 65536)) ?xs"
    using lp_block_set_num [OF m2(2)] by blast
  have "nat (int i mod 65536) = i" using n i by simp
  then have "lp_num_ok (nat (int i mod 65536)) (length ?xs)" using n i by (simp add: lp_num_ok_def)
  moreover have "lp_len ?xs + 7 \<le> UINT32_MAX" "list_all lp_val_ok ?xs"
    using r le by (auto simp: lp_rep_num_block list_all_iff dest: in_set_takeD)
  ultimately obtain m4 where "lpShrinkToFit usable m3 = Some m4" "lp_rep m4 ?xs" using lp_block_shrink [OF u m3(2)] by blast
  then show ?thesis using m1(1) m2(1) m3(1) by (simp add: add.commute)
qed

lemma lpDeleteRange_rep:
  assumes u: "usable_ok usable" and r: "lp_rep m es"
  shows "\<exists>m'. lpDeleteRange usable m index num = Some m' \<and>
    lp_rep m' (case seek_index index (length es) of None \<Rightarrow> es | Some i \<Rightarrow> take i es @ drop (i + num) es)"
proof -
  obtain n where n: "lp_rep_num m n es" using r by (auto simp: lp_rep_def)
  consider "num = 0" | "num \<noteq> 0" "seek_index index (length es) = None" | i where "num \<noteq> 0" "seek_index index (length es) = Some i"
    by fastforce
  then show ?thesis
  proof cases
    case 1
    then show ?thesis using r lp_rep_num_get [OF n] by (auto simp: lpDeleteRange_def split: option.splits)
  next
    case 2
    then show ?thesis using r lp_rep_num_get [OF n] lpSeek_rep [OF r, of index] by (auto simp: lpDeleteRange_def)
  next
    case (3 i)
    then have i: "i < length es" and i': "int i = (if index < 0 then int (length es) + index else index)"
      by (auto simp: seek_index_def Let_def split: if_splits)
    have s: "lpSeek m index = Some (Some (6 + lp_len (take i es)))" using lpSeek_rep [OF r, of index] 3 by simp
    show ?thesis
    proof (cases "n \<noteq> 65535 \<and> int (length es) - int i \<le> int num")
      case True
      then have "n = length es" using n by (auto simp: lp_rep_num_def lp_num_ok_def)
      then show ?thesis
        using lp_truncate [OF u n _ less_imp_le [OF i]] lp_rep_num_get [OF n] True 3 s i i' lp_rep_length [OF r]
        by (simp add: lpDeleteRange_def wrap_u_def Let_def)
    next
      case False
      then have "\<not> (n \<noteq> 65535 \<and> wrap_u 64 (int n - (if n \<noteq> 65535 \<and> index < 0 then int n + index else index)) \<le> int num)"
        using n i i' lp_rep_length [OF r] by (auto simp: wrap_u_def lp_rep_num_def lp_num_ok_def)
      then show ?thesis
        using lpDeleteRangeWithEntry_rep [OF u, of m "take i es" "drop i es" num] r i 3 s lp_rep_num_get [OF n]
        by (auto simp: lpDeleteRange_def Let_def add.commute)
    qed
  qed
qed


section \<open>Merging\<close>

lemma lp_merge_append:
  assumes u: "usable_ok usable" and a: "lp_rep_num m n xs" and b: "lp_rep_num m' n' ys"
  shows "\<exists>t. (do { bs \<leftarrow> mem_read m' 6 (lp_len ys + 7 - 6);
      mem_write (lp_realloc usable m (lp_len (xs @ ys) + 7)) (lp_len xs + 7 - 1) bs }) = Some t \<and> lp_block t (lp_len xs + 7) n (xs @ ys)"
proof -
  let ?m = "lp_realloc usable m (lp_len (xs @ ys) + 7)" and ?bs = "lp_body ys @ [LP_EOF]"
  have "mem_has m 0 (lp_head (lp_len xs + 7) n xs)" using a lp_block_head [of m "lp_len xs + 7" n xs "[]"] by (simp add: lp_rep_num_block)
  then have h: "mem_has ?m 0 (lp_head (lp_len xs + 7) n xs)" using u by (intro lp_realloc_has) simp_all
  have "mem_has ?m (length (lp_head (lp_len xs + 7) n xs) + length ?bs) []" using length_lp_realloc [OF u, of "lp_len (xs @ ys) + 7" m] by simp
  then obtain t where t: "mem_write ?m (length (lp_head (lp_len xs + 7) n xs)) ?bs = Some t"
      "mem_has t 0 (lp_head (lp_len xs + 7) n xs @ ?bs @ [])"
    using lp_gap_write [OF h] by blast
  have "mem_read m' 6 (length ?bs) = Some ?bs" using b by (intro mem_has_read) (simp_all add: lp_rep_num_def)
  then show ?thesis using t by (simp add: lp_block_def lp_head_def add.commute)
qed

lemma lp_merge_prepend:
  assumes u: "usable_ok usable" and a: "lp_rep_num m n xs" and b: "lp_rep_num m' n' ys"
  shows "\<exists>t. (do { t \<leftarrow> mem_move (lp_realloc usable m' (lp_len (xs @ ys) + 7)) (lp_len xs + 7 - 1) 6 (lp_len ys + 7 - 6);
      bs \<leftarrow> mem_read m 0 (lp_len xs + 7 - 1); mem_write t 0 bs }) = Some t \<and> lp_block t (lp_len xs + 7) n (xs @ ys)"
proof -
  let ?m = "lp_realloc usable m' (lp_len (xs @ ys) + 7)" and ?bs = "lp_body ys @ [LP_EOF]" and ?h = "lp_head (lp_len xs + 7) n xs"
  have "mem_has m' 6 ?bs" using b by (simp add: lp_rep_num_def)
  then have "mem_has ?m 6 ?bs" using u by (intro lp_realloc_has) simp_all
  moreover have "lp_len xs + 6 + length ?bs \<le> length ?m" using length_lp_realloc [OF u, of "lp_len (xs @ ys) + 7" m'] by simp
  ultimately obtain t where t: "mem_move ?m (lp_len xs + 6) 6 (length ?bs) = Some t" "mem_has t (lp_len xs + 6) ?bs"
    by (rule mem_move_has) blast
  have h: "mem_has m 0 ?h" using a lp_block_head [of m "lp_len xs + 7" n xs "[]"] by (simp add: lp_rep_num_block)
  then have r: "mem_read m 0 (lp_len xs + 6) = Some ?h" by (intro mem_has_read) simp_all
  have "mem_has t 0 []" "mem_has t (length ([] :: bytes) + length ?h) ?bs" using t(2) by (simp_all add: add.commute)
  then obtain t' where "mem_write t (length ([] :: bytes)) ?h = Some t'" "mem_has t' 0 ([] @ ?h @ ?bs)"
    by (rule lp_gap_write)
  then show ?thesis using t(1) r by (simp add: lp_block_def lp_head_def add.commute)
qed

text \<open>The copy in the middle of \<^verbatim>\<open>lpMerge\<close>.\<close>

definition merge_copy :: "(nat \<Rightarrow> nat) \<Rightarrow> mem \<Rightarrow> nat \<Rightarrow> mem \<Rightarrow> nat \<Rightarrow> nat \<Rightarrow> mem option" where
  "merge_copy usable m1 n1 m2 n2 lpbytes =
     (if n1 \<ge> n2 then do { bs \<leftarrow> mem_read m2 6 (n2 - 6); mem_write (lp_realloc usable m1 lpbytes) (n1 - 1) bs }
      else do { t \<leftarrow> mem_move (lp_realloc usable m2 lpbytes) (n1 - 1) 6 (n2 - 6); bs \<leftarrow> mem_read m1 0 (n1 - 1); mem_write t 0 bs })"

lemma lpMerge_run:
  assumes "lpBytes m = Some n1" and "lpBytes m' = Some n2" and "lpLength m = Some (l1, m1)" and "lpLength m' = Some (l2, m2)"
    and "n1 + n2 - 6 - 1 = lpbytes" and "lpbytes < UINT32_MAX"
  shows "lpMerge usable m m' = do { t \<leftarrow> merge_copy usable m1 n1 m2 n2 lpbytes;
    t \<leftarrow> lpSetNumElements t (int (min (l1 + l2) 65535)); lpSetTotalBytes t lpbytes }"
  using assms by (simp add: lpMerge_def merge_copy_def Let_def)

lemma lpMerge_rep:
  assumes u: "usable_ok usable" and a: "lp_rep m xs" and b: "lp_rep m' ys"
  shows "if lp_len (xs @ ys) + 7 < UINT32_MAX then \<exists>t. lpMerge usable m m' = Some t \<and> lp_rep t (xs @ ys)
    else lpMerge usable m m' = None"
proof -
  obtain m1 n where m1: "lpLength m = Some (length xs, m1)" "lp_rep_num m1 n xs" using lpLength_rep [OF a] by (auto simp: lp_rep_def)
  obtain m2 n' where m2: "lpLength m' = Some (length ys, m2)" "lp_rep_num m2 n' ys" using lpLength_rep [OF b] by (auto simp: lp_rep_def)
  have size: "lp_len xs + 7 + (lp_len ys + 7) - 6 - 1 = lp_len (xs @ ys) + 7" by simp
  note start = lpBytes_rep [OF a] lpBytes_rep [OF b] m1(1) m2(1)
  show ?thesis
  proof (cases "lp_len (xs @ ys) + 7 < UINT32_MAX")
    case False
    then show ?thesis using start by (auto simp: lpMerge_def Let_def)
  next
    case True
    have ok: "list_all lp_val_ok (xs @ ys)" using m1(2) m2(2) by (simp add: lp_rep_num_block)
    obtain t where t: "merge_copy usable m1 (lp_len xs + 7) m2 (lp_len ys + 7) (lp_len (xs @ ys) + 7) = Some t"
        "lp_block t (lp_len xs + 7) n (xs @ ys)"
      using lp_merge_append [OF u m1(2) m2(2)] lp_merge_prepend [OF u m1(2) m2(2)] unfolding merge_copy_def
      by (cases "lp_len xs + 7 \<ge> lp_len ys + 7") (simp_all del: lp_len_simps, blast+)
    obtain t1 where t1: "lpSetNumElements t (int (min (length xs + length ys) 65535)) = Some t1"
        "lp_block t1 (lp_len xs + 7) (nat (int (min (length xs + length ys) 65535) mod 65536)) (xs @ ys)"
      using lp_block_set_num [OF t(2)] by blast
    have "lp_num_ok (nat (int (min (length xs + length ys) 65535) mod 65536)) (length (xs @ ys))"
      by (auto simp: lp_num_ok_def min_def)
    from lp_rep_of_block [OF t1(2) this ok] True
    obtain t2 where t2: "lpSetTotalBytes t1 (lp_len (xs @ ys) + 7) = Some t2" "lp_rep t2 (xs @ ys)" by auto
    have "lpMerge usable m m' = Some t2"
      using lpMerge_run [OF start size True, of usable] t(1) t1(1) t2(1) by simp
    then show ?thesis using t2(2) True by simp
  qed
qed

end
