(* ===== verification/Listpack_Batch.thy ===== *)
theory Listpack_Batch
  imports Listpack_Update
begin

text \<open>
  The batch operations of the listpack: inserting a sequence of elements at one place and deleting the
  elements at a list of places, each with one pass over the memory.
\<close>

section \<open>Batch insertion\<close>

definition batch_val :: "listpackEntry \<Rightarrow> lp_val" where
  "batch_val e = (case e of SVal s \<Rightarrow> lp_val_of s | LVal v \<Rightarrow> LInt v)"

definition batch_ok :: "listpackEntry \<Rightarrow> bool" where
  "batch_ok e = (case e of SVal _ \<Rightarrow> True | LVal v \<Rightarrow> in_s 64 v)"

definition val_encode :: "lp_val \<Rightarrow> bytes \<times> nat \<times> bytes" where
  "val_encode e = (lp_enc e, length (lp_enc e), lpEncodeBacklen (length (lp_enc e)))"

lemma batch_encode_val: "batch_encode e = val_encode (batch_val e)"
proof (cases e)
  case (SVal s)
  then show ?thesis by (simp add: batch_encode_def batch_val_def ele_encoding_str val_encode_def)
qed (simp add: batch_encode_def batch_val_def val_encode_def ele_encoding_def)

lemma batch_val_ok: "batch_ok e \<Longrightarrow> lp_val_ok (batch_val e)"
  by (cases e) (simp_all add: batch_ok_def batch_val_def lp_val_of_ok)

lemma batch_addedlen: "sum_list (map (\<lambda>(_, enclen, backlen). enclen + length backlen) (map val_encode es)) = lp_len es"
  by (induction es) (simp_all add: val_encode_def entry_size length_lpEncodeBacklen)

lemma batch_write_rep:
  assumes "mem_has m 0 (lp_head tot num xs)" and "mem_has m (6 + lp_len xs + lp_len ns) (lp_body ys @ [LP_EOF])"
  shows "\<exists>m'. batch_write m (6 + lp_len xs) newp (map val_encode ns) =
      Some (m', if ns = [] then newp else Some (6 + lp_len (xs @ butlast ns))) \<and> lp_block m' tot num (xs @ ns @ ys)"
  using assms
proof (induction ns arbitrary: m xs newp)
  case Nil
  then show ?case using lp_block_head [of m tot num xs ys] by simp
next
  case (Cons e ns)
  let ?p = "6 + lp_len xs"
  have fit: "?p + length (lp_entry e) \<le> length m" using Cons.prems(2) by (simp add: mem_has_alt)
  obtain m1 where m1: "mem_write m ?p (lp_entry e) = Some m1" "mem_has m1 ?p (lp_entry e)"
      and keep: "\<And>q cs. q + length cs \<le> ?p \<or> ?p + length (lp_entry e) \<le> q \<Longrightarrow> mem_has m q cs \<Longrightarrow> mem_has m1 q cs"
    using mem_write_has [OF fit] by metis
  have "mem_has m1 0 (lp_head tot num xs)" using Cons.prems(1) by (intro keep) simp_all
  then have h: "mem_has m1 0 (lp_head tot num (xs @ [e]))"
    using m1(2) mem_has_append [of m1 0 "lp_head tot num xs" "lp_entry e"] by (simp add: lp_head_def)
  have "mem_has m1 (6 + lp_len (xs @ [e]) + lp_len ns) (lp_body ys @ [LP_EOF])"
    using Cons.prems(2) by (intro keep) (simp_all add: add.assoc)
  from Cons.IH [OF h this, of "Some ?p"] obtain m' where
    "batch_write m1 (6 + lp_len (xs @ [e])) (Some ?p) (map val_encode ns) =
      Some (m', if ns = [] then Some ?p else Some (6 + lp_len ((xs @ [e]) @ butlast ns)))" "lp_block m' tot num ((xs @ [e]) @ ns @ ys)"
    by blast
  moreover obtain ma where "mem_write m ?p (lp_enc e) = Some ma"
      "mem_write ma (?p + length (lp_enc e)) (lpEncodeBacklen (length (lp_enc e))) = Some m1"
    using m1(1) mem_write_append [of m ?p "lp_enc e" "lpEncodeBacklen (length (lp_enc e))"]
    by (auto simp: lp_entry_def bind_eq_Some_conv)
  ultimately show ?case by (auto simp: val_encode_def [of e] entry_size length_lpEncodeBacklen add.assoc)
qed

definition batch_num :: "nat \<Rightarrow> nat \<Rightarrow> nat" where
  "batch_num num len = (if num = 65535 \<or> len > 65535 - num then 65535 else num + len)"

lemma lpBatchInsert_run:
  assumes "wh = LP_BEFORE" and "entries \<noteq> []" and "lpGetTotalBytes m = Some old"
    and "sum_list (map (\<lambda>(_, enclen, backlen). enclen + length backlen) (map batch_encode entries)) = n" and "old + n = new"
  shows "new > UINT32_MAX \<Longrightarrow> lpBatchInsert usable m p wh entries = Some None"
    and "\<not> new > UINT32_MAX \<Longrightarrow> lp_relocate usable m p n 0 old new = Some m1 \<Longrightarrow>
      batch_write m1 p None (map batch_encode entries) = Some (m2, newp) \<Longrightarrow> lpGetNumElements m2 = Some num \<Longrightarrow>
      (if num = 65535 then Some m2 else lpSetNumElements m2 (int (batch_num num (length entries)))) = Some m3 \<Longrightarrow>
      lpSetTotalBytes m3 new = Some m4 \<Longrightarrow> lpBatchInsert usable m p wh entries = Some (Some (m4, newp))"
  using assms by (auto simp: lpBatchInsert_def lp_relocate_def batch_num_def Let_def split: if_splits)


lemma batch_num_ok:
  assumes "lp_num_ok num n"
  shows "lp_num_ok (batch_num num len) (n + len)" and "batch_num num len < 65536"
  using assms by (auto simp: lp_num_ok_def batch_num_def)

lemma lpBatchInsert_before:
  assumes u: "usable_ok usable" and r: "lp_rep m (xs @ ys)" and ne: "entries \<noteq> []" and e: "list_all batch_ok entries"
    and ns: "ns = map batch_val entries"
  shows "lp_updated (lpBatchInsert usable m (6 + lp_len xs) LP_BEFORE entries) (Some (6 + lp_len (xs @ butlast ns))) (xs @ ns @ ys)"
proof -
  let ?p = "6 + lp_len xs" and ?old = "lp_len (xs @ ys) + 7" and ?new = "lp_len (xs @ ns @ ys) + 7"
  have enc: "map batch_encode entries = map val_encode ns" using ns by (simp add: batch_encode_val)
  have n: "sum_list (map (\<lambda>(_, enclen, backlen). enclen + length backlen) (map batch_encode entries)) = lp_len ns" "?old + lp_len ns = ?new"
    unfolding enc batch_addedlen by simp_all
  note run = lpBatchInsert_run [OF refl ne lp_rep_bytes [OF r] n, of usable]
  show ?thesis
  proof (cases "?new > UINT32_MAX")
    case True
    then show ?thesis using run(1) by (simp add: lp_updated_def)
  next
    case False
    obtain num where num: "lp_rep_num m num (xs @ ys)" using r by (auto simp: lp_rep_def)
    then have b: "lp_block m ?old num (xs @ [] @ ys)" and nk: "lp_num_ok num (length (xs @ ys))" "num < 65536"
        and ok: "list_all lp_val_ok (xs @ ns @ ys)"
      using e ns batch_val_ok by (auto simp: lp_rep_num_block lp_num_ok_def list_all_iff)
    obtain m1 where m1: "lp_relocate usable m ?p (lp_len ns) 0 ?old ?new = Some m1"
        "mem_has m1 0 (lp_head ?old num xs)" "mem_has m1 (?p + lp_len ns) (lp_body ys @ [LP_EOF])"
      using lp_splice [OF u b, of ns] by auto
    obtain m2 where m2: "batch_write m1 ?p None (map batch_encode entries) = Some (m2, Some (6 + lp_len (xs @ butlast ns)))"
        "lp_block m2 ?old num (xs @ ns @ ys)"
      using batch_write_rep [OF m1(2,3)] ne ns enc by auto
    let ?num = "batch_num num (length entries)"
    obtain m3 where m3: "(if num = 65535 then Some m2 else lpSetNumElements m2 (int ?num)) = Some m3" "lp_block m3 ?old ?num (xs @ ns @ ys)"
    proof (cases "num = 65535")
      case True
      then show ?thesis using that [of m2] m2(2) by (simp add: batch_num_def)
    next
      case False
      obtain m3 where "lpSetNumElements m2 (int ?num) = Some m3" "lp_block m3 ?old (nat (int ?num mod 65536)) (xs @ ns @ ys)"
        using lp_block_set_num [OF m2(2)] by blast
      then show ?thesis using that [of m3] False batch_num_ok(2) [OF nk(1), of "length entries"] by simp
    qed
    have "lp_num_ok ?num (length (xs @ ns @ ys))" using batch_num_ok(1) [OF nk(1), of "length entries"] ns by (simp add: add_ac)
    moreover have "?new \<le> UINT32_MAX" using False by linarith
    ultimately obtain m4 where m4: "lpSetTotalBytes m3 ?new = Some m4" "lp_rep m4 (xs @ ns @ ys)"
      using lp_rep_of_block [OF m3(2) _ ok] by blast
    have "lpBatchInsert usable m ?p LP_BEFORE entries = Some (Some (m4, Some (6 + lp_len (xs @ butlast ns))))"
      by (rule run(2) [OF False m1(1) m2(1) lp_block_num [OF m2(2) nk(2)] m3(1) m4(1)])
    then show ?thesis using m4(2) False by (simp add: lp_updated_def)
  qed
qed

lemma lpBatchInsert_after:
  assumes "usable_ok usable" and r: "lp_rep m (xs @ d # ys)" and "entries \<noteq> []" and "list_all batch_ok entries"
    and "ns = map batch_val entries"
  shows "lp_updated (lpBatchInsert usable m (6 + lp_len xs) LP_AFTER entries) (Some (6 + lp_len (xs @ d # butlast ns))) (xs @ d # ns @ ys)"
proof -
  have "6 \<le> 6 + lp_len (xs @ [d]) \<and> 6 + lp_len (xs @ [d]) < lp_len (xs @ d # ys) + 7" by simp
  then have "lpBatchInsert usable m (6 + lp_len xs) LP_AFTER entries = lpBatchInsert usable m (6 + lp_len (xs @ [d])) LP_BEFORE entries"
    using lpSkip_rep [OF r] lp_rep_bytes [OF r] by (simp add: lpBatchInsert_def del: lp_len_simps)
  then show ?thesis using lpBatchInsert_before [of usable m "xs @ [d]" ys entries ns] assms by simp
qed

lemma lpBatchAppend_rep:
  assumes "usable_ok usable" and "lp_rep m es" and "entries \<noteq> []" and "list_all batch_ok entries"
  shows "lp_grown (lpBatchAppend usable m entries) (es @ map batch_val entries)"
  using lp_grown_updated [OF lpBatchInsert_before [of usable m es "[]" entries, OF _ _ _ _ refl]] assms
  by (simp add: lpBatchAppend_def lp_rep_bytes add.commute)

section \<open>Batch deletion\<close>

text \<open>The elements to delete, each with the elements up to the next one.\<close>

type_synonym lp_cuts = "(lp_val \<times> lp_val list) list"

definition cuts_list :: "lp_cuts \<Rightarrow> lp_val list" where
  "cuts_list cs = concat (map (\<lambda>(d, ks). d # ks) cs)"

definition cuts_kept :: "lp_cuts \<Rightarrow> lp_val list" where
  "cuts_kept cs = concat (map snd cs)"

text \<open>The pointers to the elements to delete, when the cuts start at the offset \<open>p\<close>.\<close>

fun cuts_ptrs :: "nat \<Rightarrow> lp_cuts \<Rightarrow> nat list" where
  "cuts_ptrs p [] = []"
| "cuts_ptrs p ((d, ks) # cs) = p # cuts_ptrs (p + lp_len (d # ks)) cs"

lemma length_cuts_ptrs [simp]: "length (cuts_ptrs p cs) = length cs"
  by (induction p cs rule: cuts_ptrs.induct) auto

lemma cuts_simps [simp]:
  "cuts_list [] = []" "cuts_list ((d, ks) # cs) = d # ks @ cuts_list cs" "cuts_kept [] = []" "cuts_kept ((d, ks) # cs) = ks @ cuts_kept cs"
  by (simp_all add: cuts_list_def cuts_kept_def)


lemma batch_move_step:
  assumes "entry_at m p d" and "q = p + length (lp_entry d)" and "ps \<noteq> [] \<longrightarrow> hd ps = e" and "ps = [] \<longrightarrow> lp_end = e" and "q < e \<or> ps \<noteq> [] \<and> q = e"
  shows "batch_move m lp_end dst (p # ps) = (if ps \<noteq> [] \<and> q = e then batch_move m lp_end dst ps
    else do { m \<leftarrow> mem_move m dst q (e - q); batch_move m lp_end (dst + (e - q)) ps })"
proof -
  have "(case ps of next # _ \<Rightarrow> next | [] \<Rightarrow> lp_end) = e" using assms(3,4) by (cases ps) auto
  then show ?thesis
    using assms entry_skip [OF assms(1)] entry_first [OF assms(1)] by (subst batch_move.simps) (auto simp: Let_def)
qed

lemma batch_move_rep:
  assumes "mem_has m 0 (lp_head tot num kept)" and "6 + lp_len kept \<le> p" and "mem_has m p (lp_body (cuts_list cs) @ [LP_EOF])"
    and "cs \<noteq> []" and "lp_end = p + lp_len (cuts_list cs) + 1" and "list_all lp_val_ok (cuts_list cs)" and "lp_len (cuts_list cs) < 2 ^ 32"
  shows "\<exists>m'. batch_move m lp_end (6 + lp_len kept) (cuts_ptrs p cs) = Some (m', 7 + lp_len (kept @ cuts_kept cs)) \<and>
    lp_block m' tot num (kept @ cuts_kept cs)"
  using assms
proof (induction cs arbitrary: m kept p)
  case Nil
  then show ?case by simp
next
  case (Cons c cs)
  obtain d ks where c: "c = (d, ks)" by (cases c)
  let ?dst = "6 + lp_len kept" and ?q = "p + length (lp_entry d)" and ?e = "p + lp_len (d # ks)"
  have at: "entry_at m p d" "mem_has m ?q (lp_body ks)" "mem_has m ?e (lp_body (cuts_list cs) @ [LP_EOF])"
    using Cons.prems c by (auto simp: entry_at_def mem_has_append add.assoc)
  have ptrs: "cuts_ptrs p (c # cs) = p # cuts_ptrs ?e cs" using c by simp
  have prems: "lp_end = ?e + lp_len (cuts_list cs) + 1" "list_all lp_val_ok (cuts_list cs)" "lp_len (cuts_list cs) < 2 ^ 32"
    using Cons.prems(5-7) c by auto
  show ?case
  proof (cases "cs = []")
    case True
    have t: "mem_has m ?q (lp_body ks @ [LP_EOF])" using at(2,3) True by (simp add: mem_has_append add.assoc)
    have "?dst + length (lp_body ks @ [LP_EOF]) \<le> length m" using t Cons.prems(2) by (simp add: mem_has_alt)
    then obtain m1 where m1: "mem_move m ?dst ?q (length (lp_body ks @ [LP_EOF])) = Some m1" "mem_has m1 ?dst (lp_body ks @ [LP_EOF])"
        "\<And>q cs. q + length cs \<le> ?dst \<Longrightarrow> mem_has m q cs \<Longrightarrow> mem_has m1 q cs"
      using mem_move_has [OF t] by metis
    have "lp_block m1 tot num (kept @ ks)" using m1(2) m1(3) [of 0 "lp_head tot num kept"] Cons.prems(1) by (simp add: lp_block_head)
    then show ?thesis
      using batch_move_step [OF at(1) refl, of "[]" lp_end lp_end ?dst] m1(1) True c prems(1) by (simp add: add_ac)
  next
    case False
    then have hd: "cuts_ptrs ?e cs \<noteq> []" "hd (cuts_ptrs ?e cs) = ?e" by (cases cs; auto)+
    show ?thesis
    proof (cases "ks = []")
      case True
      then show ?thesis
        using batch_move_step [OF at(1) refl, of "cuts_ptrs ?e cs" ?e lp_end ?dst] hd Cons.IH [OF Cons.prems(1) _ at(3) False prems] Cons.prems(2) c
        by simp
    next
      case ks: False
      have "?dst + length (lp_body ks) \<le> length m" using at(2) Cons.prems(2) by (simp add: mem_has_alt)
      then obtain m1 where m1: "mem_move m ?dst ?q (length (lp_body ks)) = Some m1" "mem_has m1 ?dst (lp_body ks)"
          and keep: "\<And>q cs. q + length cs \<le> ?dst \<or> ?dst + length (lp_body ks) \<le> q \<Longrightarrow> mem_has m q cs \<Longrightarrow> mem_has m1 q cs"
        using mem_move_has [OF at(2)] by metis
      have "mem_has m1 0 (lp_head tot num kept)" using Cons.prems(1) by (intro keep) simp_all
      then have h: "mem_has m1 0 (lp_head tot num (kept @ ks))"
        using m1(2) mem_has_append [of m1 0 "lp_head tot num kept" "lp_body ks"] by (simp add: lp_head_def)
      have le: "6 + lp_len (kept @ ks) \<le> ?e" using Cons.prems(2) by simp
      have "mem_has m1 ?e (lp_body (cuts_list cs) @ [LP_EOF])" using at(3) Cons.prems(2) by (intro keep) simp_all
      from Cons.IH [OF h le this False prems] show ?thesis
        using batch_move_step [OF at(1) refl, of "cuts_ptrs ?e cs" ?e lp_end ?dst] hd m1(1) c ks lp_len_0 [of ks] ptrs by (simp add: add.assoc)
    qed
  qed
qed


lemma lp_block_eof: "lp_block m tot num es \<Longrightarrow> lp_byte m (6 + lp_len es) = Some LP_EOF"
  using lp_block_head [of m tot num es "[]"] by (simp add: mem_has_Cons)

lemma lpBatchDelete_run:
  assumes "ps = dst # ps'" and "lpGetTotalBytes m = Some (n + 1)" and "lp_byte m n = Some LP_EOF"
    and "batch_move m (n + 1) dst ps = Some (m1, k + 1)" and "k \<le> n" and "lp_byte m1 k = Some LP_EOF"
    and "lpSetTotalBytes m1 (k + 1) = Some m2" and "lp_count m2 (- int (length ps)) = Some m3" and "lpShrinkToFit usable m3 = Some m4"
  shows "lpBatchDelete usable m ps = Some m4"
proof -
  have "(lpGetNumElements m2 \<bind> (\<lambda>numele. (if numele \<noteq> 65535 then lpSetNumElements m2 (int numele - int (length ps)) else Some m2)
      \<bind> lpShrinkToFit usable)) = Some m4"
    using assms(8,9) by (auto simp: lp_count_def bind_eq_Some_conv split: if_splits)
  then show ?thesis
    using assms(2-7) unfolding assms(1) by (simp add: lpBatchDelete_def not_le less_Suc_eq_le del: batch_move.simps length_Cons of_nat_Suc)
qed

lemma lpBatchDelete_rep:
  assumes u: "usable_ok usable" and r: "lp_rep m (pre @ cuts_list cs)"
  shows "\<exists>m'. lpBatchDelete usable m (cuts_ptrs (6 + lp_len pre) cs) = Some m' \<and> lp_rep m' (pre @ cuts_kept cs)"
proof (cases "cs = []")
  case True
  then show ?thesis using r by (simp add: lpBatchDelete_def)
next
  case False
  let ?es = "pre @ cuts_list cs" and ?ks = "pre @ cuts_kept cs" and ?ps = "cuts_ptrs (6 + lp_len pre) cs"
  have le: "lp_len (cuts_kept cs) \<le> lp_len (cuts_list cs)" and len: "length (cuts_list cs) = length (cuts_kept cs) + length cs"
    by (induction cs) auto
  have sub: "list_all lp_val_ok (cuts_list cs) \<Longrightarrow> list_all lp_val_ok (cuts_kept cs)" by (induction cs) auto
  obtain num where num: "lp_rep_num m num ?es" using r by (auto simp: lp_rep_def)
  then have b: "lp_block m (lp_len ?es + 7) num ?es" and nk: "lp_num_ok num (length ?es)" "num < 65536"
      and ok: "list_all lp_val_ok (cuts_list cs)" "list_all lp_val_ok ?ks" and sz: "lp_len ?es + 7 \<le> UINT32_MAX"
    using sub by (auto simp: lp_rep_num_block lp_num_ok_def)
  have h: "mem_has m 0 (lp_head (lp_len ?es + 7) num pre)" "mem_has m (6 + lp_len pre) (lp_body (cuts_list cs) @ [LP_EOF])"
    using b lp_block_head by blast+
  obtain m1 where m1: "batch_move m (6 + lp_len ?es + 1) (6 + lp_len pre) ?ps = Some (m1, 6 + lp_len ?ks + 1)"
      "lp_block m1 (lp_len ?es + 7) num ?ks"
    using batch_move_rep [OF h(1) order_refl h(2) False _ ok(1), of "6 + lp_len ?es + 1"] sz by auto
  obtain m2 where m2: "lpSetTotalBytes m1 (6 + lp_len ?ks + 1) = Some m2" "lp_block m2 (6 + lp_len ?ks + 1) num ?ks"
    using lp_block_set_total [OF m1(2)] by blast
  obtain m3 where m3: "lp_count m2 (- int (length ?ps)) = Some m3"
      "lp_block m3 (6 + lp_len ?ks + 1) (if num = 65535 then 65535 else nat ((int num + - int (length ?ps)) mod 65536)) ?ks"
    using lp_block_count [OF m2(2) nk(2)] by blast
  have "lp_num_ok (if num = 65535 then 65535 else nat ((int num + - int (length ?ps)) mod 65536)) (length ?ks)"
    using nk(1) by (rule lp_num_ok_update) (simp_all add: len)
  moreover have "lp_len ?ks + 7 \<le> UINT32_MAX" using le sz by simp
  moreover have "lp_block m3 (lp_len ?ks + 7) (if num = 65535 then 65535 else nat ((int num + - int (length ?ps)) mod 65536)) ?ks"
    using m3(2) by (simp add: add_ac)
  ultimately obtain m4 where m4: "lpShrinkToFit usable m3 = Some m4" "lp_rep m4 ?ks" using lp_block_shrink [OF u _ _ ok(2)] by blast
  have "?ps = (6 + lp_len pre) # tl ?ps" using False by (cases cs) auto
  moreover have "lpGetTotalBytes m = Some (6 + lp_len ?es + 1)" using lp_rep_bytes [OF r] by (simp add: add_ac)
  moreover have "6 + lp_len ?ks \<le> 6 + lp_len ?es" using le by simp
  ultimately have "lpBatchDelete usable m ?ps = Some m4"
    using lpBatchDelete_run [OF _ _ lp_rep_eof [OF r] m1(1) _ lp_block_eof [OF m1(2)] m2(1) m3(1) m4(1)] by blast
  then show ?thesis using m4(2) by blast
qed

end
