(* ===== verification/Listpack_Validate.thy ===== *)
theory Listpack_Validate
  imports Listpack_Read
begin

text \<open>
  Validation of bytes from an untrusted source. On any block that is initialised up to the given size the
  check ends and reads nothing outside it; and once the deep check has accepted a block, the iteration over it
  with \<^verbatim>\<open>lpFirst\<close> and \<^verbatim>\<open>lpNext\<close> fails no assertion, ends, and every entry can be read inside the block.
\<close>

definition mem_init :: "mem \<Rightarrow> nat \<Rightarrow> bool" where
  "mem_init m n \<longleftrightarrow> n \<le> length m \<and> None \<notin> set (take n m)"

lemma mem_init_byte: "mem_init m n \<Longrightarrow> i < n \<Longrightarrow> \<exists>b. lp_byte m i = Some b"
proof -
  assume "mem_init m n" "i < n"
  then have "m ! i \<in> set (take n m)" "i < length m" by (auto simp: mem_init_def in_set_conv_nth)
  moreover from this have "m ! i \<noteq> None" using \<open>mem_init m n\<close> by (metis mem_init_def)
  ultimately show ?thesis by (simp add: lp_byte_def)
qed

lemma mem_init_read:
  assumes m: "mem_init m n" and n: "p + k \<le> n"
  shows "\<exists>bs. mem_read m p k = Some bs \<and> length bs = k \<and> mem_has m p bs"
proof -
  have "\<exists>bs. mem_has m p bs \<and> length bs = k"
    using n
  proof (induction k arbitrary: p)
    case 0
    then show ?case using m by (intro exI [of _ "[]"]) (auto simp: mem_init_def)
  next
    case (Suc k)
    obtain b where "lp_byte m p = Some b" using mem_init_byte [OF m, of p] Suc.prems by auto
    moreover obtain bs where "mem_has m (p + 1) bs" "length bs = k" using Suc.IH [of "p + 1"] Suc.prems by auto
    ultimately show ?case by (intro exI [of _ "b # bs"]) (simp add: mem_has_Cons)
  qed
  then show ?thesis by (auto simp: mem_has_def)
qed

section \<open>The length at the end of an entry\<close>

lemma decode_backlen_total:
  "mem_init m n \<Longrightarrow> p < n \<Longrightarrow> 28 \<le> 7 * p + shift \<Longrightarrow> \<exists>v. decode_backlen m p val shift = Some v"
proof (induction m p val shift rule: decode_backlen.induct)
  case (1 m p val shift)
  obtain b where b: "lp_byte m p = Some b" using mem_init_byte [OF 1(2,3)] by blast
  show ?case
  proof (cases "b AND 128 = 0 \<or> shift + 7 > 28")
    case True
    then show ?thesis using b by (subst decode_backlen.simps) (auto simp: Let_def)
  next
    case False
    then have "p \<noteq> 0" using 1(4) by auto
    then have "\<exists>v. decode_backlen m (p - 1) (val OR push_bit shift (unat (b AND 127))) (shift + 7) = Some v"
      using 1(1) [OF b refl _ refl] 1(2-4) False by auto
    then show ?thesis using b False \<open>p \<noteq> 0\<close> by (subst decode_backlen.simps) (auto simp: Let_def)
  qed
qed

lemma or_push_mod: "7 \<le> shift \<Longrightarrow> (val OR push_bit shift x) mod 128 = val mod (128 :: nat)"
proof -
  assume s: "7 \<le> shift"
  have "take_bit 7 (push_bit shift x) = 0" using s by (simp add: take_bit_push_bit)
  then have "take_bit 7 (val OR push_bit shift x) = take_bit 7 val" by (simp only: take_bit_or) simp
  then show ?thesis by (simp add: take_bit_eq_mod)
qed

lemma decode_backlen_low:
  "decode_backlen m p val shift = Some v \<Longrightarrow> 7 \<le> shift \<Longrightarrow> v = UINT64_MAX \<or> v mod 128 = val mod 128"
proof (induction m p val shift rule: decode_backlen.induct)
  case (1 m p val shift)
  obtain b where b: "lp_byte m p = Some b" using 1(2) by (subst (asm) decode_backlen.simps) (auto split: option.splits)
  let ?val = "val OR push_bit shift (unat (b AND 127))"
  consider "v = ?val" | "v = UINT64_MAX" | "b AND 128 \<noteq> 0" "\<not> shift + 7 > 28" "p \<noteq> 0" "decode_backlen m (p - 1) ?val (shift + 7) = Some v"
    using 1(2) b by (subst (asm) decode_backlen.simps) (auto simp: Let_def split: if_splits)
  then show ?case
  proof cases
    case 3
    then have "v = UINT64_MAX \<or> v mod 128 = ?val mod 128" using 1(1) [OF b refl _ refl] 1(3) by auto
    then show ?thesis using or_push_mod [OF 1(3)] by simp
  qed (use or_push_mod [OF 1(3)] in auto)
qed

lemma lpDecodeBacklen_low:
  assumes "lpDecodeBacklen m p = Some v" and b: "lp_byte m p = Some b"
  shows "v = UINT64_MAX \<or> v mod 128 = unat b mod 128"
proof -
  have "v = unat (b AND 127) \<or> v = UINT64_MAX \<or> decode_backlen m (p - 1) (unat (b AND 127)) 7 = Some v"
    using assms by (simp add: lpDecodeBacklen_def, subst (asm) decode_backlen.simps) (auto simp: Let_def split: if_splits)
  then show ?thesis using decode_backlen_low [of m "p - 1" "unat (b AND 127)" 7 v] low_bits(4) [of b] by auto
qed


section \<open>One entry\<close>

text \<open>The size of an entry by its first byte.\<close>

lemma size_cases:
  assumes b: "lp_byte m p = Some b" and l: "lpCurrentEncodedSizeBytes b \<noteq> 0" and m: "mem_init m n" and n: "p + lpCurrentEncodedSizeBytes b < n"
    and "b \<noteq> LP_EOF"
  obtains (int) k where "lpCurrentEncodedSizeUnsafe m p = Some k" "1 \<le> k" "k \<le> 9"
      "p + k \<le> n \<Longrightarrow> \<exists>v. lpGet m p None = Some (LpInt v)"
    | (str) k h where "lpCurrentEncodedSizeUnsafe m p = Some (h + k)" "1 \<le> h" "lpGet m p None = Some (LpStr (p + h) k)"
    | (big) k where "b = 0xF0" "str_len_32 m p = Some k" "lpCurrentEncodedSizeUnsafe m p = Some ((5 + k) mod 2 ^ 32)"
      "lpGet m p None = Some (LpStr (p + 5) k)" "p + 5 < n"
proof -
  note defs = lpCurrentEncodedSizeUnsafe_def byte_classes b
  have u: "unat b < 256" by (rule u8_less)
  consider "unat b < 128" | "128 \<le> unat b" "unat b < 192" | "192 \<le> unat b" "unat b < 224" | "224 \<le> unat b" "unat b < 240"
    | "b = 0xF0" | k where "(b, k) \<in> {(0xF1, 2), (0xF2, 3), (0xF3, 4), (0xF4, 8 :: nat)}"
    using l \<open>b \<noteq> LP_EOF\<close> u by (auto simp: lpCurrentEncodedSizeBytes_def byte_classes u8_eq_iff split: if_splits)
  then show thesis
  proof cases
    case 1
    then show ?thesis using int [of 1] get_branches(1) [OF b] by (simp add: defs int_result_None)
  next
    case 2
    then show ?thesis using str [of 1 "unat (b AND 0x3F)"] get_branches(4) [OF b, of "unat (b AND 0x3F)" None] by (simp add: defs str_len_6_def)
  next
    case 3
    have "\<exists>v. lpGet m p None = Some (LpInt v)" if "p + 2 \<le> n"
      using mem_init_byte [OF m, of "p + 1"] that 3 get_branches(2) [OF b 3] by (auto simp: int_result_None)
    then show ?thesis using 3 int [of 2] by (simp add: defs)
  next
    case 4
    then have "p + 1 < n" using n by (simp add: lpCurrentEncodedSizeBytes_def byte_classes)
    then obtain c where c: "lp_byte m (p + 1) = Some c" using mem_init_byte [OF m] by blast
    then show ?thesis
      using 4 str [of 2 "256 * unat (b AND 0x0F) + unat c"] get_branches(5) [OF b, of "256 * unat (b AND 0x0F) + unat c" None]
      by (simp add: defs str_len_12_def)
  next
    case 5
    then have "p + 5 < n" using n by (simp add: lpCurrentEncodedSizeBytes_def byte_classes)
    moreover from this obtain bs where "mem_read m (p + 1) 4 = Some bs" using mem_init_read [OF m, of "p + 1" 4] by auto
    ultimately show ?thesis
      using 5 big [of "nat (le_uint bs)"] get_branches(6) [OF b 5, of "nat (le_uint bs)" None] by (simp add: defs str_len_32_def)
  next
    case (6 k)
    have "\<exists>v. lpGet m p None = Some (LpInt v)" if "p + (k + 1) \<le> n"
      using mem_init_read [OF m, of "p + 1" k] that get_branches(3) [OF b 6] by (auto simp: int_result_None int_bytes_def)
    then show ?thesis using 6 int [of "k + 1"] by (auto simp: defs)
  qed
qed

lemma size_total:
  assumes "lp_byte m p = Some b" and "lpCurrentEncodedSizeBytes b \<noteq> 0" and "mem_init m n" and "p + lpCurrentEncodedSizeBytes b < n"
  shows "\<exists>k. lpCurrentEncodedSizeUnsafe m p = Some k"
proof (cases "b = LP_EOF")
  case True
  then show ?thesis using assms(1) by (simp add: lpCurrentEncodedSizeUnsafe_def byte_classes)
next
  case False
  then show ?thesis by (cases rule: size_cases [OF assms]) auto
qed

lemma lpValidateNext_total:
  assumes m: "mem_init m n"
  shows "\<exists>ok r. lpValidateNext m pp n = Some (ok, r)"
proof (cases pp)
  case None
  then show ?thesis by (auto simp: lpValidateNext_def)
next
  case (Some p)
  show ?thesis
  proof (cases "6 \<le> p \<and> p < n")
    case False
    then show ?thesis using Some by (auto simp: lpValidateNext_def Let_def)
  next
    case True
    then obtain b where b: "lp_byte m p = Some b" using mem_init_byte [OF m] by blast
    show ?thesis
    proof (cases "lpCurrentEncodedSizeBytes b \<noteq> 0 \<and> p + lpCurrentEncodedSizeBytes b < n")
      case False
      then show ?thesis using Some True b by (auto simp: lpValidateNext_def Let_def)
    next
      case l: True
      then obtain k where k: "lpCurrentEncodedSizeUnsafe m p = Some k" using size_total [OF b _ m] by blast
      let ?q = "p + (k + lpEncodeBacklenBytes k)"
      have "\<exists>v. lpDecodeBacklen m (?q - 1) = Some v" if "?q < n"
        unfolding lpDecodeBacklen_def using that True lpEncodeBacklenBytes_bounds(1) [of k]
        by (intro decode_backlen_total [OF m]) auto
      then show ?thesis using Some True b l k by (cases "?q < n") (auto simp: lpValidateNext_def Let_def)
    qed
  qed
qed


text \<open>The entry at \<open>p\<close> can be read, and what it refers to lies before the end of the listpack.\<close>

definition lp_readable :: "mem \<Rightarrow> nat \<Rightarrow> nat \<Rightarrow> bool" where
  "lp_readable m n p \<longleftrightarrow> (\<exists>v. lpGet m p None = Some v \<and>
     (case v of LpInt _ \<Rightarrow> True | LpStr q k \<Rightarrow> q + k < n \<and> mem_read m q k \<noteq> None | LpBuf _ _ \<Rightarrow> False))"

text \<open>The length of a large string is added to the size of the header in 32 bits. A length that wraps around
  cannot agree with the length at the end of the entry.\<close>

lemma large_no_wrap:
  assumes m: "mem_init m n" and k: "str_len_32 m p = Some k" and "lp_byte m p = Some 0xF0" and n: "p + 5 < n"
    and sz: "(5 + k) mod 2 ^ 32 = s" and d: "lpDecodeBacklen m (p + s + lpEncodeBacklenBytes s - 1) = Some v"
    and v: "(v + lpEncodeBacklenBytes s) mod 2 ^ 64 = s + lpEncodeBacklenBytes s"
  shows "5 + k < 2 ^ 32"
proof (rule ccontr)
  assume wrap: "\<not> 5 + k < 2 ^ 32"
  obtain bs where bs: "mem_read m (p + 1) 4 = Some bs" "length bs = 4" "mem_has m (p + 1) bs" using mem_init_read [OF m, of "p + 1" 4] n by auto
  have k': "int k = le_uint bs" using k bs(1) le_uint_range [of bs] by (auto simp: str_len_32_def)
  then have "int k < 4294967296" using le_uint_range [of bs] bs(2) by simp
  then have s: "s < 5" "5 + k = s + 4294967296" using sz wrap by (auto simp: mod_if)
  have one: "lpEncodeBacklenBytes s = 1" using s by (simp add: lpEncodeBacklenBytes_def)
  have v1: "(v + 1) mod 2 ^ 64 = s + 1" using v one by simp
  then have "(v + 1) mod 128 = s + 1" using s mod_mod_cancel [of "128 :: nat" "2 ^ 64" "v + 1"] by simp
  then have v': "v mod 128 = s" "v \<noteq> UINT64_MAX" using v1 by (auto simp: mod_Suc split: if_splits)
  have "bs = le_bytes 4 (int k)" using k' bs(2) le_bytes_le_uint [of bs] by simp
  then have b: "bs = [word_of_int (int k), word_of_int (int k div 256), word_of_int (int k div 256 div 256), word_of_int (int k div 256 div 256 div 256)]"
    by (simp add: eval_nat_numeral)
  have byte: "lp_byte m (p + s) = Some (bs ! (s - 1))" if "s \<noteq> 0"
    using mem_has_byte [OF bs(3), of "s - 1"] that s bs(2) by simp
  consider "s = 0" | "s = 1" "k = 4294967292" | "s = 2" "k = 4294967293" | "s = 3" "k = 4294967294" | "s = 4" "k = 4294967295"
    using s by linarith
  then have "\<exists>c. lp_byte m (p + s) = Some c \<and> unat c mod 128 \<noteq> s"
    by cases (use assms(3) byte b in simp_all)
  then obtain c where "lp_byte m (p + s) = Some c" "unat c mod 128 \<noteq> s" by blast
  then show False using lpDecodeBacklen_low [of m "p + s" v c] d one v' by auto
qed

lemma validate_sound:
  assumes m: "mem_init m n" and v: "lpValidateNext m (Some p) n = Some (True, r)"
  obtains (eof) "lp_byte m p = Some LP_EOF" "r = None"
    | (entry) q where "r = Some q" "6 \<le> p" "p < q" "q < n" "lpSkip m p = Some q" "lp_readable m n p"
      "\<And>b. lp_byte m p = Some b \<Longrightarrow> b \<noteq> LP_EOF"
proof -
  have p: "6 \<le> p" "p < n" using v by (auto simp: lpValidateNext_def Let_def split: if_splits)
  then obtain b where b: "lp_byte m p = Some b" using mem_init_byte [OF m] by blast
  show thesis
  proof (cases "b = LP_EOF")
    case True
    then show thesis using eof v p b by (simp add: lpValidateNext_def)
  next
    case False
    then have l: "lpCurrentEncodedSizeBytes b \<noteq> 0" "p + lpCurrentEncodedSizeBytes b < n"
      using v p b by (auto simp: lpValidateNext_def Let_def split: if_splits)
    then obtain k where k: "lpCurrentEncodedSizeUnsafe m p = Some k" using size_total [OF b _ m] by blast
    let ?q = "p + (k + lpEncodeBacklenBytes k)"
    obtain d where d: "r = Some ?q" "?q < n" "lpDecodeBacklen m (?q - 1) = Some d" "(d + lpEncodeBacklenBytes k) mod 2 ^ 64 = k + lpEncodeBacklenBytes k"
      using v p b False l k by (auto simp: lpValidateNext_def Let_def bind_eq_Some_conv split: if_splits)
    have "p < ?q" using lpEncodeBacklenBytes_bounds(1) [of k] by simp
    moreover have "lpSkip m p = Some ?q" using k by (simp add: lpSkip_def)
    moreover have "lp_readable m n p"
      using b l(1) m l(2) False
    proof (cases rule: size_cases)
      case (int k')
      then show ?thesis using k d(2) by (auto simp: lp_readable_def)
    next
      case (str k' h)
      then show ?thesis using k d(2) mem_init_read [OF m, of "p + h" k'] lpEncodeBacklenBytes_bounds(1) [of k] by (auto simp: lp_readable_def)
    next
      case (big k')
      then have "(5 + k') mod 2 ^ 32 = k" using k by simp
      then have "5 + k' < 2 ^ 32"
        using large_no_wrap [OF m big(2) _ big(5) _ _ d(4)] b big(1) d(3) by (simp add: add.assoc)
      then show ?thesis
        using big k d(2) mem_init_read [OF m, of "p + 5" k'] lpEncodeBacklenBytes_bounds(1) [of k] by (auto simp: lp_readable_def)
    qed
    ultimately show thesis using entry [of ?q] d(1,2) p b False by simp
  qed
qed


section \<open>All entries\<close>

text \<open>A callback that returns on every entry that can be read and keeps an invariant of the user data, and the calls of a
  callback on a list of entries.\<close>

definition cb_safe :: "mem \<Rightarrow> nat \<Rightarrow> 'd listpackValidateEntryCB \<Rightarrow> ('d \<Rightarrow> bool) \<Rightarrow> bool" where
  "cb_safe m n entry_cb P \<longleftrightarrow> (\<forall>q num d. lp_readable m n q \<longrightarrow> P d \<longrightarrow>
     (\<exists>ok d'. call_cb entry_cb q num d = Some (ok, d') \<and> P d'))"

fun run_cb :: "'d listpackValidateEntryCB \<Rightarrow> nat \<Rightarrow> nat list \<Rightarrow> 'd \<Rightarrow> (bool \<times> 'd) option" where
  "run_cb entry_cb num [] d = Some (True, d)"
| "run_cb entry_cb num (p # ps) d = do {
     (ok, d) \<leftarrow> call_cb entry_cb p num d;
     if ok then run_cb entry_cb num ps d else Some (False, d) }"

lemma cb_safe_null: "cb_safe m n None (\<lambda>d. True)"
  by (auto simp: cb_safe_def call_cb_def)

lemma validate_entries_total:
  assumes m: "mem_init m n" and cb: "cb_safe m n entry_cb P"
  shows "p < n \<Longrightarrow> P d \<Longrightarrow> \<exists>r d'. validate_entries m n num entry_cb (Some p) count d = Some (r, d') \<and> P d'"
proof (induction "n - p" arbitrary: p count d rule: less_induct)
  case less
  obtain b where b: "lp_byte m p = Some b" using mem_init_byte [OF m less.prems(1)] by blast
  obtain ok r where r: "lpValidateNext m (Some p) n = Some (ok, r)" using lpValidateNext_total [OF m] by blast
  show ?case
  proof (cases "b = LP_EOF \<or> \<not> ok")
    case True
    then show ?thesis using b r less.prems(2) by (subst validate_entries.simps) auto
  next
    case False
    then obtain q where q: "r = Some q" "p < q" "q < n" "lp_readable m n p"
      using r b by (cases rule: validate_sound [OF m, of p r]) auto
    obtain ok' d1 where d1: "call_cb entry_cb p num d = Some (ok', d1)" "P d1"
      using cb q(4) less.prems(2) unfolding cb_safe_def by blast
    then have "\<exists>s d'. validate_entries m n num entry_cb (Some q) ((count + 1) mod 2 ^ 32) d1 = Some (s, d') \<and> P d'"
      using q less.prems(1) by (intro less.hyps) auto
    then show ?thesis using b r q(1) False d1 by (subst validate_entries.simps) auto
  qed
qed

text \<open>The entries from \<open>p\<close> on: their offsets, each valid and followed by the next one, up to the end byte.\<close>

fun lp_chain :: "mem \<Rightarrow> nat \<Rightarrow> nat \<Rightarrow> nat list \<Rightarrow> bool" where
  "lp_chain m n p [] \<longleftrightarrow> lp_byte m p = Some LP_EOF"
| "lp_chain m n p (q # qs) \<longleftrightarrow> p = q \<and> lp_readable m n p \<and> (\<exists>b. lp_byte m p = Some b \<and> b \<noteq> LP_EOF) \<and>
     (\<exists>p'. p < p' \<and> p' < n \<and> lpSkip m p = Some p' \<and> lpValidateNext m (Some p) n = Some (True, Some p') \<and> lp_chain m n p' qs)"

lemma validate_entries_chain:
  assumes m: "mem_init m n"
  shows "p < n \<Longrightarrow> validate_entries m n num entry_cb (Some p) count d = Some (Some (r, count'), d') \<Longrightarrow> count < 2 ^ 32 \<Longrightarrow>
    \<exists>ps. lp_chain m n p ps \<and> count' = (count + length ps) mod 2 ^ 32 \<and> run_cb entry_cb num ps d = Some (True, d')"
proof (induction "n - p" arbitrary: p count d rule: less_induct)
  case less
  obtain b where b: "lp_byte m p = Some b" using mem_init_byte [OF m less.prems(1)] by blast
  show ?case
  proof (cases "b = LP_EOF")
    case True
    then have "count' = count" "d' = d" using less.prems(2) b by (subst (asm) validate_entries.simps, auto)+
    then show ?thesis using b True less.prems(3) by (intro exI [of _ "[]"]) simp
  next
    case False
    obtain q d1 where q: "lpValidateNext m (Some p) n = Some (True, q)" "call_cb entry_cb p num d = Some (True, d1)"
        "validate_entries m n num entry_cb q ((count + 1) mod 2 ^ 32) d1 = Some (Some (r, count'), d')"
      using less.prems(2) b False by (subst (asm) validate_entries.simps) (auto simp: bind_eq_Some_conv split: if_splits)
    show ?thesis
      using m q(1)
    proof (cases rule: validate_sound)
      case eof
      then show ?thesis using b False by simp
    next
      case (entry p')
      then have "n - p' < n - p" by auto
      from less.hyps [OF this entry(4), of "(count + 1) mod 2 ^ 32" d1] entry(1) q(3)
      obtain ps where "lp_chain m n p' ps" "count' = ((count + 1) mod 2 ^ 32 + length ps) mod 2 ^ 32" "run_cb entry_cb num ps d1 = Some (True, d')"
        by auto
      then show ?thesis
        using entry q(1,2) b False by (intro exI [of _ "p # ps"]) (auto simp: mod_simps)
    qed
  qed
qed

lemma lp_chain_length: "lp_chain m n p ps \<Longrightarrow> p < n \<Longrightarrow> p + length ps < n"
  by (induction ps arbitrary: p) fastforce+

lemma chain_count:
  assumes "lpBytes m = Some n" and "mem_init m n"
  shows "lp_chain m n p ps \<Longrightarrow> p < n \<Longrightarrow> count + length ps < 2 ^ 32 \<Longrightarrow>
    count_entries m (if ps = [] then None else Some p) count = Some (count + length ps)"
    and "lp_chain m n p ps \<Longrightarrow> i < length ps \<Longrightarrow> lp_readable m n (ps ! i) \<and>
      lpNext m (ps ! i) = Some (if i + 1 < length ps then Some (ps ! (i + 1)) else None)"
proof -
  have nxt: "lpNext m p = Some (if qs = [] then None else Some p')"
    if "lpSkip m p = Some p'" "lp_chain m n p' qs" "p' < n" for p p' qs
    using that assms by (cases qs) (auto simp: lpNext_def lpAssertValidEntry_def)
  show "lp_chain m n p ps \<Longrightarrow> p < n \<Longrightarrow> count + length ps < 2 ^ 32 \<Longrightarrow>
      count_entries m (if ps = [] then None else Some p) count = Some (count + length ps)"
  proof (induction ps arbitrary: p count)
    case Nil
    then show ?case by (simp add: count_entries.simps)
  next
    case (Cons q qs)
    then obtain p' where p': "lpSkip m p = Some p'" "lp_chain m n p' qs" "p' < n" by auto
    then show ?case
      using Cons.IH [of p' "count + 1"] Cons.prems nxt [OF p'] by (subst count_entries.simps) auto
  qed
  show "lp_chain m n p ps \<Longrightarrow> i < length ps \<Longrightarrow> lp_readable m n (ps ! i) \<and>
      lpNext m (ps ! i) = Some (if i + 1 < length ps then Some (ps ! (i + 1)) else None)"
  proof (induction ps arbitrary: p i)
    case (Cons q qs)
    then obtain p' where p': "lpSkip m p = Some p'" "lp_chain m n p' qs" "p' < n" by auto
    show ?case
    proof (cases i)
      case 0
      then show ?thesis using Cons.prems nxt [OF p'] p'(2) by (cases qs) auto
    next
      case (Suc j)
      then show ?thesis using Cons.IH [OF p'(2), of j] Cons.prems by simp
    qed
  qed simp
qed


lemma lpValidateIntegrity_ends:
  assumes m: "mem_init m sz" and cb: "cb_safe m sz entry_cb P" and d: "P d"
  shows "\<exists>ok d'. lpValidateIntegrity m sz deep entry_cb d = Some (ok, d') \<and> P d'"
proof (cases "7 \<le> sz")
  case False
  then show ?thesis using d by (auto simp: lpValidateIntegrity_def)
next
  case True
  obtain bs cs where "mem_read m 0 4 = Some bs" "mem_read m 4 2 = Some cs" using mem_init_read [OF m, of 0 4] mem_init_read [OF m, of 4 2] True by auto
  moreover obtain b where "lp_byte m (sz - 1) = Some b" using mem_init_byte [OF m, of "sz - 1"] True by auto
  moreover obtain r d' where "validate_entries m sz (nat (le_uint cs)) entry_cb (Some 6) 0 d = Some (r, d')" "P d'"
    using validate_entries_total [OF m cb, of 6] True d by force
  ultimately show ?thesis
    using d by (cases r) (auto simp: lpValidateIntegrity_def lpGetTotalBytes_def lpGetNumElements_def split: prod.splits)
qed

lemma validated_chain:
  assumes m: "mem_init m sz" and v: "lpValidateIntegrity m sz True entry_cb d = Some (True, d')"
  obtains ps num where "lp_chain m sz 6 ps" "lpBytes m = Some sz" "7 \<le> sz" "length ps < 2 ^ 32" "lpGetNumElements m = Some num"
    "num = LP_HDR_NUMELE_UNKNOWN \<or> num = length ps" "run_cb entry_cb num ps d = Some (True, d')"
proof -
  have sz: "7 \<le> sz" using v by (auto simp: lpValidateIntegrity_def split: if_splits)
  have t: "lpGetTotalBytes m = Some sz" using v by (auto simp: lpValidateIntegrity_def bind_eq_Some_conv split: if_splits)
  obtain num count where num: "lpGetNumElements m = Some num" "validate_entries m sz num entry_cb (Some 6) 0 d = Some (Some (Some (sz - 1), count), d')"
      "num = 65535 \<or> num = count"
  proof -
    obtain num r d1 where "lpGetNumElements m = Some num" "validate_entries m sz num entry_cb (Some 6) 0 d = Some (r, d1)"
        "(case r of None \<Rightarrow> Some (False, d1) | Some (p, count) \<Rightarrow> if p \<noteq> Some (sz - 1) then Some (False, d1)
          else if num \<noteq> 65535 \<and> num \<noteq> count then Some (False, d1) else Some (True, d1)) = Some (True, d')"
      using v t by (auto simp: lpValidateIntegrity_def bind_eq_Some_conv split: if_splits)
    then show thesis using that by (cases r) (auto split: if_splits)
  qed
  obtain ps where ps: "lp_chain m sz 6 ps" "count = (0 + length ps) mod 2 ^ 32" "run_cb entry_cb num ps d = Some (True, d')"
    using validate_entries_chain [OF m _ num(2)] sz by auto
  have "sz < 2 ^ 32"
  proof -
    obtain bs where "mem_read m 0 4 = Some bs" "length bs = 4" "sz = nat (le_uint bs)"
      using t mem_init_read [OF m, of 0 4] sz by (auto simp: lpGetTotalBytes_def)
    then show ?thesis using le_uint_range [of bs] by (simp add: nat_less_iff)
  qed
  then have "length ps < 2 ^ 32" using lp_chain_length [OF ps(1)] sz by simp
  then show thesis using that [OF ps(1) _ sz _ num(1)] num(3) ps(2,3) t by (auto simp: lpBytes_def)
qed

lemma lpValidateIntegrity_safe:
  assumes m: "mem_init m sz" and v: "lpValidateIntegrity m sz True entry_cb d = Some (True, d')"
  shows "\<exists>ps. lpFirst m = Some (if ps = [] then None else Some (hd ps)) \<and>
    (\<forall>i<length ps. lp_readable m sz (ps ! i) \<and> lpNext m (ps ! i) = Some (if i + 1 < length ps then Some (ps ! (i + 1)) else None)) \<and>
    (\<exists>m'. lpLength m = Some (length ps, m'))"
proof -
  obtain ps num where ps: "lp_chain m sz 6 ps" "lpBytes m = Some sz" "7 \<le> sz" "length ps < 2 ^ 32" "lpGetNumElements m = Some num"
      "num = LP_HDR_NUMELE_UNKNOWN \<or> num = length ps"
    using validated_chain [OF assms] by metis
  have first: "lpFirst m = Some (if ps = [] then None else Some 6)"
    using ps(1,2) by (cases ps) (auto simp: lpFirst_def lpAssertValidEntry_def)
  moreover have "\<exists>m'. lpSetNumElements m v = Some m'" for v
    using mem_write_has [of 4 "le_bytes 2 v" m] m ps(3) by (auto simp: mem_init_def lpSetNumElements_def) (metis)
  moreover have "count_entries m (if ps = [] then None else Some 6) 0 = Some (length ps)"
    using chain_count(1) [OF ps(2) m ps(1), of 0] ps(3,4) by simp
  ultimately have "\<exists>m'. lpLength m = Some (length ps, m')" using ps(5,6) by (auto simp: lpLength_def bind_eq_Some_conv)
  moreover have "lpFirst m = Some (if ps = [] then None else Some (hd ps))" using first ps(1) by (cases ps) auto
  ultimately show ?thesis using chain_count(2) [OF ps(2) m ps(1)] by blast
qed

end
