(* ===== verification/Listpack_List.thy ===== *)
theory Listpack_List
  imports Listpack_Batch Listpack_Validate
begin

text \<open>
  The listpack as a list of strings: the contract that the types built on it rely on, and the properties of
  the component. Integers are stored as integers whenever the string is the decimal form of one, so a list
  of strings determines the entries.
\<close>

section \<open>The abstract list\<close>

definition lp_list :: "mem \<Rightarrow> bytes list \<Rightarrow> bool" where
  "lp_list m ss \<longleftrightarrow> lp_rep m (map lp_val_of ss)"

text \<open>The size of a listpack with these strings, and the offset of the \<open>i\<close>-th one.\<close>

definition lp_size :: "bytes list \<Rightarrow> nat" where
  "lp_size ss = lp_len (map lp_val_of ss) + 7"

definition lp_pos :: "bytes list \<Rightarrow> nat \<Rightarrow> nat" where
  "lp_pos ss i = LP_HDR_SIZE + lp_len (map lp_val_of (take i ss))"

definition lp_at :: "bytes list \<Rightarrow> nat \<Rightarrow> nat option" where
  "lp_at ss i = (if i < length ss then Some (lp_pos ss i) else None)"

text \<open>What an update returns: the null pointer when the new listpack would be too large.\<close>

definition lp_result :: "(mem \<times> nat option) option option \<Rightarrow> nat option \<Rightarrow> bytes list \<Rightarrow> bool" where
  "lp_result r p ss \<longleftrightarrow>
     (if lp_size ss > UINT32_MAX then r = Some None else \<exists>m'. r = Some (Some (m', p)) \<and> lp_list m' ss)"

definition lp_result1 :: "mem option option \<Rightarrow> bytes list \<Rightarrow> bool" where
  "lp_result1 r ss \<longleftrightarrow>
     (if lp_size ss > UINT32_MAX then r = Some None else \<exists>m'. r = Some (Some m') \<and> lp_list m' ss)"

lemma lp_result_updated: "lp_updated r p (map lp_val_of ss) \<Longrightarrow> lp_result r p ss"
  by (simp add: lp_updated_def lp_result_def lp_size_def lp_list_def)

lemma lp_result1_grown: "lp_grown r (map lp_val_of ss) \<Longrightarrow> lp_result1 r ss"
  by (simp add: lp_grown_def lp_result1_def lp_size_def lp_list_def)

lemma lp_list_split:
  assumes "lp_list m ss" and "i < length ss"
  shows "lp_rep m (map lp_val_of (take i ss) @ lp_val_of (ss ! i) # map lp_val_of (drop (Suc i) ss))"
  using assms id_take_nth_drop [OF assms(2)] by (metis lp_list_def map_append list.map(2))

lemma lp_list_cut: "lp_list m ss \<Longrightarrow> lp_rep m (map lp_val_of (take i ss) @ map lp_val_of (drop i ss))"
  by (simp add: lp_list_def flip: map_append)

lemma lp_list_entry: "lp_list m ss \<Longrightarrow> i < length ss \<Longrightarrow> entry_at m (lp_pos ss i) (lp_val_of (ss ! i))"
  using lp_rep_entry [OF lp_list_split] by (simp add: lp_pos_def)

lemma lp_val_of_dec: "in_s 64 v \<Longrightarrow> lp_val_of (ll_dec v) = LInt v"
  using lp_val_of_lp_str [of "LInt v"] by simp

lemma lp_at_ptr: "i \<le> length ss \<Longrightarrow> lp_ptr (map lp_val_of (take i ss)) (map lp_val_of (drop i ss)) = lp_at ss i"
  by (auto simp: lp_ptr_def lp_at_def lp_pos_def)

section \<open>Reading\<close>

lemma lpNext_list:
  assumes "lp_list m ss" and "i < length ss"
  shows "lpNext m (lp_pos ss i) = Some (lp_at ss (i + 1))"
proof -
  have "map lp_val_of (take i ss) @ [lp_val_of (ss ! i)] = map lp_val_of (take (Suc i) ss)"
    using assms(2) by (simp add: take_Suc_conv_app_nth)
  then show ?thesis
    using lpNext_rep [OF lp_list_split [OF assms]] lp_at_ptr [of "Suc i" ss] assms(2) by (simp add: lp_pos_def)
qed

lemma lpPrev_list:
  assumes "lp_list m ss" and "i \<le> length ss"
  shows "lpPrev m (lp_pos ss i) = Some (if i = 0 then None else Some (lp_pos ss (i - 1)))"
  using lpPrev_rep [OF lp_list_cut [OF assms(1), of i]] assms(2)
  by (auto simp: lp_pos_def butlast_take map_butlast [symmetric])

lemma lpSeek_list: "lp_list m ss \<Longrightarrow> lpSeek m index = Some (map_option (lp_pos ss) (seek_index index (length ss)))"
  using lpSeek_rep [of m "map lp_val_of ss" index] by (simp add: lp_list_def lp_pos_def [abs_def] take_map)

text \<open>The first position \<open>i\<close>, \<open>i + (skip + 1)\<close>, \<dots> that holds the string.\<close>

definition list_search :: "bytes list \<Rightarrow> nat \<Rightarrow> nat \<Rightarrow> bytes \<Rightarrow> nat option" where
  "list_search ss i skip s = find (\<lambda>j. (j - i) mod (skip + 1) = 0 \<and> ss ! j = s) [i..<length ss]"

lemma find_upt_least:
  "find P [i..<n] = Some j \<longleftrightarrow> i \<le> j \<and> j < n \<and> P j \<and> (\<forall>k. i \<le> k \<and> k < j \<longrightarrow> \<not> P k)"
  "find P [i..<n] = None \<longleftrightarrow> (\<forall>k. i \<le> k \<and> k < n \<longrightarrow> \<not> P k)"
proof -
  show "find P [i..<n] = None \<longleftrightarrow> (\<forall>k. i \<le> k \<and> k < n \<longrightarrow> \<not> P k)" by (auto simp: find_None_iff)
  show "find P [i..<n] = Some j \<longleftrightarrow> i \<le> j \<and> j < n \<and> P j \<and> (\<forall>k. i \<le> k \<and> k < j \<longrightarrow> \<not> P k)"
  proof
    assume "find P [i..<n] = Some j"
    then obtain k where "k < n - i" "P (i + k)" "j = i + k" "\<forall>l<k. \<not> P (i + l)" by (auto simp: find_Some_iff)
    then show "i \<le> j \<and> j < n \<and> P j \<and> (\<forall>k. i \<le> k \<and> k < j \<longrightarrow> \<not> P k)" by (auto simp: le_iff_add)
  next
    assume "i \<le> j \<and> j < n \<and> P j \<and> (\<forall>k. i \<le> k \<and> k < j \<longrightarrow> \<not> P k)"
    then show "find P [i..<n] = Some j" by (auto simp: find_Some_iff intro!: exI [of _ "j - i"])
  qed
qed


lemma list_search_eq:
  assumes "i \<le> length ss"
  shows "map_option ((+) i) (lp_search (\<lambda>e. lp_str e = s) skip 0 (map lp_val_of (drop i ss))) = list_search ss i skip s"
proof -
  let ?es = "map lp_val_of (drop i ss)" and ?P = "\<lambda>e. lp_str e = s"
  note found = lp_search_spec [where k = 0 and skip = skip and P = ?P and es = ?es, OF le0]
  have nth: "lp_str (?es ! k) = ss ! (i + k)" if "k < length ss - i" for k using that assms by simp
  show ?thesis
  proof (cases "lp_search ?P skip 0 ?es")
    case None
    then have none: "k < length ?es \<Longrightarrow> search_hits skip 0 k \<Longrightarrow> lp_str (?es ! k) \<noteq> s" for k using found by simp
    have "\<not> ((k - i) mod (skip + 1) = 0 \<and> ss ! k = s)" if "i \<le> k \<and> k < length ss" for k
      using that nth [of "k - i"] none [of "k - i"] diff_less_mono [of k "length ss" i] by auto
    then have "list_search ss i skip s = None" unfolding list_search_def find_upt_least(2) by (intro allI impI)
    then show ?thesis using None by simp
  next
    case (Some j)
    have f: "j < length ?es \<and> search_hits skip 0 j \<and> lp_str (?es ! j) = s \<and> (\<forall>k<j. search_hits skip 0 k \<longrightarrow> lp_str (?es ! k) \<noteq> s)"
      using found unfolding Some option.case .
    then have j: "j < length ?es" "search_hits skip 0 j" "lp_str (?es ! j) = s" by blast+
    have less: "k < j \<Longrightarrow> search_hits skip 0 k \<Longrightarrow> lp_str (?es ! k) \<noteq> s" for k using f by blast
    have "\<not> ((k - i) mod (skip + 1) = 0 \<and> ss ! k = s)" if "i \<le> k \<and> k < i + j" for k
      using that less [of "k - i"] nth [of "k - i"] j(1) less_diff_conv2 [of i k j] by (auto simp: add.commute)
    moreover have "i \<le> i + j" "i + j < length ss" "(i + j - i) mod (skip + 1) = 0" "ss ! (i + j) = s" using j nth [of j] by auto
    ultimately have "list_search ss i skip s = Some (i + j)" unfolding list_search_def find_upt_least(1) by blast
    then show ?thesis using Some by simp
  qed
qed

lemma lpFind_list:
  assumes "lp_list m ss" and "i < length ss \<or> i = 0"
  shows "lpFind m (lp_at ss i) s skip = Some (map_option (lp_pos ss) (list_search ss i skip s))"
proof -
  have i: "i \<le> length ss" using assms(2) by auto
  have "lpFind m (lp_at ss i) s skip = Some (map_option (\<lambda>j. LP_HDR_SIZE + lp_len (map lp_val_of (take i ss) @ take j (map lp_val_of (drop i ss))))
      (lp_search (\<lambda>e. lp_str e = s) skip 0 (map lp_val_of (drop i ss))))"
    using assms lp_at_ptr [OF i] by (intro lpFind_rep [OF lp_list_cut]) auto
  moreover have "map lp_val_of (take i ss) @ take j (map lp_val_of (drop i ss)) = map lp_val_of (take (i + j) ss)" for j
    by (simp add: take_map take_add)
  ultimately show ?thesis
    unfolding list_search_eq [OF i, symmetric] by (simp add: lp_pos_def [abs_def] option.map_comp comp_def)
qed

section \<open>Writing\<close>

lemma lpInsert_enc_eq:
  "ele_encoding ele = ele_encoding ele' \<Longrightarrow> ele \<noteq> EleNone \<Longrightarrow> ele' \<noteq> EleNone \<Longrightarrow>
    lpInsert usable m ele p wh = lpInsert usable m ele' p wh"
  by (simp add: lpInsert_def)

lemma lpInsertInteger_eq: "in_s 64 v \<Longrightarrow> lpInsertInteger usable m v p wh = lpInsertString usable m (ll_dec v) p wh"
  unfolding lpInsertInteger_def lpInsertString_def
  by (rule lpInsert_enc_eq) (simp_all add: ele_encoding_str lp_val_of_dec, simp add: ele_encoding_def)

lemma lpInsert_list:
  assumes u: "usable_ok usable" and l: "lp_list m ss" and i: "i \<le> length ss"
  shows "lp_result (lpInsertString usable m s (lp_pos ss i) LP_BEFORE) (Some (lp_pos ss i)) (take i ss @ s # drop i ss)"
proof (rule lp_result_updated)
  show "lp_updated (lpInsertString usable m s (lp_pos ss i) LP_BEFORE) (Some (lp_pos ss i)) (map lp_val_of (take i ss @ s # drop i ss))"
    using lpInsert_before [OF u lp_list_cut [OF l, of i] ele_is_str [of s]] unfolding lp_pos_def lpInsertString_def by simp
qed

lemma lp_take_snoc: "i < length ss \<Longrightarrow> map lp_val_of (take i ss) @ [lp_val_of (ss ! i)] = map lp_val_of (take (Suc i) ss)"
  by (simp add: take_Suc_conv_app_nth)

lemma lpInsert_after_list:
  assumes u: "usable_ok usable" and l: "lp_list m ss" and i: "i < length ss"
  shows "lp_result (lpInsertString usable m s (lp_pos ss i) LP_AFTER) (Some (lp_pos ss (i + 1))) (take (i + 1) ss @ s # drop (i + 1) ss)"
proof (rule lp_result_updated)
  show "lp_updated (lpInsertString usable m s (lp_pos ss i) LP_AFTER) (Some (lp_pos ss (i + 1))) (map lp_val_of (take (i + 1) ss @ s # drop (i + 1) ss))"
    using lpInsert_after [OF u lp_list_split [OF l i] ele_is_str [of s]] by (simp add: lp_pos_def lpInsertString_def lp_take_snoc [OF i, symmetric])
qed

lemma lpReplace_list:
  assumes u: "usable_ok usable" and l: "lp_list m ss" and i: "i < length ss"
  shows "lp_result (lpReplace usable m (lp_pos ss i) s) (Some (lp_pos ss i)) (ss[i := s])"
proof (rule lp_result_updated)
  show "lp_updated (lpReplace usable m (lp_pos ss i) s) (Some (lp_pos ss i)) (map lp_val_of (ss[i := s]))"
    using lpReplace_rep [OF u lp_list_split [OF l i], of s] unfolding lp_pos_def upd_conv_take_nth_drop [OF i] by simp
qed

lemma lpDelete_list:
  assumes u: "usable_ok usable" and l: "lp_list m ss" and i: "i < length ss"
  shows "\<exists>m'. lpDelete usable m (lp_pos ss i) = Some (Some (m', lp_at (take i ss @ drop (i + 1) ss) i)) \<and>
    lp_list m' (take i ss @ drop (i + 1) ss)"
proof -
  have "lp_ptr (map lp_val_of (take i ss)) (map lp_val_of (drop (Suc i) ss)) = lp_at (take i ss @ drop (i + 1) ss) i"
    using i by (auto simp: lp_ptr_def lp_at_def lp_pos_def)
  then show ?thesis using lpDelete_rep [OF u lp_list_split [OF l i]] unfolding lp_pos_def lp_list_def by simp
qed


lemma lpAppend_list: "usable_ok usable \<Longrightarrow> lp_list m ss \<Longrightarrow> lp_result1 (lpAppend usable m s) (ss @ [s])"
  using lpAppend_rep [of usable m "map lp_val_of ss" s] by (intro lp_result1_grown) (simp add: lp_list_def)

lemma lpPrepend_list: "usable_ok usable \<Longrightarrow> lp_list m ss \<Longrightarrow> lp_result1 (lpPrepend usable m s) (s # ss)"
  using lpPrepend_rep [of usable m "map lp_val_of ss" s] by (intro lp_result1_grown) (simp add: lp_list_def)

lemma lpFirst_list: "lp_list m ss \<Longrightarrow> lpFirst m = Some (lp_at ss 0)"
  using lpFirst_rep [of m "map lp_val_of ss"] lp_at_ptr [of 0 ss] by (simp add: lp_list_def)

lemma lpLast_list: "lp_list m ss \<Longrightarrow> lpLast m = Some (if ss = [] then None else Some (lp_pos ss (length ss - 1)))"
  using lpLast_rep [of m "map lp_val_of ss"] by (simp add: lp_list_def lp_pos_def butlast_conv_take take_map)

lemma lpLength_list: "lp_list m ss \<Longrightarrow> \<exists>m'. lpLength m = Some (length ss, m') \<and> lp_list m' ss"
  using lpLength_rep [of m "map lp_val_of ss"] by (simp add: lp_list_def)

lemma lpGet_list:
  "lp_list m ss \<Longrightarrow> i < length ss \<Longrightarrow> length buf = LP_INTBUF_SIZE \<Longrightarrow> (lpGet m (lp_pos ss i) (Some buf) \<bind> got_string m) = Some (ss ! i)"
  using lpGet_rep [OF lp_list_entry] by simp

lemma lpDeleteRange_list:
  assumes "usable_ok usable" and "lp_list m ss"
  shows "\<exists>m'. lpDeleteRange usable m index num = Some m' \<and>
    lp_list m' (case seek_index index (length ss) of None \<Rightarrow> ss | Some i \<Rightarrow> take i ss @ drop (i + num) ss)"
  using lpDeleteRange_rep [of usable m "map lp_val_of ss" index num] assms
  by (auto simp: lp_list_def take_map drop_map split: option.splits)

lemma lpMerge_list:
  assumes "usable_ok usable" and "lp_list m ss" and "lp_list m' ts" and "lp_size (ss @ ts) < UINT32_MAX"
  shows "\<exists>t. lpMerge usable m m' = Some t \<and> lp_list t (ss @ ts)"
  using lpMerge_rep [of usable m "map lp_val_of ss" m' "map lp_val_of ts"] assms by (simp add: lp_list_def lp_size_def)

section \<open>Properties\<close>

text \<open>C8. The listpack refines a list of strings: inserting before or after an element, replacing and deleting it,
  and adding at either end, also of an empty listpack, are the list operations, with the pointer to the new element, or to the one after the
  deleted element; when the result would exceed 4 GiB nothing happens and the result is the null pointer.\<close>

theorem listpack_update:
  assumes "usable_ok usable" and "lp_list m ss"
  shows "lp_result1 (lpAppend usable m s) (ss @ [s]) \<and> lp_result1 (lpPrepend usable m s) (s # ss) \<and>
   (i < length ss \<longrightarrow>
    lp_result (lpInsertString usable m s (lp_pos ss i) LP_BEFORE) (Some (lp_pos ss i)) (take i ss @ s # drop i ss) \<and>
    lp_result (lpInsertString usable m s (lp_pos ss i) LP_AFTER) (Some (lp_pos ss (i + 1))) (take (i + 1) ss @ s # drop (i + 1) ss) \<and>
    lp_result (lpReplace usable m (lp_pos ss i) s) (Some (lp_pos ss i)) (ss[i := s]) \<and>
    (\<exists>m'. lpDelete usable m (lp_pos ss i) = Some (Some (m', lp_at (take i ss @ drop (i + 1) ss) i)) \<and>
      lp_list m' (take i ss @ drop (i + 1) ss)))"
  using assms by (intro conjI impI lpInsert_list lpInsert_after_list lpReplace_list lpDelete_list lpAppend_list lpPrepend_list) simp_all

text \<open>A listpack with the elements \<^verbatim>\<open>abc\<close> and \<^verbatim>\<open>-5\<close>.\<close>

definition lp_sample :: mem where
  "lp_sample = map Some [15, 0, 0, 0, 2, 0, 131, 97, 98, 99, 4, 223, 251, 2, 255]"

lemma lp_val_of_samples:
  "lp_val_of [97, 98, 99] = LStr [97, 98, 99]" "lp_val_of [45, 53] = LInt (- 5)" "lp_val_of [55] = LInt 7"
  "lp_entry (LStr [97, 98, 99]) = [131, 97, 98, 99, 4]" "lp_entry (LInt (- 5)) = [223, 251, 2]" "lp_entry (LInt 7) = [7, 1]"
  by (simp_all add: lp_val_of_def lpStringToInt64_def ascii_def wrap_u_def wrap_s_def lp_entry_def lpEncodeString_def
      lpEncodeIntegerGetType_def lpEncodeBacklen_def)

lemma lp_sample_list: "lp_list lp_sample [[97, 98, 99], [45, 53]]"
proof -
  have "lp_val_ok (lp_val_of [97, 98, 99])" "lp_val_ok (lp_val_of [45, 53])" by (rule lp_val_of_ok)+
  moreover have "le_bytes 4 15 = [15, 0, 0, 0]" "le_bytes 2 2 = [2, 0]" by (simp_all add: eval_nat_numeral)
  ultimately have "lp_rep_num lp_sample 2 (map lp_val_of [[97, 98, 99], [45, 53]])"
    by (simp add: lp_rep_num_def lp_sample_def lp_val_of_samples lp_num_ok_def mem_has_alt)
  then show ?thesis by (auto simp: lp_list_def lp_rep_def)
qed


lemma lp_sample_pos: "lp_pos [[97, 98, 99], [45, 53]] 0 = 6" "lp_pos [[97, 98, 99], [45, 53]] (Suc 0) = 11"
  "lp_pos [[97, 98, 99], [45, 53]] (Suc (Suc 0)) = 14"
  by (simp_all add: lp_pos_def lp_val_of_samples)

lemma usable_ok_id: "usable_ok id"
  by (simp add: usable_ok_def)

theorem listpack_update_witness:
  "lp_result (lpInsertString id lp_sample [55] 11 LP_BEFORE) (Some 11) [[97, 98, 99], [55], [45, 53]] \<and>
   lp_result (lpInsertString id lp_sample [55] 11 LP_AFTER) (Some 14) [[97, 98, 99], [45, 53], [55]] \<and>
   lp_result (lpReplace id lp_sample 11 [55]) (Some 11) [[97, 98, 99], [55]] \<and>
   (\<exists>m'. lpDelete id lp_sample 11 = Some (Some (m', None)) \<and> lp_list m' [[97, 98, 99]]) \<and>
   lp_result1 (lpAppend id lp_sample [55]) [[97, 98, 99], [45, 53], [55]] \<and>
   lp_result1 (lpPrepend id lp_sample [55]) [[55], [97, 98, 99], [45, 53]]"
  using listpack_update [OF usable_ok_id lp_sample_list, of "[55]" 1] by (simp add: lp_sample_pos lp_at_def)

text \<open>C26. Reading a listpack: the first and the last element, the next and the previous one, the number of elements,
  the element at an index (negative ones count from the end), and the string of an element are those of the list;
  no assertion fails.\<close>

theorem listpack_read:
  assumes "lp_list m ss" and "i < length ss" and "length buf = LP_INTBUF_SIZE"
  shows "lpFirst m = Some (lp_at ss 0) \<and> lpLast m = Some (Some (lp_pos ss (length ss - 1))) \<and>
    lpNext m (lp_pos ss i) = Some (lp_at ss (i + 1)) \<and>
    lpPrev m (lp_pos ss i) = Some (if i = 0 then None else Some (lp_pos ss (i - 1))) \<and>
    (\<exists>m'. lpLength m = Some (length ss, m') \<and> lp_list m' ss) \<and>
    lpSeek m index = Some (map_option (lp_pos ss) (seek_index index (length ss))) \<and>
    (lpGet m (lp_pos ss i) (Some buf) \<bind> got_string m) = Some (ss ! i)"
proof -
  have "ss \<noteq> []" using assms(2) by auto
  then show ?thesis
    using lpFirst_list [OF assms(1)] lpLast_list [OF assms(1)] lpNext_list [OF assms(1,2)] lpPrev_list [OF assms(1), of i]
      lpLength_list [OF assms(1)] lpSeek_list [OF assms(1), of index] lpGet_list [OF assms] assms(2)
    by simp
qed

theorem listpack_read_witness:
  "lpFirst lp_sample = Some (Some 6) \<and> lpNext lp_sample 6 = Some (Some 11) \<and> lpPrev lp_sample 6 = Some None \<and>
   lpSeek lp_sample (-1) = Some (Some 11) \<and>
   (lpGet lp_sample 6 (Some (replicate LP_INTBUF_SIZE None)) \<bind> got_string lp_sample) = Some [97, 98, 99]"
  using listpack_read [OF lp_sample_list, of 0 "replicate LP_INTBUF_SIZE None" "- 1"]
  by (simp add: lp_sample_pos lp_at_def seek_index_def)

text \<open>C27. \<^verbatim>\<open>lpFind\<close>, started at the element \<open>i\<close> (or at the first, for a null pointer), finds the first of the elements
  \<open>i\<close>, \<open>i + (skip + 1)\<close>, \<dots> that is the string, however it is encoded, and none if there is none.\<close>

theorem listpack_find:
  assumes "lp_list m ss" and "i < length ss \<or> i = 0"
  shows "lpFind m (lp_at ss i) s skip = Some (map_option (lp_pos ss) (list_search ss i skip s))"
  by (rule lpFind_list [OF assms])

theorem listpack_find_witness:
  "lpFind lp_sample (Some 6) [45, 53] 0 = Some (Some 11) \<and> lpFind lp_sample (Some 6) [45, 53] 1 = Some None"
  using listpack_find [OF lp_sample_list, of 0 "[45, 53]" 0] listpack_find [OF lp_sample_list, of 0 "[45, 53]" 1]
  by (simp add: lp_sample_pos lp_at_def list_search_def upt_rec)

text \<open>C28. Deleting a range and merging: \<^verbatim>\<open>lpDeleteRange\<close> removes the elements from an index on, up to the given
  number, and nothing when the index is outside the list; \<^verbatim>\<open>lpMerge\<close> concatenates.\<close>

theorem listpack_ranges:
  assumes "usable_ok usable" and "lp_list m ss" and "lp_list m' ts" and "lp_size (ss @ ts) < UINT32_MAX"
  shows "(\<exists>t. lpDeleteRange usable m index num = Some t \<and>
      lp_list t (case seek_index index (length ss) of None \<Rightarrow> ss | Some i \<Rightarrow> take i ss @ drop (i + num) ss)) \<and>
    (\<exists>t. lpMerge usable m m' = Some t \<and> lp_list t (ss @ ts))"
  using lpDeleteRange_list [OF assms(1,2)] lpMerge_list [OF assms] by blast

theorem listpack_ranges_witness:
  "(\<exists>t. lpDeleteRange id lp_sample (-2) 1 = Some t \<and> lp_list t [[45, 53]]) \<and>
   (\<exists>t. lpMerge id lp_sample lp_sample = Some t \<and> lp_list t [[97, 98, 99], [45, 53], [97, 98, 99], [45, 53]])"
  using listpack_ranges [OF usable_ok_id lp_sample_list lp_sample_list, of "- 2" 1]
  by (simp add: lp_size_def lp_val_of_samples seek_index_def)


text \<open>C29. The batch operations are the same as one operation after the other: \<^verbatim>\<open>lpBatchInsert\<close> puts the elements at one
  place in their order and returns the pointer to the last one, and \<^verbatim>\<open>lpBatchDelete\<close> removes exactly the
  elements at the given pointers, in one pass over the block.\<close>

theorem listpack_batch:
  assumes "usable_ok usable" and "lp_rep m (xs @ ys)" and "entries \<noteq> []" and "list_all batch_ok entries"
    and "lp_rep m' (pre @ cuts_list cs)"
  shows "lp_updated (lpBatchInsert usable m (LP_HDR_SIZE + lp_len xs) LP_BEFORE entries)
      (Some (LP_HDR_SIZE + lp_len (xs @ butlast (map batch_val entries)))) (xs @ map batch_val entries @ ys) \<and>
    (\<exists>t. lpBatchDelete usable m' (cuts_ptrs (LP_HDR_SIZE + lp_len pre) cs) = Some t \<and> lp_rep t (pre @ cuts_kept cs))"
  using lpBatchInsert_before [OF assms(1-4) refl] lpBatchDelete_rep [OF assms(1,5)] by blast

lemma lp_sample_rep: "lp_rep lp_sample [LStr [97, 98, 99], LInt (- 5)]"
  using lp_sample_list by (simp add: lp_list_def lp_val_of_samples)

theorem listpack_batch_witness:
  "lp_updated (lpBatchInsert id lp_sample 11 LP_BEFORE [SVal [55], LVal (- 5)]) (Some 13)
     [LStr [97, 98, 99], LInt 7, LInt (- 5), LInt (- 5)] \<and>
   (\<exists>t. lpBatchDelete id lp_sample [6] = Some t \<and> lp_rep t [LInt (- 5)])"
  using listpack_batch [of id lp_sample "[LStr [97, 98, 99]]" "[LInt (- 5)]" "[SVal [55], LVal (- 5)]" lp_sample "[]"
      "[(LStr [97, 98, 99], [LInt (- 5)])]"] usable_ok_id lp_sample_rep
  by (simp add: batch_ok_def batch_val_def lp_val_of_samples)

text \<open>C30. Storing an integer is storing its decimal form: both give the same bytes.\<close>

theorem listpack_integer:
  assumes "in_s 64 v"
  shows "lpInsertInteger usable m v p wh = lpInsertString usable m (ll_dec v) p wh"
  by (rule lpInsertInteger_eq [OF assms])

theorem listpack_integer_witness:
  "lpInsertInteger id lp_sample 7 6 LP_BEFORE = lpInsertString id lp_sample (ll_dec 7) 6 LP_BEFORE"
  using listpack_integer [of 7 id lp_sample 6 LP_BEFORE] by simp

text \<open>C31. Validation of untrusted bytes: for every block that is initialised up to the given size, and every callback that
  returns on readable entries, the check ends with a verdict, without reading outside the block.\<close>

theorem listpack_validate_total:
  assumes "mem_init m sz" and "cb_safe m sz entry_cb P" and "P d"
  shows "\<exists>ok d'. lpValidateIntegrity m sz deep entry_cb d = Some (ok, d') \<and> P d'"
  by (rule lpValidateIntegrity_ends [OF assms])

theorem listpack_validate_total_witness:
  "\<exists>ok d'. lpValidateIntegrity (map Some [8, 0, 0, 0, 1, 0, 240, 255]) 8 True None () = Some (ok, d')"
  using listpack_validate_total [OF _ cb_safe_null, of "map Some [8, 0, 0, 0, 1, 0, 240, 255]" 8 True "()"] by (auto simp: mem_init_def)

text \<open>C9. What the deep check guarantees: once it has accepted a block, the iteration with \<^verbatim>\<open>lpFirst\<close> and \<^verbatim>\<open>lpNext\<close> visits
  finitely many entries without a failed assertion, \<^verbatim>\<open>lpLength\<close> is their number, and reading each of them gives an
  integer or a string that lies inside the listpack.\<close>

theorem listpack_validate_safe:
  assumes "mem_init m sz" and "lpValidateIntegrity m sz True entry_cb d = Some (True, d')"
  shows "\<exists>ps. lpFirst m = Some (if ps = [] then None else Some (hd ps)) \<and>
    (\<forall>i<length ps. lp_readable m sz (ps ! i) \<and> lpNext m (ps ! i) = Some (if i + 1 < length ps then Some (ps ! (i + 1)) else None)) \<and>
    (\<exists>m'. lpLength m = Some (length ps, m'))"
  by (rule lpValidateIntegrity_safe [OF assms])

text \<open>C32. The deep check accepts every listpack that the operations build.\<close>

theorem listpack_validate_accepts:
  assumes "lp_list m ss"
  shows "lpValidateIntegrity m (lp_size ss) deep None d = Some (True, d)"
  using lpValidateIntegrity_null [of m "map lp_val_of ss" deep d] assms by (simp add: lp_list_def lp_size_def)

theorem listpack_validate_accepts_witness:
  "lpValidateIntegrity lp_sample 15 True None () = Some (True, ())"
  using listpack_validate_accepts [OF lp_sample_list, of True] by (simp add: lp_size_def lp_val_of_samples)

lemma lp_sample_valid: "mem_init lp_sample 15" "lpValidateIntegrity lp_sample 15 True None () = Some (True, ())"
  using lpValidateIntegrity_null [OF lp_sample_rep, of True "()"]
  by (simp_all add: lp_sample_def mem_init_def lp_val_of_samples)

theorem listpack_validate_safe_witness:
  "\<exists>ps m'. lpFirst lp_sample = Some (if ps = [] then None else Some (hd ps)) \<and> lpLength lp_sample = Some (length ps, m')"
  using listpack_validate_safe [OF lp_sample_valid] by blast

end
