(* ===== verification/Set_Type.thy ===== *)
theory Set_Type
  imports Intset Listpack_List Dict_Iter
begin

text \<open>
  Model of the set objects of \<^verbatim>\<open>t_set.c\<close>: a set of strings in one of three encodings, an intset, a listpack or a
  hash table without values, with the conversions between them that the configured limits ask for.

  An operation gets the settings of the server as an argument and returns the new object; it returns \<open>None\<close>
  when an assertion fails or an access is invalid, also when a listpack operation returns the null pointer and the
  code stores it. Freeing the replaced representation has no effect on the model.
\<close>

section \<open>Data\<close>

datatype set_encoding = OBJ_ENCODING_INTSET | OBJ_ENCODING_LISTPACK | OBJ_ENCODING_HT

text \<open>The object: its encoding and the structure that \<^verbatim>\<open>ptr\<close> points to.\<close>

datatype set_obj = SetIntset intset | SetListpack mem | SetHT "(bytes, unit) dict"

fun encoding :: "set_obj \<Rightarrow> set_encoding" where
  "encoding (SetIntset is) = OBJ_ENCODING_INTSET"
| "encoding (SetListpack lp) = OBJ_ENCODING_LISTPACK"
| "encoding (SetHT d) = OBJ_ENCODING_HT"

text \<open>A member as the functions take and return it: a string, with its length, or an integer when the string
  pointer is null. Whether a string is an sds string only decides if it is copied, so it is not kept.\<close>

datatype set_ele = SetStr bytes | SetLl int

text \<open>The settings of the server that the operations read, the sizes and addresses that the allocator chooses,
  and the seeded hash function of \<^verbatim>\<open>dictGenHashFunction\<close>.\<close>

record set_env =
  set_max_intset_entries :: nat
  set_max_listpack_entries :: nat
  set_max_listpack_value :: nat
  can_resize :: dictResizeEnable
  alloc_usable :: "nat \<Rightarrow> nat"
  alloc_addr :: "nat \<Rightarrow> u64"
  try_alloc :: "nat \<Rightarrow> bool"
  sds_addr :: "bytes \<Rightarrow> u64"
  gen_hash :: "bytes \<Rightarrow> u64"

text \<open>The code keeps the lengths in variables of type \<^verbatim>\<open>int\<close>: keys are shorter than \<open>2 ^ 31\<close> bytes, which the
  representation below states of every member.\<close>

definition dictSdsKeyCompare :: "bytes \<Rightarrow> bytes \<Rightarrow> bool" where
  "dictSdsKeyCompare key1 key2 = (if length key1 \<noteq> length key2 then False else key1 = key2)"

definition setDictType :: "(bytes \<Rightarrow> u64) \<Rightarrow> (bytes, unit) dictType" where
  "setDictType dictSdsHash = \<lparr>hashFunction = dictSdsHash, keyDup = None, valDup = None, keyCompare = Some dictSdsKeyCompare,
     keyDestructor = True, valDestructor = False, resizeAllowed = None, rehashingStarted = False,
     rehashingCompleted = False, bucketChanged = False, no_value = True, keys_are_odd = True,
     force_full_rehash = False, storedHashFunction = None, storedKeyCompare = None, onDictRelease = False\<rparr>"

section \<open>Creation\<close>

definition createSetObject :: set_obj where
  "createSetObject = SetHT dictCreate"

definition createIntsetObject :: set_obj where
  "createIntsetObject = SetIntset intsetNew"

definition createSetListpackObject :: "set_env \<Rightarrow> set_obj option" where
  "createSetListpackObject env = map_option SetListpack (lpNew (alloc_usable env) 0)"

definition setTypeCreate :: "set_env \<Rightarrow> bytes \<Rightarrow> nat \<Rightarrow> set_obj option" where
  "setTypeCreate env value size_hint =
     (if string2ll value \<noteq> None \<and> size_hint \<le> set_max_intset_entries env then Some createIntsetObject
      else if size_hint \<le> set_max_listpack_entries env then createSetListpackObject env
      else map_option (\<lambda>(_, d). SetHT d) (dictExpand (setDictType (gen_hash env)) (can_resize env) dictCreate size_hint))"

section \<open>Size and iteration\<close>

text \<open>The length of a listpack may be stored in its header, so the object is returned.\<close>

fun setTypeSize :: "set_obj \<Rightarrow> (nat \<times> set_obj) option" where
  "setTypeSize (SetHT d) = Some (dictSize d, SetHT d)"
| "setTypeSize (SetIntset is) = Some (intsetLen is, SetIntset is)"
| "setTypeSize (SetListpack lp) = map_option (\<lambda>(n, lp). (n, SetListpack lp)) (lpLength lp)"

datatype setTypeIterator = IterHT "(bytes, unit) dictIterator" | IterIntset nat | IterListpack "nat option"

fun setTypeInitIterator :: "set_obj \<Rightarrow> setTypeIterator" where
  "setTypeInitIterator (SetHT d) = IterHT dictGetIterator"
| "setTypeInitIterator (SetIntset is) = IterIntset 0"
| "setTypeInitIterator (SetListpack lp) = IterListpack None"

text \<open>The iterator points to the object, which is passed along.\<close>

fun setTypeReleaseIterator :: "set_env \<Rightarrow> setTypeIterator \<Rightarrow> set_obj \<Rightarrow> set_obj option" where
  "setTypeReleaseIterator env (IterHT di) (SetHT d) = map_option SetHT (dictReleaseIterator (alloc_addr env) di d)"
| "setTypeReleaseIterator env (IterHT di) _ = None"
| "setTypeReleaseIterator env _ setobj = Some setobj"

definition lp_get_ele :: "mem \<Rightarrow> nat \<Rightarrow> set_ele option" where
  "lp_get_ele lp p = do {
     v \<leftarrow> lpGetValue lp p;
     case v of Inl (q, l) \<Rightarrow> map_option SetStr (mem_read lp q l) | Inr n \<Rightarrow> Some (SetLl n) }"

fun setTypeNext :: "set_env \<Rightarrow> setTypeIterator \<Rightarrow> set_obj \<Rightarrow> (set_ele option \<times> setTypeIterator \<times> set_obj) option" where
  "setTypeNext env (IterHT di) (SetHT d) = do {
     (de, di, d) \<leftarrow> dictNext (alloc_addr env) di d;
     if de = ENull then Some (None, IterHT di, SetHT d)
     else do { k \<leftarrow> dictGetKey de; Some (Some (SetStr k), IterHT di, SetHT d) } }"
| "setTypeNext env (IterIntset ii) (SetIntset is) = do {
     v \<leftarrow> intsetGet is ii;
     Some (map_option SetLl v, IterIntset (ii + 1), SetIntset is) }"
| "setTypeNext env (IterListpack lpi) (SetListpack lp) = do {
     lpi' \<leftarrow> (case lpi of None \<Rightarrow> lpFirst lp | Some p \<Rightarrow> lpNext lp p);
     case lpi' of
       None \<Rightarrow> Some (None, IterListpack lpi, SetListpack lp)
     | Some p \<Rightarrow> do { e \<leftarrow> lp_get_ele lp p; Some (Some e, IterListpack (Some p), SetListpack lp) } }"
| "setTypeNext env _ _ = None"

text \<open>The string of an integer, printed by \<^verbatim>\<open>ll2string\<close> into a buffer of this size.\<close>

definition ll_string :: "nat \<Rightarrow> int \<Rightarrow> bytes option" where
  "ll_string n v = do { (buf, len) \<leftarrow> ll2string (replicate n None) v; mem_read buf 0 len }"

fun ele_string :: "nat \<Rightarrow> set_ele \<Rightarrow> bytes option" where
  "ele_string n (SetStr s) = Some s"
| "ele_string n (SetLl v) = ll_string n v"

abbreviation (input) SDS_LLSTR_SIZE :: nat where "SDS_LLSTR_SIZE \<equiv> 21"

definition setTypeNextObject :: "set_env \<Rightarrow> setTypeIterator \<Rightarrow> set_obj \<Rightarrow> (bytes option \<times> setTypeIterator \<times> set_obj) option" where
  "setTypeNextObject env si setobj = do {
     (e, si, setobj) \<leftarrow> setTypeNext env si setobj;
     case e of
       None \<Rightarrow> Some (None, si, setobj)
     | Some e \<Rightarrow> do { s \<leftarrow> ele_string SDS_LLSTR_SIZE e; Some (Some s, si, setobj) } }"

text \<open>A client loop over \<^verbatim>\<open>setTypeNext\<close>, from the initialisation of the iterator to its release. The body \<open>f\<close>
  returns whether to go on.\<close>

partial_function (option) set_loop :: "set_env \<Rightarrow> (set_ele \<Rightarrow> 'a \<Rightarrow> (bool \<times> 'a) option) \<Rightarrow> setTypeIterator \<Rightarrow> set_obj \<Rightarrow> 'a \<Rightarrow>
    ('a \<times> setTypeIterator \<times> set_obj) option" where
  "set_loop env f si setobj acc = do {
     (e, si, setobj) \<leftarrow> setTypeNext env si setobj;
     case e of
       None \<Rightarrow> Some (acc, si, setobj)
     | Some e \<Rightarrow> do {
         (continue, acc) \<leftarrow> f e acc;
         if continue then set_loop env f si setobj acc else Some (acc, si, setobj) } }"

definition set_each :: "set_env \<Rightarrow> (set_ele \<Rightarrow> 'a \<Rightarrow> (bool \<times> 'a) option) \<Rightarrow> set_obj \<Rightarrow> 'a \<Rightarrow> ('a \<times> set_obj) option" where
  "set_each env f setobj acc = do {
     (acc, si, setobj) \<leftarrow> set_loop env f (setTypeInitIterator setobj) setobj acc;
     setobj \<leftarrow> setTypeReleaseIterator env si setobj;
     Some (acc, setobj) }"

section \<open>Conversion\<close>

text \<open>The bodies of the conversion loops.\<close>

definition ht_put :: "set_env \<Rightarrow> set_ele \<Rightarrow> (bytes, unit) dict \<Rightarrow> (bool \<times> (bytes, unit) dict) option" where
  "ht_put env e d = do {
     s \<leftarrow> ele_string SDS_LLSTR_SIZE e;
     (added, d) \<leftarrow> dictAdd (setDictType (gen_hash env)) (can_resize env) d s ();
     if added then Some (True, d) else None }"

definition convert_to_ht :: "set_env \<Rightarrow> set_obj \<Rightarrow> nat \<Rightarrow> bool \<Rightarrow> (bool \<times> set_obj) option" where
  "convert_to_ht env setobj cap panic = do {
     (ok, d) \<leftarrow> (if panic
        then map_option (\<lambda>(_, d). (True, d)) (dictExpand (setDictType (gen_hash env)) (can_resize env) dictCreate cap)
        else dictTryExpand (setDictType (gen_hash env)) (can_resize env) (try_alloc env) dictCreate cap);
     if \<not> ok then Some (False, setobj)
     else do {
       (d, _) \<leftarrow> set_each env (ht_put env) setobj d;
       Some (True, SetHT d) } }"

fun lp_capacity :: "set_obj \<Rightarrow> nat \<Rightarrow> nat option" where
  "lp_capacity (SetIntset is) cap =
     (if intsetLen is > 0 then do {
        v1 \<leftarrow> intsetMin is;
        v2 \<leftarrow> intsetMax is;
        Some (max (lpEstimateBytesRepeatedInteger v1 cap) (lpEstimateBytesRepeatedInteger v2 cap)) }
      else Some (cap * 2))"
| "lp_capacity _ cap = Some (cap * 2)"

definition lp_append_ele :: "set_env \<Rightarrow> mem \<Rightarrow> set_ele \<Rightarrow> mem option" where
  "lp_append_ele env lp e = Option.bind
     (case e of
        SetStr s \<Rightarrow> lpAppend (alloc_usable env) lp s
      | SetLl v \<Rightarrow> lpAppendInteger (alloc_usable env) lp v) (\<lambda>r. r)"

definition lp_put :: "set_env \<Rightarrow> set_ele \<Rightarrow> mem \<Rightarrow> (bool \<times> mem) option" where
  "lp_put env e lp = map_option (\<lambda>lp. (True, lp)) (lp_append_ele env lp e)"

definition convert_to_listpack :: "set_env \<Rightarrow> set_obj \<Rightarrow> nat \<Rightarrow> (bool \<times> set_obj) option" where
  "convert_to_listpack env setobj cap = do {
     estcap \<leftarrow> lp_capacity setobj cap;
     lp \<leftarrow> lpNew (alloc_usable env) estcap;
     (lp, _) \<leftarrow> set_each env (lp_put env) setobj lp;
     Some (True, SetListpack lp) }"

text \<open>The flag of the result is \<^verbatim>\<open>C_OK\<close>.\<close>

definition setTypeConvertAndExpand :: "set_env \<Rightarrow> set_obj \<Rightarrow> set_encoding \<Rightarrow> nat \<Rightarrow> bool \<Rightarrow> (bool \<times> set_obj) option" where
  "setTypeConvertAndExpand env setobj enc cap panic =
     (if encoding setobj = enc then None
      else case enc of
        OBJ_ENCODING_HT \<Rightarrow> convert_to_ht env setobj cap panic
      | OBJ_ENCODING_LISTPACK \<Rightarrow> convert_to_listpack env setobj cap
      | OBJ_ENCODING_INTSET \<Rightarrow> None)"

definition setTypeConvert :: "set_env \<Rightarrow> set_obj \<Rightarrow> set_encoding \<Rightarrow> set_obj option" where
  "setTypeConvert env setobj enc = do {
     (n, setobj) \<leftarrow> setTypeSize setobj;
     map_option snd (setTypeConvertAndExpand env setobj enc n True) }"

definition setTypeMaybeConvert :: "set_env \<Rightarrow> set_obj \<Rightarrow> nat \<Rightarrow> set_obj option" where
  "setTypeMaybeConvert env setobj size_hint =
     (if encoding setobj = OBJ_ENCODING_LISTPACK \<and> size_hint > set_max_listpack_entries env \<or>
         encoding setobj = OBJ_ENCODING_INTSET \<and> size_hint > set_max_intset_entries env
      then map_option snd (setTypeConvertAndExpand env setobj OBJ_ENCODING_HT size_hint True)
      else Some setobj)"

definition intsetMaxEntries :: "set_env \<Rightarrow> nat" where
  "intsetMaxEntries env =
     (let max_entries = set_max_intset_entries env in if max_entries \<ge> 2 ^ 30 then 2 ^ 30 else max_entries)"

definition maybeConvertIntset :: "set_env \<Rightarrow> set_obj \<Rightarrow> set_obj option" where
  "maybeConvertIntset env subject =
     (case subject of
        SetIntset is \<Rightarrow> if intsetLen is > intsetMaxEntries env then setTypeConvert env subject OBJ_ENCODING_HT else Some subject
      | _ \<Rightarrow> None)"

definition intset_put :: "set_ele \<Rightarrow> intset \<Rightarrow> (bool \<times> intset) option" where
  "intset_put e is = do {
     llval \<leftarrow> (case e of SetStr s \<Rightarrow> string2ll s | SetLl v \<Rightarrow> Some v);
     (is, success) \<leftarrow> intsetAdd is llval;
     if success then Some (True, is) else None }"

definition maybeConvertToIntset :: "set_env \<Rightarrow> set_obj \<Rightarrow> set_obj option" where
  "maybeConvertToIntset env setobj =
     (if encoding setobj = OBJ_ENCODING_INTSET then Some setobj
      else do {
        (n, setobj) \<leftarrow> setTypeSize setobj;
        if n > intsetMaxEntries env then Some setobj
        else do {
          (is, _) \<leftarrow> set_each env intset_put setobj intsetNew;
          Some (SetIntset is) } })"

section \<open>Adding a member\<close>

definition add_to_ht :: "set_env \<Rightarrow> (bytes, unit) dict \<Rightarrow> bytes \<Rightarrow> (set_obj \<times> bool) option" where
  "add_to_ht env ht s = do {
     (link, bucket, ht) \<leftarrow> dictFindLink (setDictType (gen_hash env)) (can_resize env) ht s True;
     if link = None then do {
       (_, ht) \<leftarrow> dictSetKeyAtLink (setDictType (gen_hash env)) (can_resize env) ht s (sds_addr env s) (map_option (\<lambda>(t, i). (t, i, 0)) bucket) True;
       Some (SetHT ht, True) }
     else Some (SetHT ht, False) }"

text \<open>The conversion to a hash table and the insertion of the string, which must be new.\<close>

definition convert_and_add :: "set_env \<Rightarrow> set_obj \<Rightarrow> nat \<Rightarrow> bytes \<Rightarrow> (set_obj \<times> bool) option" where
  "convert_and_add env setobj cap s = do {
     (_, setobj) \<leftarrow> setTypeConvertAndExpand env setobj OBJ_ENCODING_HT cap True;
     case setobj of
       SetHT d \<Rightarrow> do {
         (added, d) \<leftarrow> dictAdd (setDictType (gen_hash env)) (can_resize env) d s ();
         if added then Some (SetHT d, True) else None }
     | _ \<Rightarrow> None }"

definition lp_member :: "mem \<Rightarrow> bytes \<Rightarrow> nat option option" where
  "lp_member lp s = do { p \<leftarrow> lpFirst lp; if p \<noteq> None then lpFind lp p s 0 else Some None }"

definition add_to_listpack :: "set_env \<Rightarrow> mem \<Rightarrow> set_ele \<Rightarrow> bytes \<Rightarrow> (set_obj \<times> bool) option" where
  "add_to_listpack env lp e s = do {
     p \<leftarrow> lp_member lp s;
     if p = None then do {
       (n, lp) \<leftarrow> lpLength lp;
       safe \<leftarrow> lpSafeToAdd (Some lp) (length s);
       if n < set_max_listpack_entries env \<and> length s \<le> set_max_listpack_value env \<and> safe
       then map_option (\<lambda>lp. (SetListpack lp, True)) (lp_append_ele env lp e)
       else do { (n, lp) \<leftarrow> lpLength lp; convert_and_add env (SetListpack lp) (n + 1) s } }
     else Some (SetListpack lp, False) }"

definition add_integer :: "set_env \<Rightarrow> intset \<Rightarrow> int \<Rightarrow> (set_obj \<times> bool) option" where
  "add_integer env is v = do {
     (is, success) \<leftarrow> intsetAdd is v;
     if success then map_option (\<lambda>setobj. (setobj, True)) (maybeConvertIntset env (SetIntset is))
     else Some (SetIntset is, False) }"

text \<open>The bounds for the intset as a listpack: the longest member and the estimated size.\<close>

definition intset_bounds :: "intset \<Rightarrow> (nat \<times> nat) option" where
  "intset_bounds is =
     (let n = intsetLen is in
      if n \<noteq> 0 then do {
        hi \<leftarrow> intsetMax is;
        lo \<leftarrow> intsetMin is;
        Some (max (sdigits10 hi) (sdigits10 lo),
          max (lpEstimateBytesRepeatedInteger hi n) (lpEstimateBytesRepeatedInteger lo n)) }
      else Some (0, 0))"

definition add_to_intset :: "set_env \<Rightarrow> intset \<Rightarrow> bytes \<Rightarrow> (set_obj \<times> bool) option" where
  "add_to_intset env is s =
     (case string2ll s of
        Some value \<Rightarrow> add_integer env is value
      | None \<Rightarrow> do {
          (maxelelen, totsize) \<leftarrow> intset_bounds is;
          safe \<leftarrow> lpSafeToAdd None (totsize + length s);
          if intsetLen is < set_max_listpack_entries env \<and> length s \<le> set_max_listpack_value env \<and>
             maxelelen \<le> set_max_listpack_value env \<and> safe
          then do {
            (_, setobj) \<leftarrow> setTypeConvertAndExpand env (SetIntset is) OBJ_ENCODING_LISTPACK (intsetLen is + 1) True;
            case setobj of
              SetListpack lp \<Rightarrow> do {
                lp \<leftarrow> lp_append_ele env lp (SetStr s);
                lp \<leftarrow> lpShrinkToFit (alloc_usable env) lp;
                Some (SetListpack lp, True) }
            | _ \<Rightarrow> None }
          else convert_and_add env (SetIntset is) (intsetLen is + 1) s })"

fun setTypeAddAux :: "set_env \<Rightarrow> set_obj \<Rightarrow> set_ele \<Rightarrow> (set_obj \<times> bool) option" where
  "setTypeAddAux env (SetIntset is) (SetLl v) = add_integer env is v"
| "setTypeAddAux env setobj e = do {
     s \<leftarrow> ele_string LONG_STR_SIZE e;
     case setobj of
       SetHT ht \<Rightarrow> add_to_ht env ht s
     | SetListpack lp \<Rightarrow> add_to_listpack env lp e s
     | SetIntset is \<Rightarrow> add_to_intset env is s }"

definition setTypeAdd :: "set_env \<Rightarrow> set_obj \<Rightarrow> bytes \<Rightarrow> (set_obj \<times> bool) option" where
  "setTypeAdd env subject value = setTypeAddAux env subject (SetStr value)"

section \<open>Removal and membership\<close>

definition remove_integer :: "intset \<Rightarrow> int \<Rightarrow> (set_obj \<times> bool) option" where
  "remove_integer is v = map_option (\<lambda>(is, success). (SetIntset is, success)) (intsetRemove is v)"

fun remove_string :: "set_env \<Rightarrow> set_obj \<Rightarrow> bytes \<Rightarrow> (set_obj \<times> bool) option" where
  "remove_string env (SetHT d) s = do {
     (deleted, d) \<leftarrow> dictDelete (setDictType (gen_hash env)) (can_resize env) d s;
     Some (SetHT d, deleted) }"
| "remove_string env (SetListpack lp) s = do {
     p \<leftarrow> lp_member lp s;
     case p of
       None \<Rightarrow> Some (SetListpack lp, False)
     | Some p \<Rightarrow> do {
         r \<leftarrow> lpDelete (alloc_usable env) lp p;
         (lp, _) \<leftarrow> r;
         Some (SetListpack lp, True) } }"
| "remove_string env (SetIntset is) s =
     (case string2ll s of None \<Rightarrow> Some (SetIntset is, False) | Some v \<Rightarrow> remove_integer is v)"

fun setTypeRemoveAux :: "set_env \<Rightarrow> set_obj \<Rightarrow> set_ele \<Rightarrow> (set_obj \<times> bool) option" where
  "setTypeRemoveAux env (SetIntset is) (SetLl v) = remove_integer is v"
| "setTypeRemoveAux env setobj e = do { s \<leftarrow> ele_string LONG_STR_SIZE e; remove_string env setobj s }"

definition setTypeRemove :: "set_env \<Rightarrow> set_obj \<Rightarrow> bytes \<Rightarrow> (set_obj \<times> bool) option" where
  "setTypeRemove env setobj value = setTypeRemoveAux env setobj (SetStr value)"

text \<open>A lookup in a hash table may move a bucket, so the object is returned.\<close>

fun member_string :: "set_env \<Rightarrow> set_obj \<Rightarrow> bytes \<Rightarrow> (set_obj \<times> bool) option" where
  "member_string env (SetListpack lp) s = do { p \<leftarrow> lp_member lp s; Some (SetListpack lp, p \<noteq> None) }"
| "member_string env (SetIntset is) s =
     (case string2ll s of
        None \<Rightarrow> Some (SetIntset is, False)
      | Some v \<Rightarrow> map_option (\<lambda>b. (SetIntset is, b)) (intsetFind is v))"
| "member_string env (SetHT d) s = do {
     (de, d) \<leftarrow> dictFind (setDictType (gen_hash env)) (can_resize env) d s;
     Some (SetHT d, de \<noteq> ENull) }"

fun setTypeIsMemberAux :: "set_env \<Rightarrow> set_obj \<Rightarrow> set_ele \<Rightarrow> (set_obj \<times> bool) option" where
  "setTypeIsMemberAux env (SetIntset is) (SetLl v) = map_option (\<lambda>b. (SetIntset is, b)) (intsetFind is v)"
| "setTypeIsMemberAux env setobj e = do { s \<leftarrow> ele_string LONG_STR_SIZE e; member_string env setobj s }"

definition setTypeIsMember :: "set_env \<Rightarrow> set_obj \<Rightarrow> bytes \<Rightarrow> (set_obj \<times> bool) option" where
  "setTypeIsMember env subject value = setTypeIsMemberAux env subject (SetStr value)"

section \<open>Copying\<close>

fun setTypeDup :: "set_env \<Rightarrow> set_obj \<Rightarrow> (set_obj \<times> set_obj) option" where
  "setTypeDup env (SetIntset is) = Some (SetIntset is, SetIntset is)"
| "setTypeDup env (SetListpack lp) = do {
     sz \<leftarrow> lpBytes lp;
     bs \<leftarrow> mem_read lp 0 sz;
     new_lp \<leftarrow> mem_write (replicate (alloc_usable env sz) None) 0 bs;
     Some (SetListpack new_lp, SetListpack lp) }"
| "setTypeDup env (SetHT d) = do {
     (_, ht) \<leftarrow> dictExpand (setDictType (gen_hash env)) (can_resize env) dictCreate (dictSize d);
     set_each env (\<lambda>e setobj. case e of
         SetStr s \<Rightarrow> map_option (\<lambda>(setobj, _). (True, setobj)) (setTypeAdd env setobj s)
       | SetLl v \<Rightarrow> None) (SetHT d) (SetHT ht) }"

end
