(* ===== verification/Dict_Link.thy ===== *)
theory Dict_Link
  imports Dict_Correct
begin

text \<open>
  Insertion in two steps, as the set type does it: \<^verbatim>\<open>dictFindLink\<close> looks the key up and returns the bucket it maps to,
  and \<^verbatim>\<open>dictSetKeyAtLink\<close> inserts a new key there. The second step may expand the table first, and then looks the
  bucket up again: it notices every expansion, because each changes the size of a table.
\<close>

lemma dictResize_noticed:
  assumes "dict_inv T d" and "\<not> dictIsRehashing d" and "\<not> force_full_rehash T"
    and "dictResize T cr d sz alloc = Some (ok, failed, d')"
  shows "d' = d \<or> ht_size_exp (ht0 d') \<noteq> ht_size_exp (ht0 d) \<or> ht_size_exp (ht1 d') \<noteq> ht_size_exp (ht1 d)"
proof -
  have "ht_size_exp (ht1 d) = -1" using assms(1,2) by (simp add: dict_inv_def dictReset_def)
  moreover have "dictNextExp sz \<noteq> -1" using dictNextExp_range [of sz] by simp
  ultimately show ?thesis
    using assms(2-4) by (auto simp: dictResize_def Let_def split: if_splits)
qed

lemma dictExpand_noticed:
  assumes "dict_inv T d" and "\<not> force_full_rehash T" and "dictExpand T cr d sz = Some (ok, d')"
  shows "d' = d \<or> ht_size_exp (ht0 d') \<noteq> ht_size_exp (ht0 d) \<or> ht_size_exp (ht1 d') \<noteq> ht_size_exp (ht1 d)"
  using assms(3) dictResize_noticed [OF assms(1) _ assms(2), of cr sz None ok _ d']
  by (auto simp: dictExpand_def dictExpand_raw_def split: if_splits)

lemma dictExpandIfNeeded_noticed:
  assumes "dict_inv T d" and "\<not> force_full_rehash T" and "dictExpandIfNeeded T cr d = Some (b, d')"
  shows "d' = d \<or> ht_size_exp (ht0 d') \<noteq> ht_size_exp (ht0 d) \<or> ht_size_exp (ht1 d') \<noteq> ht_size_exp (ht1 d)"
  using assms(3) dictExpand_noticed [OF assms(1,2)]
  by (auto simp: dictExpandIfNeeded_def Let_def split: if_splits)

text \<open>The bucket of a new key.\<close>

definition key_bucket :: "('k, 'v) dictType \<Rightarrow> ('k, 'v) dict \<Rightarrow> 'k \<Rightarrow> nat \<times> nat" where
  "key_bucket T d key =
     (let t = (if dictIsRehashing d then 1 else 0) in (t, hash_index (dictHashKey T key True) (ht_size_exp (get_ht d t))))"

lemma key_bucket_hash:
  "dictType_ok T norm \<Longrightarrow> (let t = (if dictIsRehashing d then 1 else 0) in
    (t, hash_index (dictHashKey T key f) (ht_size_exp (get_ht d t)))) = key_bucket T d key"
  unfolding key_bucket_def dictType_ok_def by metis

lemma insert_at_bucket:
  assumes T: "dictType_ok T norm" and wf: "dict_wf T norm d" and inv: "dict_inv T d'" and step: "dict_step d d'"
    and e: "0 \<le> ht_size_exp (ht0 d')" and fresh: "\<forall>kv\<in>set (dict_entries d). norm (fst kv) \<noteq> norm key"
  shows "\<exists>l d''. dictInsertKeyAtLink T d' (dup_key T key) (key_bucket T d' key) = Some (l, d'') \<and>
    dict_change T norm d {#} {#(dup_key T key, None)#} d''"
proof -
  let ?k = "dup_key T key" and ?t = "if dictIsRehashing d' then 1 else 0 :: nat"
  have k: "norm ?k = norm key" "dictHashKey T ?k True = dictHashKey T key True" using T by (simp_all add: dictType_ok_def)
  obtain d'' where d'': "dictInsertKeyAtLink T d' ?k (key_bucket T d' key) = Some ((?t, snd (key_bucket T d' key), 0), d'')"
      "dict_inv T d''" "same_settings d' d''" "mset (dict_entries d'') = add_mset (?k, None) (mset (dict_entries d'))"
    using dictInsertKeyAtLink_ok [OF inv e refl, of "snd (key_bucket T d' key)" ?k] k(2) by (auto simp: key_bucket_def Let_def)
  have "dict_change T norm d {#} {#(?k, None)#} d''"
    using d''(3,4) step fresh k(1) by (intro dict_changeI [OF wf d''(2)]) (auto simp: dict_step_settings intro: same_settings_trans)
  with d''(1) show ?thesis by blast
qed

text \<open>The lookup of the bucket after the table was expanded.\<close>

lemma stored_api_simps [simp]:
  "ht0 (d\<lparr>useStoredKeyApi := b\<rparr>) = ht0 d" "ht1 (d\<lparr>useStoredKeyApi := b\<rparr>) = ht1 d"
  "dict_inv T (d\<lparr>useStoredKeyApi := b\<rparr>) = dict_inv T d" "dict_entries (d\<lparr>useStoredKeyApi := b\<rparr>) = dict_entries d"
  "key_bucket T (d\<lparr>useStoredKeyApi := b\<rparr>) key = key_bucket T d key"
  by (simp_all add: dict_inv_def dict_entries_def dictIsRehashing_def key_bucket_def get_ht_def)

lemma dictFindLinkInternal_bucket:
  assumes T: "dictType_ok T norm" and inv: "dict_inv T d" and e: "0 \<le> ht_size_exp (ht0 d)"
    and fresh: "\<forall>kv\<in>set (dict_entries d). norm (fst kv) \<noteq> norm key"
  shows "\<exists>d'. dictFindLinkInternal T cr d key True = Some (None, Some (key_bucket T d' key), d') \<and>
    dict_inv T d' \<and> dict_step d d' \<and> 0 \<le> ht_size_exp (ht0 d')"
proof -
  let ?idx = "hash_index (dictHashKey T key (useStoredKeyApi d)) (ht_size_exp (ht0 d))"
  obtain l b d' where d': "dictFindLinkInternal T cr d key True = Some (l, b, d')" "dict_inv T d'" "dict_step d d'" "found norm d' key l"
      "l = None \<and> 0 \<le> ht_size_exp (ht0 d') \<longrightarrow> b = Some (key_bucket T d' key)"
    using dictFindLinkInternal_ok [OF T inv, of cr key True] unfolding key_bucket_hash [OF T] by blast
  obtain d1 where d1: "dictRehashStepIfNeeded T cr d ?idx = Some d1" "0 \<le> ht_size_exp (ht0 d1)"
    using dictRehashStepIfNeeded_ok [OF inv, of cr "dictHashKey T key (useStoredKeyApi d)"] e by blast
  have "d' = d1" using d'(1) d1(1) by (auto simp: dictFindLinkInternal_def Let_def bind_eq_Some_conv)
  moreover have "l = None"
    using d'(4) fresh set_step [OF d'(3)] link_entry_in [of d'] by (cases l) (auto simp: found_def)
  ultimately show ?thesis using d' d1(2) by auto
qed

lemma dictSetKeyAtLink_new:
  assumes T: "dictType_ok T norm" "\<not> force_full_rehash T" and wf: "dict_wf T norm d" and api: "\<not> useStoredKeyApi d"
    and fresh: "\<forall>kv\<in>set (dict_entries d). norm (fst kv) \<noteq> norm key"
    and b: "b = None \<or> b = Some (key_bucket T d key)"
  shows "\<exists>l d'. dictSetKeyAtLink T cr d key ptr (map_option (\<lambda>(t, i). (t, i, 0)) b) True = Some (l, d') \<and>
    dict_change T norm d {#} {#(dup_key T key, None)#} d'"
proof -
  have inv: "dict_inv T d" using wf by (simp add: dict_wf_def)
  obtain r d1 where d1: "dictExpandIfNeeded T cr d = Some (r, d1)" "resized T d d1" "0 \<le> ht_size_exp (ht0 d1)"
    using dictExpandIfNeeded_ok [OF inv] by blast
  have d1': "dict_inv T d1" "dict_step d d1" using d1(2) by (simp_all add: resized_def)
  define moved where "moved \<longleftrightarrow> ht_size_exp (ht0 d) \<noteq> ht_size_exp (ht0 d1) \<or> ht_size_exp (ht1 d) \<noteq> ht_size_exp (ht1 d1) \<or> b = None"
  show ?thesis
  proof (cases moved)
    case False
    then have "d1 = d" "b = Some (key_bucket T d key)"
      using dictExpandIfNeeded_noticed [OF inv T(2) d1(1)] b by (auto simp: moved_def)
    then show ?thesis
      using insert_at_bucket [OF T(1) wf d1'(1,2) d1(3) fresh] d1(1) False
      by (auto simp: dictSetKeyAtLink_def moved_def split: prod.splits)
  next
    case True
    let ?d = "d1\<lparr>useStoredKeyApi := True\<rparr>"
    obtain d2 where d2: "dictFindLinkInternal T cr ?d key True = Some (None, Some (key_bucket T d2 key), d2)"
        "dict_inv T d2" "dict_step ?d d2" "0 \<le> ht_size_exp (ht0 d2)"
      using dictFindLinkInternal_bucket [OF T(1), of ?d key cr] d1'(1) d1(3) fresh set_step [OF d1'(2)] by auto
    let ?d3 = "d2\<lparr>useStoredKeyApi := False\<rparr>"
    have "dict_step d ?d3" using d2(3) d1'(2) api by (simp add: dict_step_def)
    then show ?thesis
      using insert_at_bucket [OF T(1) wf, of ?d3 key] d2 d1(1) fresh True
      by (auto simp: dictSetKeyAtLink_def moved_def)
  qed
qed

text \<open>Looking a key up with its bucket, and inserting it there if it is new.\<close>

lemma dictFindLink_ok:
  assumes T: "dictType_ok T norm" and wf: "dict_wf T norm d"
  shows "\<exists>l b d'. dictFindLink T cr d key True = Some (l, b, d') \<and> dict_change T norm d {#} {#} d' \<and>
    (l = None \<longleftrightarrow> (\<forall>kv\<in>set (dict_entries d). norm (fst kv) \<noteq> norm key)) \<and>
    (l = None \<longrightarrow> b = None \<or> b = Some (key_bucket T d' key))"
proof (cases "dictSize d = 0")
  case True
  then have "dict_entries d = []" using dictSize_entries [of T d] wf by (simp add: dict_wf_def)
  then show ?thesis using True wf by (auto simp: dictFindLink_def intro!: dict_step_change simp: dict_wf_def)
next
  case False
  have inv: "dict_inv T d" using wf by (simp add: dict_wf_def)
  obtain l b d' where d': "dictFindLinkInternal T cr d key True = Some (l, b, d')" "dict_inv T d'" "dict_step d d'" "found norm d' key l"
      "l = None \<and> 0 \<le> ht_size_exp (ht0 d') \<longrightarrow> b = Some (key_bucket T d' key)"
    using dictFindLinkInternal_ok [OF T inv, of cr key True] unfolding key_bucket_hash [OF T] by blast
  have "link_entry d' k \<in> set (dict_entries d)" if "link_ok d' k" for k
    using link_entry_in [OF that] set_step [OF d'(3)] by simp
  note entry = this
  have "dict_entries d' \<noteq> []" using False dictSize_entries [OF inv] d'(3) by (auto simp: dict_step_def)
  then have "0 \<le> ht_size_exp (ht0 d')" by (rule dict_inv_nonempty [OF d'(2)])
  moreover have "l = None \<longleftrightarrow> (\<forall>kv\<in>set (dict_entries d). norm (fst kv) \<noteq> norm key)"
    using d'(4) set_step [OF d'(3)] entry by (cases l) (auto simp: found_def)
  ultimately show ?thesis using False d' dict_step_change [OF wf d'(2,3)] by (auto simp: dictFindLink_def)
qed

end
