(* ===== verification/Set_Correct.thy ===== *)
theory Set_Correct
  imports Set_Type Dict_Link
begin

text \<open>
  Correctness of the set objects of \<^verbatim>\<open>t_set.c\<close>: in each of the three encodings an object stands for a finite set of
  strings, the iterator visits each member once, the conversions keep the members, and adding, removing and
  testing a member are the operations on sets, whatever conversion the limits cause.
\<close>

section \<open>The members of an object\<close>

fun ele_str :: "set_ele \<Rightarrow> bytes" where
  "ele_str (SetStr s) = s"
| "ele_str (SetLl v) = ll_dec v"

fun ele_ok :: "set_ele \<Rightarrow> bool" where
  "ele_ok (SetStr s) = (length s < 2 ^ 31)"
| "ele_ok (SetLl v) = in_s 64 v"

text \<open>How a listpack returns a string.\<close>

definition lp_ele_of :: "bytes \<Rightarrow> set_ele" where
  "lp_ele_of s = (case lp_val_of s of LInt v \<Rightarrow> SetLl v | LStr s \<Rightarrow> SetStr s)"

definition ht_ok :: "(bytes \<Rightarrow> u64) \<Rightarrow> (bytes, unit) dict \<Rightarrow> bool" where
  "ht_ok h d \<longleftrightarrow> dict_wf (setDictType h) (\<lambda>k. k) d \<and> pauseAutoResize d \<le> 0 \<and> \<not> useStoredKeyApi d"

definition ht_keys :: "(bytes, unit) dict \<Rightarrow> bytes set" where
  "ht_keys d = fst ` set (dict_entries d)"

text \<open>The object is well formed and its members are \<open>es\<close>, in the order of the iterator.\<close>

fun set_lists :: "(bytes \<Rightarrow> u64) \<Rightarrow> set_obj \<Rightarrow> set_ele list \<Rightarrow> bool" where
  "set_lists h (SetIntset is) es \<longleftrightarrow> intset_wf is \<and> is_length is < 2 ^ 31 \<and> es = map SetLl (intset_elems is)"
| "set_lists h (SetListpack lp) es \<longleftrightarrow>
     (\<exists>ss. lp_list lp ss \<and> distinct ss \<and> (\<forall>s\<in>set ss. length s < 2 ^ 31) \<and> es = map lp_ele_of ss)"
| "set_lists h (SetHT d) es \<longleftrightarrow> ht_ok h d \<and> (\<forall>s\<in>ht_keys d. length s < 2 ^ 31) \<and> es = map (SetStr \<circ> fst) (dict_entries d)"

fun set_small :: "set_obj \<Rightarrow> bool" where
  "set_small (SetIntset is) = (is_length is < 2 ^ 29)"
| "set_small _ = True"

text \<open>The object represents the set \<open>A\<close> of strings.\<close>

definition set_rep :: "(bytes \<Rightarrow> u64) \<Rightarrow> set_obj \<Rightarrow> bytes set \<Rightarrow> bool" where
  "set_rep h so A \<longleftrightarrow> set_small so \<and> (\<exists>es. set_lists h so es \<and> A = ele_str ` set es)"

text \<open>The settings: the limit of the intset encoding is below the size at which \<^verbatim>\<open>intsetMoveTail\<close> wraps.\<close>

definition env_ok :: "set_env \<Rightarrow> bool" where
  "env_ok env \<longleftrightarrow> usable_ok (alloc_usable env) \<and> set_max_intset_entries env < 2 ^ 29"

lemma setDictType_ok: "dictType_ok (setDictType h) (\<lambda>k. k)"
  by (auto simp: dictType_ok_def setDictType_def key_matches_def dictGetCmpFunc_def dictHashKey_def dup_key_def dictSdsKeyCompare_def)

lemma setDictType_simps [simp]:
  "\<not> force_full_rehash (setDictType h)" "no_value (setDictType h)" "dup_key (setDictType h) k = k"
  by (simp_all add: setDictType_def dup_key_def)

lemma intset_elems_range: "intset_wf is \<Longrightarrow> v \<in> set (intset_elems is) \<Longrightarrow> in_s 64 v"
  unfolding intset_wf_def intset_rep_def by fastforce

lemma lp_ele_of_str [simp]: "ele_str (lp_ele_of s) = s"
  using lp_val_of_str [of s] by (cases "lp_val_of s") (simp_all add: lp_ele_of_def del: lp_val_of_str)

lemma lp_ele_of_ok: "length s < 2 ^ 31 \<Longrightarrow> ele_ok (lp_ele_of s)"
  using lp_val_of_ok [of s] lp_val_of_str [of s] by (cases "lp_val_of s") (simp_all add: lp_ele_of_def del: lp_val_of_str)

lemma set_lists_ok: "set_lists h so es \<Longrightarrow> distinct (map ele_str es) \<and> (\<forall>e\<in>set es. ele_ok e)"
proof (cases so)
  case (SetIntset iset)
  assume a: "set_lists h so es"
  have "sorted_wrt (<) (intset_elems iset)" using a SetIntset by (simp add: intset_wf_def intset_rep_def)
  then have "distinct (intset_elems iset)" by (simp add: strict_sorted_iff)
  moreover have "inj_on ll_dec (set (intset_elems iset))"
    using a SetIntset intset_elems_range ll_dec_inj by (auto simp: inj_on_def)
  ultimately show ?thesis using a SetIntset intset_elems_range by (auto simp: distinct_map comp_def)
next
  case (SetListpack lp)
  then show "set_lists h so es \<Longrightarrow> ?thesis" using lp_ele_of_ok by (auto simp: comp_def)
next
  case (SetHT d)
  then show "set_lists h so es \<Longrightarrow> ?thesis" by (auto simp: ht_ok_def dict_wf_def comp_def ht_keys_def)
qed

lemma set_lists_card: "set_lists h so es \<Longrightarrow> card (ele_str ` set es) = length es"
  using set_lists_ok [of h so es] distinct_card [of "map ele_str es"] by simp

text \<open>Printing an integer.\<close>

lemma ll_string_ok: "in_s 64 v \<Longrightarrow> ll_string 21 v = Some (ll_dec v)"
  using ll2string_correct(1) [of v "replicate 21 None"] length_ll_dec [of v] by (simp add: ll_string_def mem_read_def)

lemma ele_string_ok: "ele_ok e \<Longrightarrow> ele_string 21 e = Some (ele_str e)"
  by (cases e) (simp_all add: ll_string_ok)

section \<open>Iteration\<close>

text \<open>The loop on the list of members.\<close>

fun fold_until :: "('e \<Rightarrow> 'a \<Rightarrow> (bool \<times> 'a) option) \<Rightarrow> 'e list \<Rightarrow> 'a \<Rightarrow> 'a option" where
  "fold_until f [] acc = Some acc"
| "fold_until f (e # es) acc = do { (continue, acc) \<leftarrow> f e acc; if continue then fold_until f es acc else Some acc }"

text \<open>The iterator is valid and still has to visit \<open>es\<close>.\<close>

fun set_iter :: "set_env \<Rightarrow> set_obj \<Rightarrow> setTypeIterator \<Rightarrow> set_ele list \<Rightarrow> bool" where
  "set_iter env (SetIntset is) (IterIntset i) es \<longleftrightarrow> es = map SetLl (drop i (intset_elems is))"
| "set_iter env (SetListpack lp) (IterListpack p) es \<longleftrightarrow> (\<exists>ss. lp_list lp ss \<and>
     (case p of None \<Rightarrow> es = map lp_ele_of ss
      | Some p \<Rightarrow> \<exists>i<length ss. p = lp_pos ss i \<and> es = map lp_ele_of (drop (i + 1) ss)))"
| "set_iter env (SetHT d) (IterHT it) es \<longleftrightarrow> it_ok (alloc_addr env) d it \<and> \<not> it_safe it \<and>
     es = map (SetStr \<circ> fst) (it_rest d it)"
| "set_iter env _ _ es \<longleftrightarrow> False"

text \<open>The iterator can be released.\<close>

fun iter_valid :: "set_env \<Rightarrow> set_obj \<Rightarrow> setTypeIterator \<Rightarrow> bool" where
  "iter_valid env (SetHT d) (IterHT it) \<longleftrightarrow> it_ok (alloc_addr env) d it \<and> \<not> it_safe it"
| "iter_valid env _ (IterHT it) \<longleftrightarrow> False"
| "iter_valid env _ _ \<longleftrightarrow> True"

lemma lp_ele_rep:
  assumes "lp_list lp ss" and "i < length ss"
  shows "lp_get_ele lp (lp_pos ss i) = Some (lp_ele_of (ss ! i))"
  using lpGetValue_rep [OF lp_list_entry [OF assms]] by (auto simp: lp_get_ele_def lp_ele_of_def split: lp_val.splits)

lemma setTypeNext_intset:
  assumes "set_lists h (SetIntset iset) es0"
  shows "setTypeNext env (IterIntset i) (SetIntset iset) =
    Some (if i < length (intset_elems iset) then Some (SetLl (intset_elems iset ! i)) else None, IterIntset (i + 1), SetIntset iset)"
proof -
  have "intset_rep iset (intset_elems iset)" "length (intset_elems iset) < 2 ^ 31"
    using assms by (simp_all add: intset_wf_def intset_rep_def)
  from intset_get_correct(1) [OF this] show ?thesis by simp
qed

lemma setTypeNext_listpack:
  assumes l: "lp_list lp ss" and p: "p = None \<and> i = 0 \<or> (\<exists>j<length ss. p = Some (lp_pos ss j) \<and> i = Suc j)"
  shows "setTypeNext env (IterListpack p) (SetListpack lp) =
    Some (if i < length ss then Some (lp_ele_of (ss ! i)) else None, IterListpack (if i < length ss then Some (lp_pos ss i) else p), SetListpack lp)"
proof -
  have "(case p of None \<Rightarrow> lpFirst lp | Some p \<Rightarrow> lpNext lp p) = Some (lp_at ss i)"
    using p lpFirst_list [OF l] lpNext_list [OF l] by auto
  then show ?thesis using lp_ele_rep [OF l, of i] by (auto simp: lp_at_def)
qed

lemma setTypeNext_ht:
  assumes d: "ht_ok h d" and it: "it_ok (alloc_addr env) d it" "\<not> it_safe it"
  shows "\<exists>it'. setTypeNext env (IterHT it) (SetHT d) =
      Some (if it_rest d it = [] then None else Some (SetStr (fst (hd (it_rest d it)))), IterHT it', SetHT d) \<and>
    it_ok (alloc_addr env) d it' \<and> \<not> it_safe it' \<and> (it_rest d it \<noteq> [] \<longrightarrow> it_rest d it' = tl (it_rest d it))"
proof -
  have inv: "dict_inv (setDictType h) d" using d by (simp add: ht_ok_def dict_wf_def)
  obtain de it' where n: "dictNext (alloc_addr env) it d = Some (de, it', it_dict it d)" "next_ok (alloc_addr env) d it (it_rest d it) de it'"
    using dictNext_ok [OF inv it(1)] by blast
  have "it_dict it d = d" using it(2) by (simp add: it_dict_def)
  moreover have "dictGetKey de = Some (fst (hd (chain de)))" if "de \<noteq> ENull" using chain_not_null [OF that] by auto
  ultimately show ?thesis using n it(2) by (auto simp: next_ok_def)
qed

lemma setTypeNext_ok:
  assumes l: "set_lists h so es0" and i: "set_iter env so si es"
  shows "\<exists>si'. setTypeNext env si so = Some (if es = [] then None else Some (hd es), si', so) \<and> iter_valid env so si' \<and>
    (es \<noteq> [] \<longrightarrow> set_iter env so si' (tl es))"
  using l i
proof (induction env so si es rule: set_iter.induct)
  case (1 env iset i es)
  then show ?case
    using setTypeNext_intset [OF 1(1), of env i] Cons_nth_drop_Suc [of i "intset_elems iset", symmetric]
    by (cases "i < length (intset_elems iset)") simp_all
next
  case (2 env lp p es)
  then obtain ss where ss: "lp_list lp ss" "case p of None \<Rightarrow> es = map lp_ele_of ss
      | Some p \<Rightarrow> \<exists>i<length ss. p = lp_pos ss i \<and> es = map lp_ele_of (drop (i + 1) ss)" by auto
  then obtain i where i: "p = None \<and> i = 0 \<or> (\<exists>j<length ss. p = Some (lp_pos ss j) \<and> i = Suc j)" "es = map lp_ele_of (drop i ss)"
    by (cases p) auto
  show ?case
  proof (cases "i < length ss")
    case True
    then have "es = lp_ele_of (ss ! i) # map lp_ele_of (drop (Suc i) ss)"
      using i(2) Cons_nth_drop_Suc [OF True, symmetric] by simp
    then show ?thesis using setTypeNext_listpack [OF ss(1) i(1), of env] True ss(1) by auto
  next
    case False
    then show ?thesis using setTypeNext_listpack [OF ss(1) i(1), of env] False i(2) by simp
  qed
next
  case (3 env d it es)
  then show ?case using setTypeNext_ht [of h d env it] by (auto simp: hd_map map_tl comp_def)
qed simp_all

lemma release_ok: "iter_valid env so si \<Longrightarrow> setTypeReleaseIterator env si so = Some so"
  by (induction env so si rule: iter_valid.induct) (auto simp: dictReleaseIterator_def dictResetIterator_def it_ok_def it_begins_def split: if_splits)

lemma set_loop_ok:
  assumes "set_lists h so es0" and "set_iter env so si es" and "iter_valid env so si"
  shows "\<exists>si'. iter_valid env so si' \<and> set_loop env f si so acc = map_option (\<lambda>acc. (acc, si', so)) (fold_until f es acc)"
  using assms
proof (induction es arbitrary: si acc)
  case Nil
  then show ?case using setTypeNext_ok [OF Nil(1,2)] by (subst set_loop.simps) auto
next
  case (Cons e es)
  obtain si1 where si1: "setTypeNext env si so = Some (Some e, si1, so)" "iter_valid env so si1" "set_iter env so si1 es"
    using setTypeNext_ok [OF Cons.prems(1,2)] by auto
  have IH: "\<exists>si'. iter_valid env so si' \<and> set_loop env f si1 so acc' = map_option (\<lambda>acc. (acc, si', so)) (fold_until f es acc')" for acc'
    using Cons.IH [OF Cons.prems(1) si1(3,2)] .
  show ?case
  proof (cases "f e acc")
    case None
    then show ?thesis using si1 by (subst set_loop.simps) auto
  next
    case (Some r)
    obtain continue acc' where r: "r = (continue, acc')" by (cases r)
    show ?thesis
      using Some r si1 IH [of acc'] by (subst set_loop.simps) (cases continue, auto)
  qed
qed

lemma set_iter_init:
  "set_lists h so es \<Longrightarrow> set_iter env so (setTypeInitIterator so) es \<and> iter_valid env so (setTypeInitIterator so)"
  by (cases so) (auto simp: it_ok_def it_begins_def it_rest_def dictGetIterator_def dictInitIterator_def)

lemma set_each_ok:
  assumes "set_lists h so es"
  shows "set_each env f so acc = map_option (\<lambda>acc. (acc, so)) (fold_until f es acc)"
proof -
  have init: "set_iter env so (setTypeInitIterator so) es" "iter_valid env so (setTypeInitIterator so)"
    using set_iter_init [OF assms] by blast+
  obtain si' where "iter_valid env so si'" "set_loop env f (setTypeInitIterator so) so acc = map_option (\<lambda>acc. (acc, si', so)) (fold_until f es acc)"
    using set_loop_ok [OF assms init, of f acc] by (elim exE conjE)
  then show ?thesis using release_ok [of env so si'] by (cases "fold_until f es acc") (simp_all add: set_each_def)
qed

text \<open>The members are determined by the object.\<close>

lemma fold_collect: "fold_until (\<lambda>e acc. Some (True, acc @ [e])) es acc = Some (acc @ es)"
  by (induction es arbitrary: acc) simp_all

lemma set_lists_unique: "set_lists h so es \<Longrightarrow> set_lists h so es' \<Longrightarrow> es = es'"
  using set_each_ok [of h so es undefined "\<lambda>e acc. Some (True, acc @ [e])" "[]"]
    set_each_ok [of h so es' undefined "\<lambda>e acc. Some (True, acc @ [e])" "[]"]
  by (simp add: fold_collect)

section \<open>The hash table\<close>

lemma ht_change:
  assumes "ht_ok h d" and "dict_change (setDictType h) (\<lambda>k. k) d old new d'"
  shows "ht_ok h d'" and "ht_keys d' \<union> fst ` set_mset old = ht_keys d \<union> fst ` set_mset new"
    and "old = {#kv#} \<Longrightarrow> new = {#} \<Longrightarrow> ht_keys d' = ht_keys d - {fst kv}"
proof -
  have ms: "mset (dict_entries d') + old = mset (dict_entries d) + new" using assms(2) by (simp add: dict_change_def)
  show "ht_ok h d'" using assms by (simp add: ht_ok_def dict_change_def same_settings_def)
  show u: "ht_keys d' \<union> fst ` set_mset old = ht_keys d \<union> fst ` set_mset new"
    using arg_cong [OF ms, of "\<lambda>m. fst ` set_mset m"] by (simp add: ht_keys_def image_Un)
  assume one: "old = {#kv#}" "new = {#}"
  have "mset (map fst (kv # dict_entries d')) = mset (map fst (dict_entries d))"
    using arg_cong [OF ms, of "image_mset fst"] one by simp
  moreover have "distinct (map fst (dict_entries d))" using assms(1) by (simp add: ht_ok_def dict_wf_def comp_def)
  ultimately have "distinct (map fst (kv # dict_entries d'))" by (metis mset_eq_imp_distinct_iff)
  then have "fst kv \<notin> ht_keys d'" by (simp add: ht_keys_def)
  then show "ht_keys d' = ht_keys d - {fst kv}" using u one by auto
qed

lemma ht_keep: "ht_ok h d \<Longrightarrow> dict_change (setDictType h) (\<lambda>k. k) d {#} {#} d' \<Longrightarrow> ht_ok h d' \<and> ht_keys d' = ht_keys d"
  using ht_change(1,2) [of h d "{#}" "{#}" d'] by simp

lemma ht_insert:
  "ht_ok h d \<Longrightarrow> dict_change (setDictType h) (\<lambda>k. k) d {#} {#(s, v)#} d' \<Longrightarrow> ht_ok h d' \<and> ht_keys d' = insert s (ht_keys d)"
  using ht_change(1,2) [of h d "{#}" "{#(s, v)#}" d'] by simp

lemma ht_remove:
  "ht_ok h d \<Longrightarrow> dict_change (setDictType h) (\<lambda>k. k) d {#kv#} {#} d' \<Longrightarrow> ht_ok h d' \<and> ht_keys d' = ht_keys d - {fst kv}"
  using ht_change(1) ht_change(3) [OF _ _ refl refl] by blast

lemma fresh_key: "(\<forall>kv\<in>set (dict_entries d). fst kv \<noteq> s) \<longleftrightarrow> s \<notin> ht_keys d"
  by (auto simp: ht_keys_def)

lemma ht_add_ok:
  assumes "ht_ok h d"
  shows "\<exists>d'. dictAdd (setDictType h) cr d s () = Some (s \<notin> ht_keys d, d') \<and> ht_ok h d' \<and> ht_keys d' = insert s (ht_keys d)"
proof -
  have wf: "dict_wf (setDictType h) (\<lambda>k. k) d" "pauseAutoResize d \<le> 0 \<or> 0 \<le> ht_size_exp (ht0 d)"
    using assms by (simp_all add: ht_ok_def)
  have "\<exists>added d'. dictAdd (setDictType h) cr d s () = Some (added, d') \<and> (added \<longleftrightarrow> s \<notin> ht_keys d) \<and>
      dict_change (setDictType h) (\<lambda>k. k) d {#} (if added then {#(s, None)#} else {#}) d'"
    using dictAdd_ok [OF setDictType_ok wf, of cr s "()"] 
    unfolding fresh_key setDictType_simps(3) if_P [OF setDictType_simps(2)] .
  then obtain added d' where d': "dictAdd (setDictType h) cr d s () = Some (added, d')" "added \<longleftrightarrow> s \<notin> ht_keys d"
      "dict_change (setDictType h) (\<lambda>k. k) d {#} (if added then {#(s, None)#} else {#}) d'" by blast
  show ?thesis
  proof (cases added)
    case True
    then show ?thesis using d' ht_insert [OF assms, of s None d'] by simp
  next
    case False
    then show ?thesis using d' ht_keep [OF assms, of d'] by auto
  qed
qed

lemma ht_delete_ok:
  assumes "ht_ok h d"
  shows "\<exists>d'. dictDelete (setDictType h) cr d s = Some (s \<in> ht_keys d, d') \<and> ht_ok h d' \<and> ht_keys d' = ht_keys d - {s}"
proof -
  have wf: "dict_wf (setDictType h) (\<lambda>k. k) d" using assms by (simp add: ht_ok_def)
  obtain he d' where d': "dictGenericDelete (setDictType h) cr d s False = Some (he, d')"
      "if he = ENull then s \<notin> ht_keys d \<and> dict_change (setDictType h) (\<lambda>k. k) d {#} {#} d'
       else hd (chain he) \<in> set (dict_entries d) \<and> fst (hd (chain he)) = s \<and> dict_change (setDictType h) (\<lambda>k. k) d {#hd (chain he)#} {#} d'"
    using dictGenericDelete_ok [OF setDictType_ok wf, of cr s False] unfolding fresh_key by auto
  show ?thesis
  proof (cases "he = ENull")
    case True
    then have "s \<notin> ht_keys d" "dict_change (setDictType h) (\<lambda>k. k) d {#} {#} d'" using d'(2) by auto
    then show ?thesis using d'(1) True ht_keep [OF assms, of d'] by (auto simp: dictDelete_def)
  next
    case False
    then have k: "hd (chain he) \<in> set (dict_entries d)" "fst (hd (chain he)) = s"
        "dict_change (setDictType h) (\<lambda>k. k) d {#hd (chain he)#} {#} d'" using d'(2) by auto
    then have "s \<in> ht_keys d" unfolding ht_keys_def by blast
    then show ?thesis using d'(1) False k ht_remove [OF assms k(3)] by (auto simp: dictDelete_def)
  qed
qed

lemma ht_find_ok:
  assumes "ht_ok h d"
  shows "\<exists>de d'. dictFind (setDictType h) cr d s = Some (de, d') \<and> (de \<noteq> ENull \<longleftrightarrow> s \<in> ht_keys d) \<and> ht_ok h d' \<and> ht_keys d' = ht_keys d"
proof -
  have wf: "dict_wf (setDictType h) (\<lambda>k. k) d" "dict_inv (setDictType h) d" using assms by (simp_all add: ht_ok_def dict_wf_def)
  obtain de d' where d': "dictFind (setDictType h) cr d s = Some (de, d')" "dict_inv (setDictType h) d'" "dict_step d d'"
      "if de = ENull then s \<notin> ht_keys d else hd (chain de) \<in> set (dict_entries d) \<and> fst (hd (chain de)) = s"
    using dictFind_ok [OF setDictType_ok wf(2), of cr s] unfolding fresh_key by metis
  have "de \<noteq> ENull \<longleftrightarrow> s \<in> ht_keys d" using d'(4) unfolding ht_keys_def by (auto split: if_splits)
  then show ?thesis using d'(1) ht_keep [OF assms dict_step_change [OF wf(1) d'(2,3)]] by blast
qed

lemma add_to_ht_ok:
  assumes "ht_ok (gen_hash env) d"
  shows "\<exists>d'. add_to_ht env d s = Some (SetHT d', s \<notin> ht_keys d) \<and> ht_ok (gen_hash env) d' \<and> ht_keys d' = insert s (ht_keys d)"
proof -
  let ?T = "setDictType (gen_hash env)"
  have wf: "dict_wf ?T (\<lambda>k. k) d" using assms by (simp add: ht_ok_def)
  obtain l b d1 where d1: "dictFindLink ?T (can_resize env) d s True = Some (l, b, d1)" "dict_change ?T (\<lambda>k. k) d {#} {#} d1"
      "l = None \<longleftrightarrow> s \<notin> ht_keys d" "l = None \<longrightarrow> b = None \<or> b = Some (key_bucket ?T d1 s)"
    using dictFindLink_ok [OF setDictType_ok wf, of "can_resize env" s] unfolding fresh_key by blast
  have ok1: "ht_ok (gen_hash env) d1" "ht_keys d1 = ht_keys d" using ht_keep [OF assms d1(2)] by auto
  show ?thesis
  proof (cases "l = None")
    case False
    then show ?thesis using d1 ok1 by (auto simp: add_to_ht_def)
  next
    case True
    have wf1: "dict_wf ?T (\<lambda>k. k) d1" "\<not> useStoredKeyApi d1" using ok1(1) by (simp_all add: ht_ok_def)
    have fresh: "\<forall>kv\<in>set (dict_entries d1). fst kv \<noteq> s" using True d1(3) ok1(2) unfolding fresh_key by simp
    obtain l' d' where d': "dictSetKeyAtLink ?T (can_resize env) d1 s (sds_addr env s) (map_option (\<lambda>(t, i). (t, i, 0)) b) True = Some (l', d')"
        "dict_change ?T (\<lambda>k. k) d1 {#} {#(s, None)#} d'"
      using dictSetKeyAtLink_new [OF setDictType_ok setDictType_simps(1) wf1 fresh d1(4) [rule_format, OF True], of "can_resize env" "sds_addr env s"]
      unfolding setDictType_simps by blast
    then show ?thesis using True d1 ok1 ht_insert [OF ok1(1) d'(2)] by (auto simp: add_to_ht_def)
  qed
qed

section \<open>Conversions\<close>

text \<open>The hash table that a conversion fills.\<close>

lemma set_rep_ht: "ht_ok h d \<Longrightarrow> \<forall>s\<in>ht_keys d. length s < 2 ^ 31 \<Longrightarrow> set_rep h (SetHT d) (ht_keys d)"
  by (auto simp: set_rep_def ht_keys_def image_image)

lemma ht_create_ok:
  shows "ht_ok h dictCreate" and "ht_keys dictCreate = {}"
  using dictCreate_wf(1) [of "setDictType h" "\<lambda>k. k"]
  by (simp_all add: ht_ok_def dictCreate_def ht_keys_def dict_entries_def)

lemma ht_resized: "ht_ok h d \<Longrightarrow> resized (setDictType h) d d' \<Longrightarrow> ht_ok h d' \<and> ht_keys d' = ht_keys d"
  using ht_keep [of h d d'] dict_step_change [of "setDictType h" "\<lambda>k. k" d d'] by (simp add: ht_ok_def resized_def)

lemma ht_expand_new:
  "\<exists>ok d. dictExpand (setDictType h) cr dictCreate n = Some (ok, d) \<and> ht_ok h d \<and> ht_keys d = {}"
proof -
  have "dict_inv (setDictType h) (dictCreate :: (bytes, unit) dict)" using ht_create_ok(1) [of h] by (simp add: ht_ok_def dict_wf_def)
  from dictExpand_ok [OF this, of cr n] show ?thesis using ht_resized [OF ht_create_ok(1), of h] ht_create_ok(2) by metis
qed

lemma ht_fill:
  assumes "ht_ok (gen_hash env) d" and "distinct (map ele_str es)" and "\<forall>e\<in>set es. ele_ok e \<and> ele_str e \<notin> ht_keys d"
  shows "\<exists>d'. fold_until (ht_put env) es d = Some d' \<and> ht_ok (gen_hash env) d' \<and> ht_keys d' = ht_keys d \<union> ele_str ` set es"
  using assms
proof (induction es arbitrary: d)
  case Nil
  then show ?case by simp
next
  case (Cons e es)
  then have e: "ele_string SDS_LLSTR_SIZE e = Some (ele_str e)" "ele_str e \<notin> ht_keys d" by (simp_all add: ele_string_ok)
  obtain d1 where d1: "dictAdd (setDictType (gen_hash env)) (can_resize env) d (ele_str e) () = Some (True, d1)"
      "ht_ok (gen_hash env) d1" "ht_keys d1 = insert (ele_str e) (ht_keys d)"
    using ht_add_ok [OF Cons.prems(1), of "can_resize env" "ele_str e"] e(2) by auto
  have "ele_str e' \<noteq> ele_str e" if "e' \<in> set es" for e' using Cons.prems(2) that by (auto simp: image_iff)
  then have "\<forall>e\<in>set es. ele_ok e \<and> ele_str e \<notin> ht_keys d1" using Cons.prems(3) d1(3) by auto
  then show ?case using Cons.IH [OF d1(2)] Cons.prems(2) e(1) d1(1,3) by (auto simp: ht_put_def)
qed

lemma convert_to_ht_ok:
  assumes "set_lists (gen_hash env) so es"
  shows "\<exists>d. convert_to_ht env so cap True = Some (True, SetHT d) \<and> ht_ok (gen_hash env) d \<and> ht_keys d = ele_str ` set es"
proof -
  note es = set_lists_ok [OF assms]
  obtain ok d where d: "dictExpand (setDictType (gen_hash env)) (can_resize env) dictCreate cap = Some (ok, d)"
      "ht_ok (gen_hash env) d" "ht_keys d = {}" using ht_expand_new by blast
  obtain d' where "fold_until (ht_put env) es d = Some d'" "ht_ok (gen_hash env) d'" "ht_keys d' = ele_str ` set es"
    using ht_fill [OF d(2), of es] es d(3) by auto
  then show ?thesis using d(1) by (simp add: convert_to_ht_def set_each_ok [OF assms])
qed

text \<open>The listpack that a conversion fills.\<close>

lemma entry_size_bound: "length (lp_entry (lp_val_of s)) \<le> length s + 10"
proof (cases "lp_val_of s")
  case (LInt v)
  have "length (lp_enc (LInt v)) \<le> 9" by (simp add: lpEncodeIntegerGetType_def Let_def)
  moreover from this have "lpEncodeBacklenBytes (length (lp_enc (LInt v))) \<le> 1"
    by (simp add: lpEncodeBacklenBytes_def del: lp_enc.simps)
  ultimately have "length (lp_entry (LInt v)) \<le> 10" unfolding entry_size by linarith
  then show ?thesis using LInt by simp
next
  case (LStr s')
  then have "s' = s" using lp_val_of_str [of s] by (simp del: lp_val_of_str)
  moreover have "length (lpEncodeString s) \<le> length s + 5" by (simp add: lpEncodeString_def Let_def)
  ultimately show ?thesis using LStr lpEncodeBacklenBytes_bounds(2) [of "length (lpEncodeString s)"] unfolding entry_size by simp
qed

lemma lp_size_snoc: "lp_size (ss @ [s]) \<le> lp_size ss + length s + 10"
  using entry_size_bound [of s] by (simp add: lp_size_def)

lemma lp_size_append: "lp_size ss \<le> lp_size (ss @ ts)"
  by (simp add: lp_size_def)

lemma lp_append_ele_ok:
  assumes "usable_ok (alloc_usable env)" and "lp_list lp ss" and "ele_ok e" and "lp_size (ss @ [ele_str e]) \<le> UINT32_MAX"
  shows "\<exists>lp'. lp_append_ele env lp e = Some lp' \<and> lp_list lp' (ss @ [ele_str e])"
proof (cases e)
  case (SetStr s)
  then show ?thesis using lpAppend_list [OF assms(1,2), of s] assms(4) by (auto simp: lp_append_ele_def lp_result1_def)
next
  case (SetLl v)
  then have "lp_val_of (ll_dec v) = LInt v" using assms(3) lp_val_of_dec by simp
  then have "lp_result1 (lpAppendInteger (alloc_usable env) lp v) (ss @ [ll_dec v])"
    using lpAppendInteger_rep [OF assms(1), of lp "map lp_val_of ss" v] assms(2,3) SetLl
    by (intro lp_result1_grown) (simp add: lp_list_def)
  then show ?thesis using SetLl assms(4) by (auto simp: lp_append_ele_def lp_result1_def)
qed

lemma lp_fill:
  assumes "usable_ok (alloc_usable env)" and "lp_list lp ss" and "\<forall>e\<in>set es. ele_ok e" and "lp_size (ss @ map ele_str es) \<le> UINT32_MAX"
  shows "\<exists>lp'. fold_until (lp_put env) es lp = Some lp' \<and> lp_list lp' (ss @ map ele_str es)"
  using assms
proof (induction es arbitrary: lp ss)
  case (Cons e es)
  have "lp_size (ss @ [ele_str e]) \<le> UINT32_MAX"
    using Cons.prems(4) lp_size_append [of "ss @ [ele_str e]" "map ele_str es"] by simp
  then obtain lp1 where "lp_append_ele env lp e = Some lp1" "lp_list lp1 (ss @ [ele_str e])"
    using lp_append_ele_ok [OF Cons.prems(1,2)] Cons.prems(3) by auto
  then show ?case using Cons.IH [of lp1 "ss @ [ele_str e]"] Cons.prems by (auto simp: lp_put_def)
qed simp

lemma int_entry_size:
  "in_s 64 v \<Longrightarrow> lpEntrySizeInteger v =
    (if 0 \<le> v \<and> v \<le> 127 then 2 else if -4096 \<le> v \<and> v \<le> 4095 then 3 else if in_s 16 v then 4
     else if in_s 24 v then 5 else if in_s 32 v then 6 else 10)"
  by (auto simp: lpEntrySizeInteger_def lpEncodeIntegerGetType_def Let_def lpEncodeBacklenBytes_def)

lemma int_entry_mono:
  assumes "in_s 64 lo" and "in_s 64 hi" and "lo \<le> v" and "v \<le> hi"
  shows "lpEntrySizeInteger v \<le> max (lpEntrySizeInteger lo) (lpEntrySizeInteger hi)"
proof (cases "0 \<le> v")
  case True
  then have "lpEntrySizeInteger v \<le> lpEntrySizeInteger hi" using assms by (simp add: int_entry_size)
  then show ?thesis by simp
next
  case False
  then have "lpEntrySizeInteger v \<le> lpEntrySizeInteger lo" using assms by (simp add: int_entry_size)
  then show ?thesis by simp
qed

lemma intset_list:
  assumes "set_lists h (SetIntset iset) es"
  shows "intset_rep iset (intset_elems iset)" and "intsetLen iset = length (intset_elems iset)"
    and "intset_elems iset \<noteq> [] \<Longrightarrow> intsetMax iset = Some (Max (set (intset_elems iset)))"
    and "intset_elems iset \<noteq> [] \<Longrightarrow> intsetMin iset = Some (Min (set (intset_elems iset)))"
    and "\<forall>v\<in>set (intset_elems iset). in_s 64 v"
proof -
  show rep: "intset_rep iset (intset_elems iset)" using assms by (simp add: intset_wf_def)
  then show "intsetLen iset = length (intset_elems iset)" by (simp add: intset_rep_def intsetLen_def)
  then have "length (intset_elems iset) < 2 ^ 31" using assms by (simp add: intsetLen_def)
  then show "intset_elems iset \<noteq> [] \<Longrightarrow> intsetMax iset = Some (Max (set (intset_elems iset)))"
    and "intset_elems iset \<noteq> [] \<Longrightarrow> intsetMin iset = Some (Min (set (intset_elems iset)))"
    using intset_get_correct(2,3) [OF rep] by blast+
  show "\<forall>v\<in>set (intset_elems iset). in_s 64 v" using assms intset_elems_range by auto
qed

lemma lp_capacity_ok: "set_lists h so es \<Longrightarrow> \<exists>n. lp_capacity so cap = Some n"
proof (cases so)
  case (SetIntset iset)
  assume "set_lists h so es"
  then show ?thesis using intset_list(2-4) [of h iset es] SetIntset by auto
qed auto

lemma convert_to_listpack_ok:
  assumes "usable_ok (alloc_usable env)" and "set_lists h so es" and "lp_size (map ele_str es) \<le> UINT32_MAX"
  shows "\<exists>lp. convert_to_listpack env so cap = Some (True, SetListpack lp) \<and> lp_list lp (map ele_str es)"
proof -
  obtain n where n: "lp_capacity so cap = Some n" using lp_capacity_ok [OF assms(2)] by blast
  obtain lp where lp: "lpNew (alloc_usable env) n = Some lp" "lp_list lp []"
    using lpNew_rep [OF assms(1), of n] by (auto simp: lp_list_def)
  obtain lp' where "fold_until (lp_put env) es lp = Some lp'" "lp_list lp' (map ele_str es)"
    using lp_fill [OF assms(1) lp(2), of es] set_lists_ok [OF assms(2)] assms(3) by auto
  then show ?thesis using n lp(1) by (simp add: convert_to_listpack_def set_each_ok [OF assms(2)])
qed

text \<open>The estimate bounds the size of an intset as a listpack.\<close>

lemma lp_len_le: "\<forall>e\<in>set es. length (lp_entry e) \<le> b \<Longrightarrow> lp_len es \<le> b * length es"
  by (induction es) auto

lemma intset_bounds_ok:
  assumes "set_lists h (SetIntset iset) es"
  shows "\<exists>m t. intset_bounds iset = Some (m, t) \<and> lp_size (map ele_str es) \<le> t + 7"
proof (cases "intset_elems iset = []")
  case True
  then show ?thesis using intset_list(2) [OF assms] assms by (simp add: intset_bounds_def lp_size_def)
next
  case False
  let ?vs = "intset_elems iset"
  define lo hi where "lo = Min (set ?vs)" and "hi = Max (set ?vs)"
  define b where "b = max (lpEntrySizeInteger lo) (lpEntrySizeInteger hi)"
  have lohi: "in_s 64 lo" "in_s 64 hi" using intset_list(5) [OF assms] False Min_in [of "set ?vs"] Max_in [of "set ?vs"] by (simp_all add: lo_def hi_def)
  have es: "map lp_val_of (map ele_str es) = map LInt ?vs"
    using intset_list(5) [OF assms] assms lp_val_of_dec by auto
  have "length (lp_entry (LInt v)) \<le> b" if "v \<in> set ?vs" for v
  proof -
    have "length (lp_entry (LInt v)) = lpEntrySizeInteger v" by (simp add: entry_size lpEntrySizeInteger_def Let_def)
    then show ?thesis using int_entry_mono [OF lohi, of v] that by (simp add: b_def lo_def hi_def)
  qed
  then have "lp_len (map LInt ?vs) \<le> b * length ?vs" using lp_len_le [of "map LInt ?vs" b] by simp
  then have "lp_size (map ele_str es) \<le> b * length ?vs + 7" unfolding lp_size_def es by simp
  moreover have "b * length ?vs + 7 \<le> max (lpEstimateBytesRepeatedInteger hi (length ?vs)) (lpEstimateBytesRepeatedInteger lo (length ?vs)) + 7"
    by (auto simp: b_def lpEstimateBytesRepeatedInteger_def max_def)
  ultimately show ?thesis
    using intset_list(2-4) [OF assms] False unfolding intset_bounds_def Let_def lo_def [symmetric] hi_def [symmetric] by auto
qed

section \<open>Adding a member\<close>

lemma ele_short: "ele_ok e \<Longrightarrow> length (ele_str e) < 2 ^ 31"
  using length_ll_dec by (cases e) fastforce+

lemma set_rep_listpack:
  "lp_list lp ss \<Longrightarrow> distinct ss \<Longrightarrow> \<forall>s\<in>set ss. length s < 2 ^ 31 \<Longrightarrow> set_rep h (SetListpack lp) (set ss)"
  unfolding set_rep_def by (intro conjI exI [of _ "map lp_ele_of ss"]) (auto simp: image_image)

lemma set_lists_short: "set_lists h so es \<Longrightarrow> \<forall>s\<in>ele_str ` set es. length s < 2 ^ 31"
  using set_lists_ok [of h so es] ele_short by blast

lemma convert_and_add_ok:
  assumes "set_lists (gen_hash env) so es" and "encoding so \<noteq> OBJ_ENCODING_HT" and "s \<notin> ele_str ` set es" and "length s < 2 ^ 31"
  shows "\<exists>so'. convert_and_add env so cap s = Some (so', True) \<and> set_rep (gen_hash env) so' (insert s (ele_str ` set es))"
proof -
  obtain d where d: "convert_to_ht env so cap True = Some (True, SetHT d)" "ht_ok (gen_hash env) d" "ht_keys d = ele_str ` set es"
    using convert_to_ht_ok [OF assms(1)] by blast
  obtain d' where d': "dictAdd (setDictType (gen_hash env)) (can_resize env) d s () = Some (True, d')" "ht_ok (gen_hash env) d'" "ht_keys d' = insert s (ht_keys d)"
    using ht_add_ok [OF d(2), of "can_resize env" s] assms(3) d(3) by auto
  have "set_rep (gen_hash env) (SetHT d') (ht_keys d')"
    using d' d(3) set_lists_short [OF assms(1)] assms(4) by (intro set_rep_ht) auto
  then show ?thesis
    using assms(2) d d' by (simp add: convert_and_add_def setTypeConvertAndExpand_def)
qed

lemma set_rep_intset:
  "intset_wf iset \<Longrightarrow> is_length iset < 2 ^ 29 \<Longrightarrow> set_rep h (SetIntset iset) (ll_dec ` set (intset_elems iset))"
  by (auto simp: set_rep_def image_image)

lemma ll_dec_mem: "intset_wf iset \<Longrightarrow> in_s 64 v \<Longrightarrow> ll_dec v \<in> ll_dec ` set (intset_elems iset) \<longleftrightarrow> v \<in> set (intset_elems iset)"
  using ll_dec_inj intset_elems_range by blast

lemma intset_wf_card29: "intset_wf iset \<Longrightarrow> is_length iset < 2 ^ 29 \<Longrightarrow> card (set (intset_elems iset)) < 2 ^ 29"
  using intset_wf_length by simp

lemma add_integer_ok:
  assumes env: "env_ok env" and wf: "intset_wf iset" "is_length iset < 2 ^ 29" and v: "in_s 64 v"
  shows "\<exists>so'. add_integer env iset v = Some (so', v \<notin> set (intset_elems iset)) \<and>
    set_rep (gen_hash env) so' (insert (ll_dec v) (ll_dec ` set (intset_elems iset)))"
proof -
  obtain is' where is': "intsetAdd iset v = Some (is', v \<notin> set (intset_elems iset))" "intset_wf is'"
      "set (intset_elems is') = insert v (set (intset_elems iset))"
    using intset_set.add_ok [OF wf(1) intset_wf_card29 [OF wf] v] by blast
  have len: "is_length is' \<le> is_length iset + 1"
    using is'(3) intset_wf_length [OF is'(2)] intset_wf_length [OF wf(1)] by (metis card_insert_le_m1 card_insert_if finite_set le_add1 Suc_eq_plus1 order_refl)
  have ins: "ll_dec ` set (intset_elems is') = insert (ll_dec v) (ll_dec ` set (intset_elems iset))" using is'(3) by simp
  show ?thesis
  proof (cases "v \<in> set (intset_elems iset)")
    case True
    then have "is_length is' < 2 ^ 29" using is'(3) intset_wf_length [OF is'(2)] intset_wf_length [OF wf(1)] wf(2) by (simp add: insert_absorb)
    then show ?thesis using is' True ins set_rep_intset [OF is'(2), of "gen_hash env"] by (simp add: add_integer_def)
  next
    case False
    have l: "set_lists (gen_hash env) (SetIntset is') (map SetLl (intset_elems is'))" using is'(2) len wf(2) by simp
    show ?thesis
    proof (cases "intsetLen is' > intsetMaxEntries env")
      case True
      obtain d where d: "convert_to_ht env (SetIntset is') (intsetLen is') True = Some (True, SetHT d)" "ht_ok (gen_hash env) d"
          "ht_keys d = ll_dec ` set (intset_elems is')"
        using convert_to_ht_ok [OF l, of "intsetLen is'"] by (auto simp: image_image)
      then have "set_rep (gen_hash env) (SetHT d) (ll_dec ` set (intset_elems is'))"
        using set_rep_ht [OF d(2)] set_lists_short [OF l] by (simp add: image_image)
      then show ?thesis using True False is'(1) d(1) ins
        by (simp add: add_integer_def maybeConvertIntset_def setTypeConvert_def setTypeConvertAndExpand_def)
    next
      case fits: False
      then have "is_length is' < 2 ^ 29" using env by (auto simp: intsetMaxEntries_def env_ok_def intsetLen_def Let_def split: if_splits)
      then show ?thesis using fits False is' ins set_rep_intset [OF is'(2), of "gen_hash env"] by (simp add: add_integer_def maybeConvertIntset_def)
    qed
  qed
qed

lemma lp_member_ok:
  assumes "lp_list lp ss"
  shows "lp_member lp s = Some (map_option (lp_pos ss) (list_search ss 0 0 s))"
proof (cases "ss = []")
  case True
  then show ?thesis using lpFirst_list [OF assms] by (simp add: lp_member_def lp_at_def list_search_def)
next
  case False
  then have "lpFirst lp = Some (lp_at ss 0)" "lp_at ss 0 \<noteq> None" using lpFirst_list [OF assms] by (simp_all add: lp_at_def)
  then show ?thesis using lpFind_list [OF assms, of 0 s 0] by (simp add: lp_member_def)
qed

lemma list_search_mem: "list_search ss 0 0 s = None \<longleftrightarrow> s \<notin> set ss"
  by (auto simp: list_search_def find_None_iff in_set_conv_nth)

lemma list_search_at: "list_search ss 0 0 s = Some i \<Longrightarrow> i < length ss \<and> ss ! i = s"
  by (auto simp: list_search_def find_upt_least)

lemma add_to_listpack_ok:
  assumes env: "env_ok env" and lp: "lp_list lp ss" "distinct ss" "\<forall>s\<in>set ss. length s < 2 ^ 31" and e: "ele_ok e"
  shows "\<exists>so'. add_to_listpack env lp e (ele_str e) = Some (so', ele_str e \<notin> set ss) \<and> set_rep (gen_hash env) so' (insert (ele_str e) (set ss))"
proof (cases "ele_str e \<in> set ss")
  case True
  then show ?thesis using lp_member_ok [OF lp(1), of "ele_str e"] list_search_mem [of ss "ele_str e"] set_rep_listpack [OF lp]
    by (auto simp: add_to_listpack_def insert_absorb)
next
  case False
  let ?s = "ele_str e"
  have none: "lp_member lp ?s = Some None" using lp_member_ok [OF lp(1)] list_search_mem [of ss ?s] False by simp
  obtain lp1 where lp1: "lpLength lp = Some (length ss, lp1)" "lp_list lp1 ss" using lpLength_list [OF lp(1)] by blast
  obtain lp2 where lp2: "lpLength lp1 = Some (length ss, lp2)" "lp_list lp2 ss" using lpLength_list [OF lp1(2)] by blast
  have bytes: "lpGetTotalBytes lp1 = Some (lp_size ss)" using lp_rep_bytes lp1(2) by (simp add: lp_list_def lp_size_def)
  have l2: "set_lists (gen_hash env) (SetListpack lp2) (map lp_ele_of ss)" using lp lp2(2) by auto
  define room where "room \<longleftrightarrow> length ss < set_max_listpack_entries env \<and> length ?s \<le> set_max_listpack_value env \<and> \<not> lp_size ss + length ?s > 2 ^ 30"
  show ?thesis
  proof (cases room)
    case True
    then have "lp_size (ss @ [?s]) \<le> UINT32_MAX" using lp_size_snoc [of ss ?s] by (simp add: room_def)
    then obtain lp' where lp': "lp_append_ele env lp1 e = Some lp'" "lp_list lp' (ss @ [?s])"
      using lp_append_ele_ok [OF _ lp1(2) e] env by (auto simp: env_ok_def)
    have "set_rep (gen_hash env) (SetListpack lp') (set (ss @ [?s]))"
      using lp False ele_short [OF e] by (intro set_rep_listpack [OF lp'(2)]) auto
    then show ?thesis using True False none lp1 bytes lp'(1) by (simp add: add_to_listpack_def lpSafeToAdd_def room_def)
  next
    case full: False
    obtain so' where "convert_and_add env (SetListpack lp2) (length ss + 1) ?s = Some (so', True)"
        "set_rep (gen_hash env) so' (insert ?s (set ss))"
      using convert_and_add_ok [OF l2, of ?s "length ss + 1"] False ele_short [OF e] by (auto simp: image_image)
    then show ?thesis using full False none lp1 lp2 bytes by (auto simp: add_to_listpack_def lpSafeToAdd_def room_def)
  qed
qed

lemma string2ll_not_mem:
  assumes "set_lists h (SetIntset iset) es" and "string2ll s = None"
  shows "s \<notin> ele_str ` set es"
proof
  assume "s \<in> ele_str ` set es"
  then obtain v where "v \<in> set (intset_elems iset)" "s = ll_dec v" using assms(1) by auto
  then have "string2ll s = Some v" using intset_list(5) [OF assms(1)] string2ll_iff by blast
  with assms(2) show False by simp
qed

lemma add_to_intset_ok:
  assumes env: "env_ok env" and wf: "intset_wf iset" "is_length iset < 2 ^ 29" and s: "length s < 2 ^ 31"
  shows "\<exists>so'. add_to_intset env iset s = Some (so', s \<notin> ll_dec ` set (intset_elems iset)) \<and>
    set_rep (gen_hash env) so' (insert s (ll_dec ` set (intset_elems iset)))"
proof (cases "string2ll s")
  case (Some v)
  then have "in_s 64 v" "s = ll_dec v" using string2ll_iff by blast+
  then show ?thesis using add_integer_ok [OF env wf, of v] ll_dec_mem [OF wf(1), of v] Some by (simp add: add_to_intset_def)
next
  case None
  let ?es = "map SetLl (intset_elems iset)"
  have l: "set_lists (gen_hash env) (SetIntset iset) ?es" using wf by simp
  have im: "ele_str ` set ?es = ll_dec ` set (intset_elems iset)" by (simp add: image_image)
  have new: "s \<notin> ll_dec ` set (intset_elems iset)" using string2ll_not_mem [OF l None] im by simp
  obtain m t where mt: "intset_bounds iset = Some (m, t)" "lp_size (map ele_str ?es) \<le> t + 7" using intset_bounds_ok [OF l] by blast
  define fits where "fits \<longleftrightarrow> intsetLen iset < set_max_listpack_entries env \<and> length s \<le> set_max_listpack_value env \<and>
    m \<le> set_max_listpack_value env \<and> \<not> t + length s > 2 ^ 30"
  show ?thesis
  proof (cases fits)
    case False
    obtain so' where "convert_and_add env (SetIntset iset) (intsetLen iset + 1) s = Some (so', True)"
        "set_rep (gen_hash env) so' (insert s (ll_dec ` set (intset_elems iset)))"
      using convert_and_add_ok [OF l _ _ s, of "intsetLen iset + 1"] new unfolding im by auto
    then show ?thesis using None False new mt(1) by (auto simp: add_to_intset_def lpSafeToAdd_def fits_def)
  next
    case True
    have u: "usable_ok (alloc_usable env)" using env by (simp add: env_ok_def)
    have sz: "lp_size (map ele_str ?es) \<le> UINT32_MAX" "lp_size (map ele_str ?es @ [s]) \<le> UINT32_MAX"
      using mt(2) True lp_size_snoc [of "map ele_str ?es" s] by (simp_all add: fits_def)
    obtain lp where lp: "convert_to_listpack env (SetIntset iset) (intsetLen iset + 1) = Some (True, SetListpack lp)" "lp_list lp (map ele_str ?es)"
      using convert_to_listpack_ok [OF u l sz(1)] by blast
    obtain lp1 where lp1: "lp_append_ele env lp (SetStr s) = Some lp1" "lp_list lp1 (map ele_str ?es @ [s])"
      using lp_append_ele_ok [OF u lp(2), of "SetStr s"] s sz(2) by auto
    obtain lp2 where lp2: "lpShrinkToFit (alloc_usable env) lp1 = Some lp2" "lp_list lp2 (map ele_str ?es @ [s])"
      using lpShrinkToFit_rep [OF u] lp1(2) unfolding lp_list_def by blast
    have "distinct (map ele_str ?es @ [s])" using set_lists_ok [OF l] new im by simp
    moreover have "\<forall>x\<in>set (map ele_str ?es @ [s]). length x < 2 ^ 31" using set_lists_short [OF l] s by auto
    ultimately have "set_rep (gen_hash env) (SetListpack lp2) (set (map ele_str ?es @ [s]))" by (rule set_rep_listpack [OF lp2(2)])
    then show ?thesis using None True new mt(1) lp(1) lp1(1) lp2(1)
      by (simp add: add_to_intset_def lpSafeToAdd_def fits_def setTypeConvertAndExpand_def comp_def)
  qed
qed

text \<open>The three encodings of an object that represents a set.\<close>

lemma set_rep_cases:
  assumes "set_rep h so A"
  obtains (intset) iset where "so = SetIntset iset" "intset_wf iset" "is_length iset < 2 ^ 29" "A = ll_dec ` set (intset_elems iset)"
    | (listpack) lp ss where "so = SetListpack lp" "lp_list lp ss" "distinct ss" "\<forall>s\<in>set ss. length s < 2 ^ 31" "A = set ss"
    | (ht) d where "so = SetHT d" "ht_ok h d" "\<forall>s\<in>ht_keys d. length s < 2 ^ 31" "A = ht_keys d"
  using assms
proof (cases so)
  case (SetIntset iset)
  then show thesis using assms intset by (auto simp: set_rep_def image_image)
next
  case (SetListpack lp)
  then show thesis using assms listpack by (auto simp: set_rep_def image_image)
next
  case (SetHT d)
  then show thesis using assms ht by (auto simp: set_rep_def image_image ht_keys_def)
qed

lemma set_rep_lists: "set_rep h so A \<Longrightarrow> \<exists>es. set_lists h so es \<and> A = ele_str ` set es"
  by (auto simp: set_rep_def)

lemma set_rep_finite: "set_rep h so A \<Longrightarrow> finite A"
  by (auto simp: set_rep_def)

lemma set_rep_short: "set_rep h so A \<Longrightarrow> s \<in> A \<Longrightarrow> length s < 2 ^ 31"
  using set_lists_short by (auto simp: set_rep_def)

lemma set_rep_unique: "set_rep h so A \<Longrightarrow> set_rep h so B \<Longrightarrow> A = B"
  unfolding set_rep_def using set_lists_unique by metis

lemma setTypeAddAux_ok:
  assumes env: "env_ok env" and so: "set_rep (gen_hash env) so A" and e: "ele_ok e"
  shows "\<exists>so'. setTypeAddAux env so e = Some (so', ele_str e \<notin> A) \<and> set_rep (gen_hash env) so' (insert (ele_str e) A)"
  using so
proof (cases rule: set_rep_cases)
  case (intset iset)
  show ?thesis
  proof (cases e)
    case (SetStr s)
    then show ?thesis using add_to_intset_ok [OF env intset(2,3), of s] e intset by simp
  next
    case (SetLl v)
    then show ?thesis using add_integer_ok [OF env intset(2,3), of v] ll_dec_mem [OF intset(2), of v] e intset by simp
  qed
next
  case (listpack lp ss)
  then show ?thesis using add_to_listpack_ok [OF env listpack(2-4) e] ele_string_ok [OF e] by simp
next
  case (ht d)
  obtain d' where d': "add_to_ht env d (ele_str e) = Some (SetHT d', ele_str e \<notin> ht_keys d)" "ht_ok (gen_hash env) d'"
      "ht_keys d' = insert (ele_str e) (ht_keys d)" using add_to_ht_ok [OF ht(2)] by blast
  then have "set_rep (gen_hash env) (SetHT d') (ht_keys d')" using ht(3) ele_short [OF e] by (intro set_rep_ht) auto
  then show ?thesis using ht d' ele_string_ok [OF e] by simp
qed

section \<open>Removal and membership\<close>

lemma remove_integer_ok:
  assumes wf: "intset_wf iset" "is_length iset < 2 ^ 29" and v: "in_s 64 v"
  shows "\<exists>so'. remove_integer iset v = Some (so', v \<in> set (intset_elems iset)) \<and>
    set_rep h so' (ll_dec ` set (intset_elems iset) - {ll_dec v})"
proof -
  obtain is' where is': "intsetRemove iset v = Some (is', v \<in> set (intset_elems iset))" "intset_wf is'"
      "set (intset_elems is') = set (intset_elems iset) - {v}"
    using intset_set.remove_ok [OF wf(1) intset_wf_card29 [OF wf] v] by blast
  have "card (set (intset_elems is')) \<le> card (set (intset_elems iset))" unfolding is'(3) by (simp add: card_Diff1_le)
  then have "is_length is' < 2 ^ 29" using intset_wf_length [OF is'(2)] intset_wf_length [OF wf(1)] wf(2) by simp
  moreover have "ll_dec ` (set (intset_elems iset) - {v}) = ll_dec ` set (intset_elems iset) - {ll_dec v}"
    using v intset_elems_range [OF wf(1)] ll_dec_inj by blast
  ultimately show ?thesis using is' set_rep_intset [OF is'(2), of h] by (simp add: remove_integer_def)
qed

lemma set_delete_nth: "distinct ss \<Longrightarrow> i < length ss \<Longrightarrow> set (take i ss @ drop (i + 1) ss) = set ss - {ss ! i} \<and> distinct (take i ss @ drop (i + 1) ss)"
proof -
  assume a: "distinct ss" "i < length ss"
  have "distinct (take i ss @ ss ! i # drop (Suc i) ss)" "set ss = set (take i ss @ ss ! i # drop (Suc i) ss)"
    using a id_take_nth_drop [OF a(2)] by metis+
  then show ?thesis by auto
qed

lemma remove_string_ok:
  assumes env: "env_ok env" and so: "set_rep (gen_hash env) so A"
  shows "\<exists>so'. remove_string env so s = Some (so', s \<in> A) \<and> set_rep (gen_hash env) so' (A - {s})"
  using so
proof (cases rule: set_rep_cases)
  case (intset iset)
  show ?thesis
  proof (cases "string2ll s")
    case None
    then have "s \<notin> A" using string2ll_not_mem [of "gen_hash env" iset _ s] intset by (auto simp: image_image)
    then show ?thesis using None so intset by simp
  next
    case (Some v)
    then have "in_s 64 v" "s = ll_dec v" using string2ll_iff by blast+
    then show ?thesis using remove_integer_ok [OF intset(2,3), of v] ll_dec_mem [OF intset(2), of v] Some intset by simp
  qed
next
  case (listpack lp ss)
  show ?thesis
  proof (cases "list_search ss 0 0 s")
    case None
    then show ?thesis using lp_member_ok [OF listpack(2), of s] list_search_mem [of ss s] so listpack by simp
  next
    case (Some i)
    then have i: "i < length ss" "ss ! i = s" using list_search_at by blast+
    have u: "usable_ok (alloc_usable env)" using env by (simp add: env_ok_def)
    obtain lp' where lp': "lpDelete (alloc_usable env) lp (lp_pos ss i) = Some (Some (lp', lp_at (take i ss @ drop (i + 1) ss) i))"
        "lp_list lp' (take i ss @ drop (i + 1) ss)" using lpDelete_list [OF u listpack(2) i(1)] by blast
    have eq: "set (take i ss @ drop (i + 1) ss) = set ss - {s}" "distinct (take i ss @ drop (i + 1) ss)"
      using set_delete_nth [OF listpack(3) i(1)] i(2) by simp_all
    then have "set_rep (gen_hash env) (SetListpack lp') (set ss - {s})"
      using set_rep_listpack [OF lp'(2) eq(2)] listpack(4) unfolding eq(1) by auto
    moreover have "s \<in> set ss" using i by auto
    ultimately show ?thesis using Some lp_member_ok [OF listpack(2), of s] lp'(1) listpack(1,5) by simp
  qed
next
  case (ht d)
  obtain d' where d': "dictDelete (setDictType (gen_hash env)) (can_resize env) d s = Some (s \<in> ht_keys d, d')"
      "ht_ok (gen_hash env) d'" "ht_keys d' = ht_keys d - {s}" using ht_delete_ok [OF ht(2)] by blast
  then have "set_rep (gen_hash env) (SetHT d') (ht_keys d')" using ht(3) by (intro set_rep_ht) auto
  then show ?thesis using ht d' by simp
qed

lemma setTypeRemoveAux_ok:
  assumes env: "env_ok env" and so: "set_rep (gen_hash env) so A" and e: "ele_ok e"
  shows "\<exists>so'. setTypeRemoveAux env so e = Some (so', ele_str e \<in> A) \<and> set_rep (gen_hash env) so' (A - {ele_str e})"
proof (cases "\<exists>iset v. so = SetIntset iset \<and> e = SetLl v")
  case False
  then have "setTypeRemoveAux env so e = remove_string env so (ele_str e)" using ele_string_ok [OF e] by (cases so; cases e) simp_all
  then show ?thesis using remove_string_ok [OF env so] by simp
next
  case True
  then obtain iset v where eq: "so = SetIntset iset" "e = SetLl v" by blast
  with so have "intset_wf iset" "is_length iset < 2 ^ 29" "A = ll_dec ` set (intset_elems iset)" by (auto simp: set_rep_def image_image)
  then show ?thesis using remove_integer_ok [of iset v "gen_hash env"] ll_dec_mem [of iset v] eq e by simp
qed

lemma find_integer_ok:
  assumes "intset_wf iset" and "is_length iset < 2 ^ 29" and "in_s 64 v"
  shows "intsetFind iset v = Some (v \<in> set (intset_elems iset))"
  using intset_set.find_ok [OF assms(1) intset_wf_card29 [OF assms(1,2)] assms(3)] by auto

lemma member_string_ok:
  assumes so: "set_rep (gen_hash env) so A"
  shows "\<exists>so'. member_string env so s = Some (so', s \<in> A) \<and> set_rep (gen_hash env) so' A"
  using so
proof (cases rule: set_rep_cases)
  case (intset iset)
  show ?thesis
  proof (cases "string2ll s")
    case None
    then have "s \<notin> A" using string2ll_not_mem [of "gen_hash env" iset _ s] intset by (auto simp: image_image)
    then show ?thesis using None so intset by simp
  next
    case (Some v)
    then have "in_s 64 v" "s = ll_dec v" using string2ll_iff by blast+
    then show ?thesis using find_integer_ok [OF intset(2,3), of v] ll_dec_mem [OF intset(2), of v] Some so intset by simp
  qed
next
  case (listpack lp ss)
  then show ?thesis using lp_member_ok [OF listpack(2), of s] list_search_mem [of ss s] so by (cases "list_search ss 0 0 s") auto
next
  case (ht d)
  obtain de d' where d': "dictFind (setDictType (gen_hash env)) (can_resize env) d s = Some (de, d')" "de \<noteq> ENull \<longleftrightarrow> s \<in> ht_keys d"
      "ht_ok (gen_hash env) d'" "ht_keys d' = ht_keys d" using ht_find_ok [OF ht(2)] by blast
  then have "set_rep (gen_hash env) (SetHT d') (ht_keys d')" using ht(3) by (intro set_rep_ht) auto
  then show ?thesis using ht d' by simp
qed

lemma setTypeIsMemberAux_ok:
  assumes so: "set_rep (gen_hash env) so A" and e: "ele_ok e"
  shows "\<exists>so'. setTypeIsMemberAux env so e = Some (so', ele_str e \<in> A) \<and> set_rep (gen_hash env) so' A"
proof (cases "\<exists>iset v. so = SetIntset iset \<and> e = SetLl v")
  case False
  then have "setTypeIsMemberAux env so e = member_string env so (ele_str e)" using ele_string_ok [OF e] by (cases so; cases e) simp_all
  then show ?thesis using member_string_ok [OF so] by simp
next
  case True
  then obtain iset v where eq: "so = SetIntset iset" "e = SetLl v" by blast
  with so have "intset_wf iset" "is_length iset < 2 ^ 29" "A = ll_dec ` set (intset_elems iset)" by (auto simp: set_rep_def image_image)
  then show ?thesis using find_integer_ok [of iset v] ll_dec_mem [of iset v] eq e so by simp
qed

section \<open>Size, creation, conversion and copies\<close>

lemma setTypeSize_ok:
  assumes so: "set_rep h so A"
  shows "\<exists>so'. setTypeSize so = Some (card A, so') \<and> set_rep h so' A \<and> encoding so' = encoding so"
  using so
proof (cases rule: set_rep_cases)
  case (intset iset)
  have "inj_on ll_dec (set (intset_elems iset))" using intset_elems_range [OF intset(2)] ll_dec_inj by (auto simp: inj_on_def)
  then have "card A = is_length iset" using intset(4) intset_wf_length [OF intset(2)] by (simp add: card_image)
  then show ?thesis using so intset by (simp add: intsetLen_def)
next
  case (listpack lp ss)
  obtain lp' where "lpLength lp = Some (length ss, lp')" "lp_list lp' ss" using lpLength_list [OF listpack(2)] by blast
  then show ?thesis using listpack set_rep_listpack [of lp' ss h] by (simp add: distinct_card)
next
  case (ht d)
  have "dictSize d = length (dict_entries d)" using ht(2) dictSize_entries by (auto simp: ht_ok_def dict_wf_def)
  also have "\<dots> = card (ht_keys d)" using ht(2) distinct_card [of "map fst (dict_entries d)"] by (simp add: ht_ok_def dict_wf_def ht_keys_def comp_def)
  finally show ?thesis using so ht by simp
qed

lemma set_rep_new: "set_rep h createSetObject {}" "set_rep h createIntsetObject {}"
  using set_rep_ht [OF ht_create_ok(1), of h] ht_create_ok(2) set_rep_intset [of intsetNew h] intset_set.new_ok
  by (simp_all add: createSetObject_def createIntsetObject_def intsetNew_def)

lemma createSetListpackObject_ok:
  assumes "env_ok env"
  shows "\<exists>so. createSetListpackObject env = Some so \<and> set_rep h so {}"
  using lpNew_rep [of "alloc_usable env" 0] assms set_rep_listpack [of _ "[]" h]
  by (auto simp: createSetListpackObject_def env_ok_def lp_list_def)

lemma setTypeCreate_ok:
  assumes "env_ok env"
  shows "\<exists>so. setTypeCreate env value size_hint = Some so \<and> set_rep (gen_hash env) so {}"
proof -
  obtain ok d where d: "dictExpand (setDictType (gen_hash env)) (can_resize env) dictCreate size_hint = Some (ok, d)"
      "ht_ok (gen_hash env) d" "ht_keys d = {}" using ht_expand_new by blast
  then have "set_rep (gen_hash env) (SetHT d) {}" using set_rep_ht [OF d(2)] by simp
  then show ?thesis using createSetListpackObject_ok [OF assms, of "gen_hash env"] set_rep_new(2) d(1)
    by (auto simp: setTypeCreate_def)
qed

lemma convert_ht_rep:
  assumes so: "set_rep (gen_hash env) so A" and enc: "encoding so \<noteq> OBJ_ENCODING_HT"
  shows "\<exists>so'. setTypeConvertAndExpand env so OBJ_ENCODING_HT cap True = Some (True, so') \<and> set_rep (gen_hash env) so' A \<and> encoding so' = OBJ_ENCODING_HT"
proof -
  obtain es where es: "set_lists (gen_hash env) so es" "A = ele_str ` set es" using set_rep_lists [OF so] by blast
  obtain d where d: "convert_to_ht env so cap True = Some (True, SetHT d)" "ht_ok (gen_hash env) d" "ht_keys d = ele_str ` set es"
    using convert_to_ht_ok [OF es(1)] by blast
  have "set_rep (gen_hash env) (SetHT d) (ht_keys d)" using set_rep_ht [OF d(2)] set_lists_short [OF es(1)] d(3) by simp
  then show ?thesis using d es(2) enc by (simp add: setTypeConvertAndExpand_def)
qed

lemma setTypeConvert_ok:
  assumes so: "set_rep (gen_hash env) so A" and e: "encoding so \<noteq> OBJ_ENCODING_HT"
  shows "\<exists>so'. setTypeConvert env so OBJ_ENCODING_HT = Some so' \<and> set_rep (gen_hash env) so' A \<and> encoding so' = OBJ_ENCODING_HT"
proof -
  obtain so1 where "setTypeSize so = Some (card A, so1)" "set_rep (gen_hash env) so1 A" "encoding so1 = encoding so" using setTypeSize_ok [OF so] by blast
  then show ?thesis using convert_ht_rep [of env so1 A "card A"] e by (auto simp: setTypeConvert_def)
qed

lemma setTypeMaybeConvert_ok:
  assumes "set_rep (gen_hash env) so A"
  shows "\<exists>so'. setTypeMaybeConvert env so size_hint = Some so' \<and> set_rep (gen_hash env) so' A"
proof (cases "encoding so = OBJ_ENCODING_HT")
  case True
  then show ?thesis using assms by (simp add: setTypeMaybeConvert_def)
next
  case False
  then show ?thesis using convert_ht_rep [OF assms False, of size_hint] assms by (auto simp: setTypeMaybeConvert_def)
qed

text \<open>A set all of whose members are integers becomes an intset, unless it has too many members.\<close>

lemma intset_fill:
  assumes "intset_wf iset" and "\<forall>e\<in>set es. ele_ok e \<and> ele_str e \<notin> ll_dec ` set (intset_elems iset) \<and> string2ll (ele_str e) \<noteq> None"
    and "distinct (map ele_str es)" and "is_length iset + length es < 2 ^ 29"
  shows "\<exists>is'. fold_until intset_put es iset = Some is' \<and> intset_wf is' \<and> is_length is' = is_length iset + length es \<and>
    ll_dec ` set (intset_elems is') = ll_dec ` set (intset_elems iset) \<union> ele_str ` set es"
  using assms
proof (induction es arbitrary: iset)
  case (Cons e es)
  obtain v where v: "string2ll (ele_str e) = Some v" using Cons.prems(2) by auto
  then have v': "in_s 64 v" "ele_str e = ll_dec v" using string2ll_iff by blast+
  have val: "(case e of SetStr s \<Rightarrow> string2ll s | SetLl v \<Rightarrow> Some v) = Some v"
    using v v' Cons.prems(2) ll_dec_inj by (cases e) auto
  have new: "v \<notin> set (intset_elems iset)" using Cons.prems(2) v'(2) by auto
  obtain is1 where is1: "intsetAdd iset v = Some (is1, True)" "intset_wf is1" "set (intset_elems is1) = insert v (set (intset_elems iset))"
    using intset_set.add_ok [OF Cons.prems(1) intset_wf_card29 [OF Cons.prems(1)] v'(1)] new Cons.prems(4) by auto
  have len: "is_length is1 = Suc (is_length iset)"
    using intset_wf_length [OF is1(2)] intset_wf_length [OF Cons.prems(1)] is1(3) new by simp
  have "ele_str e' \<noteq> ele_str e" if "e' \<in> set es" for e' using Cons.prems(3) that by (auto simp: image_iff)
  then have "\<forall>e\<in>set es. ele_ok e \<and> ele_str e \<notin> ll_dec ` set (intset_elems is1) \<and> string2ll (ele_str e) \<noteq> None"
    using Cons.prems(2) is1(3) v'(2) by auto
  then obtain is' where "fold_until intset_put es is1 = Some is'" "intset_wf is'" "is_length is' = is_length is1 + length es"
      "ll_dec ` set (intset_elems is') = ll_dec ` set (intset_elems is1) \<union> ele_str ` set es"
    using Cons.IH [OF is1(2)] Cons.prems(3,4) len by auto
  moreover have "intset_put e iset = Some (True, is1)" using is1(1) val by (simp add: intset_put_def)
  ultimately show ?case using is1(3) len v'(2) by simp
qed simp

lemma maybeConvertToIntset_ok:
  assumes env: "env_ok env" and so: "set_rep h so A" and ints: "\<forall>s\<in>A. string2ll s \<noteq> None"
  shows "\<exists>so'. maybeConvertToIntset env so = Some so' \<and> set_rep h so' A"
proof (cases "encoding so = OBJ_ENCODING_INTSET")
  case True
  then show ?thesis using so by (simp add: maybeConvertToIntset_def)
next
  case False
  obtain so1 where so1: "setTypeSize so = Some (card A, so1)" "set_rep h so1 A" using setTypeSize_ok [OF so] by blast
  obtain es where es: "set_lists h so1 es" "A = ele_str ` set es" using set_rep_lists [OF so1(2)] by blast
  show ?thesis
  proof (cases "card A > intsetMaxEntries env")
    case True
    then show ?thesis using False so1 by (auto simp: maybeConvertToIntset_def)
  next
    case fits: False
    then have "length es < 2 ^ 29"
      using env set_lists_card [OF es(1)] es(2) by (auto simp: intsetMaxEntries_def env_ok_def Let_def split: if_splits)
    moreover have "intset_elems intsetNew = []" "is_length intsetNew = 0" by (simp_all add: intset_elems_def intsetNew_def)
    ultimately obtain is' where "fold_until intset_put es intsetNew = Some is'" "intset_wf is'" "is_length is' < 2 ^ 29"
        "ll_dec ` set (intset_elems is') = A"
      using intset_fill [OF intset_set.new_ok(1), of es] set_lists_ok [OF es(1)] ints es(2) by auto
    then show ?thesis using False fits so1(1) set_rep_intset [of is' h] by (simp add: maybeConvertToIntset_def set_each_ok [OF es(1)])
  qed
qed

text \<open>A copy has the same encoding and the same members.\<close>

lemma fold_add_ok:
  assumes "env_ok env" and "set_rep (gen_hash env) so A" and "encoding so = OBJ_ENCODING_HT" and "\<forall>s\<in>set ss. length s < 2 ^ 31"
  shows "\<exists>so'. fold_until (\<lambda>e setobj. case e of
         SetStr s \<Rightarrow> map_option (\<lambda>(setobj, _). (True, setobj)) (setTypeAdd env setobj s)
       | SetLl v \<Rightarrow> None) (map SetStr ss) so = Some so' \<and> set_rep (gen_hash env) so' (A \<union> set ss) \<and> encoding so' = OBJ_ENCODING_HT"
  using assms
proof (induction ss arbitrary: so A)
  case (Cons s ss)
  obtain d where d: "so = SetHT d" "ht_ok (gen_hash env) d" using Cons.prems(2,3) by (cases so) (auto simp: set_rep_def)
  obtain so1 where so1: "setTypeAdd env so s = Some (so1, s \<notin> A)" "set_rep (gen_hash env) so1 (insert s A)"
    using setTypeAddAux_ok [OF Cons.prems(1,2), of "SetStr s"] Cons.prems(4) by (auto simp: setTypeAdd_def)
  have "encoding so1 = OBJ_ENCODING_HT" using so1(1) add_to_ht_ok [OF d(2), of s] d(1) by (auto simp: setTypeAdd_def)
  then show ?case using Cons.IH [OF Cons.prems(1) so1(2)] Cons.prems(4) so1(1) by simp
qed simp

lemma setTypeDup_ok:
  assumes env: "env_ok env" and so: "set_rep (gen_hash env) so A"
  shows "\<exists>so'. setTypeDup env so = Some (so', so) \<and> set_rep (gen_hash env) so' A \<and> encoding so' = encoding so"
  using so
proof (cases rule: set_rep_cases)
  case (intset iset)
  then show ?thesis using so by simp
next
  case (listpack lp ss)
  have "usable_ok (alloc_usable env)" using env by (simp add: env_ok_def)
  from lpDup_rep [OF this] listpack(2) obtain lp' where "lpDup (alloc_usable env) lp = Some lp'" "lp_list lp' ss"
    unfolding lp_list_def by blast
  then show ?thesis using listpack set_rep_listpack [of lp' ss "gen_hash env"] by (auto simp: lpDup_def bind_eq_Some_conv)
next
  case (ht d)
  obtain ok d' where d': "dictExpand (setDictType (gen_hash env)) (can_resize env) dictCreate (dictSize d) = Some (ok, d')"
      "ht_ok (gen_hash env) d'" "ht_keys d' = {}" using ht_expand_new by blast
  have l: "set_lists (gen_hash env) (SetHT d) (map SetStr (map fst (dict_entries d)))" using ht by simp
  have "set_rep (gen_hash env) (SetHT d') {}" using set_rep_ht [OF d'(2)] d'(3) by simp
  from fold_add_ok [OF env this, of "map fst (dict_entries d)"] ht d'(1) show ?thesis
    by (auto simp: set_each_ok [OF l] ht_keys_def)
qed

section \<open>The objects provide sets\<close>

definition set_wf :: "(bytes \<Rightarrow> u64) \<Rightarrow> set_obj \<Rightarrow> bool" where
  "set_wf h so \<longleftrightarrow> (\<exists>A. set_rep h so A)"

definition set_abs :: "(bytes \<Rightarrow> u64) \<Rightarrow> set_obj \<Rightarrow> bytes set" where
  "set_abs h so = {s. \<exists>A. set_rep h so A \<and> s \<in> A}"

lemma set_abs_rep: "set_rep h so A \<Longrightarrow> set_wf h so \<and> set_abs h so = A"
  using set_rep_unique by (auto simp: set_wf_def set_abs_def)

lemma set_wf_rep: "set_wf h so \<Longrightarrow> set_rep h so (set_abs h so)"
  using set_abs_rep by (auto simp: set_wf_def)

text \<open>The provider of the set interface. It gives its laws whatever the number of members, so \<open>cap\<close> is any bound.\<close>

interpretation set_objs: set_ops "setTypeAdd env" "setTypeRemove env" "setTypeIsMember env" "set_abs (gen_hash env)"
  "\<lambda>so. env_ok env \<and> set_wf (gen_hash env) so" "\<lambda>s. length s < 2 ^ 31" cap
  for env cap
proof (unfold_locales, goal_cases)
  case (1 so)
  then show ?case using set_wf_rep set_rep_finite by blast
next
  case (2 so s)
  then show ?case
    using setTypeAddAux_ok [of env so "set_abs (gen_hash env) so" "SetStr s"] set_wf_rep set_abs_rep by (fastforce simp: setTypeAdd_def)
next
  case (3 so s)
  then show ?case
    using setTypeRemoveAux_ok [of env so "set_abs (gen_hash env) so" "SetStr s"] set_wf_rep set_abs_rep by (fastforce simp: setTypeRemove_def)
next
  case (4 so s)
  then show ?case
    using setTypeIsMemberAux_ok [of env so "set_abs (gen_hash env) so" "SetStr s"] set_wf_rep set_abs_rep by (fastforce simp: setTypeIsMember_def)
qed

lemma sadd_loop_rep:
  assumes "env_ok env" and "set_rep (gen_hash env) so A" and "\<forall>s\<in>set vs. length s < 2 ^ 31"
  shows "\<exists>so'. sadd_loop (setTypeAdd env) so vs n = Some (so', n + card (set vs - A)) \<and> set_rep (gen_hash env) so' (A \<union> set vs)"
proof -
  have abs: "set_abs (gen_hash env) so = A" "set_wf (gen_hash env) so" using set_abs_rep [OF assms(2)] by simp_all
  obtain so' where so': "sadd_loop (setTypeAdd env) so vs n = Some (so', n + (card (set_abs (gen_hash env) so') - card A))"
      "set_wf (gen_hash env) so'" "set_abs (gen_hash env) so' = A \<union> set vs"
    using set_objs.sadd_loop_correct [of env so vs "card A + length vs" n] abs assms(1,3) by auto
  have "card (A \<union> set vs) - card A = card (set vs - A)"
    using card_Un_disjoint [of A "set vs - A"] set_rep_finite [OF assms(2)] by (simp add: Un_Diff_cancel)
  then show ?thesis using so' set_wf_rep [OF so'(2)] by simp
qed

section \<open>Properties\<close>

text \<open>The default settings of \<^verbatim>\<open>config.c\<close>, on an allocator that gives the bytes asked for and with a constant hash.\<close>

definition default_env :: set_env where
  "default_env = \<lparr>set_max_intset_entries = 512, set_max_listpack_entries = 128, set_max_listpack_value = 64,
     can_resize = DICT_RESIZE_ENABLE, alloc_usable = (\<lambda>n. n), alloc_addr = (\<lambda>_. 0), try_alloc = (\<lambda>_. True), sds_addr = (\<lambda>_. 1), gen_hash = (\<lambda>_. 0)\<rparr>"

lemma default_env_ok: "env_ok default_env"
  by (simp add: env_ok_def default_env_def usable_ok_def)

text \<open>C5. On a set object of any encoding that represents the strings \<open>A\<close>, \<^verbatim>\<open>setTypeAdd\<close>, \<^verbatim>\<open>setTypeRemove\<close>,
  \<^verbatim>\<open>setTypeIsMember\<close> and \<^verbatim>\<open>setTypeSize\<close> end without a failed assertion or an invalid access, return what the
  operation on \<open>A\<close> returns, and leave an object, possibly of another encoding, that represents the result.\<close>

theorem set_object_operations:
  assumes "env_ok env" and "set_rep (gen_hash env) so A" and "length s < 2 ^ 31"
  shows "(\<exists>so'. setTypeAdd env so s = Some (so', s \<notin> A) \<and> set_rep (gen_hash env) so' (insert s A)) \<and>
    (\<exists>so'. setTypeRemove env so s = Some (so', s \<in> A) \<and> set_rep (gen_hash env) so' (A - {s})) \<and>
    (\<exists>so'. setTypeIsMember env so s = Some (so', s \<in> A) \<and> set_rep (gen_hash env) so' A) \<and>
    (\<exists>so'. setTypeSize so = Some (card A, so') \<and> set_rep (gen_hash env) so' A)"
  using setTypeAddAux_ok [OF assms(1,2), of "SetStr s"] setTypeRemoveAux_ok [OF assms(1,2), of "SetStr s"]
    setTypeIsMemberAux_ok [OF assms(2), of "SetStr s"] setTypeSize_ok [OF assms(2)] assms(3)
  by (auto simp: setTypeAdd_def setTypeRemove_def setTypeIsMember_def)

theorem set_object_operations_witness:
  "env_ok default_env \<and> set_rep (gen_hash default_env) createIntsetObject {} \<and>
   (\<exists>so'. setTypeAdd default_env createIntsetObject (ascii ''a'') = Some (so', True) \<and> set_rep (gen_hash default_env) so' {ascii ''a''})"
  using set_object_operations [OF default_env_ok set_rep_new(2), of "ascii ''a''"] default_env_ok set_rep_new(2) by (auto simp: ascii_def)

text \<open>C36. The loop over a set object of any encoding with \<^verbatim>\<open>setTypeNext\<close> ends, visits every member exactly once, and leaves
  the object as it was.\<close>

theorem set_iteration_complete:
  assumes "set_rep h so A"
  shows "\<exists>es. set_each env (\<lambda>e acc. Some (True, acc @ [ele_str e])) so [] = Some (es, so) \<and> distinct es \<and> set es = A"
proof -
  obtain es where es: "set_lists h so es" "A = ele_str ` set es" using set_rep_lists [OF assms] by blast
  have "fold_until (\<lambda>e acc. Some (True, acc @ [ele_str e])) es acc = Some (acc @ map ele_str es)" for acc
    by (induction es arbitrary: acc) simp_all
  then show ?thesis using set_lists_ok [OF es(1)] es(2) by (simp add: set_each_ok [OF es(1)])
qed

theorem set_iteration_complete_witness:
  "set_rep (\<lambda>_. 0) createSetObject {} \<and>
   (\<exists>es. set_each default_env (\<lambda>e acc. Some (True, acc @ [ele_str e])) createSetObject [] = Some (es, createSetObject) \<and> set es = {})"
  using set_iteration_complete [OF set_rep_new(1), of default_env] set_rep_new(1) by auto

text \<open>C35. The conversions keep the members: \<^verbatim>\<open>setTypeConvert\<close> of an intset or listpack to a hash table, the conversion
  before adding many members, the conversion of a result with integer members only to an intset, and the copy, which also keeps
  the encoding.\<close>

theorem set_conversions_keep_members:
  assumes "env_ok env" and "set_rep (gen_hash env) so A"
  shows "(encoding so \<noteq> OBJ_ENCODING_HT \<longrightarrow>
      (\<exists>so'. setTypeConvert env so OBJ_ENCODING_HT = Some so' \<and> set_rep (gen_hash env) so' A \<and> encoding so' = OBJ_ENCODING_HT)) \<and>
    (\<exists>so'. setTypeMaybeConvert env so size_hint = Some so' \<and> set_rep (gen_hash env) so' A) \<and>
    ((\<forall>s\<in>A. string2ll s \<noteq> None) \<longrightarrow> (\<exists>so'. maybeConvertToIntset env so = Some so' \<and> set_rep (gen_hash env) so' A)) \<and>
    (\<exists>so'. setTypeDup env so = Some (so', so) \<and> set_rep (gen_hash env) so' A \<and> encoding so' = encoding so)"
  using setTypeConvert_ok [OF assms(2)] setTypeMaybeConvert_ok [OF assms(2)] maybeConvertToIntset_ok [OF assms] setTypeDup_ok [OF assms] by blast

theorem set_conversions_keep_members_witness:
  "env_ok default_env \<and> set_rep (gen_hash default_env) createIntsetObject {} \<and>
   (\<exists>so'. setTypeConvert default_env createIntsetObject OBJ_ENCODING_HT = Some so' \<and> encoding so' = OBJ_ENCODING_HT)"
  using set_conversions_keep_members [OF default_env_ok set_rep_new(2)] default_env_ok set_rep_new(2)
  by (auto simp: createIntsetObject_def)

end
