(* ===== verification/Set_Commands.thy ===== *)
theory Set_Commands
  imports Set_Type
begin

text \<open>
  Model of the set commands of \<^verbatim>\<open>t_set.c\<close>, from \<^verbatim>\<open>SADD\<close> to \<^verbatim>\<open>SDIFFSTORE\<close>, on a keyspace of keys without expiry.

  The state has the keyspace, the counter \<^verbatim>\<open>server.dirty\<close>, the keys signalled to watching clients, the keyspace events
  and the reply of the client. A pointer to an object of the keyspace is its key, so two pointers are equal when the
  keys are. Arguments are the strings after the name of the command; the arity check of the command table has
  passed, so \<^verbatim>\<open>SADD\<close> has a member and the operations on several sets have a key. The size histograms are not
  modelled.
\<close>

section \<open>The state\<close>

text \<open>The value of a key: a set, or the content of another type.\<close>

datatype kvobj = KvSet set_obj | KvOther bytes

datatype reply =
    RInt int
  | RBulk bytes
  | RSetLen nat
  | RArrayLen nat
  | RError string

record server =
  db :: "bytes \<rightharpoonup> kvobj"
  dirty :: nat
  touched :: "bytes list"
  events :: "(string \<times> bytes) list"
  out :: "reply list"

definition wrongtypeerr :: reply where
  "wrongtypeerr = RError ''WRONGTYPE Operation against a key holding the wrong kind of value''"

definition syntaxerr :: reply where
  "syntaxerr = RError ''ERR syntax error''"

definition addReply :: "reply \<Rightarrow> server \<Rightarrow> server" where
  "addReply r c = c\<lparr>out := out c @ [r]\<rparr>"

definition signalModifiedKey :: "bytes \<Rightarrow> server \<Rightarrow> server" where
  "signalModifiedKey key c = c\<lparr>touched := touched c @ [key]\<rparr>"

definition notifyKeyspaceEvent :: "string \<Rightarrow> bytes \<Rightarrow> server \<Rightarrow> server" where
  "notifyKeyspaceEvent event key c = c\<lparr>events := events c @ [(event, key)]\<rparr>"

definition add_dirty :: "nat \<Rightarrow> server \<Rightarrow> server" where
  "add_dirty n c = c\<lparr>dirty := dirty c + n\<rparr>"

text \<open>Writing through the pointer to the object of a key.\<close>

definition put_set :: "bytes \<Rightarrow> set_obj \<Rightarrow> server \<Rightarrow> server" where
  "put_set key so c = c\<lparr>db := (db c)(key \<mapsto> KvSet so)\<rparr>"

definition dbAdd :: "bytes \<Rightarrow> set_obj \<Rightarrow> server \<Rightarrow> server" where
  "dbAdd key so c = notifyKeyspaceEvent ''new'' key (put_set key so c)"

definition dbDelete :: "bytes \<Rightarrow> server \<Rightarrow> bool \<times> server" where
  "dbDelete key c = (db c key \<noteq> None, c\<lparr>db := (db c)(key := None)\<rparr>)"

definition setKey :: "bytes \<Rightarrow> set_obj \<Rightarrow> server \<Rightarrow> server" where
  "setKey key so c =
     signalModifiedKey key
       (case db c key of
          None \<Rightarrow> dbAdd key so c
        | Some (KvSet _) \<Rightarrow> notifyKeyspaceEvent ''overwritten'' key (put_set key so c)
        | Some (KvOther _) \<Rightarrow> notifyKeyspaceEvent ''type_changed'' key (notifyKeyspaceEvent ''overwritten'' key (put_set key so c)))"

text \<open>Whether the key holds a value of another type; a missing key does not.\<close>

definition checkType :: "bytes \<Rightarrow> server \<Rightarrow> bool" where
  "checkType key c = (case db c key of Some (KvOther _) \<Rightarrow> True | _ \<Rightarrow> False)"

text \<open>The reply of a member: a bulk string, also for an integer.\<close>

definition reply_ele :: "set_ele \<Rightarrow> reply option" where
  "reply_ele e = map_option RBulk (ele_string 64 e)"

section \<open>Commands on one set\<close>

definition sadd_open :: "set_env \<Rightarrow> bytes \<Rightarrow> bytes list \<Rightarrow> server \<Rightarrow> (set_obj \<times> server) option" where
  "sadd_open env key vals c =
     (case db c key of
        Some (KvSet so) \<Rightarrow> map_option (\<lambda>so. (so, c)) (setTypeMaybeConvert env so (length vals))
      | _ \<Rightarrow> map_option (\<lambda>so. (so, dbAdd key so c)) (setTypeCreate env (hd vals) (length vals)))"

definition saddCommand :: "set_env \<Rightarrow> bytes \<Rightarrow> bytes list \<Rightarrow> server \<Rightarrow> server option" where
  "saddCommand env key vals c =
     (if checkType key c then Some (addReply wrongtypeerr c)
      else do {
        (so, c) \<leftarrow> sadd_open env key vals c;
        (so, added) \<leftarrow> sadd_loop (setTypeAdd env) so vals 0;
        (so, c) \<leftarrow> (if added \<noteq> 0
           then map_option (\<lambda>(_, so). (so, notifyKeyspaceEvent ''sadd'' key (signalModifiedKey key c))) (setTypeSize so)
           else Some (so, c));
        Some (addReply (RInt (int added)) (add_dirty added (put_set key so c))) })"

text \<open>The loop of \<^verbatim>\<open>SREM\<close>: it stops when the set is empty.\<close>

fun srem_loop :: "set_env \<Rightarrow> set_obj \<Rightarrow> bytes list \<Rightarrow> nat \<Rightarrow> (set_obj \<times> nat \<times> bool) option" where
  "srem_loop env so [] deleted = Some (so, deleted, False)"
| "srem_loop env so (v # vs) deleted = do {
     (so, ok) \<leftarrow> setTypeRemove env so v;
     if ok then do {
       (n, so) \<leftarrow> setTypeSize so;
       if n = 0 then Some (so, deleted + 1, True) else srem_loop env so vs (deleted + 1) }
     else srem_loop env so vs deleted }"

definition sremCommand :: "set_env \<Rightarrow> bytes \<Rightarrow> bytes list \<Rightarrow> server \<Rightarrow> server option" where
  "sremCommand env key vals c =
     (case db c key of
        None \<Rightarrow> Some (addReply (RInt 0) c)
      | Some (KvOther _) \<Rightarrow> Some (addReply wrongtypeerr c)
      | Some (KvSet so) \<Rightarrow> do {
          (_, so) \<leftarrow> setTypeSize so;
          (so, deleted, keyremoved) \<leftarrow> srem_loop env so vals 0;
          let c = (if keyremoved then snd (dbDelete key c) else put_set key so c);
          let c = (if deleted \<noteq> 0
            then add_dirty deleted
              ((if keyremoved then notifyKeyspaceEvent ''del'' key else id)
                (notifyKeyspaceEvent ''srem'' key (signalModifiedKey key c)))
            else c);
          Some (addReply (RInt (int deleted)) c) })"

text \<open>The parts of \<^verbatim>\<open>SMOVE\<close> after the removal: the source is deleted if it is empty, the destination is created if it
  does not exist.\<close>

definition move_source :: "bytes \<Rightarrow> set_obj \<Rightarrow> server \<Rightarrow> server option" where
  "move_source src so c = do {
     (n, so) \<leftarrow> setTypeSize so;
     Some (if n = 0 then notifyKeyspaceEvent ''del'' src (snd (dbDelete src c)) else put_set src so c) }"

definition move_dest :: "set_env \<Rightarrow> bytes \<Rightarrow> bytes \<Rightarrow> server \<Rightarrow> (set_obj \<times> server) option" where
  "move_dest env dst ele c =
     (case db c dst of
        Some (KvSet so) \<Rightarrow> Some (so, c)
      | _ \<Rightarrow> map_option (\<lambda>so. (so, dbAdd dst so c)) (setTypeCreate env ele 1))"

definition move_element :: "set_env \<Rightarrow> bytes \<Rightarrow> bytes \<Rightarrow> bytes \<Rightarrow> set_obj \<Rightarrow> server \<Rightarrow> server option" where
  "move_element env src dst ele so c = do {
     c \<leftarrow> move_source src so (notifyKeyspaceEvent ''srem'' src c);
     (so, c) \<leftarrow> move_dest env dst ele c;
     let c = add_dirty 1 (signalModifiedKey src c);
     (so, added) \<leftarrow> setTypeAdd env so ele;
     (so, c) \<leftarrow> (if added
        then map_option (\<lambda>(_, so). (so, notifyKeyspaceEvent ''sadd'' dst (signalModifiedKey dst (add_dirty 1 c)))) (setTypeSize so)
        else Some (so, c));
     Some (addReply (RInt 1) (put_set dst so c)) }"

definition smoveCommand :: "set_env \<Rightarrow> bytes \<Rightarrow> bytes \<Rightarrow> bytes \<Rightarrow> server \<Rightarrow> server option" where
  "smoveCommand env src dst ele c =
     (case db c src of
        None \<Rightarrow> Some (addReply (RInt 0) c)
      | Some (KvOther _) \<Rightarrow> Some (addReply wrongtypeerr c)
      | Some (KvSet srcset) \<Rightarrow>
          if checkType dst c then Some (addReply wrongtypeerr c)
          else if src = dst then do {
            (so, b) \<leftarrow> setTypeIsMember env srcset ele;
            Some (addReply (RInt (if b then 1 else 0)) (put_set src so c)) }
          else do {
            (so, removed) \<leftarrow> setTypeRemove env srcset ele;
            if \<not> removed then Some (addReply (RInt 0) (put_set src so c))
            else move_element env src dst ele so c })"

definition sismemberCommand :: "set_env \<Rightarrow> bytes \<Rightarrow> bytes \<Rightarrow> server \<Rightarrow> server option" where
  "sismemberCommand env key ele c =
     (case db c key of
        None \<Rightarrow> Some (addReply (RInt 0) c)
      | Some (KvOther _) \<Rightarrow> Some (addReply wrongtypeerr c)
      | Some (KvSet so) \<Rightarrow> do {
          (so, b) \<leftarrow> setTypeIsMember env so ele;
          Some (addReply (RInt (if b then 1 else 0)) (put_set key so c)) })"

fun smismember_loop :: "set_env \<Rightarrow> bytes \<Rightarrow> bytes list \<Rightarrow> server \<Rightarrow> server option" where
  "smismember_loop env key [] c = Some c"
| "smismember_loop env key (v # vs) c =
     (case db c key of
        Some (KvSet so) \<Rightarrow> do {
          (so, b) \<leftarrow> setTypeIsMember env so v;
          smismember_loop env key vs (addReply (RInt (if b then 1 else 0)) (put_set key so c)) }
      | _ \<Rightarrow> smismember_loop env key vs (addReply (RInt 0) c))"

definition smismemberCommand :: "set_env \<Rightarrow> bytes \<Rightarrow> bytes list \<Rightarrow> server \<Rightarrow> server option" where
  "smismemberCommand env key vals c =
     (if checkType key c then Some (addReply wrongtypeerr c)
      else smismember_loop env key vals (addReply (RArrayLen (length vals)) c))"

definition scardCommand :: "bytes \<Rightarrow> server \<Rightarrow> server option" where
  "scardCommand key c =
     (case db c key of
        None \<Rightarrow> Some (addReply (RInt 0) c)
      | Some (KvOther _) \<Rightarrow> Some (addReply wrongtypeerr c)
      | Some (KvSet so) \<Rightarrow> do {
          (n, so) \<leftarrow> setTypeSize so;
          Some (addReply (RInt (int n)) (put_set key so c)) })"

text \<open>The length of a reply must not be negative.\<close>

definition addReplySetLen :: "int \<Rightarrow> server \<Rightarrow> server option" where
  "addReplySetLen n c = (if n \<ge> 0 then Some (addReply (RSetLen (nat n)) c) else None)"

text \<open>The loops that send the members of a set. The length announced first must be used up.\<close>

definition send_ele :: "set_ele \<Rightarrow> server \<Rightarrow> (bool \<times> server) option" where
  "send_ele e c = map_option (\<lambda>r. (True, addReply r c)) (reply_ele e)"

definition smembersCommand :: "set_env \<Rightarrow> bytes \<Rightarrow> server \<Rightarrow> server option" where
  "smembersCommand env key c =
     (case db c key of
        None \<Rightarrow> Some (addReply (RSetLen 0) c)
      | Some (KvOther _) \<Rightarrow> Some (addReply wrongtypeerr c)
      | Some (KvSet so) \<Rightarrow> do {
          (n, so) \<leftarrow> setTypeSize so;
          c \<leftarrow> addReplySetLen (int n) c;
          ((left, c), so) \<leftarrow> set_each env (\<lambda>e (left, c). map_option (\<lambda>(_, c). (True, left - 1, c)) (send_ele e c)) so
            (int n, c);
          if left = 0 then Some (put_set key so c) else None })"

section \<open>Intersection\<close>

text \<open>The lookup of the sets: \<open>None\<close> when a key has the wrong type, and otherwise the keys, \<open>None\<close> for a missing one.\<close>

fun lookup_sets :: "(bytes \<rightharpoonup> kvobj) \<Rightarrow> bytes list \<Rightarrow> bytes option list option" where
  "lookup_sets d [] = Some []"
| "lookup_sets d (k # ks) =
     (case d k of
        None \<Rightarrow> map_option ((#) None) (lookup_sets d ks)
      | Some (KvOther _) \<Rightarrow> None
      | Some (KvSet _) \<Rightarrow> map_option ((#) (Some k)) (lookup_sets d ks))"

text \<open>The object of a key that is known to hold a set.\<close>

definition get_set :: "server \<Rightarrow> bytes \<Rightarrow> set_obj option" where
  "get_set c key = (case db c key of Some (KvSet so) \<Rightarrow> Some so | _ \<Rightarrow> None)"

definition key_size :: "bytes \<Rightarrow> server \<Rightarrow> (nat \<times> server) option" where
  "key_size key c = do { so \<leftarrow> get_set c key; (n, so) \<leftarrow> setTypeSize so; Some (n, put_set key so c) }"

text \<open>The sizes of the sets, 0 for a missing one. The comparison functions of \<^verbatim>\<open>qsort\<close> read them again for every
  comparison.\<close>

fun key_sizes :: "bytes option list \<Rightarrow> server \<Rightarrow> (nat list \<times> server) option" where
  "key_sizes [] c = Some ([], c)"
| "key_sizes (None # ks) c = map_option (\<lambda>(ns, c). (0 # ns, c)) (key_sizes ks c)"
| "key_sizes (Some k # ks) c = do {
     (n, c) \<leftarrow> key_size k c;
     (ns, c) \<leftarrow> key_sizes ks c;
     Some (n # ns, c) }"

text \<open>The C library's \<^verbatim>\<open>qsort\<close>, which may reorder equal elements: \<open>qsort\<close> gets the elements with their keys and
  returns a permutation with increasing keys.\<close>

type_synonym sorter = "(int \<times> bytes option) list \<Rightarrow> (int \<times> bytes option) list"

definition qsort_ok :: "sorter \<Rightarrow> bool" where
  "qsort_ok qsort \<longleftrightarrow> (\<forall>xs. mset (qsort xs) = mset xs \<and> sorted (map fst (qsort xs)))"

definition sort_by_size :: "sorter \<Rightarrow> bool \<Rightarrow> bytes option list \<Rightarrow> server \<Rightarrow> (bytes option list \<times> server) option" where
  "sort_by_size qsort decreasing ks c = do {
     (ns, c) \<leftarrow> key_sizes ks c;
     Some (map snd (qsort (zip (map (\<lambda>n. if decreasing then - int n else int n) ns) ks)), c) }"

text \<open>Whether the member is in the set of every key of the list other than \<open>first\<close>.\<close>

fun in_all :: "set_env \<Rightarrow> bytes \<Rightarrow> set_ele \<Rightarrow> bytes option list \<Rightarrow> server \<Rightarrow> (bool \<times> server) option" where
  "in_all env first e [] c = Some (True, c)"
| "in_all env first e (None # ks) c = None"
| "in_all env first e (Some k # ks) c =
     (if k = first then in_all env first e ks c
      else do {
        so \<leftarrow> get_set c k;
        (so, b) \<leftarrow> setTypeIsMemberAux env so e;
        if b then in_all env first e ks (put_set k so c) else Some (False, put_set k so c) })"

text \<open>The variables of the loop.\<close>

record inter_state =
  in_srv :: server
  in_cardinality :: nat
  in_dstset :: set_obj
  in_only_integers :: bool

text \<open>The destination set for the first, smallest set.\<close>

fun inter_dstset :: "set_env \<Rightarrow> set_obj \<Rightarrow> set_obj option" where
  "inter_dstset env (SetIntset _) = Some createIntsetObject"
| "inter_dstset env (SetListpack lp) = do { n \<leftarrow> lpBytes lp; lp \<leftarrow> lpNew (alloc_usable env) n; Some (SetListpack lp) }"
| "inter_dstset env (SetHT _) = createSetListpackObject env"

definition inter_store :: "set_env \<Rightarrow> set_encoding \<Rightarrow> set_ele \<Rightarrow> inter_state \<Rightarrow> inter_state option" where
  "inter_store env enc e st =
     (let (e, ints) = (case e of
            SetStr s \<Rightarrow>
              if in_only_integers st then
                (case (if enc = OBJ_ENCODING_HT then string2ll s else None) of
                   Some v \<Rightarrow> (if encoding (in_dstset st) = OBJ_ENCODING_LISTPACK \<or> encoding (in_dstset st) = OBJ_ENCODING_INTSET
                             then SetLl v else e, True)
                 | None \<Rightarrow> (e, False))
              else (e, in_only_integers st)
          | SetLl v \<Rightarrow> (e, in_only_integers st)) in
      map_option (\<lambda>(so, _). st\<lparr>in_dstset := so, in_only_integers := ints\<rparr>) (setTypeAddAux env (in_dstset st) e))"

datatype inter_mode = InterCard nat | InterReply | InterStore bytes

definition inter_step :: "set_env \<Rightarrow> inter_mode \<Rightarrow> set_encoding \<Rightarrow> bytes \<Rightarrow> bytes option list \<Rightarrow> set_ele \<Rightarrow> inter_state \<Rightarrow>
    (bool \<times> inter_state) option" where
  "inter_step env mode enc first others e st = do {
     (all, c) \<leftarrow> in_all env first e others (in_srv st);
     let st = st\<lparr>in_srv := c\<rparr>;
     if \<not> all then Some (True, st)
     else (case mode of
         InterCard limit \<Rightarrow>
           let st = st\<lparr>in_cardinality := in_cardinality st + 1\<rparr> in
           Some (\<not> (limit \<noteq> 0 \<and> in_cardinality st \<ge> limit), st)
       | InterReply \<Rightarrow> do {
           (_, c) \<leftarrow> send_ele e (in_srv st);
           Some (True, st\<lparr>in_srv := c, in_cardinality := in_cardinality st + 1\<rparr>) }
       | InterStore _ \<Rightarrow> map_option (\<lambda>st. (True, st)) (inter_store env enc e st)) }"

text \<open>Storing the result under the destination key, or deleting the key if the result is empty.\<close>

definition delete_dst :: "bytes \<Rightarrow> server \<Rightarrow> server" where
  "delete_dst dstkey c =
     (let (deleted, c) = dbDelete dstkey c in
      if deleted then add_dirty 1 (notifyKeyspaceEvent ''del'' dstkey (signalModifiedKey dstkey c)) else c)"

definition store_dst :: "bytes \<Rightarrow> set_obj \<Rightarrow> string \<Rightarrow> server \<Rightarrow> server option" where
  "store_dst dstkey so event c = do {
     (n, so) \<leftarrow> setTypeSize so;
     Some (add_dirty 1 (notifyKeyspaceEvent event dstkey (addReply (RInt (int n)) (setKey dstkey so c)))) }"

definition shrink_listpack :: "set_env \<Rightarrow> set_obj \<Rightarrow> set_obj option" where
  "shrink_listpack env so =
     (case so of SetListpack lp \<Rightarrow> map_option SetListpack (lpShrinkToFit (alloc_usable env) lp) | _ \<Rightarrow> Some so)"

definition inter_finish :: "set_env \<Rightarrow> bytes \<Rightarrow> inter_state \<Rightarrow> server option" where
  "inter_finish env dstkey st = do {
     (n, so) \<leftarrow> setTypeSize (in_dstset st);
     if n > 0 then do {
       so \<leftarrow> (if in_only_integers st then maybeConvertToIntset env so else Some so);
       so \<leftarrow> shrink_listpack env so;
       store_dst dstkey so ''sinterstore'' (in_srv st) }
     else Some (delete_dst dstkey (addReply (RInt 0) (in_srv st))) }"

text \<open>The length of a reply to \<^verbatim>\<open>SINTER\<close> is written in front when the loop is done.\<close>

definition set_deferred_len :: "nat \<Rightarrow> nat \<Rightarrow> server \<Rightarrow> server" where
  "set_deferred_len pos n c = c\<lparr>out := take pos (out c) @ RSetLen n # drop pos (out c)\<rparr>"

definition inter_nonempty :: "set_env \<Rightarrow> sorter \<Rightarrow> bytes option list \<Rightarrow> inter_mode \<Rightarrow> server \<Rightarrow> server option" where
  "inter_nonempty env qsort keys mode c = do {
     (keys, c) \<leftarrow> sort_by_size qsort False keys c;
     first \<leftarrow> hd keys;
     so \<leftarrow> get_set c first;
     dst \<leftarrow> (case mode of InterStore _ \<Rightarrow> inter_dstset env so | _ \<Rightarrow> Some createIntsetObject);
     let pos = length (out c);
     (st, so) \<leftarrow> set_each env (inter_step env mode (encoding so) first (tl keys)) so
       \<lparr>in_srv = c, in_cardinality = 0, in_dstset = dst, in_only_integers = True\<rparr>;
     let st = st\<lparr>in_srv := put_set first so (in_srv st)\<rparr>;
     (case mode of
        InterCard _ \<Rightarrow> Some (addReply (RInt (int (in_cardinality st))) (in_srv st))
      | InterStore dstkey \<Rightarrow> inter_finish env dstkey st
      | InterReply \<Rightarrow> Some (set_deferred_len pos (in_cardinality st) (in_srv st))) }"

definition sinterGenericCommand :: "set_env \<Rightarrow> sorter \<Rightarrow> bytes list \<Rightarrow> inter_mode \<Rightarrow> server \<Rightarrow> server option" where
  "sinterGenericCommand env qsort setkeys mode c =
     (case lookup_sets (db c) setkeys of
        None \<Rightarrow> Some (addReply wrongtypeerr c)
      | Some keys \<Rightarrow>
          if None \<in> set keys then
            (case mode of
               InterStore dstkey \<Rightarrow> Some (addReply (RInt 0) (delete_dst dstkey c))
             | InterCard _ \<Rightarrow> Some (addReply (RInt 0) c)
             | InterReply \<Rightarrow> Some (addReply (RSetLen 0) c))
          else inter_nonempty env qsort keys mode c)"

definition sinterCommand :: "set_env \<Rightarrow> sorter \<Rightarrow> bytes list \<Rightarrow> server \<Rightarrow> server option" where
  "sinterCommand env qsort keys c = sinterGenericCommand env qsort keys InterReply c"

definition sinterstoreCommand :: "set_env \<Rightarrow> sorter \<Rightarrow> bytes \<Rightarrow> bytes list \<Rightarrow> server \<Rightarrow> server option" where
  "sinterstoreCommand env qsort dst keys c = sinterGenericCommand env qsort keys (InterStore dst) c"

text \<open>The options of \<^verbatim>\<open>SINTERCARD\<close> after the keys. The comparison of names ignores case. The result is the limit, or the
  error to reply.\<close>

definition lower :: "u8 \<Rightarrow> u8" where
  "lower b = (if 65 \<le> b \<and> b \<le> 90 then b + 32 else b)"

definition strcaseeq :: "bytes \<Rightarrow> string \<Rightarrow> bool" where
  "strcaseeq s name = (map lower (takeWhile (\<lambda>b. b \<noteq> 0) s) = map lower (ascii name))"

text \<open>\<^verbatim>\<open>getRangeLongFromObjectOrReply\<close> with a message.\<close>

definition get_range_long :: "bytes \<Rightarrow> int \<Rightarrow> int \<Rightarrow> string \<Rightarrow> string + int" where
  "get_range_long s lo hi msg =
     (case string2ll s of
        None \<Rightarrow> Inl msg
      | Some v \<Rightarrow> if v < LLONG_MIN \<or> v > LLONG_MAX then Inl msg else if v < lo \<or> v > hi then Inl msg else Inr v)"

fun sintercard_options :: "bytes list \<Rightarrow> int \<Rightarrow> reply + int" where
  "sintercard_options [] limit = Inr limit"
| "sintercard_options (opt # args) limit =
     (case args of
        arg # rest \<Rightarrow>
          if strcaseeq opt ''LIMIT'' then
            (case get_range_long arg 0 LLONG_MAX ''LIMIT can't be negative'' of
               Inl msg \<Rightarrow> Inl (RError (''ERR '' @ msg))
             | Inr limit \<Rightarrow> sintercard_options rest limit)
          else Inl syntaxerr
      | [] \<Rightarrow> Inl syntaxerr)"

definition sinterCardCommand :: "set_env \<Rightarrow> sorter \<Rightarrow> bytes \<Rightarrow> bytes list \<Rightarrow> server \<Rightarrow> server option" where
  "sinterCardCommand env qsort num args c =
     (case get_range_long num 1 LLONG_MAX ''numkeys should be greater than 0'' of
        Inl msg \<Rightarrow> Some (addReply (RError (''ERR '' @ msg)) c)
      | Inr numkeys \<Rightarrow>
          if numkeys > int (length args)
          then Some (addReply (RError ''ERR Number of keys can't be greater than number of args'') c)
          else (case sintercard_options (drop (nat numkeys) args) 0 of
              Inl r \<Rightarrow> Some (addReply r c)
            | Inr limit \<Rightarrow> sinterGenericCommand env qsort (take (nat numkeys) args) (InterCard (nat limit)) c))"

section \<open>Union and difference\<close>

datatype set_op = SET_OP_UNION | SET_OP_DIFF

text \<open>The cardinality is counted in an \<^verbatim>\<open>int\<close>. Its overflow is undefined in C, so it gives \<open>None\<close>.\<close>

definition int_add :: "int \<Rightarrow> int \<Rightarrow> int option" where
  "int_add a b = (if - (2 ^ 31) \<le> a + b \<and> a + b \<le> 2 ^ 31 - 1 then Some (a + b) else None)"

text \<open>The bodies of the loops: add the member to the destination set, or remove it. The state has the server, the
  destination set and its cardinality.\<close>

type_synonym diff_state = "server \<times> set_obj \<times> int"

definition add_ele :: "set_env \<Rightarrow> set_ele \<Rightarrow> diff_state \<Rightarrow> (bool \<times> diff_state) option" where
  "add_ele env e = (\<lambda>(c, dst, n). do {
     (dst, added) \<leftarrow> setTypeAddAux env dst e;
     n \<leftarrow> int_add n (if added then 1 else 0);
     Some (True, c, dst, n) })"

definition remove_ele :: "set_env \<Rightarrow> set_ele \<Rightarrow> diff_state \<Rightarrow> (bool \<times> diff_state) option" where
  "remove_ele env e = (\<lambda>(c, dst, n). do {
     (dst, removed) \<leftarrow> setTypeRemoveAux env dst e;
     n \<leftarrow> int_add n (- (if removed then 1 else 0));
     Some (True, c, dst, n) })"

text \<open>The loop over the members of the set of a key.\<close>

definition each_member :: "set_env \<Rightarrow> (set_ele \<Rightarrow> diff_state \<Rightarrow> (bool \<times> diff_state) option) \<Rightarrow> bytes \<Rightarrow> diff_state \<Rightarrow> diff_state option" where
  "each_member env f key = (\<lambda>(c, dst, n). do {
     so \<leftarrow> get_set c key;
     ((c, dst, n), so) \<leftarrow> set_each env f so (c, dst, n);
     Some (put_set key so c, dst, n) })"

fun union_loop :: "set_env \<Rightarrow> bytes option list \<Rightarrow> diff_state \<Rightarrow> diff_state option" where
  "union_loop env [] st = Some st"
| "union_loop env (None # ks) st = union_loop env ks st"
| "union_loop env (Some k # ks) st = do { st \<leftarrow> each_member env (add_ele env) k st; union_loop env ks st }"

text \<open>The first algorithm: the members of the first set that are in no other.\<close>

fun in_any :: "set_env \<Rightarrow> bytes \<Rightarrow> set_ele \<Rightarrow> bytes option list \<Rightarrow> server \<Rightarrow> (bool \<times> server) option" where
  "in_any env first e [] c = Some (False, c)"
| "in_any env first e (None # ks) c = in_any env first e ks c"
| "in_any env first e (Some k # ks) c =
     (if k = first then Some (True, c)
      else do {
        so \<leftarrow> get_set c k;
        (so, b) \<leftarrow> setTypeIsMemberAux env so e;
        if b then Some (True, put_set k so c) else in_any env first e ks (put_set k so c) })"

definition diff_ele :: "set_env \<Rightarrow> bytes \<Rightarrow> bytes option list \<Rightarrow> set_ele \<Rightarrow> diff_state \<Rightarrow> (bool \<times> diff_state) option" where
  "diff_ele env first others e = (\<lambda>(c, dst, n). do {
     (found, c) \<leftarrow> in_any env first e others c;
     if found then Some (True, c, dst, n) else add_ele env e (c, dst, n) })"

text \<open>The second algorithm: the members of the first set, less those of the others, until nothing is left.\<close>

fun diff_loop :: "set_env \<Rightarrow> bool \<Rightarrow> bytes option list \<Rightarrow> diff_state \<Rightarrow> diff_state option" where
  "diff_loop env j0 [] st = Some st"
| "diff_loop env j0 (None # ks) st = diff_loop env False ks st"
| "diff_loop env j0 (Some k # ks) st = do {
     (c, dst, n) \<leftarrow> each_member env (if j0 then add_ele env else remove_ele env) k st;
     if n = 0 then Some (c, dst, n) else diff_loop env False ks (c, dst, n) }"

text \<open>The choice of the algorithm: the amount of work of each. A size, which is \<^verbatim>\<open>unsigned long\<close>, is added to a \<^verbatim>\<open>long long\<close>:
  the sum is unsigned, and wraps when it is stored. The division rounds towards zero.\<close>

fun diff_work :: "bytes \<Rightarrow> bytes option list \<Rightarrow> int \<times> int \<Rightarrow> server \<Rightarrow> ((int \<times> int) \<times> server) option" where
  "diff_work first [] w c = Some (w, c)"
| "diff_work first (None # ks) w c = diff_work first ks w c"
| "diff_work first (Some k # ks) w c = do {
     (n1, c) \<leftarrow> key_size first c;
     (n2, c) \<leftarrow> key_size k c;
     diff_work first ks (wrap_s 64 (fst w + int n1), wrap_s 64 (snd w + int n2)) c }"

definition choose_algo :: "sorter \<Rightarrow> bytes \<Rightarrow> bytes option list \<Rightarrow> server \<Rightarrow> (nat \<times> bytes option list \<times> server) option" where
  "choose_algo qsort first keys c = do {
     ((one, two), c) \<leftarrow> diff_work first keys (0, 0) c;
     let one = (if one < 0 then - (- one div 2) else one div 2);
     let algo = (if one \<le> two then 1 else 2);
     if algo = 1 \<and> length keys > 1 then do {
       (others, c) \<leftarrow> sort_by_size qsort True (tl keys) c;
       Some (algo, hd keys # others, c) }
     else Some (algo, keys, c) }"

definition sdiff_sets :: "set_env \<Rightarrow> sorter \<Rightarrow> bytes option list \<Rightarrow> set_obj \<Rightarrow> server \<Rightarrow> diff_state option" where
  "sdiff_sets env qsort keys dst c =
     (case hd keys of
        None \<Rightarrow> Some (c, dst, 0)
      | Some first \<Rightarrow>
          if Some first \<in> set (tl keys) then Some (c, dst, 0)
          else do {
            (algo, keys, c) \<leftarrow> choose_algo qsort first keys c;
            if algo = 1 then each_member env (diff_ele env first (tl keys)) first (c, dst, 0)
            else diff_loop env True keys (c, dst, 0) })"

text \<open>The encoding of the temporary set: without destination key it is a hash table unless all sets are intsets.\<close>

definition new_dstset :: "bool \<Rightarrow> bytes option list \<Rightarrow> server \<Rightarrow> set_obj" where
  "new_dstset store keys c =
     (if \<not> store \<and> list_ex (\<lambda>k. case k of
            Some k \<Rightarrow> (case get_set c k of Some so \<Rightarrow> encoding so \<noteq> OBJ_ENCODING_INTSET | None \<Rightarrow> False)
          | None \<Rightarrow> False) keys
      then createSetObject else createIntsetObject)"

definition sunionDiffGenericCommand :: "set_env \<Rightarrow> sorter \<Rightarrow> bytes list \<Rightarrow> bytes option \<Rightarrow> set_op \<Rightarrow> server \<Rightarrow> server option" where
  "sunionDiffGenericCommand env qsort setkeys dstkey op c =
     (case lookup_sets (db c) setkeys of
        None \<Rightarrow> Some (addReply wrongtypeerr c)
      | Some keys \<Rightarrow> do {
          let dst = new_dstset (dstkey \<noteq> None) keys c;
          (c, dst, n) \<leftarrow> (case op of
             SET_OP_UNION \<Rightarrow> union_loop env keys (c, dst, 0)
           | SET_OP_DIFF \<Rightarrow> sdiff_sets env qsort keys dst c);
          (case dstkey of
             None \<Rightarrow> do { c \<leftarrow> addReplySetLen n c; map_option fst (set_each env send_ele dst c) }
           | Some key \<Rightarrow> do {
               (m, dst) \<leftarrow> setTypeSize dst;
               if m > 0 then store_dst key dst (case op of SET_OP_UNION \<Rightarrow> ''sunionstore'' | SET_OP_DIFF \<Rightarrow> ''sdiffstore'') c
               else Some (delete_dst key (addReply (RInt 0) c)) }) })"

definition sunionCommand :: "set_env \<Rightarrow> sorter \<Rightarrow> bytes list \<Rightarrow> server \<Rightarrow> server option" where
  "sunionCommand env qsort keys c = sunionDiffGenericCommand env qsort keys None SET_OP_UNION c"

definition sunionstoreCommand :: "set_env \<Rightarrow> sorter \<Rightarrow> bytes \<Rightarrow> bytes list \<Rightarrow> server \<Rightarrow> server option" where
  "sunionstoreCommand env qsort dst keys c = sunionDiffGenericCommand env qsort keys (Some dst) SET_OP_UNION c"

definition sdiffCommand :: "set_env \<Rightarrow> sorter \<Rightarrow> bytes list \<Rightarrow> server \<Rightarrow> server option" where
  "sdiffCommand env qsort keys c = sunionDiffGenericCommand env qsort keys None SET_OP_DIFF c"

definition sdiffstoreCommand :: "set_env \<Rightarrow> sorter \<Rightarrow> bytes \<Rightarrow> bytes list \<Rightarrow> server \<Rightarrow> server option" where
  "sdiffstoreCommand env qsort dst keys c = sunionDiffGenericCommand env qsort keys (Some dst) SET_OP_DIFF c"

end
