(* ===== verification/Set_Spec.thy ===== *)
theory Set_Spec
  imports Set_Correct Set_Commands
begin

text \<open>
  The set commands refine operations on a map from keys to sets of strings: each command returns without a failed
  assertion, replies what the abstract operation gives, and leaves a keyspace that represents the abstract result. No key
  holds an empty set. A key whose value changes is signalled, and the counter of changes grows.
\<close>

section \<open>The abstract keyspace\<close>

datatype aval = ASet "bytes set" | AOther bytes

type_synonym adb = "bytes \<rightharpoonup> aval"

fun kv_rep :: "(bytes \<Rightarrow> u64) \<Rightarrow> kvobj option \<Rightarrow> aval option \<Rightarrow> bool" where
  "kv_rep h None None \<longleftrightarrow> True"
| "kv_rep h (Some (KvSet so)) (Some (ASet A)) \<longleftrightarrow> set_rep h so A \<and> A \<noteq> {}"
| "kv_rep h (Some (KvOther x)) (Some (AOther y)) \<longleftrightarrow> x = y"
| "kv_rep h _ _ \<longleftrightarrow> False"

definition db_rep :: "(bytes \<Rightarrow> u64) \<Rightarrow> (bytes \<rightharpoonup> kvobj) \<Rightarrow> adb \<Rightarrow> bool" where
  "db_rep h d D \<longleftrightarrow> (\<forall>k. kv_rep h (d k) (D k))"

text \<open>The members of the set of a key; a missing key is an empty set.\<close>

definition members :: "adb \<Rightarrow> bytes \<Rightarrow> bytes set" where
  "members D k = (case D k of Some (ASet A) \<Rightarrow> A | _ \<Rightarrow> {})"

definition wrong_type :: "adb \<Rightarrow> bytes \<Rightarrow> bool" where
  "wrong_type D k \<longleftrightarrow> (case D k of Some (AOther _) \<Rightarrow> True | _ \<Rightarrow> False)"

text \<open>A set stored under a key; an empty set deletes it.\<close>

definition store :: "bytes \<Rightarrow> bytes set \<Rightarrow> adb \<Rightarrow> adb" where
  "store k A D = (if A = {} then D(k := None) else D(k \<mapsto> ASet A))"

datatype set_cmd =
    SADD bytes "bytes list"
  | SREM bytes "bytes list"
  | SMOVE bytes bytes bytes
  | SISMEMBER bytes bytes
  | SMISMEMBER bytes "bytes list"
  | SCARD bytes
  | SMEMBERS bytes
  | SINTER "bytes list"
  | SINTERCARD "bytes list" nat
  | SINTERSTORE bytes "bytes list"
  | SUNION "bytes list"
  | SUNIONSTORE bytes "bytes list"
  | SDIFF "bytes list"
  | SDIFFSTORE bytes "bytes list"

datatype spec_reply = WrongType | Count nat | Counts "nat list" | Members "bytes set"

definition inter_of :: "adb \<Rightarrow> bytes list \<Rightarrow> bytes set" where
  "inter_of D ks = {x \<in> members D (hd ks). \<forall>k\<in>set ks. x \<in> members D k}"

definition union_of :: "adb \<Rightarrow> bytes list \<Rightarrow> bytes set" where
  "union_of D ks = (\<Union>k\<in>set ks. members D k)"

definition diff_of :: "adb \<Rightarrow> bytes list \<Rightarrow> bytes set" where
  "diff_of D ks = members D (hd ks) - union_of D (tl ks)"

fun cmd_keys :: "set_cmd \<Rightarrow> bytes list" where
  "cmd_keys (SADD k _) = [k]"
| "cmd_keys (SREM k _) = [k]"
| "cmd_keys (SMOVE k k' _) = [k, k']"
| "cmd_keys (SISMEMBER k _) = [k]"
| "cmd_keys (SMISMEMBER k _) = [k]"
| "cmd_keys (SCARD k) = [k]"
| "cmd_keys (SMEMBERS k) = [k]"
| "cmd_keys (SINTER ks) = ks"
| "cmd_keys (SINTERCARD ks _) = ks"
| "cmd_keys (SINTERSTORE _ ks) = ks"
| "cmd_keys (SUNION ks) = ks"
| "cmd_keys (SUNIONSTORE _ ks) = ks"
| "cmd_keys (SDIFF ks) = ks"
| "cmd_keys (SDIFFSTORE _ ks) = ks"

text \<open>The abstract commands on sets, when every key has the right type.\<close>

fun spec_sets :: "set_cmd \<Rightarrow> adb \<Rightarrow> spec_reply \<times> adb" where
  "spec_sets (SADD k vs) D = (Count (card (set vs - members D k)), store k (members D k \<union> set vs) D)"
| "spec_sets (SREM k vs) D = (Count (card (set vs \<inter> members D k)), store k (members D k - set vs) D)"
| "spec_sets (SMOVE k k' v) D =
     (if v \<in> members D k then (Count 1, if k = k' then D else store k' (insert v (members D k')) (store k (members D k - {v}) D))
      else (Count 0, D))"
| "spec_sets (SISMEMBER k v) D = (Count (if v \<in> members D k then 1 else 0), D)"
| "spec_sets (SMISMEMBER k vs) D = (Counts (map (\<lambda>v. if v \<in> members D k then 1 else 0) vs), D)"
| "spec_sets (SCARD k) D = (Count (card (members D k)), D)"
| "spec_sets (SMEMBERS k) D = (Members (members D k), D)"
| "spec_sets (SINTER ks) D = (Members (inter_of D ks), D)"
| "spec_sets (SINTERCARD ks limit) D =
     (Count (if limit = 0 then card (inter_of D ks) else min limit (card (inter_of D ks))), D)"
| "spec_sets (SINTERSTORE k ks) D = (Count (card (inter_of D ks)), store k (inter_of D ks) D)"
| "spec_sets (SUNION ks) D = (Members (union_of D ks), D)"
| "spec_sets (SUNIONSTORE k ks) D = (Count (card (union_of D ks)), store k (union_of D ks) D)"
| "spec_sets (SDIFF ks) D = (Members (diff_of D ks), D)"
| "spec_sets (SDIFFSTORE k ks) D = (Count (card (diff_of D ks)), store k (diff_of D ks) D)"

text \<open>\<^verbatim>\<open>SMOVE\<close> from a missing key replies 0 before it looks at the type of the destination.\<close>

definition spec_wrong :: "set_cmd \<Rightarrow> adb \<Rightarrow> bool" where
  "spec_wrong cmd D = (case cmd of
       SMOVE k k' v \<Rightarrow> wrong_type D k \<or> D k \<noteq> None \<and> wrong_type D k'
     | _ \<Rightarrow> list_ex (wrong_type D) (cmd_keys cmd))"

definition spec_cmd :: "set_cmd \<Rightarrow> adb \<Rightarrow> spec_reply \<times> adb" where
  "spec_cmd cmd D = (if spec_wrong cmd D then (WrongType, D) else spec_sets cmd D)"

text \<open>The replies on the wire. The order of the members is not specified.\<close>

fun reply_shows :: "spec_reply \<Rightarrow> reply list \<Rightarrow> bool" where
  "reply_shows WrongType rs \<longleftrightarrow> rs = [wrongtypeerr]"
| "reply_shows (Count n) rs \<longleftrightarrow> rs = [RInt (int n)]"
| "reply_shows (Counts ns) rs \<longleftrightarrow> rs = RArrayLen (length ns) # map (\<lambda>n. RInt (int n)) ns"
| "reply_shows (Members A) rs \<longleftrightarrow> (\<exists>xs. distinct xs \<and> set xs = A \<and> rs = RSetLen (card A) # map RBulk xs)"

text \<open>The arguments: members shorter than \<open>2 ^ 31\<close> bytes, at least one member for \<^verbatim>\<open>SADD\<close> and one key for the operations
  on several sets. Their number is an \<^verbatim>\<open>int\<close>.\<close>

fun cmd_args_ok :: "set_cmd \<Rightarrow> bool" where
  "cmd_args_ok (SADD k vs) \<longleftrightarrow> vs \<noteq> [] \<and> length vs < 2 ^ 31 \<and> (\<forall>v\<in>set vs. length v < 2 ^ 31)"
| "cmd_args_ok (SREM k vs) \<longleftrightarrow> length vs < 2 ^ 31 \<and> (\<forall>v\<in>set vs. length v < 2 ^ 31)"
| "cmd_args_ok (SMOVE k k' v) \<longleftrightarrow> length v < 2 ^ 31"
| "cmd_args_ok (SISMEMBER k v) \<longleftrightarrow> length v < 2 ^ 31"
| "cmd_args_ok (SMISMEMBER k vs) \<longleftrightarrow> length vs < 2 ^ 31 \<and> (\<forall>v\<in>set vs. length v < 2 ^ 31)"
| "cmd_args_ok (SCARD k) \<longleftrightarrow> True"
| "cmd_args_ok (SMEMBERS k) \<longleftrightarrow> True"
| "cmd_args_ok cmd \<longleftrightarrow> cmd_keys cmd \<noteq> [] \<and> length (cmd_keys cmd) < 2 ^ 31"

text \<open>Union and difference count in an \<^verbatim>\<open>int\<close>: the union, or the first set of a difference, has fewer than \<open>2 ^ 31\<close> members. The
  other commands have no such limit.\<close>

fun cmd_sizes_ok :: "set_cmd \<Rightarrow> adb \<Rightarrow> bool" where
  "cmd_sizes_ok (SUNION ks) D \<longleftrightarrow> card (union_of D ks) < 2 ^ 31"
| "cmd_sizes_ok (SUNIONSTORE k ks) D \<longleftrightarrow> card (union_of D ks) < 2 ^ 31"
| "cmd_sizes_ok (SDIFF ks) D \<longleftrightarrow> card (members D (hd ks)) < 2 ^ 31"
| "cmd_sizes_ok (SDIFFSTORE k ks) D \<longleftrightarrow> card (members D (hd ks)) < 2 ^ 31"
| "cmd_sizes_ok _ D \<longleftrightarrow> True"

fun exec :: "set_env \<Rightarrow> sorter \<Rightarrow> set_cmd \<Rightarrow> server \<Rightarrow> server option" where
  "exec env qsort (SADD k vs) c = saddCommand env k vs c"
| "exec env qsort (SREM k vs) c = sremCommand env k vs c"
| "exec env qsort (SMOVE k k' v) c = smoveCommand env k k' v c"
| "exec env qsort (SISMEMBER k v) c = sismemberCommand env k v c"
| "exec env qsort (SMISMEMBER k vs) c = smismemberCommand env k vs c"
| "exec env qsort (SCARD k) c = scardCommand k c"
| "exec env qsort (SMEMBERS k) c = smembersCommand env k c"
| "exec env qsort (SINTER ks) c = sinterCommand env qsort ks c"
| "exec env qsort (SINTERCARD ks limit) c = sinterGenericCommand env qsort ks (InterCard limit) c"
| "exec env qsort (SINTERSTORE k ks) c = sinterstoreCommand env qsort k ks c"
| "exec env qsort (SUNION ks) c = sunionCommand env qsort ks c"
| "exec env qsort (SUNIONSTORE k ks) c = sunionstoreCommand env qsort k ks c"
| "exec env qsort (SDIFF ks) c = sdiffCommand env qsort ks c"
| "exec env qsort (SDIFFSTORE k ks) c = sdiffstoreCommand env qsort k ks c"

section \<open>Steps of a command\<close>

text \<open>A command that changes the keyspace from \<open>D\<close> to \<open>D'\<close> and adds \<open>rs\<close> to the reply.\<close>

definition srv_step :: "(bytes \<Rightarrow> u64) \<Rightarrow> adb \<Rightarrow> server \<Rightarrow> adb \<Rightarrow> reply list \<Rightarrow> server \<Rightarrow> bool" where
  "srv_step h D c D' rs c' \<longleftrightarrow> db_rep h (db c') D' \<and> out c' = out c @ rs \<and>
     (\<exists>ts. touched c' = touched c @ ts \<and> (\<forall>k. D' k \<noteq> D k \<longrightarrow> k \<in> set ts)) \<and>
     dirty c \<le> dirty c' \<and> (D' \<noteq> D \<longrightarrow> dirty c < dirty c')"

text \<open>A step that the clients cannot see: a lookup that moves a bucket or stores the length of a listpack.\<close>

definition srv_same :: "(bytes \<Rightarrow> u64) \<Rightarrow> adb \<Rightarrow> server \<Rightarrow> server \<Rightarrow> bool" where
  "srv_same h D c c' \<longleftrightarrow> db_rep h (db c') D \<and> out c' = out c \<and> touched c' = touched c \<and> dirty c' = dirty c"

lemma srv_same_refl: "db_rep h (db c) D \<Longrightarrow> srv_same h D c c"
  by (simp add: srv_same_def)

lemma srv_same_trans: "srv_same h D c c' \<Longrightarrow> srv_same h D c' c'' \<Longrightarrow> srv_same h D c c''"
  by (simp add: srv_same_def)

lemma srv_same_step: "srv_same h D c c' \<Longrightarrow> srv_step h D c' D' rs c'' \<Longrightarrow> srv_step h D c D' rs c''"
  by (simp add: srv_same_def srv_step_def)

lemma same_reply: "srv_same h D c c' \<Longrightarrow> srv_step h D c D [r] (addReply r c')"
  by (simp add: srv_same_def srv_step_def addReply_def)

lemmas reply_only = same_reply [OF srv_same_refl]

lemma db_rep_upd: "db_rep h d D \<Longrightarrow> kv_rep h v w \<Longrightarrow> db_rep h (d(k := v)) (D(k := w))"
  by (simp add: db_rep_def)

lemma put_same:
  assumes "db_rep h (db c) D" and "D k = Some (ASet A)" and "set_rep h so A"
  shows "srv_same h D c (put_set k so c)"
proof -
  have "kv_rep h (Some (KvSet so)) (Some (ASet A))" using assms by (cases "db c k") (auto simp: db_rep_def dest!: spec [of _ k] elim: kv_rep.elims)
  then have "db_rep h ((db c)(k \<mapsto> KvSet so)) (D(k \<mapsto> ASet A))" using db_rep_upd [OF assms(1)] by blast
  moreover have "D(k \<mapsto> ASet A) = D" using assms(2) by auto
  ultimately show ?thesis by (simp add: srv_same_def put_set_def)
qed

text \<open>The three kinds of a key.\<close>

lemma key_cases:
  assumes "db_rep h (db c) D"
  obtains (missing) "db c k = None" "D k = None" "members D k = {}" "\<not> wrong_type D k"
    | (other) x where "db c k = Some (KvOther x)" "D k = Some (AOther x)" "members D k = {}" "wrong_type D k"
    | (setobj) so where "db c k = Some (KvSet so)" "D k = Some (ASet (members D k))" "set_rep h so (members D k)" "members D k \<noteq> {}" "\<not> wrong_type D k"
proof -
  have "kv_rep h (db c k) (D k)" using assms by (simp add: db_rep_def)
  then show thesis
  proof (cases rule: kv_rep.cases [of "(h, db c k, D k)"])
    case 1
    then show thesis using missing by (simp add: members_def wrong_type_def)
  next
    case (2 h so A)
    then show thesis using setobj \<open>kv_rep _ _ _\<close> by (simp add: members_def wrong_type_def)
  next
    case (3 h x y)
    then show thesis using other \<open>kv_rep _ _ _\<close> by (simp add: members_def wrong_type_def)
  qed (use \<open>kv_rep h (db c k) (D k)\<close> in auto)
qed

end
