(* ===== verification/Set_Refine.thy ===== *)
theory Set_Refine
  imports Set_Spec
begin

text \<open>
  The refinement proofs of the commands on one set: each command is a step of the server that represents the abstract
  command.
\<close>

section \<open>Effects\<close>

named_theorems srv

lemma srv_simps [srv]:
  "db (addReply r c) = db c" "out (addReply r c) = out c @ [r]" "touched (addReply r c) = touched c" "dirty (addReply r c) = dirty c"
  "db (signalModifiedKey k c) = db c" "out (signalModifiedKey k c) = out c" "touched (signalModifiedKey k c) = touched c @ [k]" "dirty (signalModifiedKey k c) = dirty c"
  "db (notifyKeyspaceEvent e k c) = db c" "out (notifyKeyspaceEvent e k c) = out c" "touched (notifyKeyspaceEvent e k c) = touched c" "dirty (notifyKeyspaceEvent e k c) = dirty c"
  "db (add_dirty n c) = db c" "out (add_dirty n c) = out c" "touched (add_dirty n c) = touched c" "dirty (add_dirty n c) = dirty c + n"
  "db (put_set k so c) = (db c)(k \<mapsto> KvSet so)" "out (put_set k so c) = out c" "touched (put_set k so c) = touched c" "dirty (put_set k so c) = dirty c"
  "db (dbAdd k so c) = (db c)(k \<mapsto> KvSet so)" "out (dbAdd k so c) = out c" "touched (dbAdd k so c) = touched c" "dirty (dbAdd k so c) = dirty c"
  by (simp_all add: addReply_def signalModifiedKey_def notifyKeyspaceEvent_def add_dirty_def put_set_def dbAdd_def)

lemma srv_delete [srv]:
  "fst (dbDelete k c) = (db c k \<noteq> None)" "db (snd (dbDelete k c)) = (db c)(k := None)"
  "out (snd (dbDelete k c)) = out c" "touched (snd (dbDelete k c)) = touched c" "dirty (snd (dbDelete k c)) = dirty c"
  by (simp_all add: dbDelete_def)

lemma srv_setKey [srv]:
  "db (setKey k so c) = (db c)(k \<mapsto> KvSet so)" "out (setKey k so c) = out c" "touched (setKey k so c) = touched c @ [k]" "dirty (setKey k so c) = dirty c"
  by (simp_all add: setKey_def srv split: option.splits kvobj.splits)

lemma srv_stepI:
  assumes "db_rep h (db c') D'" and "out c' = out c @ rs" and "touched c' = touched c @ ts" and "\<And>k. D' k \<noteq> D k \<Longrightarrow> k \<in> set ts"
    and "dirty c \<le> dirty c'" and "D' \<noteq> D \<Longrightarrow> dirty c < dirty c'"
  shows "srv_step h D c D' rs c'"
  using assms unfolding srv_step_def by blast

lemma db_rep_store: "db_rep h d D \<Longrightarrow> set_rep h so A \<Longrightarrow> A \<noteq> {} \<Longrightarrow> db_rep h (d(k \<mapsto> KvSet so)) (store k A D)"
  by (simp add: store_def db_rep_upd)

lemma db_rep_delete: "db_rep h d D \<Longrightarrow> db_rep h (d(k := None)) (store k {} D)"
  by (simp add: store_def db_rep_upd)

lemma store_other [simp]: "k' \<noteq> k \<Longrightarrow> store k A D k' = D k'"
  by (simp add: store_def)

lemma store_same: "D k = Some (ASet A) \<Longrightarrow> store k A D = D" if "A \<noteq> {}"
  using that by (auto simp: store_def)

lemma store_missing: "D k = None \<Longrightarrow> store k {} D = D"
  by (auto simp: store_def)

section \<open>Adding and removing\<close>

lemma checkType_rep: "db_rep h (db c) D \<Longrightarrow> checkType k c = wrong_type D k"
  by (cases rule: key_cases [where k = k]) (auto simp: checkType_def)

lemma sadd_open_ok:
  assumes env: "env_ok env" and c: "db_rep (gen_hash env) (db c) D" and w: "\<not> wrong_type D k"
  shows "\<exists>so c'. sadd_open env k vs c = Some (so, c') \<and> set_rep (gen_hash env) so (members D k) \<and>
    out c' = out c \<and> touched c' = touched c \<and> dirty c' = dirty c \<and> (\<forall>v. (db c')(k := v) = (db c)(k := v))"
  using c
proof (cases rule: key_cases [where k = k])
  case missing
  then show ?thesis using setTypeCreate_ok [OF env, of "hd vs" "length vs"] by (auto simp: srv sadd_open_def)
next
  case (setobj so)
  then show ?thesis using setTypeMaybeConvert_ok [OF setobj(3), of "length vs"] by (auto simp: sadd_open_def)
qed (use w in simp)

lemma store_members:
  assumes "db_rep h (db c) D" and "\<not> wrong_type D k"
  shows "store k (members D k) D = D"
  using assms by (cases rule: key_cases [where k = k]) (auto simp: store_same store_missing)

lemma saddCommand_ok:
  assumes env: "env_ok env" and c: "db_rep (gen_hash env) (db c) D" and vs: "vs \<noteq> []" "\<forall>v\<in>set vs. length v < 2 ^ 31" and w: "\<not> wrong_type D k"
  shows "\<exists>c'. saddCommand env k vs c = Some c' \<and>
    srv_step (gen_hash env) D c (store k (members D k \<union> set vs) D) [RInt (int (card (set vs - members D k)))] c'"
proof -
  let ?h = "gen_hash env" and ?A = "members D k"
  define n where "n = card (set vs - ?A)"
  obtain so c1 where so: "sadd_open env k vs c = Some (so, c1)" "set_rep ?h so ?A" "out c1 = out c" "touched c1 = touched c"
      "dirty c1 = dirty c" "(db c1)(k := v) = (db c)(k := v)" for v using sadd_open_ok [OF env c w] by blast
  obtain so1 where so1: "sadd_loop (setTypeAdd env) so vs 0 = Some (so1, n)" "set_rep ?h so1 (?A \<union> set vs)"
    using sadd_loop_rep [OF env so(2) vs(2), of 0] unfolding n_def by auto
  obtain so2 where so2: "setTypeSize so1 = Some (card (?A \<union> set vs), so2)" "set_rep ?h so2 (?A \<union> set vs)"
    using setTypeSize_ok [OF so1(2)] by blast
  have ne: "?A \<union> set vs \<noteq> {}" using vs(1) by simp
  have nochange: "store k (?A \<union> set vs) D = D" if "n = 0"
    using that store_members [OF c w] by (auto simp: n_def Un_absorb2)
  show ?thesis unfolding n_def [symmetric]
  proof (cases "n = 0")
    case True
    then have "srv_step ?h D c (store k (?A \<union> set vs) D) [RInt (int n)] (addReply (RInt 0) (add_dirty 0 (put_set k so1 c1)))"
      using db_rep_store [OF c so1(2) ne, of k] so nochange
      by (intro srv_stepI [where ts = "[]"]) (simp_all add: srv)
    then show "\<exists>c'. saddCommand env k vs c = Some c' \<and> srv_step ?h D c (store k (?A \<union> set vs) D) [RInt (int n)] c'"
      using True w so(1) so1(1) by (simp add: saddCommand_def checkType_rep [OF c])
  next
    case False
    let ?c = "addReply (RInt (int n)) (add_dirty n (put_set k so2 (notifyKeyspaceEvent ''sadd'' k (signalModifiedKey k c1))))"
    have "srv_step ?h D c (store k (?A \<union> set vs) D) [RInt (int n)] ?c"
      using db_rep_store [OF c so2(2) ne, of k] so False
      by (intro srv_stepI [where ts = "[k]"]) (auto simp: srv intro: ccontr)
    then show "\<exists>c'. saddCommand env k vs c = Some c' \<and> srv_step ?h D c (store k (?A \<union> set vs) D) [RInt (int n)] c'"
      using False w so(1) so1(1) so2(1) by (simp add: saddCommand_def checkType_rep [OF c])
  qed
qed

text \<open>The loop of \<^verbatim>\<open>SREM\<close> removes the members until none is left.\<close>

lemma srem_loop_ok:
  assumes "env_ok env" and "set_rep (gen_hash env) so A" and "A \<noteq> {}" and "\<forall>v\<in>set vs. length v < 2 ^ 31"
  shows "\<exists>so'. srem_loop env so vs n = Some (so', n + card (set vs \<inter> A), A \<subseteq> set vs) \<and> set_rep (gen_hash env) so' (A - set vs)"
  using assms
proof (induction vs arbitrary: so A n)
  case (Cons v vs)
  obtain so1 where so1: "setTypeRemove env so v = Some (so1, v \<in> A)" "set_rep (gen_hash env) so1 (A - {v})"
    using setTypeRemoveAux_ok [OF Cons.prems(1,2), of "SetStr v"] Cons.prems(4) by (auto simp: setTypeRemove_def)
  obtain so2 where so2: "setTypeSize so1 = Some (card (A - {v}), so2)" "set_rep (gen_hash env) so2 (A - {v})"
    using setTypeSize_ok [OF so1(2)] by blast
  have fin: "finite A" by (rule set_rep_finite [OF Cons.prems(2)])
  show ?case
  proof (cases "v \<in> A")
    case False
    then have "A - {v} = A" "set (v # vs) \<inter> A = set vs \<inter> A" "A - set (v # vs) = A - set vs" "A \<subseteq> set (v # vs) \<longleftrightarrow> A \<subseteq> set vs" by auto
    then show ?thesis using Cons.IH [of so1 A n] Cons.prems so1 False by simp
  next
    case True
    have "set (v # vs) \<inter> A = insert v (set vs \<inter> (A - {v}))" using True by auto
    then have card: "card (set (v # vs) \<inter> A) = Suc (card (set vs \<inter> (A - {v})))" by simp
    show ?thesis
    proof (cases "A - {v} = {}")
      case True
      then have "A = {v}" using \<open>v \<in> A\<close> by auto
      then show ?thesis using so1 so2 card by simp
    next
      case False
      then have "card (A - {v}) \<noteq> 0" using fin by simp
      moreover obtain so' where "srem_loop env so2 vs (n + 1) = Some (so', n + 1 + card (set vs \<inter> (A - {v})), A - {v} \<subseteq> set vs)"
          "set_rep (gen_hash env) so' (A - {v} - set vs)" using Cons.IH [OF Cons.prems(1) so2(2) False, of "n + 1"] Cons.prems(4) by auto
      moreover have "A - {v} - set vs = A - set (v # vs)" "A - {v} \<subseteq> set vs \<longleftrightarrow> A \<subseteq> set (v # vs)" by auto
      ultimately show ?thesis using so1(1) so2(1) True card by simp
    qed
  qed
qed auto

lemma sremCommand_ok:
  assumes env: "env_ok env" and c: "db_rep (gen_hash env) (db c) D" and vs: "\<forall>v\<in>set vs. length v < 2 ^ 31" and w: "\<not> wrong_type D k"
  shows "\<exists>c'. sremCommand env k vs c = Some c' \<and>
    srv_step (gen_hash env) D c (store k (members D k - set vs) D) [RInt (int (card (set vs \<inter> members D k)))] c'"
  using c
proof (cases rule: key_cases [where k = k])
  case missing
  then show ?thesis using reply_only [OF c] by (simp add: sremCommand_def store_missing)
next
  case (setobj so)
  let ?h = "gen_hash env" and ?A = "members D k"
  define n where "n = card (set vs \<inter> ?A)"
  obtain so1 where so1: "setTypeSize so = Some (card ?A, so1)" "set_rep ?h so1 ?A" using setTypeSize_ok [OF setobj(3)] by blast
  obtain so2 where so2: "srem_loop env so1 vs 0 = Some (so2, n, ?A \<subseteq> set vs)" "set_rep ?h so2 (?A - set vs)"
    using srem_loop_ok [OF env so1(2) setobj(4) vs, of 0] by (auto simp: n_def)
  have fin: "finite ?A" using set_rep_finite [OF setobj(3)] .
  have n: "n = 0 \<Longrightarrow> ?A - set vs = ?A" using fin by (auto simp: n_def)
  have removed: "?A \<subseteq> set vs \<Longrightarrow> n \<noteq> 0" using setobj(4) fin by (auto simp: n_def)
  have same: "store k ?A D = D" using store_same [OF setobj(4)] setobj(2) by simp
  show ?thesis unfolding n_def [symmetric]
  proof (cases "?A \<subseteq> set vs")
    case True
    then have e: "?A - set vs = {}" by auto
    let ?c = "addReply (RInt (int n)) (add_dirty n (notifyKeyspaceEvent ''del'' k (notifyKeyspaceEvent ''srem'' k (signalModifiedKey k (snd (dbDelete k c))))))"
    have "srv_step ?h D c (store k (?A - set vs) D) [RInt (int n)] ?c"
      using db_rep_delete [OF c, of k] removed [OF True] unfolding e by (intro srv_stepI [where ts = "[k]"]) (auto simp: srv intro: ccontr)
    then show "\<exists>c'. sremCommand env k vs c = Some c' \<and> srv_step ?h D c (store k (?A - set vs) D) [RInt (int n)] c'"
      using True setobj(1) so1(1) so2(1) removed [OF True] by (simp add: sremCommand_def Let_def)
  next
    case False
    then have ne: "?A - set vs \<noteq> {}" by auto
    let ?c = "if n = 0 then put_set k so2 c else add_dirty n (notifyKeyspaceEvent ''srem'' k (signalModifiedKey k (put_set k so2 c)))"
    have "srv_step ?h D c (store k (?A - set vs) D) [RInt (int n)] (addReply (RInt (int n)) ?c)"
      using db_rep_store [OF c so2(2) ne, of k] n same by (intro srv_stepI [where ts = "if n = 0 then [] else [k]"]) (auto simp: srv intro: ccontr)
    then show "\<exists>c'. sremCommand env k vs c = Some c' \<and> srv_step ?h D c (store k (?A - set vs) D) [RInt (int n)] c'"
      using False setobj(1) so1(1) so2(1) by (simp add: sremCommand_def Let_def split: if_splits)
  qed
qed (use w in simp)

section \<open>Moving a member\<close>

lemma move_dest_ok:
  assumes env: "env_ok env" and c: "db_rep (gen_hash env) (db c) D" and w: "\<not> wrong_type D k"
  shows "\<exists>so c'. move_dest env k v c = Some (so, c') \<and>
    set_rep (gen_hash env) so (members D k) \<and> out c' = out c \<and> touched c' = touched c \<and> dirty c' = dirty c \<and>
    (\<forall>v. (db c')(k := v) = (db c)(k := v))"
  using c
proof (cases rule: key_cases [where k = k])
  case missing
  then show ?thesis using setTypeCreate_ok [OF env, of v 1] by (auto simp: srv move_dest_def)
qed (use w in \<open>auto simp: move_dest_def\<close>)

lemma move_source_ok:
  assumes c: "db_rep h (db c) D" and src: "D k = Some (ASet A)" and so: "set_rep h so (A - {v})"
  shows "\<exists>c1. move_source k so c = Some c1 \<and> db_rep h (db c1) (store k (A - {v}) D) \<and>
    out c1 = out c \<and> touched c1 = touched c \<and> dirty c1 = dirty c"
proof -
  obtain so1 where so1: "setTypeSize so = Some (card (A - {v}), so1)" "set_rep h so1 (A - {v})" using setTypeSize_ok [OF so] by blast
  have fin: "finite (A - {v})" using set_rep_finite [OF so] .
  show ?thesis
  proof (cases "A - {v} = {}")
    case True
    then show ?thesis using so1(1) db_rep_delete [OF c, of k] unfolding True by (simp add: srv move_source_def)
  next
    case False
    then have "card (A - {v}) \<noteq> 0" using fin by (metis card_0_eq)
    then show ?thesis using so1 db_rep_store [OF c so1(2) False, of k] by (simp add: srv move_source_def)
  qed
qed

lemma members_store [simp]: "members (store k A D) k' = (if k' = k then A else members D k')"
  by (simp add: members_def store_def)

lemma wrong_type_store [simp]: "wrong_type (store k A D) k' = (if k' = k then False else wrong_type D k')"
  by (simp add: wrong_type_def store_def)

lemma move_element_ok:
  assumes env: "env_ok env" and c: "db_rep (gen_hash env) (db c) D" and src: "D k = Some (ASet A)" "v \<in> A" and kk: "k \<noteq> k'"
    and so: "set_rep (gen_hash env) so (A - {v})" and w: "\<not> wrong_type D k'" and v: "length v < 2 ^ 31"
  shows "\<exists>c'. move_element env k k' v so c = Some c' \<and>
    srv_step (gen_hash env) D c (store k' (insert v (members D k')) (store k (A - {v}) D)) [RInt 1] c'"
proof -
  let ?h = "gen_hash env" and ?c = "notifyKeyspaceEvent ''srem'' k c" and ?D = "store k (A - {v}) D" and ?B = "members D k'"
  have c0: "db_rep ?h (db ?c) D" using c by (simp add: srv)
  obtain c1 where c1: "move_source k so ?c = Some c1" "db_rep ?h (db c1) ?D" "out c1 = out c" "touched c1 = touched c" "dirty c1 = dirty c"
    using move_source_ok [OF c0 src(1) so] by (auto simp: srv)
  obtain dst c2 where c2: "move_dest env k' v c1 = Some (dst, c2)" "set_rep ?h dst ?B" "out c2 = out c" "touched c2 = touched c"
      "dirty c2 = dirty c" "(db c2)(k' := x) = (db c1)(k' := x)" for x
    using move_dest_ok [OF env c1(2), of k' v] w kk c1(3-5) by auto
  obtain dst1 where dst1: "setTypeAdd env dst v = Some (dst1, v \<notin> ?B)" "set_rep ?h dst1 (insert v ?B)"
    using setTypeAddAux_ok [OF env c2(2), of "SetStr v"] v by (auto simp: setTypeAdd_def)
  obtain dst2 where dst2: "setTypeSize dst1 = Some (card (insert v ?B), dst2)" "set_rep ?h dst2 (insert v ?B)" using setTypeSize_ok [OF dst1(2)] by blast
  let ?c3 = "add_dirty 1 (signalModifiedKey k c2)"
  define c4 where "c4 = (if v \<notin> ?B then put_set k' dst2 (notifyKeyspaceEvent ''sadd'' k' (signalModifiedKey k' (add_dirty 1 ?c3))) else put_set k' dst1 ?c3)"
  have eq: "move_element env k k' v so c = Some (addReply (RInt 1) c4)"
    using c1(1) c2(1) dst1(1) dst2(1) by (auto simp: move_element_def Let_def c4_def)
  have db: "db_rep ?h (db c4) (store k' (insert v ?B) ?D)"
    using db_rep_store [OF c1(2) dst1(2), of k'] db_rep_store [OF c1(2) dst2(2), of k'] c2(6) by (simp add: c4_def srv)
  have rest: "out c4 = out c" "touched c4 = touched c @ (if v \<notin> ?B then [k, k'] else [k])" "dirty c < dirty c4"
    using c2(3-5) by (simp_all add: c4_def srv)
  have "store k' (insert v ?B) ?D x = D x" if "x \<notin> set (if v \<notin> ?B then [k, k'] else [k])" for x
  proof (cases "x = k'")
    case True
    then have "v \<in> ?B" using that by (auto split: if_splits)
    then show ?thesis using True store_members [OF c w] by (metis insert_absorb store_def fun_upd_apply)
  qed (use that in \<open>auto split: if_splits\<close>)
  then have ch: "x \<in> set (if v \<notin> ?B then [k, k'] else [k])" if "store k' (insert v ?B) ?D x \<noteq> D x" for x using that by blast
  have "srv_step ?h D c (store k' (insert v ?B) ?D) [RInt 1] (addReply (RInt 1) c4)"
    using db rest by (intro srv_stepI [OF _ _ _ ch]) (simp_all add: srv)
  with eq show ?thesis by blast
qed

lemma smoveCommand_ok:
  assumes env: "env_ok env" and c: "db_rep (gen_hash env) (db c) D" and v: "length v < 2 ^ 31"
    and w: "\<not> wrong_type D k" "D k = None \<or> \<not> wrong_type D k'"
  shows "\<exists>c'. smoveCommand env k k' v c = Some c' \<and> srv_step (gen_hash env) D c
      (if v \<in> members D k \<and> k \<noteq> k' then store k' (insert v (members D k')) (store k (members D k - {v}) D) else D)
      [RInt (if v \<in> members D k then 1 else 0)] c'"
  using c
proof (cases rule: key_cases [where k = k])
  case missing
  then show ?thesis using reply_only [OF c] by (simp add: smoveCommand_def)
next
  case (setobj so)
  let ?h = "gen_hash env"
  have ct: "\<not> checkType k' c" using w(2) setobj(2) checkType_rep [OF c] by simp
  show ?thesis
  proof (cases "k = k'")
    case True
    obtain so1 where so1: "setTypeIsMember env so v = Some (so1, v \<in> members D k)" "set_rep ?h so1 (members D k)"
      using setTypeIsMemberAux_ok [OF setobj(3), of "SetStr v"] v by (auto simp: setTypeIsMember_def)
    then show ?thesis using same_reply [OF put_same [OF c setobj(2) so1(2)]] True ct setobj(1) by (auto simp: smoveCommand_def)
  next
    case False
    obtain so1 where so1: "setTypeRemove env so v = Some (so1, v \<in> members D k)" "set_rep ?h so1 (members D k - {v})"
      using setTypeRemoveAux_ok [OF env setobj(3), of "SetStr v"] v by (auto simp: setTypeRemove_def)
    show ?thesis
    proof (cases "v \<in> members D k")
      case True
      then show ?thesis
        using move_element_ok [OF env c setobj(2) True False so1(2) _ v] w(2) setobj(1,2) so1(1) ct False by (auto simp: smoveCommand_def)
    next
      case nomem: False
      then have "set_rep ?h so1 (members D k)" using so1(2) by simp
      then show ?thesis using same_reply [OF put_same [OF c setobj(2)]] nomem ct False setobj(1) so1(1) by (auto simp: smoveCommand_def)
    qed
  qed
qed (use w in simp)

section \<open>Reading\<close>

lemma sismemberCommand_ok:
  assumes c: "db_rep (gen_hash env) (db c) D" and v: "length v < 2 ^ 31" and w: "\<not> wrong_type D k"
  shows "\<exists>c'. sismemberCommand env k v c = Some c' \<and> srv_step (gen_hash env) D c D [RInt (if v \<in> members D k then 1 else 0)] c'"
  using c
proof (cases rule: key_cases [where k = k])
  case missing
  then show ?thesis using reply_only [OF c] by (simp add: sismemberCommand_def)
next
  case (setobj so)
  obtain so1 where so1: "setTypeIsMember env so v = Some (so1, v \<in> members D k)" "set_rep (gen_hash env) so1 (members D k)"
    using setTypeIsMemberAux_ok [OF setobj(3), of "SetStr v"] v by (auto simp: setTypeIsMember_def)
  then show ?thesis using same_reply [OF put_same [OF c setobj(2) so1(2)]] setobj(1) by (simp add: sismemberCommand_def)
qed (use w in simp)

lemma srv_step_trans_same:
  assumes "srv_step h D c D rs c'" and "srv_step h D c' D rs' c''"
  shows "srv_step h D c D (rs @ rs') c''"
  using assms unfolding srv_step_def by fastforce

lemma srv_step_db: "srv_step h D c D' rs c' \<Longrightarrow> db_rep h (db c') D'"
  by (simp add: srv_step_def)

lemma smismember_loop_ok:
  assumes "db_rep (gen_hash env) (db c) D" and "\<forall>v\<in>set vs. length v < 2 ^ 31" and "\<not> wrong_type D k"
  shows "\<exists>c'. smismember_loop env k vs c = Some c' \<and>
    srv_step (gen_hash env) D c D (map (\<lambda>v. RInt (if v \<in> members D k then 1 else 0)) vs) c'"
  using assms
proof (induction vs arbitrary: c)
  case Nil
  then show ?case by (auto simp: srv_step_def)
next
  case (Cons v vs)
  let ?r = "RInt (if v \<in> members D k then 1 else 0)"
  have "\<exists>c1. smismember_loop env k (v # vs) c = smismember_loop env k vs c1 \<and> srv_step (gen_hash env) D c D [?r] c1"
    using Cons.prems(1)
  proof (cases rule: key_cases [where k = k])
    case missing
    then show ?thesis using reply_only [OF Cons.prems(1)] by auto
  next
    case (setobj so)
    obtain so1 where so1: "setTypeIsMember env so v = Some (so1, v \<in> members D k)" "set_rep (gen_hash env) so1 (members D k)"
      using setTypeIsMemberAux_ok [OF setobj(3), of "SetStr v"] Cons.prems(2) by (auto simp: setTypeIsMember_def)
    then show ?thesis using same_reply [OF put_same [OF Cons.prems(1) setobj(2) so1(2)]] setobj(1) by auto
  qed (use Cons.prems(3) in simp)
  then obtain c1 where c1: "smismember_loop env k (v # vs) c = smismember_loop env k vs c1" "srv_step (gen_hash env) D c D [?r] c1" by blast
  then show ?case using Cons.IH [OF srv_step_db [OF c1(2)]] Cons.prems(2,3) srv_step_trans_same [OF c1(2)] by fastforce
qed

lemma smismemberCommand_ok:
  assumes c: "db_rep (gen_hash env) (db c) D" and vs: "\<forall>v\<in>set vs. length v < 2 ^ 31" and w: "\<not> wrong_type D k"
  shows "\<exists>c'. smismemberCommand env k vs c = Some c' \<and>
    srv_step (gen_hash env) D c D (RArrayLen (length vs) # map (\<lambda>v. RInt (if v \<in> members D k then 1 else 0)) vs) c'"
  using smismember_loop_ok [OF srv_step_db [OF reply_only [OF c, of "RArrayLen (length vs)"]] vs w]
    srv_step_trans_same [OF reply_only [OF c, of "RArrayLen (length vs)"]] w checkType_rep [OF c, of k]
  by (fastforce simp: smismemberCommand_def)

lemma scardCommand_ok:
  assumes c: "db_rep h (db c) D" and w: "\<not> wrong_type D k"
  shows "\<exists>c'. scardCommand k c = Some c' \<and> srv_step h D c D [RInt (int (card (members D k)))] c'"
  using c
proof (cases rule: key_cases [where k = k])
  case missing
  then show ?thesis using reply_only [OF c] by (simp add: scardCommand_def)
next
  case (setobj so)
  obtain so1 where so1: "setTypeSize so = Some (card (members D k), so1)" "set_rep h so1 (members D k)" using setTypeSize_ok [OF setobj(3)] by blast
  then show ?thesis using same_reply [OF put_same [OF c setobj(2) so1(2)]] setobj(1) by (simp add: scardCommand_def)
qed (use w in simp)

lemma send_ele_ok: "ele_ok e \<Longrightarrow> send_ele e c = Some (True, addReply (RBulk (ele_str e)) c)"
proof (cases e)
  case (SetLl v)
  assume "ele_ok e"
  then have "ll_string 64 v = Some (ll_dec v)"
    using SetLl ll2string_correct(1) [of v "replicate 64 None"] length_ll_dec [of v] by (simp add: ll_string_def mem_read_def)
  then show ?thesis using SetLl by (simp add: send_ele_def reply_ele_def)
qed (simp add: send_ele_def reply_ele_def)

definition send_all :: "set_ele list \<Rightarrow> server \<Rightarrow> server" where
  "send_all es c = c\<lparr>out := out c @ map (RBulk \<circ> ele_str) es\<rparr>"

lemma fold_send: "\<forall>e\<in>set es. ele_ok e \<Longrightarrow> fold_until send_ele es c = Some (send_all es c)"
  by (induction es arbitrary: c) (auto simp: send_ele_ok send_all_def addReply_def)

lemma fold_send_count:
  "\<forall>e\<in>set es. ele_ok e \<Longrightarrow> fold_until (\<lambda>e (left, c). map_option (\<lambda>(_, c). (True, left - 1, c)) (send_ele e c)) es (n, c)
    = Some (n - int (length es), send_all es c)"
  by (induction es arbitrary: n c) (auto simp: send_ele_ok send_all_def addReply_def)

lemma srv_send [srv]:
  "db (send_all es c) = db c" "out (send_all es c) = out c @ map (RBulk \<circ> ele_str) es" "touched (send_all es c) = touched c" "dirty (send_all es c) = dirty c"
  by (simp_all add: send_all_def)

text \<open>A reply with the members \<open>es\<close>.\<close>

lemma members_reply: "set_lists h so es \<Longrightarrow> reply_shows (Members (ele_str ` set es)) (RSetLen (length es) # map (RBulk \<circ> ele_str) es)"
  using set_lists_ok [of h so es] set_lists_card [of h so es] by (auto intro!: exI [of _ "map ele_str es"])

lemma smembersCommand_ok:
  assumes c: "db_rep (gen_hash env) (db c) D" and w: "\<not> wrong_type D k"
  shows "\<exists>c' rs. smembersCommand env k c = Some c' \<and> srv_step (gen_hash env) D c D rs c' \<and> reply_shows (Members (members D k)) rs"
  using c
proof (cases rule: key_cases [where k = k])
  case missing
  then show ?thesis using reply_only [OF c] by (auto simp: smembersCommand_def)
next
  case (setobj so)
  let ?h = "gen_hash env"
  obtain so1 where so1: "setTypeSize so = Some (card (members D k), so1)" "set_rep ?h so1 (members D k)" using setTypeSize_ok [OF setobj(3)] by blast
  obtain es where es: "set_lists ?h so1 es" "members D k = ele_str ` set es" using set_rep_lists [OF so1(2)] by blast
  have ok: "\<forall>e\<in>set es. ele_ok e" and n: "card (members D k) = length es" using set_lists_ok [OF es(1)] set_lists_card [OF es(1)] es(2) by auto
  let ?c = "put_set k so1 (send_all es (addReply (RSetLen (length es)) c))"
  have "smembersCommand env k c = Some ?c"
    using setobj(1) so1(1) n by (simp add: smembersCommand_def addReplySetLen_def set_each_ok [OF es(1)] fold_send_count [OF ok])
  moreover have "srv_step ?h D c D (RSetLen (length es) # map (RBulk \<circ> ele_str) es) ?c"
    using put_same [OF c setobj(2) so1(2)] by (simp add: srv_step_def srv_same_def srv)
  ultimately show ?thesis using members_reply [OF es(1)] es(2) by auto
qed (use w in simp)

end
