(* ===== verification/Set_Algebra.thy ===== *)
theory Set_Algebra
  imports Set_Refine
begin

text \<open>
  The refinement proofs of the operations on several sets, first part: the lookup and the sorting of the sets, the intersection by
  searching the members of the smallest set in the others, and the storing of a result. The results do not depend on the order
  that \<^verbatim>\<open>qsort\<close> chooses.
\<close>

section \<open>The sets of the keys\<close>

definition present :: "adb \<Rightarrow> bytes \<Rightarrow> bytes option" where
  "present D k = (if D k = None then None else Some k)"

fun omembers :: "adb \<Rightarrow> bytes option \<Rightarrow> bytes set" where
  "omembers D None = {}"
| "omembers D (Some k) = members D k"

definition keys_ok :: "adb \<Rightarrow> bytes option list \<Rightarrow> bool" where
  "keys_ok D ks \<longleftrightarrow> (\<forall>k. Some k \<in> set ks \<longrightarrow> D k = Some (ASet (members D k)))"

lemma keys_ok_simps [simp]:
  "keys_ok D []" "keys_ok D (None # ks) = keys_ok D ks" "keys_ok D (Some k # ks) \<longleftrightarrow> D k = Some (ASet (members D k)) \<and> keys_ok D ks"
  by (auto simp: keys_ok_def)

lemma omembers_present [simp]: "omembers D (present D k) = members D k"
  by (simp add: present_def members_def)

lemma lookup_sets_ok:
  assumes "db_rep h (db c) D"
  shows "lookup_sets (db c) ks = (if list_ex (wrong_type D) ks then None else Some (map (present D) ks))"
proof (induction ks)
  case (Cons k ks)
  from assms show ?case by (cases rule: key_cases [where k = k]) (auto simp: Cons.IH present_def)
qed simp

lemma keys_ok_present:
  assumes "db_rep h (db c) D" and "\<not> list_ex (wrong_type D) ks"
  shows "keys_ok D (map (present D) ks)"
  unfolding keys_ok_def
proof (intro allI impI)
  fix k
  assume "Some k \<in> set (map (present D) ks)"
  then have "k \<in> set ks" "D k \<noteq> None" by (auto simp: present_def split: if_splits)
  then have "\<not> wrong_type D k" using assms(2) by (auto simp: list_ex_iff)
  with assms(1) \<open>D k \<noteq> None\<close> show "D k = Some (ASet (members D k))" by (cases rule: key_cases [where k = k]) auto
qed

lemma get_set_ok:
  assumes "db_rep h (db c) D" and "D k = Some (ASet A)"
  shows "\<exists>so. get_set c k = Some so \<and> set_rep h so A \<and> members D k = A"
  using assms by (cases rule: key_cases [where k = k]) (auto simp: get_set_def)

lemma same_db: "srv_same h D c c' \<Longrightarrow> db_rep h (db c') D"
  by (simp add: srv_same_def)

lemma key_size_ok:
  assumes c: "db_rep h (db c) D" and k: "D k = Some (ASet (members D k))"
  shows "\<exists>c'. key_size k c = Some (card (members D k), c') \<and> srv_same h D c c'"
proof -
  obtain so where so: "get_set c k = Some so" "set_rep h so (members D k)" using get_set_ok [OF c k] by blast
  obtain so1 where so1: "setTypeSize so = Some (card (members D k), so1)" "set_rep h so1 (members D k)" using setTypeSize_ok [OF so(2)] by blast
  then show ?thesis using so(1) put_same [OF c k so1(2)] by (simp add: key_size_def)
qed

lemma key_sizes_ok:
  assumes "db_rep h (db c) D" and "keys_ok D ks"
  shows "\<exists>ns c'. key_sizes ks c = Some (ns, c') \<and> length ns = length ks \<and> srv_same h D c c'"
  using assms
proof (induction ks c rule: key_sizes.induct)
  case (1 c)
  then show ?case by (simp add: srv_same_refl)
next
  case (2 ks c)
  then show ?case by auto
next
  case (3 k ks c)
  obtain c1 where c1: "key_size k c = Some (card (members D k), c1)" "srv_same h D c c1"
    using key_size_ok [OF 3(2), of k] 3(3) by auto
  obtain ns c2 where "key_sizes ks c1 = Some (ns, c2)" "length ns = length ks" "srv_same h D c1 c2"
    using 3(1) [OF c1(1) refl same_db [OF c1(2)]] 3(3) by auto
  then show ?case using c1 srv_same_trans [OF c1(2)] by auto
qed

lemma sort_by_size_ok:
  assumes "qsort_ok qsort" and "db_rep h (db c) D" and "keys_ok D ks"
  shows "\<exists>ks' c'. sort_by_size qsort decr ks c = Some (ks', c') \<and> mset ks' = mset ks \<and> srv_same h D c c'"
proof -
  obtain ns c' where n: "key_sizes ks c = Some (ns, c')" "length ns = length ks" "srv_same h D c c'" using key_sizes_ok [OF assms(2,3)] by blast
  let ?xs = "zip (map (\<lambda>n. if decr then - int n else int n) ns) ks"
  have "mset (map snd (qsort ?xs)) = mset (map snd ?xs)" using assms(1) by (simp add: qsort_ok_def)
  then have "mset (map snd (qsort ?xs)) = mset ks" using n(2) by (simp only: map_snd_zip length_map)
  then show ?thesis using n by (simp add: sort_by_size_def)
qed

section \<open>Intersection\<close>

lemma in_all_ok:
  assumes "db_rep (gen_hash env) (db c) D" and "keys_ok D ks" and "None \<notin> set ks" and "ele_ok e"
  shows "\<exists>c'. in_all env first e ks c = Some (\<forall>k. Some k \<in> set ks \<longrightarrow> k \<noteq> first \<longrightarrow> ele_str e \<in> members D k, c') \<and> srv_same (gen_hash env) D c c'"
  using assms
proof (induction env first e ks c rule: in_all.induct)
  case (1 env first e c)
  then show ?case by (simp add: srv_same_refl)
next
  case (3 env first e k ks c)
  show ?case
  proof (cases "k = first")
    case True
    then show ?thesis using 3 by auto
  next
    case False
    have k: "D k = Some (ASet (members D k))" using 3(4) by simp
    obtain so where so: "get_set c k = Some so" "set_rep (gen_hash env) so (members D k)" using get_set_ok [OF 3(3) k] by blast
    obtain so1 where so1: "setTypeIsMemberAux env so e = Some (so1, ele_str e \<in> members D k)" "set_rep (gen_hash env) so1 (members D k)"
      using setTypeIsMemberAux_ok [OF so(2) 3(6)] by blast
    have same: "srv_same (gen_hash env) D c (put_set k so1 c)" using put_same [OF 3(3) k so1(2)] .
    show ?thesis
    proof (cases "ele_str e \<in> members D k")
      case True
      then have "\<exists>c'. in_all env first e ks (put_set k so1 c) = Some (\<forall>k. Some k \<in> set ks \<longrightarrow> k \<noteq> first \<longrightarrow> ele_str e \<in> members D k, c') \<and>
          srv_same (gen_hash env) D (put_set k so1 c) c'"
        using 3(2) [OF False so(1) so1(1) refl] same_db [OF same] 3(4-6) by auto
      then show ?thesis using False True so(1) so1(1) srv_same_trans [OF same] by auto
    next
      case no: False
      then show ?thesis using False so(1) so1(1) same by auto
    qed
  qed
qed simp

definition selected :: "adb \<Rightarrow> bytes \<Rightarrow> bytes option list \<Rightarrow> set_ele \<Rightarrow> bool" where
  "selected D first ks e \<longleftrightarrow> (\<forall>k. Some k \<in> set ks \<longrightarrow> k \<noteq> first \<longrightarrow> ele_str e \<in> members D k)"

lemma inter_card_loop:
  assumes "db_rep (gen_hash env) (db (in_srv st)) D" and "keys_ok D ks" "None \<notin> set ks" and "\<forall>e\<in>set es. ele_ok e"
    and "limit = 0 \<or> in_cardinality st < limit"
  shows "\<exists>st'. fold_until (inter_step env (InterCard limit) enc first ks) es st = Some st' \<and> srv_same (gen_hash env) D (in_srv st) (in_srv st') \<and>
    in_cardinality st' = (let n = in_cardinality st + length (filter (selected D first ks) es) in if limit = 0 then n else min limit n)"
  using assms
proof (induction es arbitrary: st)
  case Nil
  then show ?case by (auto simp: srv_same_refl)
next
  case (Cons e es)
  obtain c1 where c1: "in_all env first e ks (in_srv st) = Some (selected D first ks e, c1)" "srv_same (gen_hash env) D (in_srv st) c1"
    using in_all_ok [OF Cons.prems(1-3), of e first] Cons.prems(4) unfolding selected_def by auto
  show ?case
  proof (cases "selected D first ks e")
    case False
    let ?st = "st\<lparr>in_srv := c1\<rparr>"
    have "inter_step env (InterCard limit) enc first ks e st = Some (True, ?st)" using c1(1) False by (simp add: inter_step_def)
    then show ?thesis using Cons.IH [of ?st] Cons.prems same_db [OF c1(2)] False srv_same_trans [OF c1(2)] by auto
  next
    case True
    let ?n = "in_cardinality st + 1"
    let ?st = "st\<lparr>in_srv := c1, in_cardinality := ?n\<rparr>"
    have step: "inter_step env (InterCard limit) enc first ks e st = Some (\<not> (limit \<noteq> 0 \<and> ?n \<ge> limit), ?st)"
      using c1(1) True by (simp add: inter_step_def Let_def)
    show ?thesis
    proof (cases "limit \<noteq> 0 \<and> ?n \<ge> limit")
      case True
      then have "limit = ?n" using Cons.prems(5) by simp
      then show ?thesis using step c1(2) \<open>selected D first ks e\<close> by (simp add: Let_def)
    next
      case False
      then have "limit = 0 \<or> in_cardinality ?st < limit" by auto
      then obtain st' where "fold_until (inter_step env (InterCard limit) enc first ks) es ?st = Some st'"
          "srv_same (gen_hash env) D (in_srv ?st) (in_srv st')"
          "in_cardinality st' = (let n = in_cardinality ?st + length (filter (selected D first ks) es) in if limit = 0 then n else min limit n)"
        using Cons.IH [of ?st] Cons.prems same_db [OF c1(2)] by auto
      moreover have "in_srv ?st = c1" "in_cardinality ?st = ?n" by simp_all
      ultimately show ?thesis using step False srv_same_trans [OF c1(2)] True by (auto simp: Let_def)
    qed
  qed
qed

lemma inter_reply_loop:
  assumes "db_rep (gen_hash env) (db (in_srv st)) D" and "keys_ok D ks" "None \<notin> set ks" and "\<forall>e\<in>set es. ele_ok e"
  shows "\<exists>st'. fold_until (inter_step env InterReply enc first ks) es st = Some st' \<and>
    srv_step (gen_hash env) D (in_srv st) D (map (RBulk \<circ> ele_str) (filter (selected D first ks) es)) (in_srv st') \<and>
    in_cardinality st' = in_cardinality st + length (filter (selected D first ks) es)"
  using assms
proof (induction es arbitrary: st)
  case Nil
  then show ?case by (auto simp: srv_step_def)
next
  case (Cons e es)
  obtain c1 where c1: "in_all env first e ks (in_srv st) = Some (selected D first ks e, c1)" "srv_same (gen_hash env) D (in_srv st) c1"
    using in_all_ok [OF Cons.prems(1-3), of e first] Cons.prems(4) unfolding selected_def by auto
  show ?case
  proof (cases "selected D first ks e")
    case False
    let ?st = "st\<lparr>in_srv := c1\<rparr>"
    have "inter_step env InterReply enc first ks e st = Some (True, ?st)" using c1(1) False by (simp add: inter_step_def)
    then show ?thesis using Cons.IH [of ?st] Cons.prems same_db [OF c1(2)] False srv_same_step [OF c1(2)] by auto
  next
    case True
    let ?c = "addReply (RBulk (ele_str e)) c1"
    let ?st = "st\<lparr>in_srv := ?c, in_cardinality := in_cardinality st + 1\<rparr>"
    have s1: "srv_step (gen_hash env) D (in_srv st) D [RBulk (ele_str e)] ?c" by (rule same_reply [OF c1(2)])
    have step: "inter_step env InterReply enc first ks e st = Some (True, ?st)"
      using c1(1) True send_ele_ok [of e c1] Cons.prems(4) by (simp add: inter_step_def Let_def)
    obtain st' where st': "fold_until (inter_step env InterReply enc first ks) es ?st = Some st'"
        "srv_step (gen_hash env) D ?c D (map (RBulk \<circ> ele_str) (filter (selected D first ks) es)) (in_srv st')"
        "in_cardinality st' = in_cardinality st + 1 + length (filter (selected D first ks) es)"
      using Cons.IH [of ?st] Cons.prems srv_step_db [OF s1] by (auto simp: comp_def)
    then show ?thesis using step True srv_step_trans_same [OF s1 st'(2)] by (simp add: comp_def)
  qed
qed

lemma string2ll_dec: "in_s 64 v \<Longrightarrow> string2ll (ll_dec v) = Some v"
  using string2ll_iff by blast

text \<open>The destination set of \<^verbatim>\<open>SINTERSTORE\<close> and its flag.\<close>

definition dst_rep :: "(bytes \<Rightarrow> u64) \<Rightarrow> inter_state \<Rightarrow> bytes set \<Rightarrow> bool" where
  "dst_rep h st A \<longleftrightarrow> set_rep h (in_dstset st) A \<and> (in_only_integers st \<longrightarrow> (\<forall>s\<in>A. string2ll s \<noteq> None))"

lemma inter_store_ok:
  assumes env: "env_ok env" and d: "dst_rep (gen_hash env) st A" and e: "ele_ok e"
  shows "\<exists>st'. inter_store env enc e st = Some st' \<and> in_srv st' = in_srv st \<and> dst_rep (gen_hash env) st' (insert (ele_str e) A)"
proof -
  define e' ints where "e' = (case e of
         SetStr s \<Rightarrow> if in_only_integers st then
             (case (if enc = OBJ_ENCODING_HT then string2ll s else None) of
                Some v \<Rightarrow> if encoding (in_dstset st) = OBJ_ENCODING_LISTPACK \<or> encoding (in_dstset st) = OBJ_ENCODING_INTSET then SetLl v else e
              | None \<Rightarrow> e)
           else e
       | SetLl v \<Rightarrow> e)"
    and "ints = (case e of
         SetStr s \<Rightarrow> in_only_integers st \<and> (if enc = OBJ_ENCODING_HT then string2ll s else None) \<noteq> None
       | SetLl v \<Rightarrow> in_only_integers st)"
  have eq: "inter_store env enc e st = map_option (\<lambda>(so, _). st\<lparr>in_dstset := so, in_only_integers := ints\<rparr>) (setTypeAddAux env (in_dstset st) e')"
    by (cases e) (auto simp: inter_store_def e'_def ints_def split: option.splits)
  have e': "ele_ok e'" "ele_str e' = ele_str e" using e string2ll_iff by (auto simp: e'_def split: set_ele.splits option.splits if_splits)
  have "ints \<Longrightarrow> in_only_integers st \<and> string2ll (ele_str e) \<noteq> None" using e by (cases e) (auto simp: ints_def string2ll_dec split: if_splits)
  then show ?thesis using setTypeAddAux_ok [OF env, of "in_dstset st" A e'] e' d by (auto simp: eq dst_rep_def)
qed

lemma inter_store_loop:
  assumes env: "env_ok env" and "db_rep (gen_hash env) (db (in_srv st)) D" and "keys_ok D ks" "None \<notin> set ks" and "\<forall>e\<in>set es. ele_ok e"
    and "dst_rep (gen_hash env) st A"
  shows "\<exists>st'. fold_until (inter_step env (InterStore dst) enc first ks) es st = Some st' \<and> srv_same (gen_hash env) D (in_srv st) (in_srv st') \<and>
    dst_rep (gen_hash env) st' (A \<union> ele_str ` set (filter (selected D first ks) es))"
  using assms(2-)
proof (induction es arbitrary: st A)
  case Nil
  then show ?case by (auto simp: srv_same_refl)
next
  case (Cons e es)
  obtain c1 where c1: "in_all env first e ks (in_srv st) = Some (selected D first ks e, c1)" "srv_same (gen_hash env) D (in_srv st) c1"
    using in_all_ok [OF Cons.prems(1-3), of e first] Cons.prems(4) unfolding selected_def by auto
  let ?st = "st\<lparr>in_srv := c1\<rparr>"
  have d: "dst_rep (gen_hash env) ?st A" using Cons.prems(5) by (simp add: dst_rep_def)
  show ?case
  proof (cases "selected D first ks e")
    case False
    have "inter_step env (InterStore dst) enc first ks e st = Some (True, ?st)" using c1(1) False by (simp add: inter_step_def)
    then show ?thesis using Cons.IH [of ?st A] Cons.prems d same_db [OF c1(2)] False srv_same_trans [OF c1(2)] by auto
  next
    case True
    obtain st1 where st1: "inter_store env enc e ?st = Some st1" "in_srv st1 = c1" "dst_rep (gen_hash env) st1 (insert (ele_str e) A)"
      using inter_store_ok [OF env d] Cons.prems(4) by auto
    have "inter_step env (InterStore dst) enc first ks e st = Some (True, st1)" using c1(1) True st1(1) by (simp add: inter_step_def Let_def)
    then show ?thesis using Cons.IH [of st1 "insert (ele_str e) A"] Cons.prems st1 same_db [OF c1(2)] True srv_same_trans [OF c1(2)] by auto
  qed
qed

section \<open>Storing a result\<close>

lemma delete_dst_step:
  assumes "db_rep h (db c) D"
  shows "srv_step h D c (store k {} D) rs (delete_dst k c) = (rs = [])" and "db_rep h (db (delete_dst k c)) (store k {} D)"
proof -
  have r: "db_rep h (db (delete_dst k c)) (store k {} D)"
    using db_rep_delete [OF assms, of k] by (simp add: delete_dst_def srv split_beta Let_def)
  have "store k {} D = D" if "db c k = None"
    using assms that by (cases rule: key_cases [where k = k]) (auto simp: store_missing)
  then have "srv_step h D c (store k {} D) [] (delete_dst k c)"
    using r by (intro srv_stepI [where ts = "if db c k = None then [] else [k]"]) (auto simp: delete_dst_def srv split_beta Let_def intro: ccontr)
  moreover have "out (delete_dst k c) = out c" by (simp add: delete_dst_def srv split_beta Let_def)
  ultimately show "srv_step h D c (store k {} D) rs (delete_dst k c) = (rs = [])" by (auto simp: srv_step_def)
  show "db_rep h (db (delete_dst k c)) (store k {} D)" by (rule r)
qed

lemma delete_reply:
  assumes "srv_same h D c c'"
  shows "srv_step h D c (store k {} D) [r] (delete_dst k (addReply r c'))" "srv_step h D c (store k {} D) [r] (addReply r (delete_dst k c'))"
proof -
  have s: "srv_step h D c D [r] (addReply r c')" by (rule same_reply [OF assms])
  have "srv_step h D (addReply r c') (store k {} D) [] (delete_dst k (addReply r c'))" using delete_dst_step(1) [OF srv_step_db [OF s]] by simp
  with s show "srv_step h D c (store k {} D) [r] (delete_dst k (addReply r c'))" unfolding srv_step_def by fastforce
  have "srv_step h D c' (store k {} D) [] (delete_dst k c')" using delete_dst_step(1) [OF same_db [OF assms]] by simp
  from srv_same_step [OF assms this] show "srv_step h D c (store k {} D) [r] (addReply r (delete_dst k c'))"
    by (simp add: srv_step_def srv)
qed

lemma store_dst_ok:
  assumes c: "srv_same h D c c'" and so: "set_rep h so A" "A \<noteq> {}"
  shows "\<exists>c''. store_dst k so ev c' = Some c'' \<and> srv_step h D c (store k A D) [RInt (int (card A))] c''"
proof -
  obtain so1 where so1: "setTypeSize so = Some (card A, so1)" "set_rep h so1 A" using setTypeSize_ok [OF so(1)] by blast
  let ?c = "add_dirty 1 (notifyKeyspaceEvent ev k (addReply (RInt (int (card A))) (setKey k so1 c')))"
  have "srv_step h D c' (store k A D) [RInt (int (card A))] ?c"
    using db_rep_store [OF same_db [OF c] so1(2) so(2), of k] by (intro srv_stepI [where ts = "[k]"]) (auto simp: srv intro: ccontr)
  then show ?thesis using so1(1) srv_same_step [OF c] by (simp add: store_dst_def)
qed

lemma shrink_listpack_ok:
  assumes "env_ok env" and "set_rep h so A"
  shows "\<exists>so'. shrink_listpack env so = Some so' \<and> set_rep h so' A"
  using assms(2)
proof (cases rule: set_rep_cases)
  case (listpack lp ss)
  obtain lp' where "lpShrinkToFit (alloc_usable env) lp = Some lp'" "lp_list lp' ss"
    using lpShrinkToFit_rep [of "alloc_usable env" lp "map lp_val_of ss"] assms(1) listpack(2) by (auto simp: env_ok_def lp_list_def)
  then show ?thesis using listpack set_rep_listpack [of lp' ss h] by (simp add: shrink_listpack_def)
qed (use assms(2) in \<open>auto simp: shrink_listpack_def\<close>)

lemma inter_finish_ok:
  assumes env: "env_ok env" and c: "srv_same (gen_hash env) D c (in_srv st)" and d: "dst_rep (gen_hash env) st A"
  shows "\<exists>c'. inter_finish env k st = Some c' \<and> srv_step (gen_hash env) D c (store k A D) [RInt (int (card A))] c'"
proof -
  let ?h = "gen_hash env"
  obtain so where so: "setTypeSize (in_dstset st) = Some (card A, so)" "set_rep ?h so A"
    using setTypeSize_ok [of ?h "in_dstset st" A] d by (auto simp: dst_rep_def)
  have fin: "finite A" by (rule set_rep_finite [OF so(2)])
  show ?thesis
  proof (cases "A = {}")
    case True
    then show ?thesis using so(1) delete_reply(1) [OF c, of k] by (auto simp: inter_finish_def)
  next
    case False
    then have n: "card A > 0" using fin by (simp add: card_gt_0_iff)
    have "\<exists>so1. (if in_only_integers st then maybeConvertToIntset env so else Some so) = Some so1 \<and> set_rep ?h so1 A"
      using maybeConvertToIntset_ok [OF env so(2)] d so(2) by (auto simp: dst_rep_def)
    then obtain so1 where so1: "(if in_only_integers st then maybeConvertToIntset env so else Some so) = Some so1" "set_rep ?h so1 A" by blast
    obtain so2 where so2: "shrink_listpack env so1 = Some so2" "set_rep ?h so2 A" using shrink_listpack_ok [OF env so1(2)] by blast
    show ?thesis using store_dst_ok [OF c so2(2) False, of k "''sinterstore''"] so(1) so1(1) so2(1) n by (simp add: inter_finish_def)
  qed
qed

lemma inter_dstset_ok:
  assumes "env_ok env" and "set_rep h so A"
  shows "\<exists>dst. inter_dstset env so = Some dst \<and> set_rep h' dst {}"
  using assms(2)
proof (cases rule: set_rep_cases)
  case (intset iset)
  then show ?thesis using set_rep_new(2) by simp
next
  case (listpack lp ss)
  have "lpBytes lp = Some (lp_size ss)" using lpBytes_rep listpack(2) by (simp add: lp_list_def lp_size_def)
  then show ?thesis
    using lpNew_rep [of "alloc_usable env" "lp_size ss"] assms(1) set_rep_listpack [of _ "[]" h'] listpack(1) by (auto simp: env_ok_def lp_list_def)
next
  case (ht d)
  then show ?thesis using createSetListpackObject_ok [OF assms(1)] by simp
qed

section \<open>The intersection commands\<close>

lemma keys_ok_mono: "keys_ok D ks \<Longrightarrow> set ks' \<subseteq> set ks \<Longrightarrow> keys_ok D ks'"
  by (auto simp: keys_ok_def)

definition common :: "adb \<Rightarrow> bytes option list \<Rightarrow> bytes set" where
  "common D ks = {x. \<forall>k\<in>set ks. x \<in> omembers D k}"

lemma selected_common:
  assumes "None \<notin> set ks" and "ele_str ` set es = members D first"
  shows "ele_str ` set (filter (selected D first ks) es) = common D (Some first # ks)"
proof
  show "ele_str ` set (filter (selected D first ks) es) \<subseteq> common D (Some first # ks)"
  proof
    fix x
    assume "x \<in> ele_str ` set (filter (selected D first ks) es)"
    then obtain e where e: "e \<in> set es" "selected D first ks e" "x = ele_str e" by auto
    have f: "x \<in> members D first" using e assms(2) by blast
    have "x \<in> omembers D k" if "k \<in> set ks" for k
    proof (cases k)
      case None
      then show ?thesis using that assms(1) by simp
    next
      case (Some k')
      then show ?thesis using that e(2,3) f by (cases "k' = first") (auto simp: selected_def)
    qed
    then show "x \<in> common D (Some first # ks)" using f by (simp add: common_def)
  qed
  show "common D (Some first # ks) \<subseteq> ele_str ` set (filter (selected D first ks) es)"
  proof
    fix x
    assume x: "x \<in> common D (Some first # ks)"
    then have "x \<in> ele_str ` set es" using assms(2) by (simp add: common_def)
    then obtain e where "e \<in> set es" "x = ele_str e" by blast
    moreover have "selected D first ks e" using x \<open>x = ele_str e\<close> unfolding selected_def common_def by fastforce
    ultimately show "x \<in> ele_str ` set (filter (selected D first ks) es)" by simp
  qed
qed

text \<open>The start of the loop: the smallest set comes first, and its members that are in all the others are the intersection.\<close>

lemma inter_start:
  assumes q: "qsort_ok qsort" and c: "db_rep h (db c) D" and ks: "keys_ok D ks" "None \<notin> set ks" "ks \<noteq> []"
  obtains first ks' c' so es where "sort_by_size qsort False ks c = Some (Some first # ks', c')" "srv_same h D c c'" "keys_ok D ks'" "None \<notin> set ks'"
    "D first = Some (ASet (members D first))" "get_set c' first = Some so" "set_rep h so (members D first)" "set_lists h so es"
    "ele_str ` set (filter (selected D first ks') es) = common D ks"
proof -
  obtain ks1 c' where s: "sort_by_size qsort False ks c = Some (ks1, c')" "mset ks1 = mset ks" "srv_same h D c c'"
    using sort_by_size_ok [OF q c ks(1)] by blast
  have set: "set ks1 = set ks" using s(2) by (rule mset_eq_setD)
  then have "ks1 \<noteq> []" "hd ks1 \<noteq> None" using ks(2,3) by (cases ks1; auto)+
  then obtain first ks' where ks1: "ks1 = Some first # ks'" by (cases ks1) auto
  have ok: "keys_ok D ks1" using keys_ok_mono [OF ks(1)] set by simp
  then have f: "D first = Some (ASet (members D first))" and ks': "keys_ok D ks'" "None \<notin> set ks'" using ks1 set ks(2) by auto
  obtain so where so: "get_set c' first = Some so" "set_rep h so (members D first)" using get_set_ok [OF same_db [OF s(3)] f] by blast
  obtain es where es: "set_lists h so es" "members D first = ele_str ` set es" using set_rep_lists [OF so(2)] by blast
  have "common D ks1 = common D ks" using set by (simp add: common_def)
  then have "ele_str ` set (filter (selected D first ks') es) = common D ks" using selected_common [OF ks'(2) es(2) [symmetric]] ks1 by simp
  then show thesis using that s(1,3) ks1 ks' f so es(1) by blast
qed

lemma filter_card:
  assumes "set_lists h so es"
  shows "card (ele_str ` set (filter P es)) = length (filter P es)" and "distinct (map ele_str (filter P es))"
proof -
  show d: "distinct (map ele_str (filter P es))" using set_lists_ok [OF assms] by (simp add: distinct_map_filter)
  show "card (ele_str ` set (filter P es)) = length (filter P es)" using distinct_card [OF d] by simp
qed

lemma inter_card_ok:
  assumes q: "qsort_ok qsort" and c: "db_rep (gen_hash env) (db c) D" and ks: "keys_ok D ks" "None \<notin> set ks" "ks \<noteq> []"
  shows "\<exists>c'. inter_nonempty env qsort ks (InterCard limit) c = Some c' \<and>
    srv_step (gen_hash env) D c D [RInt (int (if limit = 0 then card (common D ks) else min limit (card (common D ks))))] c'"
proof -
  let ?h = "gen_hash env"
  obtain first ks' c1 so es where s: "sort_by_size qsort False ks c = Some (Some first # ks', c1)" "srv_same ?h D c c1" "keys_ok D ks'" "None \<notin> set ks'"
    "D first = Some (ASet (members D first))" "get_set c1 first = Some so" "set_rep ?h so (members D first)" "set_lists ?h so es"
    "ele_str ` set (filter (selected D first ks') es) = common D ks" by (rule inter_start [OF q c ks])
  let ?st = "\<lparr>in_srv = c1, in_cardinality = 0, in_dstset = createIntsetObject, in_only_integers = True\<rparr>"
  have ok: "\<forall>e\<in>set es. ele_ok e" using set_lists_ok [OF s(8)] by blast
  have "limit = 0 \<or> in_cardinality ?st < limit" by auto
  then obtain st' where st': "fold_until (inter_step env (InterCard limit) (encoding so) first ks') es ?st = Some st'" "srv_same ?h D c1 (in_srv st')"
      "in_cardinality st' = (let n = length (filter (selected D first ks') es) in if limit = 0 then n else min limit n)"
    using inter_card_loop [of env ?st D ks' es limit "encoding so" first] same_db [OF s(2)] s(3,4) ok by auto
  let ?c = "put_set first so (in_srv st')"
  have same: "srv_same ?h D c ?c" using srv_same_trans [OF srv_same_trans [OF s(2) st'(2)] put_same [OF same_db [OF st'(2)] s(5,7)]] .
  have n: "in_cardinality st' = (if limit = 0 then card (common D ks) else min limit (card (common D ks)))"
    using st'(3) filter_card(1) [OF s(8), of "selected D first ks'"] s(9) by (simp add: Let_def)
  have "inter_nonempty env qsort ks (InterCard limit) c = Some (addReply (RInt (int (in_cardinality st'))) ?c)"
    using s(1,6) st'(1) by (simp add: inter_nonempty_def set_each_ok [OF s(8)])
  then show ?thesis using same_reply [OF same] unfolding n [symmetric] by blast
qed

lemma inter_reply_ok:
  assumes q: "qsort_ok qsort" and c: "db_rep (gen_hash env) (db c) D" and ks: "keys_ok D ks" "None \<notin> set ks" "ks \<noteq> []"
  shows "\<exists>c' rs. inter_nonempty env qsort ks InterReply c = Some c' \<and> srv_step (gen_hash env) D c D rs c' \<and> reply_shows (Members (common D ks)) rs"
proof -
  let ?h = "gen_hash env"
  obtain first ks' c1 so es where s: "sort_by_size qsort False ks c = Some (Some first # ks', c1)" "srv_same ?h D c c1" "keys_ok D ks'" "None \<notin> set ks'"
    "D first = Some (ASet (members D first))" "get_set c1 first = Some so" "set_rep ?h so (members D first)" "set_lists ?h so es"
    "ele_str ` set (filter (selected D first ks') es) = common D ks" by (rule inter_start [OF q c ks])
  let ?st = "\<lparr>in_srv = c1, in_cardinality = 0, in_dstset = createIntsetObject, in_only_integers = True\<rparr>"
  let ?es = "filter (selected D first ks') es"
  have ok: "\<forall>e\<in>set es. ele_ok e" using set_lists_ok [OF s(8)] by blast
  obtain st' where st': "fold_until (inter_step env InterReply (encoding so) first ks') es ?st = Some st'"
      "srv_step ?h D c1 D (map (RBulk \<circ> ele_str) ?es) (in_srv st')" "in_cardinality st' = length ?es"
    using inter_reply_loop [of env ?st D ks' es "encoding so" first] same_db [OF s(2)] s(3,4) ok by (auto simp: comp_def)
  let ?c = "set_deferred_len (length (out c1)) (length ?es) (put_set first so (in_srv st'))"
  have "srv_same ?h D (in_srv st') (put_set first so (in_srv st'))" by (rule put_same [OF srv_step_db [OF st'(2)] s(5,7)])
  then have "srv_step ?h D c1 D (RSetLen (length ?es) # map (RBulk \<circ> ele_str) ?es) ?c"
    using st'(2) by (auto simp: srv_step_def srv_same_def set_deferred_len_def)
  then have step: "srv_step ?h D c D (RSetLen (length ?es) # map (RBulk \<circ> ele_str) ?es) ?c" by (rule srv_same_step [OF s(2)])
  have n: "card (common D ks) = length ?es" using filter_card(1) [OF s(8), of "selected D first ks'"] s(9) by simp
  have "set (map ele_str ?es) = common D ks" using s(9) by simp
  then have repl: "reply_shows (Members (common D ks)) (RSetLen (length ?es) # map (RBulk \<circ> ele_str) ?es)"
    using filter_card(2) [OF s(8), of "selected D first ks'"] n by (auto intro!: exI [of _ "map ele_str ?es"])
  have "inter_nonempty env qsort ks InterReply c = Some ?c"
    using s(1,6) st'(1,3) by (simp add: inter_nonempty_def set_each_ok [OF s(8)])
  then show ?thesis using step repl by blast
qed

lemma inter_store_mode_ok:
  assumes env: "env_ok env" and q: "qsort_ok qsort" and c: "db_rep (gen_hash env) (db c) D" and ks: "keys_ok D ks" "None \<notin> set ks" "ks \<noteq> []"
  shows "\<exists>c'. inter_nonempty env qsort ks (InterStore k) c = Some c' \<and>
    srv_step (gen_hash env) D c (store k (common D ks) D) [RInt (int (card (common D ks)))] c'"
proof -
  let ?h = "gen_hash env"
  obtain first ks' c1 so es where s: "sort_by_size qsort False ks c = Some (Some first # ks', c1)" "srv_same ?h D c c1" "keys_ok D ks'" "None \<notin> set ks'"
    "D first = Some (ASet (members D first))" "get_set c1 first = Some so" "set_rep ?h so (members D first)" "set_lists ?h so es"
    "ele_str ` set (filter (selected D first ks') es) = common D ks" by (rule inter_start [OF q c ks])
  obtain dst where dst: "inter_dstset env so = Some dst" "set_rep ?h dst {}" using inter_dstset_ok [OF env s(7)] by blast
  let ?st = "\<lparr>in_srv = c1, in_cardinality = 0, in_dstset = dst, in_only_integers = True\<rparr>"
  have ok: "\<forall>e\<in>set es. ele_ok e" using set_lists_ok [OF s(8)] by blast
  have "dst_rep ?h ?st {}" using dst(2) by (simp add: dst_rep_def)
  then obtain st' where st': "fold_until (inter_step env (InterStore k) (encoding so) first ks') es ?st = Some st'" "srv_same ?h D c1 (in_srv st')"
      "dst_rep ?h st' (common D ks)"
    using inter_store_loop [OF env, of ?st D ks' es "{}" k "encoding so" first] same_db [OF s(2)] s(3,4,9) ok by auto
  let ?st' = "st'\<lparr>in_srv := put_set first so (in_srv st')\<rparr>"
  have same: "srv_same ?h D c (in_srv ?st')"
    using srv_same_trans [OF srv_same_trans [OF s(2) st'(2)] put_same [OF same_db [OF st'(2)] s(5,7)]] by simp
  have d: "dst_rep ?h ?st' (common D ks)" using st'(3) by (simp add: dst_rep_def)
  have "inter_nonempty env qsort ks (InterStore k) c = inter_finish env k ?st'"
    using s(1,6) dst(1) st'(1) by (simp add: inter_nonempty_def set_each_ok [OF s(8)])
  then show ?thesis using inter_finish_ok [OF env same d] by simp
qed

lemma common_present: "ks \<noteq> [] \<Longrightarrow> common D (map (present D) ks) = inter_of D ks"
  by (cases ks) (auto simp: common_def inter_of_def)

lemma inter_of_missing: "None \<in> set (map (present D) ks) \<Longrightarrow> inter_of D ks = {}"
proof -
  assume "None \<in> set (map (present D) ks)"
  then obtain k where "k \<in> set ks" "D k = None" by (auto simp: present_def split: if_splits)
  then have "k \<in> set ks" "members D k = {}" by (simp_all add: members_def)
  then show ?thesis unfolding inter_of_def by blast
qed

lemma sinterGenericCommand_card:
  assumes q: "qsort_ok qsort" and c: "db_rep (gen_hash env) (db c) D" and ks: "ks \<noteq> []" and w: "\<not> list_ex (wrong_type D) ks"
  shows "\<exists>c'. sinterGenericCommand env qsort ks (InterCard limit) c = Some c' \<and>
    srv_step (gen_hash env) D c D [RInt (int (if limit = 0 then card (inter_of D ks) else min limit (card (inter_of D ks))))] c'"
proof (cases "None \<in> set (map (present D) ks)")
  case True
  then show ?thesis using reply_only [OF c] inter_of_missing [OF True] w by (simp add: sinterGenericCommand_def lookup_sets_ok [OF c])
next
  case False
  then show ?thesis using inter_card_ok [OF q c keys_ok_present [OF c w] False, where limit = limit] ks w common_present [OF ks, of D]
    by (cases "limit = 0") (simp_all add: sinterGenericCommand_def lookup_sets_ok [OF c])
qed

lemma sinterCommand_ok:
  assumes q: "qsort_ok qsort" and c: "db_rep (gen_hash env) (db c) D" and ks: "ks \<noteq> []" and w: "\<not> list_ex (wrong_type D) ks"
  shows "\<exists>c' rs. sinterCommand env qsort ks c = Some c' \<and> srv_step (gen_hash env) D c D rs c' \<and> reply_shows (Members (inter_of D ks)) rs"
proof (cases "None \<in> set (map (present D) ks)")
  case True
  then show ?thesis using reply_only [OF c, of "RSetLen 0"] inter_of_missing [OF True] w
    by (auto simp: sinterCommand_def sinterGenericCommand_def lookup_sets_ok [OF c])
next
  case False
  then show ?thesis using inter_reply_ok [OF q c keys_ok_present [OF c w] False] ks w common_present [OF ks, of D]
    by (simp add: sinterCommand_def sinterGenericCommand_def lookup_sets_ok [OF c])
qed

lemma sinterstoreCommand_ok:
  assumes env: "env_ok env" and q: "qsort_ok qsort" and c: "db_rep (gen_hash env) (db c) D" and ks: "ks \<noteq> []" and w: "\<not> list_ex (wrong_type D) ks"
  shows "\<exists>c'. sinterstoreCommand env qsort k ks c = Some c' \<and>
    srv_step (gen_hash env) D c (store k (inter_of D ks) D) [RInt (int (card (inter_of D ks)))] c'"
proof (cases "None \<in> set (map (present D) ks)")
  case True
  then show ?thesis using delete_reply(2) [OF srv_same_refl [OF c]] inter_of_missing [OF True] w
    by (simp add: sinterstoreCommand_def sinterGenericCommand_def lookup_sets_ok [OF c])
next
  case False
  then show ?thesis using inter_store_mode_ok [OF env q c keys_ok_present [OF c w] False] ks w common_present [OF ks, of D]
    by (simp add: sinterstoreCommand_def sinterGenericCommand_def lookup_sets_ok [OF c])
qed

end
