(* ===== verification/Set_Combine.thy ===== *)
theory Set_Combine
  imports Set_Algebra
begin

text \<open>
  The refinement proofs of union and difference. Both algorithms of the difference give the same set, for any estimate of the
  work and any order of the sets: the first searches every member of the first set in the others, the second removes the members
  of the others from a copy of the first and stops when nothing is left.
\<close>

section \<open>The destination set\<close>

text \<open>The destination represents \<open>A\<close> and the counter is its cardinality. It does not overflow, because \<open>A\<close> stays inside a set \<open>B\<close> of
  fewer than \<open>2 ^ 31\<close> members.\<close>

definition acc_rep :: "(bytes \<Rightarrow> u64) \<Rightarrow> adb \<Rightarrow> bytes set \<Rightarrow> server \<Rightarrow> diff_state \<Rightarrow> bytes set \<Rightarrow> bool" where
  "acc_rep h D B c0 = (\<lambda>(c, dst, n) A. srv_same h D c0 c \<and> set_rep h dst A \<and> n = int (card A) \<and>
     A \<subseteq> B \<and> finite B \<and> card B < 2 ^ 31)"

lemma card_in_int:
  assumes "A \<subseteq> B" and "finite B" and "card B < 2 ^ 31"
  shows "int (card A) \<le> 2 ^ 31 - 1"
  using card_mono [OF assms(2,1)] assms(3) by simp

lemma add_ele_ok:
  assumes env: "env_ok env" and st: "acc_rep (gen_hash env) D B c0 st A" and e: "ele_ok e" and B: "ele_str e \<in> B"
  shows "\<exists>st'. add_ele env e st = Some (True, st') \<and> acc_rep (gen_hash env) D B c0 st' (insert (ele_str e) A)"
proof -
  obtain c dst n where s: "st = (c, dst, n)" by (cases st) auto
  obtain dst' where "setTypeAddAux env dst e = Some (dst', ele_str e \<notin> A)" "set_rep (gen_hash env) dst' (insert (ele_str e) A)"
    using setTypeAddAux_ok [OF env _ e, of dst A] st s by (auto simp: acc_rep_def)
  moreover have "int (card (insert (ele_str e) A)) \<le> 2 ^ 31 - 1"
    using card_in_int [of "insert (ele_str e) A" B] st s B by (simp add: acc_rep_def)
  moreover have "int (card (insert (ele_str e) A)) = int (card A) + (if ele_str e \<notin> A then 1 else 0)"
    using st s set_rep_finite [of "gen_hash env" dst A] by (auto simp: acc_rep_def insert_absorb)
  ultimately show ?thesis using st s B by (auto simp: acc_rep_def add_ele_def int_add_def)
qed

lemma remove_ele_ok:
  assumes env: "env_ok env" and st: "acc_rep (gen_hash env) D B c0 st A" and e: "ele_ok e"
  shows "\<exists>st'. remove_ele env e st = Some (True, st') \<and> acc_rep (gen_hash env) D B c0 st' (A - {ele_str e})"
proof -
  obtain c dst n where s: "st = (c, dst, n)" by (cases st) auto
  have fin: "finite A" using st s set_rep_finite [of "gen_hash env" dst A] by (auto simp: acc_rep_def)
  have card: "int (card (A - {x})) = (if x \<in> A then int (card A) - 1 else int (card A))" for x
    using fin card_gt_0_iff [of A] by (auto simp: card_Diff_singleton of_nat_diff Suc_le_eq)
  obtain dst' where "setTypeRemoveAux env dst e = Some (dst', ele_str e \<in> A)" "set_rep (gen_hash env) dst' (A - {ele_str e})"
    using setTypeRemoveAux_ok [OF env _ e, of dst A] st s by (auto simp: acc_rep_def)
  moreover have "int (card A) \<le> 2 ^ 31 - 1" using card_in_int [of A B] st s by (simp add: acc_rep_def)
  ultimately show ?thesis using st s card [of "ele_str e"] by (auto simp: acc_rep_def remove_ele_def int_add_def)
qed

text \<open>A body that changes the destination by \<open>g\<close> for each member.\<close>

lemma fold_acc:
  assumes "\<And>e st A. ele_ok e \<Longrightarrow> ele_str e \<in> M \<Longrightarrow> acc_rep h D B c0 st A \<Longrightarrow> \<exists>st'. f e st = Some (True, st') \<and> acc_rep h D B c0 st' (g (ele_str e) A)"
    and "\<forall>e\<in>set es. ele_ok e \<and> ele_str e \<in> M" and "acc_rep h D B c0 st A"
  shows "\<exists>st'. fold_until f es st = Some st' \<and> acc_rep h D B c0 st' (fold g (map ele_str es) A)"
  using assms(2,3)
proof (induction es arbitrary: st A)
  case (Cons e es)
  then obtain st1 where st1: "f e st = Some (True, st1)" "acc_rep h D B c0 st1 (g (ele_str e) A)" using assms(1) [of e st A] by auto
  then show ?case using Cons.IH [OF _ st1(2)] Cons.prems(1) by simp
qed simp

lemma each_member_ok:
  assumes f: "\<And>e st A. ele_ok e \<Longrightarrow> ele_str e \<in> members D k \<Longrightarrow> acc_rep (gen_hash env) D B c0 st A \<Longrightarrow> \<exists>st'. f e st = Some (True, st') \<and> acc_rep (gen_hash env) D B c0 st' (g (ele_str e) A)"
    and st: "acc_rep (gen_hash env) D B c0 st A" and k: "D k = Some (ASet (members D k))"
  shows "\<exists>st' xs. each_member env f k st = Some st' \<and> set xs = members D k \<and> acc_rep (gen_hash env) D B c0 st' (fold g xs A)"
proof -
  let ?h = "gen_hash env"
  obtain c dst n where s: "st = (c, dst, n)" by (cases st) auto
  have same: "srv_same ?h D c0 c" using st s by (simp add: acc_rep_def)
  obtain so where so: "get_set c k = Some so" "set_rep ?h so (members D k)" using get_set_ok [OF same_db [OF same] k] by blast
  obtain es where es: "set_lists ?h so es" "members D k = ele_str ` set es" using set_rep_lists [OF so(2)] by blast
  have "\<forall>e\<in>set es. ele_ok e \<and> ele_str e \<in> members D k" using set_lists_ok [OF es(1)] es(2) by blast
  then obtain st1 where st1: "fold_until f es st = Some st1" "acc_rep ?h D B c0 st1 (fold g (map ele_str es) A)" using fold_acc [of "members D k" ?h D B c0 f g es st A] f st by blast
  obtain c1 dst1 n1 where s1: "st1 = (c1, dst1, n1)" by (cases st1) auto
  have same1: "srv_same ?h D c0 c1" using st1(2) s1 by (simp add: acc_rep_def)
  have "acc_rep ?h D B c0 (put_set k so c1, dst1, n1) (fold g (map ele_str es) A)"
    using st1(2) s1 srv_same_trans [OF same1 put_same [OF same_db [OF same1] k so(2)]] by (simp add: acc_rep_def)
  moreover have "each_member env f k st = Some (put_set k so c1, dst1, n1)"
    using so(1) st1(1) s s1 by (simp add: each_member_def set_each_ok [OF es(1)])
  moreover have "set (map ele_str es) = members D k" using es(2) by simp
  ultimately show ?thesis by blast
qed

lemma fold_insert: "fold insert xs A = A \<union> set xs"
  by (induction xs arbitrary: A) auto

lemma fold_delete: "fold (\<lambda>x A. A - {x}) xs A = A - set xs"
  by (induction xs arbitrary: A) auto

lemma add_members:
  assumes "env_ok env" and "acc_rep (gen_hash env) D B c0 st A" and "D k = Some (ASet (members D k))" and "members D k \<subseteq> B"
  shows "\<exists>st'. each_member env (add_ele env) k st = Some st' \<and> acc_rep (gen_hash env) D B c0 st' (A \<union> members D k)"
proof -
  have "\<exists>st' xs. each_member env (add_ele env) k st = Some st' \<and> set xs = members D k \<and> acc_rep (gen_hash env) D B c0 st' (fold insert xs A)"
    by (rule each_member_ok [OF _ assms(2,3)]) (use add_ele_ok [OF assms(1)] assms(4) in blast)
  then show ?thesis by (auto simp: fold_insert)
qed

lemma remove_members:
  assumes "env_ok env" and "acc_rep (gen_hash env) D B c0 st A" and "D k = Some (ASet (members D k))"
  shows "\<exists>st'. each_member env (remove_ele env) k st = Some st' \<and> acc_rep (gen_hash env) D B c0 st' (A - members D k)"
proof -
  have "\<exists>st' xs. each_member env (remove_ele env) k st = Some st' \<and> set xs = members D k \<and> acc_rep (gen_hash env) D B c0 st' (fold (\<lambda>x A. A - {x}) xs A)"
    by (rule each_member_ok [OF _ assms(2,3)]) (use remove_ele_ok [OF assms(1)] in blast)
  then show ?thesis by (auto simp: fold_delete)
qed

section \<open>Union\<close>

lemma union_loop_ok:
  assumes env: "env_ok env" and "acc_rep (gen_hash env) D B c0 st A" and "keys_ok D ks" and "(\<Union>k\<in>set ks. omembers D k) \<subseteq> B"
  shows "\<exists>st'. union_loop env ks st = Some st' \<and> acc_rep (gen_hash env) D B c0 st' (A \<union> (\<Union>k\<in>set ks. omembers D k))"
  using assms(2-4)
proof (induction ks arbitrary: st A)
  case (Cons k ks)
  show ?case
  proof (cases k)
    case None
    then show ?thesis using Cons by simp
  next
    case (Some key)
    then obtain st1 where st1: "each_member env (add_ele env) key st = Some st1" "acc_rep (gen_hash env) D B c0 st1 (A \<union> members D key)"
      using add_members [OF env Cons.prems(1), of key] Cons.prems(2,3) by auto
    then show ?thesis using Cons.IH [OF st1(2)] Cons.prems(2,3) Some by (simp add: Un_assoc)
  qed
qed simp

section \<open>Difference\<close>

lemma in_any_ok:
  assumes "db_rep (gen_hash env) (db c) D" and "keys_ok D ks" and "Some first \<notin> set ks" and "ele_ok e"
  shows "\<exists>c'. in_any env first e ks c = Some (\<exists>k\<in>set ks. ele_str e \<in> omembers D k, c') \<and> srv_same (gen_hash env) D c c'"
  using assms
proof (induction env first e ks c rule: in_any.induct)
  case (1 env first e c)
  then show ?case by (simp add: srv_same_refl)
next
  case (2 env first e ks c)
  then show ?case by simp
next
  case (3 env first e k ks c)
  have ne: "k \<noteq> first" using 3(4) by auto
  have k: "D k = Some (ASet (members D k))" using 3(3) by simp
  obtain so where so: "get_set c k = Some so" "set_rep (gen_hash env) so (members D k)" using get_set_ok [OF 3(2) k] by blast
  obtain so1 where so1: "setTypeIsMemberAux env so e = Some (so1, ele_str e \<in> members D k)" "set_rep (gen_hash env) so1 (members D k)"
    using setTypeIsMemberAux_ok [OF so(2) 3(5)] by blast
  have same: "srv_same (gen_hash env) D c (put_set k so1 c)" using put_same [OF 3(2) k so1(2)] .
  show ?case
  proof (cases "ele_str e \<in> members D k")
    case True
    then show ?thesis using ne so(1) so1(1) same by auto
  next
    case False
    then have "\<exists>c'. in_any env first e ks (put_set k so1 c) = Some (\<exists>k\<in>set ks. ele_str e \<in> omembers D k, c') \<and>
        srv_same (gen_hash env) D (put_set k so1 c) c'"
      using 3(1) [OF ne so(1) so1(1) refl] same_db [OF same] 3(3-5) by auto
    then show ?thesis using False ne so(1) so1(1) srv_same_trans [OF same] by auto
  qed
qed

lemma diff_ele_ok:
  assumes env: "env_ok env" and ks: "keys_ok D ks" "Some first \<notin> set ks" and e: "ele_ok e" "ele_str e \<in> B" and st: "acc_rep (gen_hash env) D B c0 st A"
  shows "\<exists>st'. diff_ele env first ks e st = Some (True, st') \<and>
    acc_rep (gen_hash env) D B c0 st' (if \<exists>k\<in>set ks. ele_str e \<in> omembers D k then A else insert (ele_str e) A)"
proof -
  obtain c dst n where s: "st = (c, dst, n)" by (cases st) auto
  have same: "srv_same (gen_hash env) D c0 c" using st s by (simp add: acc_rep_def)
  obtain c1 where c1: "in_any env first e ks c = Some (\<exists>k\<in>set ks. ele_str e \<in> omembers D k, c1)" "srv_same (gen_hash env) D c c1"
    using in_any_ok [OF same_db [OF same] ks e(1)] by blast
  have st1: "acc_rep (gen_hash env) D B c0 (c1, dst, n) A" using st s srv_same_trans [OF same c1(2)] by (simp add: acc_rep_def)
  show ?thesis using c1(1) s st1 add_ele_ok [OF env st1 e] by (simp add: diff_ele_def)
qed

lemma fold_keep: "fold (\<lambda>x A. if P x then A else insert x A) xs A = A \<union> {x \<in> set xs. \<not> P x}"
  by (induction xs arbitrary: A) auto

lemma diff_algo1:
  assumes env: "env_ok env" and ks: "keys_ok D ks" "Some first \<notin> set ks" and st: "acc_rep (gen_hash env) D B c0 st {}"
    and f: "D first = Some (ASet (members D first))" and B: "members D first \<subseteq> B"
  shows "\<exists>st'. each_member env (diff_ele env first ks) first st = Some st' \<and>
    acc_rep (gen_hash env) D B c0 st' (members D first - (\<Union>k\<in>set ks. omembers D k))"
proof -
  let ?g = "\<lambda>x A. if \<exists>k\<in>set ks. x \<in> omembers D k then A else insert x A"
  obtain st' xs where st': "each_member env (diff_ele env first ks) first st = Some st'" "set xs = members D first"
      "acc_rep (gen_hash env) D B c0 st' (fold ?g xs {})"
    using each_member_ok [of D first env B c0 "diff_ele env first ks" ?g, OF _ st f] diff_ele_ok [OF env ks] B by blast
  have "fold ?g xs {} = members D first - (\<Union>k\<in>set ks. omembers D k)"
    unfolding fold_keep [of "\<lambda>x. \<exists>k\<in>set ks. x \<in> omembers D k"] st'(2) by blast
  then show ?thesis using st' by auto
qed

lemma diff_loop_rest:
  assumes env: "env_ok env" and "acc_rep (gen_hash env) D B c0 st A" and "keys_ok D ks"
  shows "\<exists>st'. diff_loop env False ks st = Some st' \<and> acc_rep (gen_hash env) D B c0 st' (A - (\<Union>k\<in>set ks. omembers D k))"
  using assms(2,3)
proof (induction ks arbitrary: st A)
  case (Cons k ks)
  show ?case
  proof (cases k)
    case None
    then show ?thesis using Cons by simp
  next
    case (Some key)
    then obtain c dst n where st1: "each_member env (remove_ele env) key st = Some (c, dst, n)" "acc_rep (gen_hash env) D B c0 (c, dst, n) (A - members D key)"
      using remove_members [OF env Cons.prems(1), of key] Cons.prems(2) by auto
    have diff: "A - (\<Union>k\<in>set (k # ks). omembers D k) = A - members D key - (\<Union>k\<in>set ks. omembers D k)" using Some by auto
    show ?thesis
    proof (cases "n = 0")
      case True
      then have "A - members D key = {}" using st1(2) set_rep_finite [of "gen_hash env" dst "A - members D key"] by (simp add: acc_rep_def)
      then have "A - (\<Union>k\<in>set (k # ks). omembers D k) = A - members D key" using diff by auto
      then show ?thesis using st1 True Some by simp
    next
      case False
      then show ?thesis using st1(1) Cons.IH [OF st1(2)] Cons.prems(2) Some diff by simp
    qed
  qed
qed simp

lemma diff_algo2:
  assumes env: "env_ok env" and st: "acc_rep (gen_hash env) D B c0 st {}" and ks: "keys_ok D (Some first # ks)" and B: "members D first \<subseteq> B"
  shows "\<exists>st'. diff_loop env True (Some first # ks) st = Some st' \<and>
    acc_rep (gen_hash env) D B c0 st' (members D first - (\<Union>k\<in>set ks. omembers D k))"
proof -
  obtain c dst n where st1: "each_member env (add_ele env) first st = Some (c, dst, n)" "acc_rep (gen_hash env) D B c0 (c, dst, n) (members D first)"
    using add_members [OF env st, of first] ks B by auto
  show ?thesis
  proof (cases "n = 0")
    case True
    then have "members D first = {}" using st1(2) set_rep_finite [of "gen_hash env" dst "members D first"] by (simp add: acc_rep_def)
    then show ?thesis using st1 True by simp
  next
    case False
    then show ?thesis using st1(1) diff_loop_rest [OF env st1(2)] ks by simp
  qed
qed

lemma diff_work_ok:
  assumes "db_rep h (db c) D" and "keys_ok D ks" and "D first = Some (ASet (members D first))"
  shows "\<exists>w' c'. diff_work first ks w c = Some (w', c') \<and> srv_same h D c c'"
  using assms
proof (induction ks arbitrary: w c)
  case (Cons k ks)
  show ?case
  proof (cases k)
    case None
    then show ?thesis using Cons by simp
  next
    case (Some key)
    obtain c1 where c1: "key_size first c = Some (card (members D first), c1)" "srv_same h D c c1"
      using key_size_ok [OF Cons.prems(1,3)] by blast
    obtain c2 where c2: "key_size key c1 = Some (card (members D key), c2)" "srv_same h D c1 c2"
      using key_size_ok [OF same_db [OF c1(2)], of key] Cons.prems(2) Some by auto
    have same: "srv_same h D c c2" by (rule srv_same_trans [OF c1(2) c2(2)])
    show ?thesis using Cons.IH [OF same_db [OF same], of "(wrap_s 64 (fst w + int (card (members D first))), wrap_s 64 (snd w + int (card (members D key))))"] Cons.prems(2,3) Some c1(1) c2(1)
        srv_same_trans [OF same] by auto
  qed
qed (simp add: srv_same_refl)

lemma choose_algo_ok:
  assumes q: "qsort_ok qsort" and c: "db_rep h (db c) D" and ks: "keys_ok D (Some first # ks)"
  shows "\<exists>algo ks' c'. choose_algo qsort first (Some first # ks) c = Some (algo, Some first # ks', c') \<and> mset ks' = mset ks \<and> srv_same h D c c'"
proof -
  have f: "D first = Some (ASet (members D first))" using ks by simp
  obtain one two c1 where w: "diff_work first (Some first # ks) (0, 0) c = Some ((one, two), c1)" "srv_same h D c c1"
    using diff_work_ok [OF c ks f, of "(0, 0)"] by auto
  obtain ks' c2 where s: "sort_by_size qsort True ks c1 = Some (ks', c2)" "mset ks' = mset ks" "srv_same h D c1 c2"
    using sort_by_size_ok [OF q same_db [OF w(2)]] ks by fastforce
  show ?thesis
  proof (cases "(if one < 0 then - (- one div 2) else one div 2) \<le> two \<and> ks \<noteq> []")
    case True
    then show ?thesis using w s srv_same_trans [OF w(2)] by (simp add: choose_algo_def del: diff_work.simps)
  next
    case False
    then show ?thesis using w by (auto simp: choose_algo_def simp del: diff_work.simps)
  qed
qed

lemma sdiff_sets_ok:
  assumes env: "env_ok env" and q: "qsort_ok qsort" and c: "db_rep (gen_hash env) (db c) D" and ks: "keys_ok D (k # ks)" and dst: "set_rep (gen_hash env) dst {}"
    and B: "omembers D k \<subseteq> B" "finite B" "card B < 2 ^ 31"
  shows "\<exists>st'. sdiff_sets env qsort (k # ks) dst c = Some st' \<and>
    acc_rep (gen_hash env) D B c st' (omembers D k - (\<Union>k\<in>set ks. omembers D k))"
proof -
  let ?h = "gen_hash env"
  have acc0: "acc_rep ?h D B c (c, dst, 0) {}" using dst c B by (simp add: acc_rep_def srv_same_refl)
  show ?thesis
  proof (cases "k = None \<or> k \<in> set ks")
    case True
    then have "omembers D k - (\<Union>k\<in>set ks. omembers D k) = {}" by auto
    moreover have "sdiff_sets env qsort (k # ks) dst c = Some (c, dst, 0)" using True by (auto simp: sdiff_sets_def split: option.splits)
    ultimately show ?thesis using acc0 by metis
  next
    case False
    then obtain first where k: "k = Some first" "Some first \<notin> set ks" by auto
    obtain algo ks' c1 where a: "choose_algo qsort first (k # ks) c = Some (algo, Some first # ks', c1)" "mset ks' = mset ks" "srv_same ?h D c c1"
      using choose_algo_ok [OF q c] ks k by metis
    have set: "set ks' = set ks" using a(2) by (rule mset_eq_setD)
    have ok: "keys_ok D (Some first # ks')" using keys_ok_mono [OF ks, of "Some first # ks'"] set k(1) by simp
    have acc: "acc_rep ?h D B c (c1, dst, 0) {}" using dst a(3) B by (simp add: acc_rep_def)
    have "\<exists>st'. (if algo = 1 then each_member env (diff_ele env first ks') first (c1, dst, 0) else diff_loop env True (Some first # ks') (c1, dst, 0)) = Some st' \<and>
        acc_rep ?h D B c st' (members D first - (\<Union>k\<in>set ks'. omembers D k))"
      using diff_algo1 [OF env _ _ acc, of ks' first] diff_algo2 [OF env acc ok] ok k set B(1) by simp
    then show ?thesis using a(1) k set by (cases "algo = 1") (simp_all add: sdiff_sets_def del: diff_loop.simps)
  qed
qed

section \<open>The commands\<close>

text \<open>The result of a loop is sent to the client or stored.\<close>

lemma reply_acc:
  assumes "acc_rep (gen_hash env) D B c (c', dst, n) A"
  shows "\<exists>c'' rs. (do { c \<leftarrow> addReplySetLen n c'; map_option fst (set_each env send_ele dst c) }) = Some c'' \<and> srv_step (gen_hash env) D c D rs c'' \<and>
    reply_shows (Members A) rs"
proof -
  let ?h = "gen_hash env"
  have a: "srv_same ?h D c c'" "set_rep ?h dst A" "n = int (card A)" using assms by (simp_all add: acc_rep_def)
  obtain es where es: "set_lists ?h dst es" "A = ele_str ` set es" using set_rep_lists [OF a(2)] by blast
  have ok: "\<forall>e\<in>set es. ele_ok e" and n: "nat n = length es" using set_lists_ok [OF es(1)] set_lists_card [OF es(1)] es(2) a(3) by auto
  let ?c = "send_all es (addReply (RSetLen (length es)) c')"
  have "(do { c \<leftarrow> addReplySetLen n c'; map_option fst (set_each env send_ele dst c) }) = Some ?c"
    using a(3) n by (simp add: addReplySetLen_def set_each_ok [OF es(1)] fold_send [OF ok])
  moreover have "srv_step ?h D c D (RSetLen (length es) # map (RBulk \<circ> ele_str) es) ?c"
    using a(1) by (simp add: srv_step_def srv_same_def srv)
  ultimately show ?thesis using members_reply [OF es(1)] es(2) by blast
qed

lemma store_acc:
  assumes "acc_rep h D B c (c', dst, n) A"
  shows "\<exists>c''. (do { (m, dst) \<leftarrow> setTypeSize dst; if m > 0 then store_dst k dst ev c' else Some (delete_dst k (addReply (RInt 0) c')) }) = Some c'' \<and>
    srv_step h D c (store k A D) [RInt (int (card A))] c''"
proof -
  have a: "srv_same h D c c'" "set_rep h dst A" using assms by (simp_all add: acc_rep_def)
  obtain dst' where dst': "setTypeSize dst = Some (card A, dst')" "set_rep h dst' A" using setTypeSize_ok [OF a(2)] by blast
  show ?thesis
  proof (cases "A = {}")
    case True
    then show ?thesis using dst'(1) delete_reply(1) [OF a(1), of k] by auto
  next
    case False
    then have "card A > 0" using set_rep_finite [OF a(2)] by (simp add: card_gt_0_iff)
    then show ?thesis using dst'(1) store_dst_ok [OF a(1) dst'(2) False] by simp
  qed
qed

lemma new_dstset_ok: "set_rep h (new_dstset b ks c) {}"
  by (simp add: new_dstset_def set_rep_new)

fun op_of :: "set_op \<Rightarrow> adb \<Rightarrow> bytes list \<Rightarrow> bytes set" where
  "op_of SET_OP_UNION D ks = union_of D ks"
| "op_of SET_OP_DIFF D ks = diff_of D ks"

text \<open>The largest set that the destination may hold on the way.\<close>

fun op_bound :: "set_op \<Rightarrow> adb \<Rightarrow> bytes list \<Rightarrow> bytes set" where
  "op_bound SET_OP_UNION D ks = union_of D ks"
| "op_bound SET_OP_DIFF D ks = members D (hd ks)"

lemma members_finite: "db_rep h (db c) D \<Longrightarrow> finite (members D k)"
  by (cases rule: key_cases [where k = k]) (auto intro: set_rep_finite)

lemma sunionDiff_sets:
  assumes env: "env_ok env" and q: "qsort_ok qsort" and c: "db_rep (gen_hash env) (db c) D" and ks: "ks \<noteq> []" and w: "\<not> list_ex (wrong_type D) ks"
    and dst: "set_rep (gen_hash env) dst {}" and b: "card (op_bound op D ks) < 2 ^ 31" and B: "B = op_bound op D ks"
  shows "\<exists>c' dst' n. (case op of SET_OP_UNION \<Rightarrow> union_loop env (map (present D) ks) (c, dst, 0) | SET_OP_DIFF \<Rightarrow> sdiff_sets env qsort (map (present D) ks) dst c) =
      Some (c', dst', n) \<and> acc_rep (gen_hash env) D B c (c', dst', n) (op_of op D ks)"
proof (cases op)
  case SET_OP_UNION
  have U: "(\<Union>k\<in>set (map (present D) ks). omembers D k) = B" using keys_ok_present [OF c w] SET_OP_UNION B by (simp add: union_of_def)
  have "finite B" using members_finite [OF c] SET_OP_UNION B by (simp add: union_of_def)
  then have "acc_rep (gen_hash env) D B c (c, dst, 0) {}" using dst c b B by (simp add: acc_rep_def srv_same_refl)
  from union_loop_ok [OF env this keys_ok_present [OF c w]] show ?thesis using SET_OP_UNION U B by fastforce
next
  case SET_OP_DIFF
  obtain k ks' where "ks = k # ks'" using ks by (cases ks) auto
  then show ?thesis using sdiff_sets_ok [OF env q c _ dst, of "present D k" "map (present D) ks'" B] keys_ok_present [OF c w] SET_OP_DIFF b B
      members_finite [OF c] by (fastforce simp: diff_of_def union_of_def)
qed

lemma sunionDiff_reply:
  assumes env: "env_ok env" and q: "qsort_ok qsort" and c: "db_rep (gen_hash env) (db c) D" and ks: "ks \<noteq> []" and w: "\<not> list_ex (wrong_type D) ks"
    and b: "card (op_bound op D ks) < 2 ^ 31"
  shows "\<exists>c' rs. sunionDiffGenericCommand env qsort ks None op c = Some c' \<and> srv_step (gen_hash env) D c D rs c' \<and> reply_shows (Members (op_of op D ks)) rs"
proof -
  obtain c1 dst n where s: "(case op of SET_OP_UNION \<Rightarrow> union_loop env (map (present D) ks) (c, new_dstset False (map (present D) ks) c, 0)
      | SET_OP_DIFF \<Rightarrow> sdiff_sets env qsort (map (present D) ks) (new_dstset False (map (present D) ks) c) c) = Some (c1, dst, n)"
      "acc_rep (gen_hash env) D (op_bound op D ks) c (c1, dst, n) (op_of op D ks)"
    using sunionDiff_sets [OF env q c ks w new_dstset_ok b refl] by blast
  show ?thesis using reply_acc [OF s(2)] s(1) w by (simp add: sunionDiffGenericCommand_def lookup_sets_ok [OF c])
qed

lemma sunionDiff_store:
  assumes env: "env_ok env" and q: "qsort_ok qsort" and c: "db_rep (gen_hash env) (db c) D" and ks: "ks \<noteq> []" and w: "\<not> list_ex (wrong_type D) ks"
    and b: "card (op_bound op D ks) < 2 ^ 31"
  shows "\<exists>c'. sunionDiffGenericCommand env qsort ks (Some k) op c = Some c' \<and>
    srv_step (gen_hash env) D c (store k (op_of op D ks) D) [RInt (int (card (op_of op D ks)))] c'"
proof -
  obtain c1 dst n where s: "(case op of SET_OP_UNION \<Rightarrow> union_loop env (map (present D) ks) (c, new_dstset True (map (present D) ks) c, 0)
      | SET_OP_DIFF \<Rightarrow> sdiff_sets env qsort (map (present D) ks) (new_dstset True (map (present D) ks) c) c) = Some (c1, dst, n)"
      "acc_rep (gen_hash env) D (op_bound op D ks) c (c1, dst, n) (op_of op D ks)"
    using sunionDiff_sets [OF env q c ks w new_dstset_ok b refl] by blast
  show ?thesis using store_acc [OF s(2), of k] s(1) w by (simp add: sunionDiffGenericCommand_def lookup_sets_ok [OF c])
qed

section \<open>The two algorithms of the difference\<close>

text \<open>C34. The two algorithms of \<^verbatim>\<open>SDIFF\<close> are equivalent: searching every member of the first set in the others, and removing
  the members of the others from a copy of the first, end with destination sets that represent the same set, the difference,
  and with its cardinality, so the estimate that chooses between them decides the time only. The first set has fewer than \<open>2 ^ 31\<close>
  members, since the cardinality is counted in an \<^verbatim>\<open>int\<close>.\<close>

theorem sdiff_algorithms_agree:
  assumes "env_ok env" and "db_rep (gen_hash env) (db c) D" and "keys_ok D (Some first # ks)" and "Some first \<notin> set ks" and "set_rep (gen_hash env) dst {}"
    and "card (members D first) < 2 ^ 31"
  shows "\<exists>c1 dst1 c2 dst2 B. B = members D first - (\<Union>k\<in>set ks. omembers D k) \<and>
    each_member env (diff_ele env first ks) first (c, dst, 0) = Some (c1, dst1, int (card B)) \<and> set_rep (gen_hash env) dst1 B \<and>
    diff_loop env True (Some first # ks) (c, dst, 0) = Some (c2, dst2, int (card B)) \<and> set_rep (gen_hash env) dst2 B"
proof -
  have acc: "acc_rep (gen_hash env) D (members D first) c (c, dst, 0) {}" using assms(2,5,6) members_finite [OF assms(2)] by (simp add: acc_rep_def srv_same_refl)
  show ?thesis using diff_algo1 [OF assms(1) _ assms(4) acc] diff_algo2 [OF assms(1) acc assms(3)] assms(3) by (auto simp: acc_rep_def simp del: diff_loop.simps)
qed

theorem sdiff_algorithms_agree_witness:
  "\<exists>so c c1 c2 dst1 dst2. db c = [[1] \<mapsto> KvSet so] \<and> set_rep (\<lambda>_. 0) so {[97]} \<and>
     each_member default_env (diff_ele default_env [1] [None]) [1] (c, createIntsetObject, 0) = Some (c1, dst1, 1) \<and>
     diff_loop default_env True [Some [1], None] (c, createIntsetObject, 0) = Some (c2, dst2, 1)"
proof -
  have h: "gen_hash default_env = (\<lambda>_. 0)" by (simp add: default_env_def)
  obtain so where so: "set_rep (\<lambda>_. 0) so {[97]}"
    using setTypeAddAux_ok [OF default_env_ok set_rep_new(2), of "SetStr [97]"] unfolding h by auto
  define c where "c = \<lparr>db = [[1] \<mapsto> KvSet so], dirty = 0, touched = [], events = [], out = []\<rparr>"
  let ?D = "[[1] \<mapsto> ASet {[97]}] :: adb"
  have D: "db_rep (gen_hash default_env) (db c) ?D" "keys_ok ?D [Some [1], None]" using so by (simp_all add: h c_def db_rep_def members_def)
  have B: "card (members ?D [1] - (\<Union>k\<in>set [None]. omembers ?D k)) = 1" by (simp add: members_def)
  have "db c = [[1] \<mapsto> KvSet so]" by (simp add: c_def)
  then show ?thesis using sdiff_algorithms_agree [OF default_env_ok D _ set_rep_new(2)] so B by (auto simp: members_def)
qed

end
