(* ===== verification/Set_Server.thy ===== *)
theory Set_Server
  imports Set_Combine
begin

text \<open>
  The set commands as a whole: every command, and so every sequence of commands, does what the abstract commands on a map
  from keys to sets do, for every encoding of the sets and every admissible configuration, signals each key it changes and counts the
  changes. The abstract replies leave only the order of the members open.
\<close>

section \<open>One command\<close>

lemma spec_wrong_simps [simp]:
  "spec_wrong (SADD k vs) D = wrong_type D k" "spec_wrong (SREM k vs) D = wrong_type D k" "spec_wrong (SISMEMBER k v) D = wrong_type D k"
  "spec_wrong (SMISMEMBER k vs) D = wrong_type D k" "spec_wrong (SCARD k) D = wrong_type D k" "spec_wrong (SMEMBERS k) D = wrong_type D k"
  "spec_wrong (SMOVE k k' v) D \<longleftrightarrow> wrong_type D k \<or> D k \<noteq> None \<and> wrong_type D k'"
  "spec_wrong (SINTER ks) D = list_ex (wrong_type D) ks" "spec_wrong (SINTERCARD ks n) D = list_ex (wrong_type D) ks"
  "spec_wrong (SINTERSTORE k ks) D = list_ex (wrong_type D) ks" "spec_wrong (SUNION ks) D = list_ex (wrong_type D) ks"
  "spec_wrong (SUNIONSTORE k ks) D = list_ex (wrong_type D) ks" "spec_wrong (SDIFF ks) D = list_ex (wrong_type D) ks"
  "spec_wrong (SDIFFSTORE k ks) D = list_ex (wrong_type D) ks"
  by (simp_all add: spec_wrong_def)

lemmas set_command_defs = saddCommand_def sremCommand_def smoveCommand_def sismemberCommand_def smismemberCommand_def scardCommand_def
  smembersCommand_def sinterCommand_def sinterstoreCommand_def sinterGenericCommand_def sunionCommand_def sunionstoreCommand_def
  sdiffCommand_def sdiffstoreCommand_def sunionDiffGenericCommand_def

text \<open>A command on a value of another type replies with an error and changes nothing.\<close>

lemma wrong_type_db: "db_rep h (db c) D \<Longrightarrow> wrong_type D k \<Longrightarrow> \<exists>x. db c k = Some (KvOther x)"
  by (cases rule: key_cases [where k = k]) auto

lemma exec_wrong:
  assumes c: "db_rep (gen_hash env) (db c) D" and w: "spec_wrong cmd D"
  shows "exec env qsort cmd c = Some (addReply wrongtypeerr c)"
proof (cases cmd)
  case (SMOVE k k' v)
  from c show ?thesis
    by (cases rule: key_cases [where k = k]) (use w SMOVE in \<open>auto simp: smoveCommand_def checkType_rep [OF c]\<close>)
qed (use w wrong_type_db [OF c] in \<open>auto simp: set_command_defs checkType_rep [OF c] lookup_sets_ok [OF c] dest!: wrong_type_db [OF c]\<close>)

definition cmd_step :: "set_cmd \<Rightarrow> (bytes \<Rightarrow> u64) \<Rightarrow> adb \<Rightarrow> server \<Rightarrow> server \<Rightarrow> bool" where
  "cmd_step cmd h D c c' \<longleftrightarrow> (\<exists>rs. srv_step h D c (snd (spec_cmd cmd D)) rs c' \<and> reply_shows (fst (spec_cmd cmd D)) rs)"

lemma cmd_stepI:
  "\<not> spec_wrong cmd D \<Longrightarrow> srv_step h D c (snd (spec_sets cmd D)) rs c' \<Longrightarrow> reply_shows (fst (spec_sets cmd D)) rs \<Longrightarrow> cmd_step cmd h D c c'"
  by (auto simp: cmd_step_def spec_cmd_def)

lemma exec_one:
  assumes env: "env_ok env" and c: "db_rep (gen_hash env) (db c) D" and a: "cmd_args_ok cmd" and w: "\<not> spec_wrong cmd D"
    and one: "case cmd of SADD _ _ \<Rightarrow> True | SREM _ _ \<Rightarrow> True | SMOVE _ _ _ \<Rightarrow> True | SISMEMBER _ _ \<Rightarrow> True | SMISMEMBER _ _ \<Rightarrow> True
      | SCARD _ \<Rightarrow> True | SMEMBERS _ \<Rightarrow> True | _ \<Rightarrow> False"
  shows "\<exists>c'. exec env qsort cmd c = Some c' \<and> cmd_step cmd (gen_hash env) D c c'"
proof (cases cmd)
  case (SADD k vs)
  then show ?thesis using saddCommand_ok [OF env c, of vs k] a w by (auto simp: cmd_step_def spec_cmd_def)
next
  case (SREM k vs)
  then show ?thesis using sremCommand_ok [OF env c, of vs k] a w by (auto simp: cmd_step_def spec_cmd_def)
next
  case (SMOVE k k' v)
  then show ?thesis using smoveCommand_ok [OF env c, of v k k'] a w by (auto intro!: cmd_stepI split: if_splits)
next
  case (SISMEMBER k v)
  then show ?thesis using sismemberCommand_ok [OF c, of v k] a w by (auto simp: cmd_step_def spec_cmd_def)
next
  case (SMISMEMBER k vs)
  then show ?thesis using smismemberCommand_ok [OF c, of vs k] a w by (auto intro!: cmd_stepI simp: comp_def if_distrib)
next
  case (SCARD k)
  then show ?thesis using scardCommand_ok [OF c, of k] w by (auto simp: cmd_step_def spec_cmd_def)
next
  case (SMEMBERS k)
  then show ?thesis using smembersCommand_ok [OF c, of k] w by (auto simp: cmd_step_def spec_cmd_def)
qed (use one in auto)

lemma exec_many:
  assumes env: "env_ok env" and q: "qsort_ok qsort" and c: "db_rep (gen_hash env) (db c) D" and a: "cmd_args_ok cmd" "cmd_sizes_ok cmd D"
    and w: "\<not> spec_wrong cmd D" and many: "case cmd of SADD _ _ \<Rightarrow> False | SREM _ _ \<Rightarrow> False | SMOVE _ _ _ \<Rightarrow> False | SISMEMBER _ _ \<Rightarrow> False | SMISMEMBER _ _ \<Rightarrow> False
      | SCARD _ \<Rightarrow> False | SMEMBERS _ \<Rightarrow> False | _ \<Rightarrow> True"
  shows "\<exists>c'. exec env qsort cmd c = Some c' \<and> cmd_step cmd (gen_hash env) D c c'"
proof (cases cmd)
  case (SINTER ks)
  then show ?thesis using sinterCommand_ok [OF q c, of ks] a w by (auto simp: cmd_step_def spec_cmd_def)
next
  case (SINTERCARD ks n)
  then show ?thesis using sinterGenericCommand_card [OF q c, of ks n] a w by (auto simp: cmd_step_def spec_cmd_def)
next
  case (SINTERSTORE k ks)
  then show ?thesis using sinterstoreCommand_ok [OF env q c, of ks k] a w by (auto simp: cmd_step_def spec_cmd_def)
next
  case (SUNION ks)
  then show ?thesis using sunionDiff_reply [OF env q c, of ks SET_OP_UNION] a w by (auto simp: sunionCommand_def cmd_step_def spec_cmd_def)
next
  case (SUNIONSTORE k ks)
  then show ?thesis using sunionDiff_store [OF env q c, of ks SET_OP_UNION k] a w by (auto simp: sunionstoreCommand_def cmd_step_def spec_cmd_def)
next
  case (SDIFF ks)
  then show ?thesis using sunionDiff_reply [OF env q c, of ks SET_OP_DIFF] a w by (auto simp: sdiffCommand_def cmd_step_def spec_cmd_def)
next
  case (SDIFFSTORE k ks)
  then show ?thesis using sunionDiff_store [OF env q c, of ks SET_OP_DIFF k] a w by (auto simp: sdiffstoreCommand_def cmd_step_def spec_cmd_def)
qed (use many in auto)

lemma exec_ok:
  assumes "env_ok env" and "qsort_ok qsort" and c: "db_rep (gen_hash env) (db c) D" and "cmd_args_ok cmd" and "cmd_sizes_ok cmd D"
  shows "\<exists>c'. exec env qsort cmd c = Some c' \<and> cmd_step cmd (gen_hash env) D c c'"
proof (cases "spec_wrong cmd D")
  case True
  have "cmd_step cmd (gen_hash env) D c (addReply wrongtypeerr c)" using reply_only [OF c, of wrongtypeerr] True by (auto simp: cmd_step_def spec_cmd_def)
  then show ?thesis using exec_wrong [OF c True] by blast
next
  case False
  then show ?thesis using exec_one [OF assms(1,3,4) False] exec_many [OF assms False] by (cases cmd) simp_all
qed

section \<open>Sequences of commands\<close>

text \<open>Commands that clients send one after the other. The settings, the allocator and \<^verbatim>\<open>dict_can_resize\<close> may change between
  two commands; the hash function may not.\<close>

fun run_cmds :: "sorter \<Rightarrow> (set_env \<times> set_cmd) list \<Rightarrow> server \<Rightarrow> server option" where
  "run_cmds qsort [] c = Some c"
| "run_cmds qsort ((env, cmd) # cmds) c = do { c \<leftarrow> exec env qsort cmd c; run_cmds qsort cmds c }"

fun set_spec_run :: "set_cmd list \<Rightarrow> adb \<Rightarrow> spec_reply list \<times> adb" where
  "set_spec_run [] D = ([], D)"
| "set_spec_run (cmd # cmds) D = (let (r, D) = spec_cmd cmd D; (rs, D) = set_spec_run cmds D in (r # rs, D))"

text \<open>The commands are admissible one after the other, each on the map that the commands before it leave.\<close>

fun cmds_ok :: "(bytes \<Rightarrow> u64) \<Rightarrow> (set_env \<times> set_cmd) list \<Rightarrow> adb \<Rightarrow> bool" where
  "cmds_ok h [] D \<longleftrightarrow> True"
| "cmds_ok h ((env, cmd) # cmds) D \<longleftrightarrow> env_ok env \<and> gen_hash env = h \<and> cmd_args_ok cmd \<and> cmd_sizes_ok cmd D \<and>
     cmds_ok h cmds (snd (spec_cmd cmd D))"

lemma run_cmds_ok:
  assumes "qsort_ok qsort" and "cmds_ok h cmds D" and "db_rep h (db c) D"
  shows "\<exists>c' rss. run_cmds qsort cmds c = Some c' \<and> db_rep h (db c') (snd (set_spec_run (map snd cmds) D)) \<and>
    out c' = out c @ concat rss \<and> list_all2 reply_shows (fst (set_spec_run (map snd cmds) D)) rss"
  using assms(2,3)
proof (induction cmds arbitrary: c D)
  case Nil
  then show ?case by (auto intro: exI [of _ "[]"])
next
  case (Cons x cmds)
  obtain env cmd where x: "x = (env, cmd)" by (cases x)
  obtain r D1 where r: "spec_cmd cmd D = (r, D1)" by (cases "spec_cmd cmd D")
  obtain c1 rs where c1: "exec env qsort cmd c = Some c1" "db_rep h (db c1) D1" "out c1 = out c @ rs" "reply_shows r rs"
    using exec_ok [OF _ assms(1), of env c D cmd] Cons.prems x r by (auto simp: cmd_step_def srv_step_def)
  obtain rsps D2 where s: "set_spec_run (map snd cmds) D1 = (rsps, D2)" by (cases "set_spec_run (map snd cmds) D1")
  obtain c' rss where c': "run_cmds qsort cmds c1 = Some c'" "db_rep h (db c') D2" "out c' = out c1 @ concat rss" "list_all2 reply_shows rsps rss"
    using Cons.IH [OF _ c1(2)] Cons.prems(1) s x r by auto
  have "list_all2 reply_shows (r # rsps) (rs # rss)" "out c' = out c @ concat (rs # rss)" using c' c1 by simp_all
  then show ?case using x r s c1(1) c'(1,2) by (auto intro!: exI [of _ "rs # rss"])
qed

text \<open>C1. Any sequence of set commands on a keyspace that represents the map \<open>D\<close> from keys to sets and other values runs to
  its end, replies to each command what the abstract command on the map replies, up to the order of members, and leaves a keyspace
  that represents the map after the abstract commands. This holds for all encodings, any \<^verbatim>\<open>qsort\<close> and all settings with
  \<^verbatim>\<open>set_max_intset_entries\<close> below \<open>2 ^ 29\<close>, where the moves inside an intset do not overflow, which may change between commands.
  Members are shorter than \<open>2 ^ 31\<close> bytes. The unions, and the first sets of the differences, have fewer than \<open>2 ^ 31\<close> members when the
  command runs, since the code counts them in an \<^verbatim>\<open>int\<close>. No empty set is left in the keyspace.\<close>

theorem set_commands_refine_sets:
  assumes "qsort_ok qsort" and "cmds_ok h cmds D" and "db_rep h (db c) D"
  shows "\<exists>c' rss. run_cmds qsort cmds c = Some c' \<and> db_rep h (db c') (snd (set_spec_run (map snd cmds) D)) \<and>
    out c' = out c @ concat rss \<and> list_all2 reply_shows (fst (set_spec_run (map snd cmds) D)) rss"
  by (rule run_cmds_ok [OF assms])

definition empty_server :: server where
  "empty_server = \<lparr>db = Map.empty, dirty = 0, touched = [], events = [], out = []\<rparr>"

lemma empty_server_rep: "db_rep h (db empty_server) Map.empty"
  by (simp add: empty_server_def db_rep_def)

lemma qsort_ok_sort_key: "qsort_ok (sort_key fst)"
  by (simp add: qsort_ok_def)

theorem set_commands_refine_sets_witness:
  "\<exists>c'. run_cmds (sort_key fst) [(default_env, SADD [1] [[97], [98]]), (default_env, SADD [2] [[98]]), (default_env, SINTER [[1], [2]])] empty_server = Some c' \<and>
     out c' = [RInt 2, RInt 1, RSetLen 1, RBulk [98]]"
proof -
  let ?cmds = "[(default_env, SADD [1] [[97], [98]]), (default_env, SADD [2] [[98]]), (default_env, SINTER [[1], [2]])]"
  have ok: "cmds_ok (gen_hash default_env) ?cmds Map.empty" using default_env_ok by simp
  have spec: "fst (set_spec_run (map snd ?cmds) Map.empty) = [Count 2, Count 1, Members {[98]}]"
    by (auto simp: spec_cmd_def wrong_type_def store_def members_def inter_of_def)
  obtain c' rss where run: "run_cmds (sort_key fst) ?cmds empty_server = Some c'" "out c' = out empty_server @ concat rss"
      "list_all2 reply_shows [Count 2, Count 1, Members {[98]}] rss"
    using set_commands_refine_sets [OF qsort_ok_sort_key ok empty_server_rep] unfolding spec by blast
  then obtain xs where xs: "distinct xs" "set xs = {[98]}" and out: "out c' = [RInt 2, RInt 1, RSetLen 1] @ map RBulk xs"
    by (auto simp: list_all2_Cons1 empty_server_def)
  have "xs = [[98]]" using xs distinct_card [OF xs(1)] by (cases xs; cases "tl xs") auto
  then show ?thesis using run(1) out by simp
qed

text \<open>C33. A set command that changes the value of a key signals this key to the watching clients and adds to the count of
  changes that triggers saving and replication; an error changes nothing. The bounds are those of a single admissible command: in
  particular a union, or the first set of a difference, has fewer than \<open>2 ^ 31\<close> members.\<close>

theorem set_commands_signal_changes:
  assumes "env_ok env" and "qsort_ok qsort" and "db_rep (gen_hash env) (db c) D" and "cmd_args_ok cmd" and "cmd_sizes_ok cmd D"
  shows "\<exists>c' ts. exec env qsort cmd c = Some c' \<and> touched c' = touched c @ ts \<and> (\<forall>k. snd (spec_cmd cmd D) k \<noteq> D k \<longrightarrow> k \<in> set ts) \<and>
    dirty c \<le> dirty c' \<and> (snd (spec_cmd cmd D) \<noteq> D \<longrightarrow> dirty c < dirty c') \<and>
    (fst (spec_cmd cmd D) = WrongType \<longrightarrow> c' = addReply wrongtypeerr c)"
proof -
  have wrong: "spec_wrong cmd D" if "fst (spec_cmd cmd D) = WrongType" using that by (cases cmd) (auto simp: spec_cmd_def split: if_splits)
  obtain c' where c': "exec env qsort cmd c = Some c'" "cmd_step cmd (gen_hash env) D c c'" using exec_ok [OF assms] by blast
  then obtain ts where "touched c' = touched c @ ts" "\<forall>k. snd (spec_cmd cmd D) k \<noteq> D k \<longrightarrow> k \<in> set ts" "dirty c \<le> dirty c'"
      "snd (spec_cmd cmd D) \<noteq> D \<longrightarrow> dirty c < dirty c'"
    unfolding cmd_step_def srv_step_def by blast
  moreover have "fst (spec_cmd cmd D) = WrongType \<longrightarrow> c' = addReply wrongtypeerr c" using c'(1) exec_wrong [OF assms(3) wrong] by auto
  ultimately show ?thesis using c'(1) by blast
qed

theorem set_commands_signal_changes_witness:
  "\<exists>c' ts. exec default_env (sort_key fst) (SADD [1] [[97]]) empty_server = Some c' \<and> touched c' = ts \<and> [1] \<in> set ts \<and> 0 < dirty c'"
proof -
  have s: "snd (spec_cmd (SADD [1] [[97]]) Map.empty) [1] \<noteq> Map.empty [1]" "snd (spec_cmd (SADD [1] [[97]]) Map.empty) \<noteq> Map.empty"
    by (simp_all add: spec_cmd_def wrong_type_def store_def members_def)
  have "cmd_args_ok (SADD [1] [[97]])" "cmd_sizes_ok (SADD [1] [[97]]) Map.empty" by simp_all
  from set_commands_signal_changes [OF default_env_ok qsort_ok_sort_key empty_server_rep this] s
  show ?thesis by (auto simp: empty_server_def)
qed

section \<open>The arguments of SINTERCARD\<close>

text \<open>C37. \<^verbatim>\<open>SINTERCARD n key ... LIMIT l\<close> with \<open>n\<close> the number of the keys in decimal and \<open>LIMIT\<close> in any case replies
  with the cardinality of the intersection, at most \<open>l\<close> when \<open>l\<close> is not 0.\<close>

theorem sintercard_counts:
  assumes "qsort_ok qsort" and "db_rep (gen_hash env) (db c) D" and "ks \<noteq> []" and "\<not> list_ex (wrong_type D) ks"
    and "strcaseeq opt ''LIMIT''" and "length ks < 2 ^ 31" and "limit < 2 ^ 63"
  shows "\<exists>c'. sinterCardCommand env qsort (ll_dec (int (length ks))) (ks @ [opt, ll_dec (int limit)]) c = Some c' \<and>
    srv_step (gen_hash env) D c D [RInt (int (if limit = 0 then card (inter_of D ks) else min limit (card (inter_of D ks))))] c'"
proof -
  have dec: "string2ll (ll_dec (int (length ks))) = Some (int (length ks))" "string2ll (ll_dec (int limit)) = Some (int limit)"
    using assms(6,7) by (simp_all add: string2ll_dec)
  have n: "get_range_long (ll_dec (int (length ks))) 1 LLONG_MAX msg = Inr (int (length ks))" for msg
    using dec(1) assms(3,6) by (cases ks) (auto simp: get_range_long_def)
  have l: "get_range_long (ll_dec (int limit)) 0 LLONG_MAX msg = Inr (int limit)" for msg
    using dec(2) assms(7) by (simp add: get_range_long_def)
  have "sintercard_options [opt, ll_dec (int limit)] 0 = Inr (int limit)" using l assms(5) by simp
  then have "sinterCardCommand env qsort (ll_dec (int (length ks))) (ks @ [opt, ll_dec (int limit)]) c =
      sinterGenericCommand env qsort ks (InterCard limit) c"
    using n by (simp add: sinterCardCommand_def del: sintercard_options.simps)
  then show ?thesis using sinterGenericCommand_card [OF assms(1-4), of limit] by simp
qed

theorem sintercard_counts_witness:
  "\<exists>c'. sinterCardCommand default_env (sort_key fst) (ll_dec 1) [[1], ascii ''limit'', ll_dec 2] empty_server = Some c' \<and> out c' = [RInt 0]"
proof -
  have "strcaseeq (ascii ''limit'') ''LIMIT''" by (simp add: strcaseeq_def lower_def ascii_def)
  from sintercard_counts [OF qsort_ok_sort_key empty_server_rep _ _ this, where env = default_env and ks = "[[1]]" and limit = 2]
  show ?thesis by (auto simp: wrong_type_def inter_of_def members_def srv_step_def empty_server_def)
qed

end
