(* ===== verification/Rio.thy ===== *)
theory Rio
  imports Prelude
begin

text \<open>
  The stream of \<^verbatim>\<open>rio.h\<close> over a buffer in memory (\<^verbatim>\<open>rioInitWithBuffer\<close> of \<^verbatim>\<open>rio.c\<close>), through which \<^verbatim>\<open>DUMP\<close> and \<^verbatim>\<open>RESTORE\<close> use the
  RDB format. Reads and writes go in chunks of at most \<^verbatim>\<open>max_processing_chunk\<close> bytes and pass each chunk to
  \<^verbatim>\<open>update_cksum\<close>. After an error, the flag of the error makes all further calls fail.
\<close>

section \<open>Definitions\<close>

text \<open>\<open>rio_read_error\<close> and \<open>rio_write_error\<close> are the bits of \<^verbatim>\<open>flags\<close>.\<close>

record rio =
  update_cksum :: "(u64 \<Rightarrow> u8 list \<Rightarrow> u64) option"
  cksum :: u64
  rio_read_error :: bool
  rio_write_error :: bool
  processed_bytes :: nat
  max_processing_chunk :: nat
  buffer_ptr :: "u8 list"
  buffer_pos :: nat

definition rioBufferWrite :: "rio \<Rightarrow> u8 list \<Rightarrow> bool \<times> rio" where
  "rioBufferWrite r buf = (True, r\<lparr>buffer_ptr := buffer_ptr r @ buf, buffer_pos := buffer_pos r + length buf\<rparr>)"

text \<open>The subtraction is one of unsigned integers.\<close>

definition rioBufferRead :: "rio \<Rightarrow> nat \<Rightarrow> (u8 list option \<times> rio) option" where
  "rioBufferRead r len =
     (if wrap_u 64 (int (length (buffer_ptr r)) - int (buffer_pos r)) < int len then Some (None, r)
      else if buffer_pos r + len > length (buffer_ptr r) then None
      else Some (Some (take len (drop (buffer_pos r) (buffer_ptr r))), r\<lparr>buffer_pos := buffer_pos r + len\<rparr>))"

definition rioBufferTell :: "rio \<Rightarrow> nat" where
  "rioBufferTell r = buffer_pos r"

definition rioBufferFlush :: "rio \<Rightarrow> bool" where
  "rioBufferFlush r = True"

definition rioInitWithBuffer :: "u8 list \<Rightarrow> rio" where
  "rioInitWithBuffer s = \<lparr>update_cksum = None, cksum = 0, rio_read_error = False, rio_write_error = False, processed_bytes = 0,
     max_processing_chunk = 0, buffer_ptr = s, buffer_pos = 0\<rparr>"

definition rio_chunk :: "rio \<Rightarrow> nat \<Rightarrow> nat" where
  "rio_chunk r len = (if max_processing_chunk r \<noteq> 0 \<and> max_processing_chunk r < len then max_processing_chunk r else len)"

definition rio_update :: "rio \<Rightarrow> u8 list \<Rightarrow> rio" where
  "rio_update r buf = (case update_cksum r of None \<Rightarrow> r | Some f \<Rightarrow> r\<lparr>cksum := f (cksum r) buf\<rparr>)"

definition rio_processed :: "rio \<Rightarrow> nat \<Rightarrow> rio" where
  "rio_processed r n = r\<lparr>processed_bytes := (processed_bytes r + n) mod 2 ^ 64\<rparr>"

text \<open>A chunk of a rest that is not empty is not empty, so the loops end.\<close>

function rioWrite_loop :: "rio \<Rightarrow> u8 list \<Rightarrow> bool \<times> rio" where
  "rioWrite_loop r buf =
     (if buf = [] then (True, r)
      else
        let bytes_to_write = rio_chunk r (length buf);
            (ok, r') = rioBufferWrite (rio_update r (take bytes_to_write buf)) (take bytes_to_write buf)
        in if \<not> ok then (False, r'\<lparr>rio_write_error := True\<rparr>)
           else rioWrite_loop (rio_processed r' bytes_to_write) (drop bytes_to_write buf))"
  by pat_completeness auto
termination by (relation "measure (\<lambda>(r, buf). length buf)") (auto simp: rio_chunk_def)

definition rioWrite :: "rio \<Rightarrow> u8 list \<Rightarrow> bool \<times> rio" where
  "rioWrite r buf = (if rio_write_error r then (False, r) else rioWrite_loop r buf)"

text \<open>A read returns the bytes, or nothing after an error.\<close>

function rioRead_loop :: "rio \<Rightarrow> nat \<Rightarrow> u8 list \<Rightarrow> (u8 list option \<times> rio) option" where
  "rioRead_loop r len acc =
     (if len = 0 then Some (Some acc, r)
      else let bytes_to_read = rio_chunk r len in
        Option.bind (rioBufferRead r bytes_to_read) (\<lambda>(bs, r').
          case bs of
            None \<Rightarrow> Some (None, r'\<lparr>rio_read_error := True\<rparr>)
          | Some bs \<Rightarrow> rioRead_loop (rio_processed (rio_update r' bs) bytes_to_read) (len - bytes_to_read) (acc @ bs)))"
  by pat_completeness auto
termination by (relation "measure (\<lambda>(r, len, acc). len)") (auto simp: rio_chunk_def)

definition rioRead :: "rio \<Rightarrow> nat \<Rightarrow> (u8 list option \<times> rio) option" where
  "rioRead r len = (if rio_read_error r then Some (None, r) else rioRead_loop r len [])"

definition rioTell :: "rio \<Rightarrow> nat" where
  "rioTell r = rioBufferTell r"

definition rioFlush :: "rio \<Rightarrow> bool" where
  "rioFlush r = rioBufferFlush r"

definition rioAbort :: "rio \<Rightarrow> rio" where
  "rioAbort r = r\<lparr>rio_read_error := True, rio_write_error := True\<rparr>"

definition rioGetReadError :: "rio \<Rightarrow> bool" where
  "rioGetReadError r = rio_read_error r"

definition rioGetWriteError :: "rio \<Rightarrow> bool" where
  "rioGetWriteError r = rio_write_error r"

definition rioClearErrors :: "rio \<Rightarrow> rio" where
  "rioClearErrors r = r\<lparr>rio_read_error := False, rio_write_error := False\<rparr>"

declare rioWrite_loop.simps [simp del]
declare rioRead_loop.simps [simp del]

section \<open>Writing\<close>

text \<open>A checksum that can be computed piece by piece.\<close>

definition cksum_law :: "(u64 \<Rightarrow> u8 list \<Rightarrow> u64) \<Rightarrow> bool" where
  "cksum_law f \<longleftrightarrow> (\<forall>c xs ys. f (f c xs) ys = f c (xs @ ys)) \<and> (\<forall>c. f c [] = c)"

text \<open>\<open>r'\<close> is the stream after writing \<open>bs\<close> to \<open>r\<close>.\<close>

definition wrote :: "rio \<Rightarrow> u8 list \<Rightarrow> rio \<Rightarrow> bool" where
  "wrote r bs r' \<longleftrightarrow> buffer_ptr r' = buffer_ptr r @ bs \<and> buffer_pos r' = buffer_pos r + length bs \<and>
     rio_write_error r' = rio_write_error r \<and> rio_read_error r' = rio_read_error r \<and> update_cksum r' = update_cksum r \<and>
     (\<forall>f. update_cksum r = Some f \<longrightarrow> cksum_law f \<longrightarrow> cksum r' = f (cksum r) bs)"

lemma wrote_Nil: "wrote r [] r"
  by (auto simp: wrote_def cksum_law_def)

lemma wrote_trans: "wrote r xs r1 \<Longrightarrow> wrote r1 ys r2 \<Longrightarrow> wrote r (xs @ ys) r2"
  by (auto simp: wrote_def cksum_law_def)

lemma rio_chunk_bounds: "0 < n \<Longrightarrow> 0 < rio_chunk r n \<and> rio_chunk r n \<le> n"
  by (auto simp: rio_chunk_def)

lemma wrote_chunk: "wrote r bs (rio_processed (snd (rioBufferWrite (rio_update r bs) bs)) n)"
  by (auto simp: wrote_def rio_processed_def rio_update_def rioBufferWrite_def split: option.splits)

lemma rioWrite_loop_ok: "\<exists>r'. rioWrite_loop r buf = (True, r') \<and> wrote r buf r'"
proof (induction r buf rule: rioWrite_loop.induct)
  case (1 r buf)
  show ?case
  proof (cases "buf = []")
    case True
    then show ?thesis using wrote_Nil by (simp add: rioWrite_loop.simps)
  next
    case False
    let ?n = "rio_chunk r (length buf)" and ?w = "rioBufferWrite (rio_update r (take (rio_chunk r (length buf)) buf)) (take (rio_chunk r (length buf)) buf)"
    have w: "?w = (True, snd ?w)" by (simp add: rioBufferWrite_def)
    obtain r' where r': "rioWrite_loop (rio_processed (snd ?w) ?n) (drop ?n buf) = (True, r')"
        "wrote (rio_processed (snd ?w) ?n) (drop ?n buf) r'"
      using "1.IH" [OF False refl refl w [symmetric]] by auto
    moreover have "rioWrite_loop r buf = rioWrite_loop (rio_processed (snd ?w) ?n) (drop ?n buf)"
      using False by (subst rioWrite_loop.simps, subst w) (simp add: Let_def rioBufferWrite_def)
    ultimately show ?thesis using wrote_trans [OF wrote_chunk r'(2)] by simp
  qed
qed

lemma rioWrite_ok: "\<not> rio_write_error r \<Longrightarrow> \<exists>r'. rioWrite r buf = (True, r') \<and> wrote r buf r'"
  using rioWrite_loop_ok [of r buf] by (simp add: rioWrite_def)

lemma rioWrite_error: "rio_write_error r \<Longrightarrow> rioWrite r buf = (False, r)"
  by (simp add: rioWrite_def)

section \<open>Reading\<close>

text \<open>The position is inside the buffer, and the bytes left to read.\<close>

definition rio_ok :: "rio \<Rightarrow> bool" where
  "rio_ok r \<longleftrightarrow> buffer_pos r \<le> length (buffer_ptr r) \<and> length (buffer_ptr r) < 2 ^ 63"

definition rio_rest :: "rio \<Rightarrow> u8 list" where
  "rio_rest r = drop (buffer_pos r) (buffer_ptr r)"

text \<open>\<open>r'\<close> is the stream after reading \<open>bs\<close> from \<open>r\<close>.\<close>

definition consumed :: "rio \<Rightarrow> u8 list \<Rightarrow> rio \<Rightarrow> bool" where
  "consumed r bs r' \<longleftrightarrow> rio_ok r' \<and> rio_rest r = bs @ rio_rest r' \<and> rio_read_error r' = rio_read_error r \<and> update_cksum r' = update_cksum r \<and>
     buffer_ptr r' = buffer_ptr r \<and>
     (\<forall>f. update_cksum r = Some f \<longrightarrow> cksum_law f \<longrightarrow> cksum r' = f (cksum r) bs)"

lemma consumed_Nil: "rio_ok r \<Longrightarrow> consumed r [] r"
  by (auto simp: consumed_def cksum_law_def)

lemma consumed_trans: "consumed r xs r1 \<Longrightarrow> consumed r1 ys r2 \<Longrightarrow> consumed r (xs @ ys) r2"
  by (auto simp: consumed_def cksum_law_def)

lemma consumed_rest: "consumed r bs r' \<Longrightarrow> rio_ok r' \<and> rio_rest r' = drop (length bs) (rio_rest r) \<and> buffer_ptr r' = buffer_ptr r"
  by (simp add: consumed_def)

lemma consumed_length: "consumed r bs r' \<Longrightarrow> length (rio_rest r) = length bs + length (rio_rest r')"
  by (simp add: consumed_def)

lemma rioBufferRead_ok:
  assumes "rio_ok r"
  shows "n \<le> length (rio_rest r) \<Longrightarrow> rioBufferRead r n = Some (Some (take n (rio_rest r)), r\<lparr>buffer_pos := buffer_pos r + n\<rparr>)"
    and "length (rio_rest r) < n \<Longrightarrow> rioBufferRead r n = Some (None, r)"
  using assms by (auto simp: rioBufferRead_def rio_ok_def rio_rest_def wrap_u_def)

lemma consumed_chunk:
  assumes "rio_ok r" and "n \<le> length (rio_rest r)"
  shows "consumed r (take n (rio_rest r)) (rio_processed (rio_update (r\<lparr>buffer_pos := buffer_pos r + n\<rparr>) (take n (rio_rest r))) k)"
  using assms
  by (auto simp: consumed_def rio_processed_def rio_update_def rio_ok_def rio_rest_def split: option.splits)
    (simp_all add: append_take_drop_id add.commute flip: drop_drop)

lemma rioRead_loop_ok:
  "rio_ok r \<Longrightarrow> n \<le> length (rio_rest r) \<Longrightarrow>
    \<exists>r'. rioRead_loop r n acc = Some (Some (acc @ take n (rio_rest r)), r') \<and> consumed r (take n (rio_rest r)) r'"
proof (induction r n acc rule: rioRead_loop.induct)
  case (1 r n acc)
  show ?case
  proof (cases "n = 0")
    case True
    then show ?thesis using consumed_Nil "1.prems" by (simp add: rioRead_loop.simps)
  next
    case False
    let ?n = "rio_chunk r n"
    let ?bs = "take ?n (rio_rest r)"
    let ?r = "rio_processed (rio_update (r\<lparr>buffer_pos := buffer_pos r + ?n\<rparr>) ?bs) ?n"
    have n: "0 < ?n" "?n \<le> n" using False rio_chunk_bounds by auto
    have rd: "rioBufferRead r ?n = Some (Some ?bs, r\<lparr>buffer_pos := buffer_pos r + ?n\<rparr>)"
      using rioBufferRead_ok(1) [OF "1.prems"(1)] n "1.prems"(2) by simp
    have c: "consumed r ?bs ?r" using consumed_chunk [OF "1.prems"(1)] n "1.prems"(2) by simp
    have rest: "rio_rest ?r = drop ?n (rio_rest r)" and ok: "rio_ok ?r"
      using consumed_rest [OF c] n "1.prems"(2) by simp_all
    obtain r' where r': "rioRead_loop ?r (n - ?n) (acc @ ?bs) = Some (Some ((acc @ ?bs) @ take (n - ?n) (rio_rest ?r)), r')"
        "consumed ?r (take (n - ?n) (rio_rest ?r)) r'"
      using "1.IH" [OF False refl rd refl refl ok] diff_le_mono [OF "1.prems"(2), of ?n] unfolding rest length_drop by metis
    have "take n (rio_rest r) = ?bs @ take (n - ?n) (rio_rest ?r)"
      using n(2) rest by (metis le_add_diff_inverse take_add)
    then show ?thesis
      using r' consumed_trans [OF c r'(2)] rd False by (subst rioRead_loop.simps) (simp add: Let_def)
  qed
qed

lemma rioRead_ok:
  assumes "rio_ok r" and "\<not> rio_read_error r" and "rio_rest r = bs @ cs"
  shows "\<exists>r'. rioRead r (length bs) = Some (Some bs, r') \<and> consumed r bs r' \<and> rio_rest r' = cs"
proof -
  obtain r' where "rioRead r (length bs) = Some (Some bs, r')" "consumed r bs r'"
    using rioRead_loop_ok [OF assms(1), of "length bs" "[]"] assms(2,3) by (auto simp: rioRead_def)
  then show ?thesis using assms(3) by (auto simp: consumed_def)
qed

text \<open>Reading returns whatever is left in the buffer: the bytes asked for, or an error.\<close>

definition read_result :: "rio \<Rightarrow> nat \<Rightarrow> u8 list option \<Rightarrow> rio \<Rightarrow> bool" where
  "read_result r n bs r' \<longleftrightarrow> rio_ok r' \<and> buffer_ptr r' = buffer_ptr r \<and> (\<forall>b. bs = Some b \<longrightarrow> length b = n \<and> consumed r b r')"

lemma rioRead_loop_short:
  "rio_ok r \<Longrightarrow> length (rio_rest r) < n \<Longrightarrow> \<exists>r'. rioRead_loop r n acc = Some (None, r') \<and> rio_ok r' \<and> buffer_ptr r' = buffer_ptr r"
proof (induction r n acc rule: rioRead_loop.induct)
  case (1 r n acc)
  let ?n = "rio_chunk r n"
  show ?case
  proof (cases "?n \<le> length (rio_rest r)")
    case False
    then show ?thesis
      using rioBufferRead_ok(2) [OF "1.prems"(1)] "1.prems" by (subst rioRead_loop.simps) (auto simp: Let_def rio_ok_def)
  next
    case True
    let ?bs = "take ?n (rio_rest r)"
    let ?r = "rio_processed (rio_update (r\<lparr>buffer_pos := buffer_pos r + ?n\<rparr>) ?bs) ?n"
    have n: "n \<noteq> 0" "0 < ?n" using "1.prems"(2) rio_chunk_bounds by auto
    have rd: "rioBufferRead r ?n = Some (Some ?bs, r\<lparr>buffer_pos := buffer_pos r + ?n\<rparr>)"
      using rioBufferRead_ok(1) [OF "1.prems"(1) True] .
    have c: "consumed r ?bs ?r" using consumed_chunk [OF "1.prems"(1) True] .
    have c': "rio_ok ?r" "buffer_ptr ?r = buffer_ptr r" "length (rio_rest ?r) < n - ?n"
      using consumed_rest [OF c] True "1.prems"(2) by simp_all
    then obtain r' where "rioRead_loop ?r (n - ?n) (acc @ ?bs) = Some (None, r')" "rio_ok r'" "buffer_ptr r' = buffer_ptr r"
      using "1.IH" [OF n(1) refl rd refl refl c'(1) c'(3)] unfolding c'(2) by (elim exE conjE)
    then show ?thesis using rd n by (subst rioRead_loop.simps) (simp add: Let_def)
  qed
qed

lemma rioRead_total: "rio_ok r \<Longrightarrow> \<exists>bs r'. rioRead r n = Some (bs, r') \<and> read_result r n bs r'"
  using rioRead_loop_short [of r n "[]"] rioRead_loop_ok [of r n "[]"]
  by (cases "n \<le> length (rio_rest r)") (auto simp: rioRead_def read_result_def dest: consumed_rest)

end
