(* ===== verification/Crc64.thy ===== *)
theory Crc64
  imports Prelude
begin

text \<open>
  The CRC-64 of \<^verbatim>\<open>crc64.c\<close>, \<^verbatim>\<open>crcspeed.c\<close> and \<^verbatim>\<open>crccombine.c\<close>, which protects RDB files and dump payloads.
  The bit by bit generator \<^verbatim>\<open>_crc64\<close> fills eight tables; \<^verbatim>\<open>crcspeed64little\<close> reads eight bytes at a time through them,
  cuts long inputs into two or three parts that it processes side by side, and joins the parts by matrices over
  the field of two elements. The machine is little-endian and the matrix product is \<^verbatim>\<open>gf2_matrix_times_switch\<close>, the one
  compiled unless \<^verbatim>\<open>__X86_64__\<close> or \<^verbatim>\<open>__i386__\<close> is defined.
\<close>

unbundle bit_operations_syntax

section \<open>The bit by bit generator\<close>

definition POLY :: u64 where
  "POLY = 0xad93d23594c935a9"

definition CRC64_REVERSED_POLY :: u64 where
  "CRC64_REVERSED_POLY = 0x95ac9329ac4bc9b5"

definition bswap64 :: "u64 \<Rightarrow> u64" where
  "bswap64 a = push_bit 56 (a AND 0xff) OR push_bit 40 (a AND 0xff00) OR push_bit 24 (a AND 0xff0000) OR push_bit 8 (a AND 0xff000000)
    OR (drop_bit 8 a AND 0xff000000) OR (drop_bit 24 a AND 0xff0000) OR (drop_bit 40 a AND 0xff00) OR drop_bit 56 a"

text \<open>The reflection of the bits of a word; \<open>None\<close> is the failed assertion.\<close>

definition crc_reflect :: "u64 \<Rightarrow> nat \<Rightarrow> u64 option" where
  "crc_reflect data data_len =
     (if data_len \<le> 64 then
        let data = (drop_bit 1 data AND 0x5555555555555555) OR push_bit 1 (data AND 0x5555555555555555);
            data = (drop_bit 2 data AND 0x3333333333333333) OR push_bit 2 (data AND 0x3333333333333333);
            data = (drop_bit 4 data AND 0x0F0F0F0F0F0F0F0F) OR push_bit 4 (data AND 0x0F0F0F0F0F0F0F0F);
            data = bswap64 data
        in Some (drop_bit (64 - data_len) data)
      else None)"

text \<open>The body of the inner loop, for the bit \<open>i\<close> of the byte.\<close>

definition crc_bit :: "u8 \<Rightarrow> u8 \<Rightarrow> u64 \<Rightarrow> u64" where
  "crc_bit c i crc =
     (let b = (crc AND 0x8000000000000000 \<noteq> 0);
          b = (if c AND i \<noteq> 0 then \<not> b else b);
          crc = push_bit 1 crc
      in if b then crc XOR POLY else crc)"

definition crc_byte :: "u64 \<Rightarrow> u8 \<Rightarrow> u64" where
  "crc_byte crc c = fold (crc_bit c) [1, 2, 4, 8, 16, 32, 64, 128] crc"

text \<open>\<^verbatim>\<open>_crc64\<close>\<close>

definition crc64_bitwise :: "u64 \<Rightarrow> u8 list \<Rightarrow> u64 option" where
  "crc64_bitwise crc data = crc_reflect (foldl crc_byte crc data) 64"

section \<open>The tables\<close>

type_synonym crc_table = "u64 list list"

text \<open>The nested values of a table entry.\<close>

fun nest :: "u64 list \<Rightarrow> nat \<Rightarrow> u64 \<Rightarrow> u64" where
  "nest row 0 crc = crc"
| "nest row (Suc k) crc = (let crc = nest row k crc in row ! unat (crc AND 0xff) XOR drop_bit 8 crc)"

definition crcspeed64little_init :: "(u64 \<Rightarrow> u8 list \<Rightarrow> u64 option) \<Rightarrow> crc_table option" where
  "crcspeed64little_init crcfn = do {
     row \<leftarrow> those (map (\<lambda>n. crcfn 0 [word_of_nat n]) [0..<256]);
     Some (map (\<lambda>k. map (\<lambda>n. nest row k (row ! n)) [0..<256]) [0..<8]) }"

section \<open>Matrices\<close>

definition switch15 :: "u64 list \<Rightarrow> u64 \<Rightarrow> u64" where
  "switch15 mat v =
     (if v = 15 then mat ! 0 XOR mat ! 1 XOR mat ! 2 XOR mat ! 3
      else if v = 14 then mat ! 1 XOR mat ! 2 XOR mat ! 3
      else if v = 13 then mat ! 0 XOR mat ! 2 XOR mat ! 3
      else if v = 12 then mat ! 2 XOR mat ! 3
      else if v = 11 then mat ! 0 XOR mat ! 1 XOR mat ! 3
      else if v = 10 then mat ! 1 XOR mat ! 3
      else if v = 9 then mat ! 0 XOR mat ! 3
      else if v = 8 then mat ! 3
      else if v = 7 then mat ! 0 XOR mat ! 1 XOR mat ! 2
      else if v = 6 then mat ! 1 XOR mat ! 2
      else if v = 5 then mat ! 0 XOR mat ! 2
      else if v = 4 then mat ! 2
      else if v = 3 then mat ! 0 XOR mat ! 1
      else if v = 2 then mat ! 1
      else if v = 1 then mat ! 0
      else 0)"

text \<open>The loop of the product; the pointer to the matrix moves by four rows.\<close>

function matrix_loop :: "u64 list \<Rightarrow> u64 \<Rightarrow> u64 \<Rightarrow> u64" where
  "matrix_loop mat vec acc =
     (if vec = 0 then acc else matrix_loop (drop 4 mat) (drop_bit 4 vec) (acc XOR switch15 mat (vec AND 15)))"
  by pat_completeness auto
termination
proof (relation "measure (\<lambda>(mat, vec, acc). unat vec)")
  fix mat :: "u64 list" and vec acc :: u64
  assume "vec \<noteq> 0"
  then have "unat vec > 0" by (simp add: unat_gt_0)
  then show "((drop 4 mat, drop_bit 4 vec, acc XOR switch15 mat (vec AND 15)), mat, vec, acc) \<in> measure (\<lambda>(mat, vec, acc). unat vec)"
    by (simp add: unat_drop_bit_eq drop_bit_eq_div unat_div)
qed simp

definition gf2_matrix_times_switch :: "u64 list \<Rightarrow> u64 \<Rightarrow> u64" where
  "gf2_matrix_times_switch mat vec = matrix_loop mat vec 0"

definition gf2_matrix_square :: "u64 list \<Rightarrow> nat \<Rightarrow> u64 list" where
  "gf2_matrix_square mat dim = map (\<lambda>n. gf2_matrix_times_switch mat (mat ! n)) [0..<dim]"

text \<open>The cache of the powers. The first two matrices are overwritten.\<close>

fun cache_rows :: "nat \<Rightarrow> nat \<Rightarrow> u64 list \<Rightarrow> u64 list list" where
  "cache_rows dim 0 mat = []"
| "cache_rows dim (Suc n) mat = (let mat = gf2_matrix_square mat dim in mat # cache_rows dim n mat)"

definition init_combine_cache :: "u64 \<Rightarrow> nat \<Rightarrow> u64 list list" where
  "init_combine_cache poly dim =
     (let odd = poly # map (\<lambda>n. push_bit n 1) [0..<dim - 1];
          even = gf2_matrix_square odd dim;
          odd = gf2_matrix_square even dim
      in cache_rows dim 64 odd)"

fun combine_loop :: "u64 list list \<Rightarrow> nat \<Rightarrow> u64 \<Rightarrow> nat \<Rightarrow> u64" where
  "combine_loop cache cache_num crc1 len2 =
     (let crc1 = (if odd len2 then gf2_matrix_times_switch (cache ! cache_num) crc1 else crc1);
          cache_num = (cache_num + 1) AND 63
      in if len2 div 2 \<noteq> 0 then combine_loop cache cache_num crc1 (len2 div 2) else crc1)"

text \<open>The cache is a static variable, all zero until the first use.\<close>

definition crc64_combine :: "u64 list list \<Rightarrow> u64 \<Rightarrow> u64 \<Rightarrow> nat \<Rightarrow> u64 \<Rightarrow> nat \<Rightarrow> u64" where
  "crc64_combine cache crc1 crc2 len2 poly dim =
     (if len2 = 0 then crc1
      else let cache = (if cache ! 0 ! 0 = 0 then init_combine_cache poly dim else cache)
           in combine_loop cache 0 crc1 len2 XOR crc2)"

section \<open>The fast routine\<close>

text \<open>One byte, at the offset \<open>p\<close>.\<close>

definition crc_step :: "crc_table \<Rightarrow> u64 \<Rightarrow> u8 \<Rightarrow> u64" where
  "crc_step table crc c = table ! 0 ! unat ((crc XOR ucast c) AND 0xff) XOR drop_bit 8 crc"

text \<open>Eight bytes read as an integer.\<close>

fun le64 :: "u8 list \<Rightarrow> u64" where
  "le64 [] = 0"
| "le64 (b # bs) = ucast b OR push_bit 8 (le64 bs)"

definition DO_8 :: "crc_table \<Rightarrow> u8 list \<Rightarrow> nat \<Rightarrow> u64 \<Rightarrow> u64" where
  "DO_8 table data p crc =
     (let crc = crc XOR le64 (take 8 (drop p data)) in
      table ! 7 ! unat (ucast crc :: u8) XOR
      table ! 6 ! unat (ucast (drop_bit 8 crc) :: u8) XOR
      table ! 5 ! unat (ucast (drop_bit 16 crc) :: u8) XOR
      table ! 4 ! unat (ucast (drop_bit 24 crc) :: u8) XOR
      table ! 3 ! unat (ucast (drop_bit 32 crc) :: u8) XOR
      table ! 2 ! unat (ucast (drop_bit 40 crc) :: u8) XOR
      table ! 1 ! unat (ucast (drop_bit 48 crc) :: u8) XOR
      table ! 0 ! unat (drop_bit 56 crc))"

fun byte_loop :: "crc_table \<Rightarrow> u8 list \<Rightarrow> nat \<Rightarrow> nat \<Rightarrow> u64 \<Rightarrow> u64" where
  "byte_loop table data p 0 crc = crc"
| "byte_loop table data p (Suc len) crc = byte_loop table data (p + 1) len (crc_step table crc (data ! p))"

text \<open>The bytes up to an aligned address; the buffer starts at \<open>addr\<close>.\<close>

fun align_loop :: "crc_table \<Rightarrow> nat \<Rightarrow> u8 list \<Rightarrow> nat \<Rightarrow> nat \<Rightarrow> u64 \<Rightarrow> nat \<times> nat \<times> u64" where
  "align_loop table addr data p 0 crc = (p, 0, crc)"
| "align_loop table addr data p (Suc len) crc =
     (if (addr + p) AND 7 \<noteq> 0 then align_loop table addr data (p + 1) len (crc_step table crc (data ! p)) else (p, Suc len, crc))"

text \<open>The loops over eight bytes of one, two and three parts.\<close>

fun loop1 :: "crc_table \<Rightarrow> u8 list \<Rightarrow> nat \<Rightarrow> nat \<Rightarrow> u64 \<Rightarrow> nat \<times> nat \<times> u64" where
  "loop1 table data len p1 crc1 =
     (if len \<ge> 8 then loop1 table data (len - 8) (p1 + 8) (DO_8 table data p1 crc1) else (len, p1, crc1))"

fun loop2 :: "crc_table \<Rightarrow> u8 list \<Rightarrow> nat \<Rightarrow> nat \<Rightarrow> nat \<Rightarrow> u64 \<Rightarrow> u64 \<Rightarrow> nat \<times> nat \<times> u64 \<times> u64" where
  "loop2 table data len p1 p2 crc1 crc2 =
     (if len \<ge> 8 then loop2 table data (len - 8) (p1 + 8) (p2 + 8) (DO_8 table data p1 crc1) (DO_8 table data p2 crc2)
      else (p1, p2, crc1, crc2))"

fun loop3 :: "crc_table \<Rightarrow> u8 list \<Rightarrow> nat \<Rightarrow> nat \<Rightarrow> nat \<Rightarrow> nat \<Rightarrow> u64 \<Rightarrow> u64 \<Rightarrow> u64 \<Rightarrow> nat \<times> nat \<times> nat \<times> u64 \<times> u64 \<times> u64" where
  "loop3 table data len p1 p2 p3 crc1 crc2 crc3 =
     (if len \<ge> 8 then loop3 table data (len - 8) (p1 + 8) (p2 + 8) (p3 + 8)
        (DO_8 table data p1 crc1) (DO_8 table data p2 crc2) (DO_8 table data p3 crc3)
      else (p1, p2, p3, crc1, crc2, crc3))"

definition CRC64_LEN_MASK :: nat where
  "CRC64_LEN_MASK = 0x7ffffffffffffff8"

text \<open>The cut into three and into two parts: the new position, the number of bytes left and the register.\<close>

definition split3 :: "crc_table \<Rightarrow> u64 list list \<Rightarrow> u8 list \<Rightarrow> nat \<Rightarrow> nat \<Rightarrow> u64 \<Rightarrow> nat \<times> nat \<times> u64" where
  "split3 table cache data p1 len crc1 =
     (let olen = len;
          p2 = p1 + ((len div 3) AND CRC64_LEN_MASK);
          len = p2 - p1;
          p3 = p2 + len;
          (p1, p2, p3, crc1, crc2, crc3) = loop3 table data len p1 p2 p3 crc1 0 0;
          crc1 = crc64_combine cache crc1 crc2 (p2 - p1) CRC64_REVERSED_POLY 64;
          crc1 = crc64_combine cache crc1 crc3 (p2 - p1) CRC64_REVERSED_POLY 64
      in (p3, olen - (p2 - p1) * 3, crc1))"

definition split2 :: "crc_table \<Rightarrow> u64 list list \<Rightarrow> u8 list \<Rightarrow> nat \<Rightarrow> nat \<Rightarrow> u64 \<Rightarrow> nat \<times> nat \<times> u64" where
  "split2 table cache data p1 len crc1 =
     (let olen = len;
          p2 = p1 + ((len div 2) AND CRC64_LEN_MASK);
          len = p2 - p1;
          (p1, p2, crc1, crc2) = loop2 table data len p1 p2 crc1 0;
          crc1 = crc64_combine cache crc1 crc2 (p2 - p1) CRC64_REVERSED_POLY 64
      in (p2, olen - (p2 - p1) * 2, crc1))"

text \<open>The thresholds \<^verbatim>\<open>CRC64_DUAL_CUTOFF\<close> and \<^verbatim>\<open>CRC64_TRI_CUTOFF\<close> are variables.\<close>

definition crcspeed64little :: "crc_table \<Rightarrow> u64 list list \<Rightarrow> nat \<Rightarrow> nat \<Rightarrow> nat \<Rightarrow> u64 \<Rightarrow> u8 list \<Rightarrow> u64" where
  "crcspeed64little table cache dual_cutoff tri_cutoff addr crc1 data =
     (if dual_cutoff < 1 then byte_loop table data 0 (length data) crc1
      else
        let (p, len, crc1) = align_loop table addr data 0 (length data) crc1;
            (p, len, crc1) =
              (if len > tri_cutoff then split3 table cache data p len crc1
               else if len > dual_cutoff then split2 table cache data p len crc1
               else (p, len, crc1));
            (len, p, crc1) = loop1 table data len p crc1
        in byte_loop table data p len crc1)"

definition crc64_init :: "crc_table option" where
  "crc64_init = crcspeed64little_init crc64_bitwise"

text \<open>\<^verbatim>\<open>crc64\<close> after \<^verbatim>\<open>crc64_init\<close>. The cache is a state that only \<^verbatim>\<open>crc64_combine\<close> uses.\<close>

definition crc64 :: "u64 list list \<Rightarrow> nat \<Rightarrow> nat \<Rightarrow> nat \<Rightarrow> u64 \<Rightarrow> u8 list \<Rightarrow> u64 option" where
  "crc64 cache dual_cutoff tri_cutoff addr crc s = do {
     table \<leftarrow> crc64_init;
     Some (crcspeed64little table cache dual_cutoff tri_cutoff addr crc s) }"

end
