(* ===== verification/Rdb.thy ===== *)
theory Rdb
  imports Rio Set_Type Lzf Crc64
begin

text \<open>
  The part of \<^verbatim>\<open>rdb.c\<close> that saves and loads sets: lengths, strings as integers, compressed or verbatim, the three encodings of a
  set, and the payload of \<^verbatim>\<open>DUMP\<close> with its version and checksum (\<^verbatim>\<open>cluster.c\<close>).

  A function that saves gets the stream, which may be null, and returns the number of bytes or an error (\<^verbatim>\<open>-1\<close>). A function
  that loads returns the value or an error (\<^verbatim>\<open>NULL\<close> or \<^verbatim>\<open>-1\<close>). Loading is in the context of \<^verbatim>\<open>RESTORE\<close>, where
  \<^verbatim>\<open>rdbReportCorruptRDB\<close> only writes to the log. The outer \<open>None\<close> is a failed assertion or an invalid access.
\<close>

unbundle bit_operations_syntax

section \<open>Settings and allocation\<close>

datatype sanitize_mode = SANITIZE_DUMP_NO | SANITIZE_DUMP_YES | SANITIZE_DUMP_CLIENTS

text \<open>The current client: whether it is the master, and, if it has a user, whether the user skips the validation.\<close>

record rdb_client =
  client_master :: bool
  user_skips :: "bool option"

text \<open>What the uninitialised memory holds, also the hash table of the compressor, whether an allocation succeeds, and the state of
  the checksum routine are parameters.\<close>

record rdb_env =
  rdb_set :: set_env
  rdb_compression :: bool
  lzf_table :: "bytes \<Rightarrow> nat \<Rightarrow> int option"
  uninit_byte :: "nat \<Rightarrow> u8"
  malloc_ok :: "nat \<Rightarrow> bool"
  sanitize_dump_payload :: sanitize_mode
  server_loading :: bool
  current_client :: "rdb_client option"
  skip_checksum_validation :: bool
  crc_cache :: "u64 list list"
  crc_dual_cutoff :: nat
  crc_tri_cutoff :: nat
  payload_addr :: nat

definition uninit :: "rdb_env \<Rightarrow> nat \<Rightarrow> bytes" where
  "uninit env n = map (uninit_byte env) [0..<n]"

definition ztrymalloc :: "rdb_env \<Rightarrow> nat \<Rightarrow> bool" where
  "ztrymalloc env sz = (if sz \<ge> (2 ^ 64 - 1) div 2 then False else malloc_ok env sz)"

datatype sds_type = SDS_TYPE_5 | SDS_TYPE_8 | SDS_TYPE_16 | SDS_TYPE_32 | SDS_TYPE_64

fun sdsHdrSize :: "sds_type \<Rightarrow> nat" where
  "sdsHdrSize SDS_TYPE_5 = 1"
| "sdsHdrSize SDS_TYPE_8 = 3"
| "sdsHdrSize SDS_TYPE_16 = 5"
| "sdsHdrSize SDS_TYPE_32 = 9"
| "sdsHdrSize SDS_TYPE_64 = 17"

definition sdsReqType :: "nat \<Rightarrow> sds_type" where
  "sdsReqType string_size =
     (if string_size < 2 ^ 5 then SDS_TYPE_5
      else if string_size \<le> 2 ^ 8 - sdsHdrSize SDS_TYPE_8 - 1 then SDS_TYPE_8
      else if string_size \<le> 2 ^ 16 - sdsHdrSize SDS_TYPE_16 - 1 then SDS_TYPE_16
      else if string_size \<le> 2 ^ 32 - sdsHdrSize SDS_TYPE_32 - 1 then SDS_TYPE_32
      else SDS_TYPE_64)"

text \<open>Whether a string of this length can be allocated. The assertion catches an overflow of \<^verbatim>\<open>size_t\<close>.\<close>

definition sdstrynewlen :: "rdb_env \<Rightarrow> nat \<Rightarrow> bool option" where
  "sdstrynewlen env initlen =
     (let type = sdsReqType initlen;
          type = (if type = SDS_TYPE_5 \<and> initlen = 0 then SDS_TYPE_8 else type);
          hdrlen = sdsHdrSize type
      in if \<not> (initlen + hdrlen + 1) mod 2 ^ 64 > initlen then None
         else Some (ztrymalloc env (hdrlen + initlen + 1)))"

section \<open>Saving\<close>

type_synonym rdb_save = "rio option \<Rightarrow> (nat option \<times> rio option) option"

text \<open>The pattern of saving one thing after the other: return the error, or add up the bytes written.\<close>

definition save_then :: "rdb_save \<Rightarrow> rdb_save \<Rightarrow> rdb_save" where
  "save_then f g rdb = do {
     (n, rdb) \<leftarrow> f rdb;
     case n of
       None \<Rightarrow> Some (None, rdb)
     | Some n \<Rightarrow> map_option (\<lambda>(k, rdb). (map_option (\<lambda>k. n + k) k, rdb)) (g rdb) }"

definition rdbWriteRaw :: "bytes \<Rightarrow> rdb_save" where
  "rdbWriteRaw p rdb = (case rdb of
       None \<Rightarrow> Some (Some (length p), None)
     | Some r \<Rightarrow> let (ok, r) = rioWrite r p in Some (if ok then Some (length p) else None, Some r))"

definition rdbSaveType :: "u8 \<Rightarrow> rdb_save" where
  "rdbSaveType type = rdbWriteRaw [type]"

abbreviation (input) RDB_6BITLEN :: u8 where "RDB_6BITLEN \<equiv> 0"
abbreviation (input) RDB_14BITLEN :: u8 where "RDB_14BITLEN \<equiv> 1"
abbreviation (input) RDB_32BITLEN :: u8 where "RDB_32BITLEN \<equiv> 0x80"
abbreviation (input) RDB_64BITLEN :: u8 where "RDB_64BITLEN \<equiv> 0x81"
abbreviation (input) RDB_ENCVAL :: u8 where "RDB_ENCVAL \<equiv> 3"
abbreviation (input) RDB_LENERR :: u64 where "RDB_LENERR \<equiv> 0xFFFFFFFFFFFFFFFF"
abbreviation (input) RDB_ENC_INT8 :: nat where "RDB_ENC_INT8 \<equiv> 0"
abbreviation (input) RDB_ENC_INT16 :: nat where "RDB_ENC_INT16 \<equiv> 1"
abbreviation (input) RDB_ENC_INT32 :: nat where "RDB_ENC_INT32 \<equiv> 2"
abbreviation (input) RDB_ENC_LZF :: nat where "RDB_ENC_LZF \<equiv> 3"

text \<open>\<^verbatim>\<open>htonl\<close> and \<^verbatim>\<open>htonu64\<close> give the bytes in network order, the highest first.\<close>

definition rdbSaveLen :: "u64 \<Rightarrow> rdb_save" where
  "rdbSaveLen len =
     (if len < 2 ^ 6 then rdbWriteRaw [ucast (len AND 0xFF) OR push_bit 6 RDB_6BITLEN]
      else if len < 2 ^ 14 then rdbWriteRaw [ucast (drop_bit 8 len AND 0xFF) OR push_bit 6 RDB_14BITLEN, ucast (len AND 0xFF)]
      else if len \<le> 0xFFFFFFFF then save_then (rdbWriteRaw [RDB_32BITLEN]) (rdbWriteRaw (rev (le_bytes 4 (uint len))))
      else save_then (rdbWriteRaw [RDB_64BITLEN]) (rdbWriteRaw (rev (le_bytes 8 (uint len)))))"

definition rdb_encval :: "nat \<Rightarrow> u8" where
  "rdb_encval enc = push_bit 6 RDB_ENCVAL OR of_nat enc"

text \<open>The bytes written to the buffer, none when the value does not fit.\<close>

definition rdbEncodeInteger :: "int \<Rightarrow> bytes" where
  "rdbEncodeInteger val =
     (if val \<ge> - (2 ^ 7) \<and> val \<le> 2 ^ 7 - 1 then rdb_encval RDB_ENC_INT8 # le_bytes 1 val
      else if val \<ge> - (2 ^ 15) \<and> val \<le> 2 ^ 15 - 1 then rdb_encval RDB_ENC_INT16 # le_bytes 2 val
      else if val \<ge> - (2 ^ 31) \<and> val \<le> 2 ^ 31 - 1 then rdb_encval RDB_ENC_INT32 # le_bytes 4 val
      else [])"

definition rdbTryIntegerEncoding :: "bytes \<Rightarrow> bytes" where
  "rdbTryIntegerEncoding s = (case string2ll s of Some val \<Rightarrow> rdbEncodeInteger val | None \<Rightarrow> [])"

definition rdbSaveLzfBlob :: "bytes \<Rightarrow> nat \<Rightarrow> rdb_save" where
  "rdbSaveLzfBlob data original_len =
     save_then (rdbWriteRaw [rdb_encval RDB_ENC_LZF])
       (save_then (rdbSaveLen (of_nat (length data)))
         (save_then (rdbSaveLen (of_nat original_len)) (rdbWriteRaw data)))"

definition rdbSaveLzfStringObject :: "rdb_env \<Rightarrow> bytes \<Rightarrow> rdb_save" where
  "rdbSaveLzfStringObject env s rdb =
     (if length s \<le> 4 then Some (Some 0, rdb)
      else do {
        (comprlen, c) \<leftarrow> lzf_compress (lzf_table env s) s (uninit env (length s - 4));
        if comprlen = 0 then Some (Some 0, rdb)
        else rdbSaveLzfBlob (take comprlen c) (length s) rdb })"

definition save_verbatim :: "bytes \<Rightarrow> rdb_save" where
  "save_verbatim s =
     save_then (rdbSaveLen (of_nat (length s))) (if length s > 0 then rdbWriteRaw s else (\<lambda>rdb. Some (Some 0, rdb)))"

definition rdbSaveRawString :: "rdb_env \<Rightarrow> bytes \<Rightarrow> rdb_save" where
  "rdbSaveRawString env s rdb =
     (let buf = (if length s \<le> 11 then rdbTryIntegerEncoding s else []) in
      if buf \<noteq> [] then rdbWriteRaw buf rdb
      else do {
        (n, rdb) \<leftarrow> (if rdb_compression env \<and> length s > 20 then rdbSaveLzfStringObject env s rdb else Some (Some 0, rdb));
        case n of
          None \<Rightarrow> Some (None, rdb)
        | Some n \<Rightarrow> if n > 0 then Some (Some n, rdb) else save_verbatim s rdb })"

definition rdbSaveLongLongAsStringObject :: "int \<Rightarrow> rdb_save" where
  "rdbSaveLongLongAsStringObject val rdb =
     (let buf = rdbEncodeInteger val in
      if buf \<noteq> [] then rdbWriteRaw buf rdb
      else do {
        (m, enclen) \<leftarrow> ll2string (replicate 32 None) val;
        if \<not> enclen < 32 then None
        else do {
          buf \<leftarrow> mem_read m 0 enclen;
          save_then (rdbSaveLen (of_nat enclen)) (rdbWriteRaw buf) rdb } })"

section \<open>Saving a set\<close>

text \<open>The types of RDB objects that are sets, and their bytes.\<close>

datatype rdb_set_type = RDB_TYPE_SET | RDB_TYPE_SET_INTSET | RDB_TYPE_SET_LISTPACK

fun rdb_type_byte :: "rdb_set_type \<Rightarrow> u8" where
  "rdb_type_byte RDB_TYPE_SET = 2"
| "rdb_type_byte RDB_TYPE_SET_INTSET = 11"
| "rdb_type_byte RDB_TYPE_SET_LISTPACK = 20"

fun rdb_set_type_of :: "set_obj \<Rightarrow> rdb_set_type" where
  "rdb_set_type_of (SetIntset is) = RDB_TYPE_SET_INTSET"
| "rdb_set_type_of (SetHT d) = RDB_TYPE_SET"
| "rdb_set_type_of (SetListpack lp) = RDB_TYPE_SET_LISTPACK"

definition rdbSaveObjectType :: "set_obj \<Rightarrow> rdb_save" where
  "rdbSaveObjectType obj = rdbSaveType (rdb_type_byte (rdb_set_type_of obj))"

text \<open>The loop over the entries of the hash table with an unsafe iterator, which is reset after an error too.\<close>

definition save_member :: "rdb_env \<Rightarrow> set_ele \<Rightarrow> nat option \<times> rio option \<Rightarrow> (bool \<times> nat option \<times> rio option) option" where
  "save_member env e acc =
     (case e of
        SetStr ele \<Rightarrow> do {
          (n, rdb) \<leftarrow> rdbSaveRawString env ele (snd acc);
          case n of
            None \<Rightarrow> Some (False, None, rdb)
          | Some n \<Rightarrow> Some (True, map_option (\<lambda>nwritten. nwritten + n) (fst acc), rdb) }
      | SetLl _ \<Rightarrow> None)"

definition save_members :: "rdb_env \<Rightarrow> (bytes, unit) dict \<Rightarrow> rdb_save" where
  "save_members env d rdb = do {
     (acc, _) \<leftarrow> set_each (rdb_set env) (save_member env) (SetHT d) (Some 0, rdb);
     Some acc }"

text \<open>The bytes that the pointer of an intset points to.\<close>

definition intset_raw :: "intset \<Rightarrow> bytes option" where
  "intset_raw is = do {
     c \<leftarrow> mem_read (is_contents is) 0 (intsetBlobLen is - sizeof_intset);
     Some (le_bytes 4 (int (is_encoding is)) @ le_bytes 4 (int (is_length is)) @ c) }"

fun rdbSaveObject :: "rdb_env \<Rightarrow> set_obj \<Rightarrow> rdb_save" where
  "rdbSaveObject env (SetHT d) rdb = save_then (rdbSaveLen (of_nat (dictSize d))) (save_members env d) rdb"
| "rdbSaveObject env (SetIntset is) rdb = do { s \<leftarrow> intset_raw is; rdbSaveRawString env s rdb }"
| "rdbSaveObject env (SetListpack lp) rdb = do { l \<leftarrow> lpBytes lp; s \<leftarrow> mem_read lp 0 l; rdbSaveRawString env s rdb }"

definition rdbSavedObjectLen :: "rdb_env \<Rightarrow> set_obj \<Rightarrow> nat option" where
  "rdbSavedObjectLen env obj = do { (len, _) \<leftarrow> rdbSaveObject env obj None; len }"

section \<open>Loading\<close>

type_synonym 'a rdb_load = "('a option \<times> rio) option"

text \<open>The pattern of returning at once when a read fails.\<close>

definition load_then :: "'a rdb_load \<Rightarrow> ('a \<Rightarrow> rio \<Rightarrow> 'b rdb_load) \<Rightarrow> 'b rdb_load" where
  "load_then m f = do { (x, r) \<leftarrow> m; case x of None \<Rightarrow> Some (None, r) | Some x \<Rightarrow> f x r }"

definition rdbLoadType :: "rio \<Rightarrow> u8 rdb_load" where
  "rdbLoadType r = load_then (rioRead r 1) (\<lambda>b r. Some (Some (hd b), r))"

text \<open>The result is \<^verbatim>\<open>isencoded\<close> and the length.\<close>

definition rdbLoadLenByRef :: "rio \<Rightarrow> (bool \<times> u64) rdb_load" where
  "rdbLoadLenByRef r = load_then (rioRead r 1) (\<lambda>b r.
     let buf0 = hd b; type = drop_bit 6 (buf0 AND 0xC0) in
     if type = RDB_ENCVAL then Some (Some (True, ucast (buf0 AND 0x3F)), r)
     else if type = RDB_6BITLEN then Some (Some (False, ucast (buf0 AND 0x3F)), r)
     else if type = RDB_14BITLEN then
       load_then (rioRead r 1) (\<lambda>b r. Some (Some (False, push_bit 8 (ucast (buf0 AND 0x3F)) OR ucast (hd b)), r))
     else if buf0 = RDB_32BITLEN then
       load_then (rioRead r 4) (\<lambda>b r. Some (Some (False, word_of_int (le_uint (rev b))), r))
     else if buf0 = RDB_64BITLEN then
       load_then (rioRead r 8) (\<lambda>b r. Some (Some (False, word_of_int (le_uint (rev b))), r))
     else Some (None, r))"

definition rdbLoadLen :: "rio \<Rightarrow> ((u64 \<times> bool) \<times> rio) option" where
  "rdbLoadLen r = do {
     (v, r) \<leftarrow> rdbLoadLenByRef r;
     Some (case v of None \<Rightarrow> (RDB_LENERR, False) | Some (isencoded, len) \<Rightarrow> (len, isencoded), r) }"

text \<open>The flags of a string: a block of memory or an sds string. Both are byte strings here.\<close>

datatype rdb_load_flag = RDB_LOAD_PLAIN | RDB_LOAD_SDS

definition try_string :: "rdb_env \<Rightarrow> rdb_load_flag \<Rightarrow> nat \<Rightarrow> bool option" where
  "try_string env flag len = (case flag of RDB_LOAD_PLAIN \<Rightarrow> Some (ztrymalloc env len) | RDB_LOAD_SDS \<Rightarrow> sdstrynewlen env len)"

definition load_decimal :: "bytes \<Rightarrow> rio \<Rightarrow> bytes rdb_load" where
  "load_decimal enc r = do { s \<leftarrow> ll_string LONG_STR_SIZE (le_sint enc); Some (Some s, r) }"

definition rdbLoadIntegerObject :: "nat \<Rightarrow> rio \<Rightarrow> bytes rdb_load" where
  "rdbLoadIntegerObject enctype r =
     (if enctype = RDB_ENC_INT8 then load_then (rioRead r 1) load_decimal
      else if enctype = RDB_ENC_INT16 then load_then (rioRead r 2) load_decimal
      else if enctype = RDB_ENC_INT32 then load_then (rioRead r 4) load_decimal
      else Some (None, r))"

definition rdbLoadLzfStringObject :: "rdb_env \<Rightarrow> rdb_load_flag \<Rightarrow> rio \<Rightarrow> bytes rdb_load" where
  "rdbLoadLzfStringObject env flag r = do {
     ((clen, _), r) \<leftarrow> rdbLoadLen r;
     if clen = RDB_LENERR then Some (None, r)
     else do {
       ((len, _), r) \<leftarrow> rdbLoadLen r;
       if len = RDB_LENERR then Some (None, r)
       else if \<not> ztrymalloc env (unat clen) then Some (None, r)
       else do {
         ok \<leftarrow> try_string env flag (unat len);
         if \<not> ok then Some (None, r)
         else load_then (rioRead r (unat clen)) (\<lambda>c r. do {
           (n, _, val) \<leftarrow> lzf_decompress c (uninit env (unat len));
           if n \<noteq> unat len then Some (None, r) else Some (Some val, r) }) } } }"

definition rdbGenericLoadStringObject :: "rdb_env \<Rightarrow> rdb_load_flag \<Rightarrow> rio \<Rightarrow> bytes rdb_load" where
  "rdbGenericLoadStringObject env flag r = do {
     ((len, isencoded), r) \<leftarrow> rdbLoadLen r;
     if len = RDB_LENERR then Some (None, r)
     else if isencoded then
       if unat len \<in> {RDB_ENC_INT8, RDB_ENC_INT16, RDB_ENC_INT32} then rdbLoadIntegerObject (unat len) r
       else if unat len = RDB_ENC_LZF then rdbLoadLzfStringObject env flag r
       else Some (None, r)
     else do {
       ok \<leftarrow> try_string env flag (unat len);
       if \<not> ok then Some (None, r)
       else if len \<noteq> 0 then rioRead r (unat len) else Some (Some [], r) } }"

section \<open>Validation of a listpack without duplicates\<close>

definition hashDictType :: "(bytes \<Rightarrow> u64) \<Rightarrow> (bytes, unit) dictType" where
  "hashDictType dictSdsHash = \<lparr>hashFunction = dictSdsHash, keyDup = None, valDup = None, keyCompare = Some dictSdsKeyCompare,
     keyDestructor = True, valDestructor = True, resizeAllowed = None, rehashingStarted = False,
     rehashingCompleted = False, bucketChanged = False, no_value = False, keys_are_odd = False,
     force_full_rehash = False, storedHashFunction = None, storedKeyCompare = None, onDictRelease = False\<rparr>"

record lp_dup_data =
  tuple_len :: nat
  dup_count :: nat
  dup_fields :: "(bytes, unit) dict option"
  last_expireat :: int

abbreviation (input) EB_EXPIRE_TIME_MAX :: int where "EB_EXPIRE_TIME_MAX \<equiv> 0xFFFFFFFFFFFF"

text \<open>The three parts of \<^verbatim>\<open>_lpEntryValidation\<close>: the dictionary of the fields, a field, which must be new, and an expiry time.\<close>

definition dup_dict :: "set_env \<Rightarrow> nat \<Rightarrow> lp_dup_data \<Rightarrow> (bytes, unit) dict option" where
  "dup_dict env head_count data =
     (case dup_fields data of
        None \<Rightarrow> map_option snd (dictExpand (hashDictType (gen_hash env)) (can_resize env) dictCreate (head_count div tuple_len data))
      | Some d \<Rightarrow> Some d)"

definition check_field :: "set_env \<Rightarrow> mem \<Rightarrow> nat \<Rightarrow> (bytes, unit) dict \<Rightarrow> (bool \<times> (bytes, unit) dict) option" where
  "check_field env lp p dict = do {
     v \<leftarrow> lpGet lp p (Some (replicate LP_INTBUF_SIZE None));
     field \<leftarrow> got_string lp v;
     dictAdd (hashDictType (gen_hash env)) (can_resize env) dict field () }"

definition check_expiry :: "mem \<Rightarrow> nat \<Rightarrow> int \<Rightarrow> int option option" where
  "check_expiry lp p prev = do {
     v \<leftarrow> lpGetIntegerValue lp p;
     Some (case v of
         None \<Rightarrow> None
       | Some expire_at \<Rightarrow>
           if expire_at < 0 \<or> expire_at > EB_EXPIRE_TIME_MAX then None
           else if expire_at \<noteq> 0 \<and> (prev = 0 \<or> expire_at < prev) then None
           else Some expire_at) }"

definition lpEntryValidation :: "set_env \<Rightarrow> mem \<Rightarrow> nat \<Rightarrow> nat \<Rightarrow> lp_dup_data \<Rightarrow> (bool \<times> lp_dup_data) option" where
  "lpEntryValidation env lp p head_count data = do {
     d \<leftarrow> dup_dict env head_count data;
     (ok, d) \<leftarrow> (if dup_count data mod tuple_len data = 0 then check_field env lp p d else Some (True, d));
     let data = data\<lparr>dup_fields := Some d\<rparr>;
     if \<not> ok then Some (False, data)
     else do {
       e \<leftarrow> (if dup_count data mod tuple_len data = 2 then check_expiry lp p (last_expireat data) else Some (Some (last_expireat data)));
       case e of
         None \<Rightarrow> Some (False, data)
       | Some e \<Rightarrow> Some (True, data\<lparr>last_expireat := e, dup_count := dup_count data + 1\<rparr>) } }"

definition lpValidateIntegrityAndDups :: "set_env \<Rightarrow> mem \<Rightarrow> nat \<Rightarrow> bool \<Rightarrow> nat \<Rightarrow> bool option" where
  "lpValidateIntegrityAndDups env lp sz deep tuplen =
     (if \<not> deep then map_option fst (lpValidateIntegrity lp sz False None ())
      else do {
        (ret, data) \<leftarrow> lpValidateIntegrity lp sz True (Some (lpEntryValidation env lp))
          \<lparr>tuple_len = tuplen, dup_count = 0, dup_fields = None, last_expireat = - 1\<rparr>;
        Some (if dup_count data mod tuplen \<noteq> 0 then False else ret) })"

section \<open>Loading a set\<close>

datatype rdb_load_error = RDB_LOAD_ERR_EMPTY_KEY | RDB_LOAD_ERR_OTHER

type_synonym rdb_loaded = "((rdb_load_error + set_obj) \<times> rio) option"

text \<open>The steps for one member of a set in the general format. Each may turn the object into another encoding for
  the next step; the flag says that the member is accepted.\<close>

definition load_to_intset :: "set_env \<Rightarrow> nat \<Rightarrow> nat \<Rightarrow> nat \<Rightarrow> bytes \<Rightarrow> set_obj \<Rightarrow> (bool \<times> set_obj) option" where
  "load_to_intset env len maxelelen sumelelen ele obj =
     (case obj of
        SetIntset is \<Rightarrow>
          (case string2ll ele of
             Some llval \<Rightarrow> map_option (\<lambda>(is, success). (success, SetIntset is)) (intsetAdd is llval)
           | None \<Rightarrow> do {
               (n, obj) \<leftarrow> setTypeSize obj;
               safe \<leftarrow> lpSafeToAdd None sumelelen;
               if n < set_max_listpack_entries env \<and> maxelelen \<le> set_max_listpack_value env \<and> safe
               then map_option (\<lambda>obj. (True, obj)) (setTypeConvert env obj OBJ_ENCODING_LISTPACK)
               else setTypeConvertAndExpand env obj OBJ_ENCODING_HT len False })
      | _ \<Rightarrow> Some (True, obj))"

definition load_to_listpack :: "set_env \<Rightarrow> nat \<Rightarrow> bytes \<Rightarrow> set_obj \<Rightarrow> (bool \<times> set_obj) option" where
  "load_to_listpack env len ele obj =
     (case obj of
        SetListpack lp \<Rightarrow> do {
          (n, lp) \<leftarrow> lpLength lp;
          safe \<leftarrow> lpSafeToAdd (Some lp) (length ele);
          if n < set_max_listpack_entries env \<and> length ele \<le> set_max_listpack_value env \<and> safe
          then do {
            p \<leftarrow> lp_member lp ele;
            if p \<noteq> None then Some (False, SetListpack lp)
            else map_option (\<lambda>lp. (True, SetListpack lp)) (lp_append_ele env lp (SetStr ele)) }
          else setTypeConvertAndExpand env (SetListpack lp) OBJ_ENCODING_HT len False }
      | _ \<Rightarrow> Some (True, obj))"

definition load_to_ht :: "set_env \<Rightarrow> bytes \<Rightarrow> set_obj \<Rightarrow> (bool \<times> set_obj) option" where
  "load_to_ht env ele obj =
     (case obj of
        SetHT d \<Rightarrow> map_option (\<lambda>(added, d). (added, SetHT d)) (dictAdd (setDictType (gen_hash env)) (can_resize env) d ele ())
      | _ \<Rightarrow> Some (True, obj))"

definition load_member :: "set_env \<Rightarrow> nat \<Rightarrow> nat \<Rightarrow> nat \<Rightarrow> bytes \<Rightarrow> set_obj \<Rightarrow> set_obj option option" where
  "load_member env len maxelelen sumelelen ele obj = do {
     (ok, obj) \<leftarrow> load_to_intset env len maxelelen sumelelen ele obj;
     if \<not> ok then Some None
     else do {
       (ok, obj) \<leftarrow> load_to_listpack env len ele obj;
       if \<not> ok then Some None
       else do {
         (ok, obj) \<leftarrow> load_to_ht env ele obj;
         Some (if ok then Some obj else None) } } }"

text \<open>The loop counts in an \<^verbatim>\<open>unsigned int\<close> up to a length of 64 bits.\<close>

partial_function (option) load_members :: "rdb_env \<Rightarrow> nat \<Rightarrow> nat \<Rightarrow> nat \<Rightarrow> nat \<Rightarrow> set_obj \<Rightarrow> rio \<Rightarrow> rdb_loaded" where
  "load_members env len i maxelelen sumelelen obj r =
     (if i < len then do {
        (ele, r) \<leftarrow> rdbGenericLoadStringObject env RDB_LOAD_SDS r;
        case ele of
          None \<Rightarrow> Some (Inl RDB_LOAD_ERR_OTHER, r)
        | Some ele \<Rightarrow>
            let sumelelen = (sumelelen + length ele) mod 2 ^ 64; maxelelen = max maxelelen (length ele) in
            Option.bind (load_member (rdb_set env) len maxelelen sumelelen ele obj) (\<lambda>res.
              case res of
                None \<Rightarrow> Some (Inl RDB_LOAD_ERR_OTHER, r)
              | Some obj \<Rightarrow> load_members env len ((i + 1) mod 2 ^ 32) maxelelen sumelelen obj r) }
      else Some (Inr obj, r))"

definition load_set :: "rdb_env \<Rightarrow> rio \<Rightarrow> rdb_loaded" where
  "load_set env r = do {
     ((len, _), r) \<leftarrow> rdbLoadLen r;
     if len = RDB_LENERR then Some (Inl RDB_LOAD_ERR_OTHER, r)
     else if len = 0 then Some (Inl RDB_LOAD_ERR_EMPTY_KEY, r)
     else
       let max_entries = set_max_intset_entries (rdb_set env);
           max_entries = (if max_entries \<ge> 2 ^ 30 then 2 ^ 30 else max_entries) in
       if unat len > max_entries then do {
         (ok, d) \<leftarrow> (if unat len > DICT_HT_INITIAL_SIZE
            then dictTryExpand (setDictType (gen_hash (rdb_set env))) (can_resize (rdb_set env)) (try_alloc (rdb_set env)) dictCreate (unat len)
            else Some (True, dictCreate));
         if \<not> ok then Some (Inl RDB_LOAD_ERR_OTHER, r)
         else load_members env (unat len) 0 0 0 (SetHT d) r }
       else load_members env (unat len) 0 0 0 createIntsetObject r }"

definition deep_integrity_validation :: "rdb_env \<Rightarrow> bool" where
  "deep_integrity_validation env =
     (case sanitize_dump_payload env of
        SANITIZE_DUMP_NO \<Rightarrow> False
      | SANITIZE_DUMP_YES \<Rightarrow> True
      | SANITIZE_DUMP_CLIENTS \<Rightarrow>
          let skip = (server_loading env \<or> (case current_client env of None \<Rightarrow> False | Some c \<Rightarrow> client_master c));
              skip = (if \<not> skip then (case current_client env of None \<Rightarrow> False | Some c \<Rightarrow> user_skips c = Some True) else skip)
          in \<not> skip)"

definition load_set_intset :: "rdb_env \<Rightarrow> rio \<Rightarrow> rdb_loaded" where
  "load_set_intset env r = do {
     (encoded, r) \<leftarrow> rdbGenericLoadStringObject env RDB_LOAD_PLAIN r;
     case encoded of
       None \<Rightarrow> Some (Inl RDB_LOAD_ERR_OTHER, r)
     | Some encoded \<Rightarrow> do {
         ok \<leftarrow> intsetValidateIntegrity encoded (deep_integrity_validation env);
         if \<not> ok then Some (Inl RDB_LOAD_ERR_OTHER, r)
         else
           let is = intset_of_bytes encoded in
           if intsetLen is > set_max_intset_entries (rdb_set env)
           then map_option (\<lambda>obj. (Inr obj, r)) (setTypeConvert (rdb_set env) (SetIntset is) OBJ_ENCODING_HT)
           else Some (Inr (SetIntset is), r) } }"

definition load_set_listpack :: "rdb_env \<Rightarrow> rio \<Rightarrow> rdb_loaded" where
  "load_set_listpack env r = do {
     (encoded, r) \<leftarrow> rdbGenericLoadStringObject env RDB_LOAD_PLAIN r;
     case encoded of
       None \<Rightarrow> Some (Inl RDB_LOAD_ERR_OTHER, r)
     | Some encoded \<Rightarrow> do {
         ok \<leftarrow> lpValidateIntegrityAndDups (rdb_set env) (map Some encoded) (length encoded) (deep_integrity_validation env) 1;
         if \<not> ok then Some (Inl RDB_LOAD_ERR_OTHER, r)
         else do {
           (n, obj) \<leftarrow> setTypeSize (SetListpack (map Some encoded));
           if n = 0 then Some (Inl RDB_LOAD_ERR_EMPTY_KEY, r)
           else do {
             (n, obj) \<leftarrow> setTypeSize obj;
             if n > set_max_listpack_entries (rdb_set env)
             then map_option (\<lambda>obj. (Inr obj, r)) (setTypeConvert (rdb_set env) obj OBJ_ENCODING_HT)
             else Some (Inr obj, r) } } } }"

text \<open>\<^verbatim>\<open>rdbLoadObject\<close> for the types that are sets.\<close>

fun rdbLoadObject :: "rdb_env \<Rightarrow> rdb_set_type \<Rightarrow> rio \<Rightarrow> rdb_loaded" where
  "rdbLoadObject env RDB_TYPE_SET r = load_set env r"
| "rdbLoadObject env RDB_TYPE_SET_INTSET r = load_set_intset env r"
| "rdbLoadObject env RDB_TYPE_SET_LISTPACK r = load_set_listpack env r"

definition rdbIsObjectType :: "u8 \<Rightarrow> bool" where
  "rdbIsObjectType t = (0 \<le> t \<and> t \<le> 7 \<or> 9 \<le> t \<and> t \<le> 25)"

definition rdbLoadObjectType :: "rio \<Rightarrow> u8 rdb_load" where
  "rdbLoadObjectType r = load_then (rdbLoadType r) (\<lambda>type r. Some (if rdbIsObjectType type then Some type else None, r))"

section \<open>The payload of DUMP\<close>

abbreviation (input) RDB_VERSION :: nat where "RDB_VERSION \<equiv> 12"

definition payload_crc :: "rdb_env \<Rightarrow> bytes \<Rightarrow> u64 option" where
  "payload_crc env p = crc64 (crc_cache env) (crc_dual_cutoff env) (crc_tri_cutoff env) (payload_addr env) 0 p"

definition createDumpPayload :: "rdb_env \<Rightarrow> set_obj \<Rightarrow> bytes option" where
  "createDumpPayload env obj = do {
     (n, payload) \<leftarrow> rdbSaveObjectType obj (Some (rioInitWithBuffer []));
     (n', payload) \<leftarrow> (if n = Some 0 then None else rdbSaveObject env obj payload);
     r \<leftarrow> (if n' = Some 0 then None else payload);
     let buf = buffer_ptr r @ [of_nat RDB_VERSION AND 0xFF, drop_bit 8 (of_nat RDB_VERSION) AND 0xFF];
     c \<leftarrow> payload_crc env buf;
     Some (buf @ le_bytes 8 (uint c)) }"

text \<open>The result is whether the payload is accepted, and the version if it was read.\<close>

definition verifyDumpPayload :: "rdb_env \<Rightarrow> bytes \<Rightarrow> (bool \<times> nat option) option" where
  "verifyDumpPayload env p =
     (if length p < 10 then Some (False, None)
      else
        let footer = drop (length p - 10) p;
            rdbver = unat (push_bit 8 (ucast (footer ! 1)) OR ucast (footer ! 0) :: u16) in
        if rdbver > RDB_VERSION then Some (False, Some rdbver)
        else if skip_checksum_validation env then Some (True, Some rdbver)
        else do {
          c \<leftarrow> payload_crc env (take (length p - 8) p);
          Some (le_bytes 8 (uint c) = take 8 (drop 2 footer), Some rdbver) })"

end
