(* ===== verification/Rdb_String.thy ===== *)
theory Rdb_String
  imports Rdb Lzf_Roundtrip Bits Set_Correct
begin

text \<open>
  Strings in the RDB format: what \<^verbatim>\<open>rdbSaveRawString\<close> writes, as an integer, compressed or verbatim, is what
  \<^verbatim>\<open>rdbGenericLoadStringObject\<close> reads, and loading arbitrary bytes stays inside the buffer.
\<close>

unbundle bit_operations_syntax

section \<open>Saving\<close>

text \<open>The stream takes bytes, and the stream after \<open>bs\<close> is written. A null stream only counts.\<close>

fun stream_ok :: "rio option \<Rightarrow> bool" where
  "stream_ok None = True"
| "stream_ok (Some r) = (\<not> rio_write_error r)"

fun stream_wrote :: "rio option \<Rightarrow> u8 list \<Rightarrow> rio option \<Rightarrow> bool" where
  "stream_wrote None bs rdb' = (rdb' = None)"
| "stream_wrote (Some r) bs rdb' = (\<exists>r'. rdb' = Some r' \<and> wrote r bs r')"

text \<open>\<open>f\<close> writes \<open>bs\<close> and returns its length.\<close>

definition saves :: "rdb_save \<Rightarrow> u8 list \<Rightarrow> bool" where
  "saves f bs \<longleftrightarrow> (\<forall>rdb. stream_ok rdb \<longrightarrow> (\<exists>rdb'. f rdb = Some (Some (length bs), rdb') \<and> stream_wrote rdb bs rdb'))"

lemma saves_null: "saves f bs \<Longrightarrow> f None = Some (Some (length bs), None)"
  by (auto simp: saves_def dest!: spec [of _ None])

lemma stream_wrote_ok: "stream_wrote rdb bs rdb' \<Longrightarrow> stream_ok rdb \<Longrightarrow> stream_ok rdb'"
  by (cases rdb) (auto simp: wrote_def)

lemma stream_wrote_trans: "stream_wrote rdb xs rdb1 \<Longrightarrow> stream_wrote rdb1 ys rdb2 \<Longrightarrow> stream_wrote rdb (xs @ ys) rdb2"
  by (cases rdb) (simp, auto, metis wrote_trans)

lemma stream_wrote_Nil: "stream_wrote rdb [] rdb"
  by (cases rdb) (auto intro: wrote_Nil)

lemma saves_raw: "saves (rdbWriteRaw p) p"
  unfolding saves_def
proof (intro allI impI)
  fix rdb
  assume ok: "stream_ok rdb"
  show "\<exists>rdb'. rdbWriteRaw p rdb = Some (Some (length p), rdb') \<and> stream_wrote rdb p rdb'"
  proof (cases rdb)
    case (Some r)
    then show ?thesis using ok rioWrite_ok [of r p] by (auto simp: rdbWriteRaw_def)
  qed (simp add: rdbWriteRaw_def)
qed

lemma saves_none: "saves (\<lambda>rdb. Some (Some 0, rdb)) []"
  by (auto simp: saves_def stream_wrote_Nil)

lemma saves_then:
  assumes "saves f xs" and "saves g ys"
  shows "saves (save_then f g) (xs @ ys)"
  unfolding saves_def
proof (intro allI impI)
  fix rdb
  assume ok: "stream_ok rdb"
  obtain rdb1 where 1: "f rdb = Some (Some (length xs), rdb1)" "stream_wrote rdb xs rdb1" using assms(1) ok unfolding saves_def by blast
  obtain rdb2 where "g rdb1 = Some (Some (length ys), rdb2)" "stream_wrote rdb1 ys rdb2"
    using assms(2) stream_wrote_ok [OF 1(2) ok] unfolding saves_def by blast
  then show "\<exists>rdb'. save_then f g rdb = Some (Some (length (xs @ ys)), rdb') \<and> stream_wrote rdb (xs @ ys) rdb'"
    using 1 stream_wrote_trans [OF 1(2)] by (simp add: save_then_def)
qed

text \<open>The format of a length.\<close>

definition len_bytes :: "u64 \<Rightarrow> u8 list" where
  "len_bytes len =
     (if len < 2 ^ 6 then [ucast len]
      else if len < 2 ^ 14 then [ucast (drop_bit 8 len) OR 0x40, ucast len]
      else if len \<le> 0xFFFFFFFF then 0x80 # rev (le_bytes 4 (uint len))
      else 0x81 # rev (le_bytes 8 (uint len)))"

lemma ucast_and_mask: "ucast (len AND 0xFF :: u64) = (ucast len :: u8)"
proof -
  have m: "(0xFF :: u64) = mask 8" by (simp add: mask_eq_exp_minus_1)
  show ?thesis unfolding m by (rule bit_eqI) (auto simp: bit_simps)
qed

lemma rdbSaveLen_saves: "saves (rdbSaveLen len) (len_bytes len)"
proof -
  have "saves (rdbSaveLen len) [ucast len]" if "len < 2 ^ 6"
    using saves_raw that by (simp add: rdbSaveLen_def ucast_and_mask)
  moreover have "saves (rdbSaveLen len) [ucast (drop_bit 8 len) OR 0x40, ucast len]" if "\<not> len < 2 ^ 6" "len < 2 ^ 14"
    using saves_raw that by (simp add: rdbSaveLen_def ucast_and_mask push_bit_eq_mult)
  ultimately show ?thesis
    using saves_then [OF saves_raw saves_raw, of "[0x80]" "rev (le_bytes 4 (uint len))"]
      saves_then [OF saves_raw saves_raw, of "[0x81]" "rev (le_bytes 8 (uint len))"]
    by (auto simp: len_bytes_def rdbSaveLen_def)
qed

section \<open>Loading\<close>

text \<open>\<open>f\<close> reads \<open>bs\<close> and returns \<open>v\<close>.\<close>

definition loads :: "(rio \<Rightarrow> 'a rdb_load) \<Rightarrow> u8 list \<Rightarrow> 'a \<Rightarrow> bool" where
  "loads f bs v \<longleftrightarrow> (\<forall>r cs. rio_ok r \<longrightarrow> \<not> rio_read_error r \<longrightarrow> rio_rest r = bs @ cs \<longrightarrow>
     (\<exists>r'. f r = Some (Some v, r') \<and> consumed r bs r'))"

lemma loads_raw: "n = length bs \<Longrightarrow> loads (\<lambda>r. rioRead r n) bs bs"
  using rioRead_ok unfolding loads_def by blast

lemma loads_return: "loads (\<lambda>r. Some (Some v, r)) [] v"
  by (auto simp: loads_def consumed_Nil)

lemma loads_then:
  assumes "loads f xs v" and "loads (g v) ys w"
  shows "loads (\<lambda>r. load_then (f r) g) (xs @ ys) w"
  unfolding loads_def
proof (intro allI impI)
  fix r cs
  assume r: "rio_ok r" "\<not> rio_read_error r" "rio_rest r = (xs @ ys) @ cs"
  then obtain r1 where r1: "f r = Some (Some v, r1)" "consumed r xs r1" using assms(1) unfolding loads_def by fastforce
  then have "rio_ok r1" "\<not> rio_read_error r1" "rio_rest r1 = ys @ cs" using r by (auto simp: consumed_def)
  then obtain r2 where "g v r1 = Some (Some w, r2)" "consumed r1 ys r2" using assms(2) unfolding loads_def by blast
  then show "\<exists>r'. load_then (f r) g = Some (Some w, r') \<and> consumed r (xs @ ys) r'"
    using r1 consumed_trans [OF r1(2)] by (auto simp: load_then_def)
qed

lemma loads_map: "loads f bs v \<Longrightarrow> loads (\<lambda>r. load_then (f r) (\<lambda>x r. Some (Some (h x), r))) bs (h v)"
  using loads_then [of f bs v "\<lambda>x r. Some (Some (h x), r)" "[]"] loads_return by fastforce

text \<open>The first byte of a length: the two high bits are the type.\<close>

lemma len_head:
  assumes "h < (64 :: u64)"
  shows "drop_bit 6 ((ucast h :: u8) AND 0xC0) = 0" and "ucast ((ucast h :: u8) AND 0x3F) = h"
    and "drop_bit 6 (((ucast h :: u8) OR 0x40) AND 0xC0) = 1" and "ucast (((ucast h :: u8) OR 0x40) AND 0x3F) = h"
proof -
  have "\<forall>k<64. drop_bit 6 ((of_nat k :: u8) AND 0xC0) = 0 \<and> ucast ((of_nat k :: u8) AND 0x3F) = (of_nat k :: u64) \<and>
      drop_bit 6 (((of_nat k :: u8) OR 0x40) AND 0xC0) = 1 \<and> ucast (((of_nat k :: u8) OR 0x40) AND 0x3F) = (of_nat k :: u64)"
    by (simp add: all_lt_64)
  moreover have "unat h < 64" using assms by (simp add: word_less_nat_alt)
  moreover have "(of_nat (unat h) :: u64) = h" "(of_nat (unat h) :: u8) = ucast h" by simp_all
  ultimately show "drop_bit 6 ((ucast h :: u8) AND 0xC0) = 0" "ucast ((ucast h :: u8) AND 0x3F) = h"
    "drop_bit 6 (((ucast h :: u8) OR 0x40) AND 0xC0) = 1" "ucast (((ucast h :: u8) OR 0x40) AND 0x3F) = h"
    by (metis)+
qed

lemma join_bytes: "push_bit 8 (drop_bit 8 (n :: u64)) OR ucast (ucast n :: u8) = n"
  by (rule bit_eqI) (auto simp: bit_simps)

lemma be_word: "uint (n :: u64) < 256 ^ k \<Longrightarrow> word_of_int (le_uint (rev (rev (le_bytes k (uint n))))) = n"
  by simp

lemma rdbLoadLenByRef_loads: "loads rdbLoadLenByRef (len_bytes n) (False, n)"
proof -
  have head: "loads rdbLoadLenByRef (b # bs) v" if "loads (\<lambda>r. let buf0 = b; type = drop_bit 6 (buf0 AND 0xC0) in
     if type = RDB_ENCVAL then Some (Some (True, ucast (buf0 AND 0x3F)), r)
     else if type = RDB_6BITLEN then Some (Some (False, ucast (buf0 AND 0x3F)), r)
     else if type = RDB_14BITLEN then
       load_then (rioRead r 1) (\<lambda>b r. Some (Some (False, push_bit 8 (ucast (buf0 AND 0x3F)) OR ucast (hd b)), r))
     else if buf0 = RDB_32BITLEN then
       load_then (rioRead r 4) (\<lambda>b r. Some (Some (False, word_of_int (le_uint (rev b))), r))
     else if buf0 = RDB_64BITLEN then
       load_then (rioRead r 8) (\<lambda>b r. Some (Some (False, word_of_int (le_uint (rev b))), r))
     else Some (None, r)) bs v" for b bs v
    unfolding rdbLoadLenByRef_def using loads_then [OF loads_raw [of 1 "[b]"], of _ bs v] that by simp
  consider "n < 2 ^ 6" | "\<not> n < 2 ^ 6" "n < 2 ^ 14" | "\<not> n < 2 ^ 14" "n \<le> 0xFFFFFFFF" | "\<not> n \<le> 0xFFFFFFFF" by blast
  then show ?thesis
  proof cases
    case 1
    then show ?thesis
      using head [of "ucast n" "[]" "(False, n)"] loads_return [of "(False, n)"] len_head(1,2) [of n] by (simp add: len_bytes_def)
  next
    case 2
    have "unat (drop_bit 8 n) = unat n div 256" unfolding unat_drop_bit_eq by (simp add: drop_bit_eq_div)
    then have "drop_bit 8 n < 64" using 2 by (simp add: word_less_nat_alt less_mult_imp_div_less)
    then show ?thesis
      using head [of "ucast (drop_bit 8 n) OR 0x40" "[ucast n]"] 2 len_head(3,4) [of "drop_bit 8 n"]
        loads_map [OF loads_raw [of 1 "[ucast n]"], of "\<lambda>b. (False, push_bit 8 (drop_bit 8 n) OR ucast (hd b))"]
      by (simp add: len_bytes_def join_bytes)
  next
    case 3
    have "\<not> n < 2 ^ 6" using 3(1) by (simp add: word_less_nat_alt)
    moreover have "uint n < 256 ^ 4" using 3(2) by (simp add: word_le_def)
    ultimately show ?thesis
      using head [of "0x80" "rev (le_bytes 4 (uint n))"] be_word [of n 4] 3
        loads_map [OF loads_raw [of 4 "rev (le_bytes 4 (uint n))"], of "\<lambda>b. (False, word_of_int (le_uint (rev b)) :: u64)"]
      by (simp add: len_bytes_def)
  next
    case 4
    have "\<not> n < 2 ^ 6" "\<not> n < 2 ^ 14" using 4 by (auto simp: word_less_nat_alt word_le_nat_alt)
    moreover have "uint n < 256 ^ 8" using uint_lt2p [of n] by simp
    ultimately show ?thesis
      using head [of "0x81" "rev (le_bytes 8 (uint n))"] be_word [of n 8] 4
        loads_map [OF loads_raw [of 8 "rev (le_bytes 8 (uint n))"], of "\<lambda>b. (False, word_of_int (le_uint (rev b)) :: u64)"]
      by (simp add: len_bytes_def)
  qed
qed

lemma rdbLoadLen_ok:
  assumes "rio_ok r" and "\<not> rio_read_error r" and "rio_rest r = len_bytes n @ cs"
  shows "\<exists>r'. rdbLoadLen r = Some ((n, False), r') \<and> consumed r (len_bytes n) r'"
  using rdbLoadLenByRef_loads [of n] assms by (fastforce simp: rdbLoadLen_def loads_def)

section \<open>Integers\<close>

lemma rdbEncodeInteger_loads:
  assumes "rdbEncodeInteger v = b # bs" and "in_s 64 v"
  shows "\<exists>enc\<in>{0, 1, 2}. b = rdb_encval enc \<and> loads (rdbLoadIntegerObject enc) bs (ll_dec v)"
proof -
  have dec: "loads (\<lambda>r. load_then (rioRead r k) load_decimal) (le_bytes k v) (ll_dec v)" if "0 < k" "in_s (8 * k) v" for k
  proof -
    have "loads (load_decimal (le_bytes k v)) [] (ll_dec v)"
      using loads_return [of "ll_dec v"] that ll_string_ok [OF assms(2)] by (simp add: load_decimal_def loads_def)
    then show ?thesis using loads_then [OF loads_raw [of k "le_bytes k v"]] by fastforce
  qed
  have f: "rdbLoadIntegerObject 0 = (\<lambda>r. load_then (rioRead r 1) load_decimal)" "rdbLoadIntegerObject 1 = (\<lambda>r. load_then (rioRead r 2) load_decimal)"
    "rdbLoadIntegerObject 2 = (\<lambda>r. load_then (rioRead r 4) load_decimal)"
    by (simp_all add: rdbLoadIntegerObject_def fun_eq_iff)
  consider "b = rdb_encval 0" "bs = le_bytes 1 v" "in_s 8 v" | "b = rdb_encval 1" "bs = le_bytes 2 v" "in_s 16 v"
    | "b = rdb_encval 2" "bs = le_bytes 4 v" "in_s 32 v"
    using assms(1) by (auto simp: rdbEncodeInteger_def split: if_splits)
  then show ?thesis using dec [of 1] dec [of 2] dec [of 4] unfolding f [symmetric] by cases auto
qed

lemma rdb_encval_head: "drop_bit 6 (rdb_encval 0 AND 0xC0) = 3 \<and> ucast (rdb_encval 0 AND 0x3F) = (0 :: u64)"
  "drop_bit 6 (rdb_encval 1 AND 0xC0) = 3 \<and> ucast (rdb_encval 1 AND 0x3F) = (1 :: u64)"
  "drop_bit 6 (rdb_encval 2 AND 0xC0) = 3 \<and> ucast (rdb_encval 2 AND 0x3F) = (2 :: u64)"
  "drop_bit 6 (rdb_encval 3 AND 0xC0) = 3 \<and> ucast (rdb_encval 3 AND 0x3F) = (3 :: u64)"
  by (simp_all add: rdb_encval_def)

lemma rdbLoadLen_encval:
  assumes "rio_ok r" and "\<not> rio_read_error r" and "rio_rest r = rdb_encval enc # cs" and "enc \<in> {0, 1, 2, 3}"
  shows "\<exists>r'. rdbLoadLen r = Some ((of_nat enc, True), r') \<and> consumed r [rdb_encval enc] r'"
  using rioRead_ok [OF assms(1,2), of "[rdb_encval enc]" cs] assms(3,4) rdb_encval_head
  by (auto simp: rdbLoadLen_def rdbLoadLenByRef_def load_then_def Let_def)

section \<open>The round trip of a string\<close>

text \<open>Memory for strings can be allocated.\<close>

definition mem_enough :: "rdb_env \<Rightarrow> bool" where
  "mem_enough env \<longleftrightarrow> (\<forall>n. malloc_ok env n)"

lemma try_string_ok:
  assumes "mem_enough env" and "n < 2 ^ 62"
  shows "ztrymalloc env n" and "try_string env flag n = Some True"
proof -
  have m: "ztrymalloc env k" if "k < 2 ^ 62 + 100" for k using assms(1) that by (simp add: ztrymalloc_def mem_enough_def)
  then show "ztrymalloc env n" using assms(2) by simp
  define h where "h = sdsHdrSize (if sdsReqType n = SDS_TYPE_5 \<and> n = 0 then SDS_TYPE_8 else sdsReqType n)"
  have "0 < sdsHdrSize ty \<and> sdsHdrSize ty \<le> 17" for ty by (cases ty) simp_all
  then have h: "0 < h" "h \<le> 17" by (simp_all add: h_def)
  then have "(n + h + 1) mod 2 ^ 64 = n + h + 1" using assms(2) by (intro mod_less) simp
  moreover have "ztrymalloc env (h + n + 1)" using m assms(2) h(2) by simp
  ultimately have "sdstrynewlen env n = Some True" unfolding sdstrynewlen_def Let_def h_def [symmetric] by simp
  then show "try_string env flag n = Some True" using m assms(2) by (cases flag) (simp_all add: try_string_def)
qed

lemma unat_small: "n < 2 ^ 62 \<Longrightarrow> unat (of_nat n :: u64) = n \<and> (of_nat n :: u64) \<noteq> 0xFFFFFFFFFFFFFFFF"
  by (auto simp: unat_of_nat dest: arg_cong [where f = unat])

lemma consumed_next:
  assumes "rio_rest r = xs @ cs" and "consumed r xs r1" and "\<not> rio_read_error r"
  shows "rio_ok r1" and "\<not> rio_read_error r1" and "rio_rest r1 = cs"
  using assms by (auto simp: consumed_def)

lemma verbatim_loads:
  assumes "mem_enough env" and "length s < 2 ^ 62"
  shows "loads (rdbGenericLoadStringObject env flag) (len_bytes (of_nat (length s)) @ s) s"
  unfolding loads_def
proof (intro allI impI)
  fix r cs
  assume r: "rio_ok r" "\<not> rio_read_error r" "rio_rest r = (len_bytes (of_nat (length s)) @ s) @ cs"
  obtain r1 where r1: "rdbLoadLen r = Some ((of_nat (length s), False), r1)" "consumed r (len_bytes (of_nat (length s))) r1"
    using rdbLoadLen_ok [OF r(1,2), of "of_nat (length s)" "s @ cs"] r(3) by auto
  then have 1: "rio_ok r1" "\<not> rio_read_error r1" "rio_rest r1 = s @ cs" using consumed_next [OF _ r1(2) r(2), of "s @ cs"] r(3) by simp_all
  obtain r2 where "rioRead r1 (length s) = Some (Some s, r2)" "consumed r1 s r2" using rioRead_ok [OF 1] by blast
  moreover have "rdbGenericLoadStringObject env flag r = (if length s \<noteq> 0 then rioRead r1 (length s) else Some (Some [], r1))"
    using r1(1) unat_small [OF assms(2)] try_string_ok(2) [OF assms, of flag]
    by (auto simp: rdbGenericLoadStringObject_def unat_eq_zero)
  ultimately show "\<exists>r'. rdbGenericLoadStringObject env flag r = Some (Some s, r') \<and> consumed r (len_bytes (of_nat (length s)) @ s) r'"
    using consumed_trans [OF r1(2)] consumed_trans [OF r1(2) consumed_Nil [OF 1(1)]] by (cases "s = []") auto
qed

lemma lzf_loads:
  assumes "mem_enough env" and "length s < 2 ^ 62" and "length c < 2 ^ 62"
    and "lzf_decompress c (uninit env (length s)) = Some (length s, e, s)"
  shows "loads (rdbLoadLzfStringObject env flag) (len_bytes (of_nat (length c)) @ len_bytes (of_nat (length s)) @ c) s"
  unfolding loads_def
proof (intro allI impI)
  let ?c = "len_bytes (of_nat (length c))" and ?s = "len_bytes (of_nat (length s))"
  fix r cs
  assume r: "rio_ok r" "\<not> rio_read_error r" "rio_rest r = (?c @ ?s @ c) @ cs"
  obtain r1 where r1: "rdbLoadLen r = Some ((of_nat (length c), False), r1)" "consumed r ?c r1"
    using rdbLoadLen_ok [OF r(1,2), of "of_nat (length c)" "?s @ c @ cs"] r(3) by auto
  then have 1: "rio_ok r1" "\<not> rio_read_error r1" "rio_rest r1 = ?s @ c @ cs" using consumed_next [OF _ r1(2) r(2), of "?s @ c @ cs"] r(3) by simp_all
  obtain r2 where r2: "rdbLoadLen r1 = Some ((of_nat (length s), False), r2)" "consumed r1 ?s r2"
    using rdbLoadLen_ok [OF 1] by auto
  then have 2: "rio_ok r2" "\<not> rio_read_error r2" "rio_rest r2 = c @ cs" using consumed_next [OF 1(3) r2(2) 1(2)] by simp_all
  obtain r3 where r3: "rioRead r2 (length c) = Some (Some c, r3)" "consumed r2 c r3" using rioRead_ok [OF 2] by blast
  have "rdbLoadLzfStringObject env flag r = Some (Some s, r3)"
    using r1(1) r2(1) r3(1) unat_small [OF assms(2)] unat_small [OF assms(3)] try_string_ok(2) [OF assms(1,2), of flag]
      try_string_ok(1) [OF assms(1,3)] assms(4)
    by (simp add: rdbLoadLzfStringObject_def load_then_def)
  then show "\<exists>r'. rdbLoadLzfStringObject env flag r = Some (Some s, r') \<and> consumed r (?c @ ?s @ c) r'"
    using consumed_trans [OF r1(2) consumed_trans [OF r2(2) r3(2)]] by blast
qed

lemma encval_loads:
  assumes "enc \<in> {0, 1, 2, 3}" and "loads (if enc = 3 then rdbLoadLzfStringObject env flag else rdbLoadIntegerObject enc) bs s"
  shows "loads (rdbGenericLoadStringObject env flag) (rdb_encval enc # bs) s"
  unfolding loads_def
proof (intro allI impI)
  fix r cs
  assume r: "rio_ok r" "\<not> rio_read_error r" "rio_rest r = (rdb_encval enc # bs) @ cs"
  obtain r1 where r1: "rdbLoadLen r = Some ((of_nat enc, True), r1)" "consumed r [rdb_encval enc] r1"
    using rdbLoadLen_encval [OF r(1,2), of enc "bs @ cs"] r(3) assms(1) by auto
  then have 1: "rio_ok r1" "\<not> rio_read_error r1" "rio_rest r1 = bs @ cs" using consumed_next [OF _ r1(2) r(2), of "bs @ cs"] r(3) by simp_all
  then obtain r2 where r2: "(if enc = 3 then rdbLoadLzfStringObject env flag else rdbLoadIntegerObject enc) r1 = Some (Some s, r2)" "consumed r1 bs r2"
    using assms(2) unfolding loads_def by blast
  have "rdbGenericLoadStringObject env flag r = (if enc = 3 then rdbLoadLzfStringObject env flag else rdbLoadIntegerObject enc) r1"
    using r1(1) assms(1) by (auto simp: rdbGenericLoadStringObject_def)
  then show "\<exists>r'. rdbGenericLoadStringObject env flag r = Some (Some s, r') \<and> consumed r (rdb_encval enc # bs) r'"
    using r2 consumed_trans [OF r1(2) r2(2)] by simp
qed

lemma saves_cong: "(\<And>rdb. f rdb = g rdb) \<Longrightarrow> saves g bs \<Longrightarrow> saves f bs"
  by (simp add: saves_def)

lemma saves_unless_empty:
  assumes "saves f bs" and "bs \<noteq> []"
  shows "saves (\<lambda>rdb. do { (n, rdb) \<leftarrow> f rdb; case n of None \<Rightarrow> Some (None, rdb) | Some n \<Rightarrow> if n > 0 then Some (Some n, rdb) else g rdb }) bs"
  using assms by (fastforce simp: saves_def)

lemma len_bytes_length: "0 < length (len_bytes n)" "length (len_bytes n) \<le> 9"
  by (auto simp: len_bytes_def)

lemma save_verbatim_saves: "saves (save_verbatim s) (len_bytes (of_nat (length s)) @ s)"
  using saves_then [OF rdbSaveLen_saves saves_raw, of "of_nat (length s)" s] saves_then [OF rdbSaveLen_saves saves_none, of "of_nat (length s)"]
  by (cases "s = []") (simp_all add: save_verbatim_def)

lemma rdbSaveLzfBlob_saves:
  "saves (rdbSaveLzfBlob c n) (rdb_encval 3 # len_bytes (of_nat (length c)) @ len_bytes (of_nat n) @ c)"
  using saves_then [OF saves_raw saves_then [OF rdbSaveLen_saves saves_then [OF rdbSaveLen_saves saves_raw]],
      of "[rdb_encval 3]" "of_nat (length c)" "of_nat n" c]
  by (simp add: rdbSaveLzfBlob_def)

text \<open>The bytes of a saved string, and what they load to.\<close>

definition string_codec :: "rdb_env \<Rightarrow> u8 list \<Rightarrow> u8 list \<Rightarrow> bool" where
  "string_codec env s bs \<longleftrightarrow> saves (rdbSaveRawString env s) bs \<and> 0 < length bs \<and> length bs \<le> length s + 15 \<and>
     (\<forall>env' flag. mem_enough env' \<longrightarrow> loads (rdbGenericLoadStringObject env' flag) bs s)"

lemma integer_codec:
  assumes "length s \<le> 11" and "rdbTryIntegerEncoding s \<noteq> []"
  shows "string_codec env s (rdbTryIntegerEncoding s)"
proof -
  obtain v where v: "string2ll s = Some v" using assms(2) by (auto simp: rdbTryIntegerEncoding_def split: option.splits)
  then have "in_s 64 v" "s = ll_dec v" using string2ll_iff by blast+
  obtain b bs where b: "rdbTryIntegerEncoding s = b # bs" "rdbEncodeInteger v = b # bs"
    using assms(2) v by (cases "rdbTryIntegerEncoding s") (auto simp: rdbTryIntegerEncoding_def)
  obtain enc where enc: "enc \<in> {0, 1, 2}" "b = rdb_encval enc" "loads (rdbLoadIntegerObject enc) bs (ll_dec v)"
    using rdbEncodeInteger_loads [OF b(2) \<open>in_s 64 v\<close>] by blast
  have "length (rdbEncodeInteger v) \<le> 5" by (simp add: rdbEncodeInteger_def)
  moreover have "saves (rdbSaveRawString env s) (rdbTryIntegerEncoding s)"
    using assms by (intro saves_cong [OF _ saves_raw]) (simp add: rdbSaveRawString_def)
  moreover have "loads (rdbGenericLoadStringObject env' flag) (b # bs) s" for env' flag
    using encval_loads [of enc env' flag bs s] enc \<open>s = ll_dec v\<close> by auto
  ultimately show ?thesis using b by (simp add: string_codec_def)
qed

lemma verbatim_codec:
  assumes "length s < 2 ^ 62" and "\<And>rdb. rdbSaveRawString env s rdb = save_verbatim s rdb"
  shows "string_codec env s (len_bytes (of_nat (length s)) @ s)"
  using saves_cong [OF assms(2) save_verbatim_saves] verbatim_loads [OF _ assms(1)] len_bytes_length [of "of_nat (length s)"]
  by (simp add: string_codec_def)

lemma lzf_codec:
  assumes "length s < 2 ^ 62" and "length c < length s" and "lzf_dec c [] s"
    and "\<And>rdb. rdbSaveRawString env s rdb = (do { (n, rdb) \<leftarrow> rdbSaveLzfBlob c (length s) rdb;
        case n of None \<Rightarrow> Some (None, rdb) | Some n \<Rightarrow> if n > 0 then Some (Some n, rdb) else save_verbatim s rdb })"
    and "length c + 4 \<le> length s"
  shows "string_codec env s (rdb_encval 3 # len_bytes (of_nat (length c)) @ len_bytes (of_nat (length s)) @ c)"
proof -
  have "lzf_decompress c (uninit env' (length s)) = Some (length s, None, s)" for env'
    using decompress_dec [OF assms(3), of 0 c 0 "uninit env' (length s)"] by (simp add: lzf_decompress_def uninit_def)
  then have "loads (rdbGenericLoadStringObject env' flag) (rdb_encval 3 # len_bytes (of_nat (length c)) @ len_bytes (of_nat (length s)) @ c) s"
    if "mem_enough env'" for env' flag
    using lzf_loads [OF that assms(1), of c None flag] assms(1,2) by (intro encval_loads) simp_all
  then show ?thesis
    using saves_cong [OF assms(4) saves_unless_empty [OF rdbSaveLzfBlob_saves]] assms(5)
      len_bytes_length [of "of_nat (length c)"] len_bytes_length [of "of_nat (length s)"]
    by (simp add: string_codec_def)
qed

lemma rdbSaveRawString_codec:
  assumes "htab_ok (lzf_table env s)" and "length s < 2 ^ 62"
  shows "\<exists>bs. string_codec env s bs"
proof -
  let ?buf = "if length s \<le> 11 then rdbTryIntegerEncoding s else []"
  consider "?buf \<noteq> []" | "?buf = []" "\<not> (rdb_compression env \<and> length s > 20)" | "?buf = []" "rdb_compression env" "length s > 20" by blast
  then show ?thesis
  proof cases
    case 1
    then show ?thesis using integer_codec by (auto split: if_splits)
  next
    case 2
    then show ?thesis using verbatim_codec [OF assms(2), of env] unfolding rdbSaveRawString_def Let_def by auto
  next
    case 3
    obtain n c where c: "lzf_compress (lzf_table env s) s (uninit env (length s - 4)) = Some (n, c)" "length c = length s - 4" "n \<le> length s - 4"
        "n \<noteq> 0 \<longrightarrow> lzf_dec (take n c) [] s"
      using lzf_compress_ok [of s "lzf_table env s" "uninit env (length s - 4)"] assms 3(3) by (auto simp: uninit_def)
    show ?thesis
    proof (cases "n = 0")
      case True
      then show ?thesis
        using verbatim_codec [OF assms(2), of env] 3 c(1) unfolding rdbSaveRawString_def Let_def rdbSaveLzfStringObject_def by auto
    next
      case False
      have "n + 4 \<le> length s" using c(3) 3(3) by simp
      then show ?thesis
        using False lzf_codec [OF assms(2), of "take n c" env] 3 c unfolding rdbSaveRawString_def Let_def rdbSaveLzfStringObject_def by auto
    qed
  qed
qed

section \<open>Loading arbitrary bytes\<close>

text \<open>The lengths for which the assertion of \<^verbatim>\<open>_sdsnewlen\<close> fails, and buffers in which no such length is stored.\<close>

definition huge_free :: "u8 list \<Rightarrow> bool" where
  "huge_free p \<longleftrightarrow> \<not> (\<exists>xs ys n. p = xs @ len_bytes n @ ys \<and> 2 ^ 64 - 18 \<le> unat n \<and> n \<noteq> 0xFFFFFFFFFFFFFFFF)"

lemma rio_split: "rio_ok r \<Longrightarrow> buffer_ptr r = take (buffer_pos r) (buffer_ptr r) @ rio_rest r"
  by (simp add: rio_rest_def)

lemma be_bytes: "length b = 8 \<Longrightarrow> rev (le_bytes 8 (uint (word_of_int (le_uint (rev b)) :: u64))) = b"
proof -
  assume b: "length b = 8"
  then have "0 \<le> le_uint (rev b)" "le_uint (rev b) < 2 ^ 64" using le_uint_range [of "rev b"] by simp_all
  then have "uint (word_of_int (le_uint (rev b)) :: u64) = le_uint (rev b)" by (simp add: uint_word_of_int)
  then show ?thesis using b le_bytes_le_uint [of "rev b"] by simp
qed

text \<open>The results of reading a length: an error, or a length after at least one byte. A large length has the long format.\<close>

definition len_result :: "rio \<Rightarrow> (bool \<times> u64) option \<Rightarrow> rio \<Rightarrow> bool" where
  "len_result r v r' \<longleftrightarrow> rio_ok r' \<and> buffer_ptr r' = buffer_ptr r \<and> (\<forall>e n. v = Some (e, n) \<longrightarrow>
     length (rio_rest r') < length (rio_rest r) \<and> (2 ^ 32 \<le> unat n \<longrightarrow> (\<exists>xs ys. buffer_ptr r = xs @ len_bytes n @ ys)))"

lemma len_result_read:
  assumes "rio_ok r1" and "buffer_ptr r1 = buffer_ptr r" and "length (rio_rest r1) < length (rio_rest r)"
    and "\<And>b r2. length b = k \<Longrightarrow> consumed r1 b r2 \<Longrightarrow> 2 ^ 32 \<le> unat (f b) \<Longrightarrow> \<exists>xs ys. buffer_ptr r = xs @ len_bytes (f b) @ ys"
  shows "\<exists>v r'. load_then (rioRead r1 k) (\<lambda>b r. Some (Some (False, f b), r)) = Some (v, r') \<and> len_result r v r'"
proof -
  obtain b r2 where rd: "rioRead r1 k = Some (b, r2)" "read_result r1 k b r2" using rioRead_total [OF assms(1)] by blast
  show ?thesis
  proof (cases b)
    case None
    then show ?thesis using rd assms(2) by (auto simp: load_then_def len_result_def read_result_def)
  next
    case (Some x)
    then have "length x = k" "consumed r1 x r2" using rd(2) by (auto simp: read_result_def)
    then show ?thesis
      using rd Some assms(2,3) assms(4) [of x r2] consumed_length [of r1 x r2]
      by (auto simp: load_then_def len_result_def read_result_def)
  qed
qed

lemma unat_small_lens: "unat (ucast (b :: u8) :: u64) < 2 ^ 32" "unat (push_bit 8 (ucast (a :: u8)) OR ucast (b :: u8) :: u64) < 2 ^ 32"
proof -
  have less: "unat w < 2 ^ 32" if "\<And>n. 32 \<le> n \<Longrightarrow> \<not> bit w n" for w :: u64
  proof -
    have "take_bit 32 w = w" using that by (intro bit_eqI) (auto simp: bit_take_bit_iff not_less [symmetric])
    then have "unat w = take_bit 32 (unat w)" using unsigned_take_bit_eq [of 32 w] by simp
    then show ?thesis using take_bit_nat_less_exp [of 32 "unat w"] by simp
  qed
  have "\<not> bit c k" if "8 \<le> k" for c :: u8 and k using that bit_imp_le_length [of c k] by auto
  then show "unat (ucast (b :: u8) :: u64) < 2 ^ 32" "unat (push_bit 8 (ucast (a :: u8)) OR ucast (b :: u8) :: u64) < 2 ^ 32"
    by (intro less; simp add: bit_ucast_iff bit_or_iff bit_push_bit_iff)+
qed

lemma rdbLoadLenByRef_total: "rio_ok r \<Longrightarrow> \<exists>v r'. rdbLoadLenByRef r = Some (v, r') \<and> len_result r v r'"
proof -
  assume r: "rio_ok r"
  obtain b r1 where rd: "rioRead r 1 = Some (b, r1)" "read_result r 1 b r1" using rioRead_total [OF r] by blast
  show ?thesis
  proof (cases b)
    case None
    then show ?thesis using rd by (auto simp: rdbLoadLenByRef_def load_then_def len_result_def read_result_def)
  next
    case (Some x)
    then obtain c where c: "x = [c]" "consumed r [c] r1" using rd(2) by (cases x) (auto simp: read_result_def)
    have r1: "rio_ok r1" "buffer_ptr r1 = buffer_ptr r" "length (rio_rest r1) < length (rio_rest r)"
      using consumed_rest [OF c(2)] consumed_length [OF c(2)] by simp_all
    have small: "len_result r (Some (e, ucast (c AND 0x3F))) r1" for e
      using r1 unat_small_lens(1) [of "c AND 0x3F"] by (simp add: len_result_def)
    have two: "\<exists>v r'. load_then (rioRead r1 1) (\<lambda>b r. Some (Some (False, push_bit 8 (ucast (c AND 0x3F)) OR ucast (hd b)), r)) = Some (v, r') \<and> len_result r v r'"
      using unat_small_lens(2) [of "c AND 0x3F"] by (intro len_result_read [OF r1]) (simp add: not_le [symmetric])
    have four: "\<exists>v r'. load_then (rioRead r1 4) (\<lambda>b r. Some (Some (False, word_of_int (le_uint (rev b))), r)) = Some (v, r') \<and> len_result r v r'"
    proof (intro len_result_read [OF r1])
      fix b :: "u8 list" and r2
      assume "length b = 4" "2 ^ 32 \<le> unat (word_of_int (le_uint (rev b)) :: u64)"
      moreover from this have "0 \<le> le_uint (rev b)" "le_uint (rev b) < 2 ^ 32" using le_uint_range [of "rev b"] by simp_all
      ultimately show "\<exists>xs ys. buffer_ptr r = xs @ len_bytes (word_of_int (le_uint (rev b))) @ ys" by (simp add: unat_eq_nat_uint uint_word_of_int)
    qed
    have eight: "\<exists>v r'. load_then (rioRead r1 8) (\<lambda>b r. Some (Some (False, word_of_int (le_uint (rev b))), r)) = Some (v, r') \<and> len_result r v r'"
      if "c = 0x81"
    proof (intro len_result_read [OF r1])
      fix b :: "u8 list" and r2
      let ?n = "word_of_int (le_uint (rev b)) :: u64"
      assume b: "length b = 8" "consumed r1 b r2" "2 ^ 32 \<le> unat ?n"
      have "len_bytes ?n = 0x81 # b"
        using b(3) be_bytes [OF b(1)] by (simp add: len_bytes_def word_less_nat_alt word_le_nat_alt)
      moreover have "rio_rest r = [c] @ b @ rio_rest r2" using c(2) b(2) by (simp add: consumed_def)
      ultimately show "\<exists>xs ys. buffer_ptr r = xs @ len_bytes ?n @ ys" using rio_split [OF r] that by (metis append_Cons append_Nil)
    qed
    show ?thesis
      using rd Some c(1) small two four eight r1
      by (auto simp: rdbLoadLenByRef_def load_then_def Let_def len_result_def)
  qed
qed

lemma rdbLoadLen_total:
  assumes "rio_ok r"
  shows "\<exists>n e r'. rdbLoadLen r = Some ((n, e), r') \<and> rio_ok r' \<and> buffer_ptr r' = buffer_ptr r \<and> (n \<noteq> 0xFFFFFFFFFFFFFFFF \<longrightarrow>
    length (rio_rest r') < length (rio_rest r) \<and> (huge_free (buffer_ptr r) \<longrightarrow> unat n < 2 ^ 64 - 18))"
proof -
  obtain v r' where v: "rdbLoadLenByRef r = Some (v, r')" "len_result r v r'" using rdbLoadLenByRef_total [OF assms] by blast
  show ?thesis
  proof (cases v)
    case None
    then show ?thesis using v by (auto simp: rdbLoadLen_def len_result_def)
  next
    case (Some x)
    obtain e n where x: "x = (e, n)" by (cases x)
    have "unat n < 2 ^ 64 - 18" if "huge_free (buffer_ptr r)" "n \<noteq> 0xFFFFFFFFFFFFFFFF"
    proof (rule ccontr)
      assume "\<not> unat n < 2 ^ 64 - 18"
      then have "2 ^ 64 - 18 \<le> unat n" "2 ^ 32 \<le> unat n" by simp_all
      then show False using v(2) Some x that unfolding len_result_def huge_free_def by blast
    qed
    then show ?thesis using v Some x by (auto simp: rdbLoadLen_def len_result_def)
  qed
qed

text \<open>A loaded string is a number of at most 20 characters, or not much longer than the bytes it was read from.\<close>

definition string_bound :: "u8 list \<Rightarrow> u8 list \<Rightarrow> bool" where
  "string_bound p s \<longleftrightarrow> length s \<le> 20 + 88 * length p"

definition string_result :: "rio \<Rightarrow> u8 list option \<Rightarrow> rio \<Rightarrow> bool" where
  "string_result r v r' \<longleftrightarrow> rio_ok r' \<and> buffer_ptr r' = buffer_ptr r \<and>
     (\<forall>s. v = Some s \<longrightarrow> length (rio_rest r') \<le> length (rio_rest r) \<and> string_bound (buffer_ptr r) s)"

lemma consumed_bound: "consumed r b r' \<Longrightarrow> string_bound b s \<Longrightarrow> string_bound (buffer_ptr r) s"
proof -
  assume a: "consumed r b r'" "string_bound b s"
  have "length b \<le> length (rio_rest r)" using consumed_length [OF a(1)] by simp
  also have "\<dots> \<le> length (buffer_ptr r)" by (simp add: rio_rest_def)
  finally show ?thesis using a(2) by (simp add: string_bound_def)
qed

lemma string_result_none: "rio_ok r' \<Longrightarrow> buffer_ptr r' = buffer_ptr r \<Longrightarrow> string_result r None r'"
  by (simp add: string_result_def)

lemma try_string_total:
  assumes "flag = RDB_LOAD_PLAIN \<or> n < 2 ^ 64 - 18"
  shows "\<exists>ok. try_string env flag n = Some ok"
proof (cases flag)
  case RDB_LOAD_PLAIN
  then show ?thesis by (simp add: try_string_def)
next
  case RDB_LOAD_SDS
  define h where "h = sdsHdrSize (if sdsReqType n = SDS_TYPE_5 \<and> n = 0 then SDS_TYPE_8 else sdsReqType n)"
  have "0 < sdsHdrSize ty \<and> sdsHdrSize ty \<le> 17" for ty by (cases ty) simp_all
  then have h: "0 < h" "h \<le> 17" by (simp_all add: h_def)
  moreover have "n < 2 ^ 64 - 18" using assms RDB_LOAD_SDS by simp
  ultimately have "(n + h + 1) mod 2 ^ 64 = n + h + 1" by (intro mod_less) simp
  then have "sdstrynewlen env n = Some (ztrymalloc env (h + n + 1))" unfolding sdstrynewlen_def Let_def h_def [symmetric] by simp
  then show ?thesis using RDB_LOAD_SDS by (simp add: try_string_def)
qed

lemma load_string_read:
  assumes "rio_ok r" and "\<And>b r'. length b = k \<Longrightarrow> consumed r b r' \<Longrightarrow> \<exists>v. f b r' = Some (v, r') \<and> (\<forall>s. v = Some s \<longrightarrow> string_bound b s)"
  shows "\<exists>v r'. load_then (rioRead r k) f = Some (v, r') \<and> string_result r v r'"
proof -
  obtain b r1 where rd: "rioRead r k = Some (b, r1)" "read_result r k b r1" using rioRead_total [OF assms(1)] by blast
  show ?thesis
  proof (cases b)
    case None
    then show ?thesis using rd by (auto simp: load_then_def string_result_def read_result_def)
  next
    case (Some x)
    then have x: "length x = k" "consumed r x r1" using rd(2) by (auto simp: read_result_def)
    then obtain v where "f x r1 = Some (v, r1)" "\<forall>s. v = Some s \<longrightarrow> string_bound x s" using assms(2) by blast
    then show ?thesis
      using rd(1) Some consumed_rest [OF x(2)] consumed_length [OF x(2)] consumed_bound [OF x(2)] by (auto simp: load_then_def string_result_def)
  qed
qed

lemma rdbLoadIntegerObject_total:
  assumes "rio_ok r"
  shows "\<exists>v r'. rdbLoadIntegerObject enc r = Some (v, r') \<and> string_result r v r'"
proof -
  have dec: "\<exists>v. load_decimal b r' = Some (v, r') \<and> (\<forall>s. v = Some s \<longrightarrow> string_bound b s)" if "length b \<in> {1, 2, 4}" for b r'
  proof -
    have "b \<noteq> []" using that by auto
    then have "in_s (8 * length b) (le_sint b)" using wrap_s_range [of "8 * length b" "le_uint b"] that by (auto simp: le_sint_def)
    then have "in_s 64 (le_sint b)" using that by auto
    then show ?thesis using ll_string_ok length_ll_dec [of "le_sint b"] by (simp add: load_decimal_def string_bound_def)
  qed
  have "\<exists>v r'. load_then (rioRead r k) load_decimal = Some (v, r') \<and> string_result r v r'" if "k \<in> {1, 2, 4}" for k
    using that by (intro load_string_read [OF assms] dec) simp
  then show ?thesis using string_result_none [OF assms refl] unfolding rdbLoadIntegerObject_def by auto
qed

lemma rdbLoadLzfStringObject_total:
  assumes "rio_ok r" and "flag = RDB_LOAD_PLAIN \<or> huge_free (buffer_ptr r)"
  shows "\<exists>v r'. rdbLoadLzfStringObject env flag r = Some (v, r') \<and> string_result r v r'"
proof -
  obtain clen e1 r1 where l1: "rdbLoadLen r = Some ((clen, e1), r1)" "rio_ok r1" "buffer_ptr r1 = buffer_ptr r"
      "clen \<noteq> 0xFFFFFFFFFFFFFFFF \<longrightarrow> length (rio_rest r1) < length (rio_rest r)"
    using rdbLoadLen_total [OF assms(1)] by blast
  obtain len e2 r2 where l2: "rdbLoadLen r1 = Some ((len, e2), r2)" "rio_ok r2" "buffer_ptr r2 = buffer_ptr r"
      "len \<noteq> 0xFFFFFFFFFFFFFFFF \<longrightarrow> length (rio_rest r2) < length (rio_rest r1) \<and> (huge_free (buffer_ptr r) \<longrightarrow> unat len < 2 ^ 64 - 18)"
    using rdbLoadLen_total [OF l1(2)] l1(3) by metis
  show ?thesis
  proof (cases "clen = 0xFFFFFFFFFFFFFFFF \<or> len = 0xFFFFFFFFFFFFFFFF \<or> \<not> ztrymalloc env (unat clen)")
    case True
    then show ?thesis
      using l1 l2 string_result_none [of r1 r] string_result_none [of r2 r] by (auto simp: rdbLoadLzfStringObject_def)
  next
    case False
    then obtain ok where ok: "try_string env flag (unat len) = Some ok"
      using try_string_total [of flag "unat len" env] assms(2) l2(4) by auto
    show ?thesis
    proof (cases ok)
      case no: False
      then show ?thesis using False l1 l2 ok string_result_none [of r2 r] by (auto simp: rdbLoadLzfStringObject_def)
    next
      case True
      let ?f = "\<lambda>c r. do { (n, _, val) \<leftarrow> lzf_decompress c (uninit env (unat len));
           if n \<noteq> unat len then Some (None, r) else Some (Some val, r) }"
      have f: "\<exists>v. ?f b r' = Some (v, r') \<and> (\<forall>s. v = Some s \<longrightarrow> string_bound b s)" for b r'
      proof -
        obtain n e val where d: "decompress_loop b 0 0 (uninit env (unat len)) = Some (n, e, val)" "length val = unat len"
          using decompress_safe [of 0 "uninit env (unat len)" b 0] by (auto simp: uninit_def)
        then show ?thesis using decompress_grows [OF d(1)] by (auto simp: lzf_decompress_def string_bound_def)
      qed
      obtain v r' where v: "load_then (rioRead r2 (unat clen)) ?f = Some (v, r')" "string_result r2 v r'"
        using load_string_read [where k = "unat clen" and f = ?f, OF l2(2) f] by (elim exE conjE)
      have "rdbLoadLzfStringObject env flag r = load_then (rioRead r2 (unat clen)) ?f"
        using l1(1) l2(1) False ok True unfolding rdbLoadLzfStringObject_def by simp
      moreover have "string_result r v r'" using v(2) l1(3,4) l2(3,4) False by (auto simp: string_result_def)
      ultimately show ?thesis using v(1) by simp
    qed
  qed
qed

lemma rdbGenericLoadStringObject_total:
  assumes "rio_ok r" and "flag = RDB_LOAD_PLAIN \<or> huge_free (buffer_ptr r)"
  shows "\<exists>v r'. rdbGenericLoadStringObject env flag r = Some (v, r') \<and> string_result r v r' \<and>
    (v \<noteq> None \<longrightarrow> length (rio_rest r') < length (rio_rest r))"
proof -
  obtain len e r1 where l1: "rdbLoadLen r = Some ((len, e), r1)" "rio_ok r1" "buffer_ptr r1 = buffer_ptr r"
      "len \<noteq> 0xFFFFFFFFFFFFFFFF \<longrightarrow> length (rio_rest r1) < length (rio_rest r) \<and> (huge_free (buffer_ptr r) \<longrightarrow> unat len < 2 ^ 64 - 18)"
    using rdbLoadLen_total [OF assms(1)] by blast
  have fin: ?thesis if "rdbGenericLoadStringObject env flag r = Some (v, r')" "string_result r1 v r'" "len \<noteq> 0xFFFFFFFFFFFFFFFF" for v r'
    using that l1(3,4) by (fastforce simp: string_result_def)
  consider "len = 0xFFFFFFFFFFFFFFFF" | "len \<noteq> 0xFFFFFFFFFFFFFFFF" "e" | "len \<noteq> 0xFFFFFFFFFFFFFFFF" "\<not> e" by blast
  then show ?thesis
  proof cases
    case 1
    then show ?thesis using l1 string_result_none [of r1 r] by (auto simp: rdbGenericLoadStringObject_def)
  next
    case 2
    obtain v r' where v: "rdbLoadIntegerObject (unat len) r1 = Some (v, r')" "string_result r1 v r'"
      using rdbLoadIntegerObject_total [OF l1(2)] by blast
    obtain w s' where w: "rdbLoadLzfStringObject env flag r1 = Some (w, s')" "string_result r1 w s'"
      using rdbLoadLzfStringObject_total [OF l1(2)] assms(2) l1(3) by metis
    have "\<exists>v r'. rdbGenericLoadStringObject env flag r = Some (v, r') \<and> string_result r1 v r'"
      using 2 l1(1) v w string_result_none [OF l1(2) refl] by (simp add: rdbGenericLoadStringObject_def)
    then show ?thesis using fin 2 by blast
  next
    case 3
    obtain ok where ok: "try_string env flag (unat len) = Some ok"
      using try_string_total [of flag "unat len" env] assms(2) l1(4) 3 by auto
    obtain b r2 where rd: "rioRead r1 (unat len) = Some (b, r2)" "read_result r1 (unat len) b r2" using rioRead_total [OF l1(2)] by blast
    have "string_result r1 b r2"
    proof -
      have "string_bound (buffer_ptr r1) x" if "consumed r1 x r2" for x using consumed_bound [OF that] by (simp add: string_bound_def)
      then show ?thesis using rd(2) consumed_length unfolding string_result_def read_result_def by fastforce
    qed
    moreover have "string_result r1 (Some []) r1" using l1(2) by (simp add: string_result_def string_bound_def)
    ultimately have "\<exists>v r'. rdbGenericLoadStringObject env flag r = Some (v, r') \<and> string_result r1 v r'"
      using 3 l1(1) rd(1) ok string_result_none [OF l1(2) refl] by (simp add: rdbGenericLoadStringObject_def)
    then show ?thesis using fin 3 by blast
  qed
qed

section \<open>Properties\<close>

text \<open>C39. Strings survive the RDB format: \<^verbatim>\<open>rdbSaveRawString\<close>, which stores short decimal numbers as integers and, if so configured, compresses
  long strings, returns the number of bytes it appended, and the same number without writing when the stream is null. From these bytes
  \<^verbatim>\<open>rdbGenericLoadStringObject\<close> reads the same string and stops
  right after them, also when more bytes follow. This holds for all strings below \<open>2 ^ 62\<close> bytes and all contents of uninitialised
  memory, if memory can be allocated.\<close>

theorem rdb_string_roundtrip:
  assumes "htab_ok (lzf_table env s)" and "length s < 2 ^ 62" and "length cs < 2 ^ 61" and "mem_enough env'"
  shows "\<exists>bs r r'. rdbSaveRawString env s (Some (rioInitWithBuffer [])) = Some (Some (length bs), Some r) \<and> buffer_ptr r = bs \<and>
    rdbSaveRawString env s None = Some (Some (length bs), None) \<and>
    rdbGenericLoadStringObject env' flag (rioInitWithBuffer (bs @ cs)) = Some (Some s, r') \<and> rio_rest r' = cs"
proof -
  obtain bs where bs: "string_codec env s bs" using rdbSaveRawString_codec [OF assms(1,2)] by blast
  have "stream_ok (Some (rioInitWithBuffer []))" by (simp add: rioInitWithBuffer_def)
  then obtain rdb where rdb: "rdbSaveRawString env s (Some (rioInitWithBuffer [])) = Some (Some (length bs), rdb)"
      "stream_wrote (Some (rioInitWithBuffer [])) bs rdb"
    using bs unfolding string_codec_def saves_def by blast
  have none: "rdbSaveRawString env s None = Some (Some (length bs), None)"
    using bs saves_null unfolding string_codec_def by blast
  let ?r = "rioInitWithBuffer (bs @ cs)"
  have r: "rio_ok ?r" "\<not> rio_read_error ?r" "rio_rest ?r = bs @ cs"
    using bs assms(2,3) by (simp_all add: rio_ok_def rio_rest_def rioInitWithBuffer_def string_codec_def)
  then obtain r' where "rdbGenericLoadStringObject env' flag ?r = Some (Some s, r')" "consumed ?r bs r'"
    using bs assms(4) unfolding string_codec_def loads_def by blast
  then show ?thesis using rdb none consumed_next(3) [OF r(3) _ r(2)] by (auto simp: wrote_def rioInitWithBuffer_def)
qed

definition default_rdb :: rdb_env where
  "default_rdb = \<lparr>rdb_set = default_env, rdb_compression = True, lzf_table = (\<lambda>_ _. None), uninit_byte = (\<lambda>_. 0), malloc_ok = (\<lambda>_. True),
     sanitize_dump_payload = SANITIZE_DUMP_YES, server_loading = False, current_client = None, skip_checksum_validation = False,
     crc_cache = replicate 64 (replicate 64 0), crc_dual_cutoff = 1024, crc_tri_cutoff = 16384, payload_addr = 0\<rparr>"

lemma default_rdb_ok: "htab_ok (lzf_table default_rdb s)" "mem_enough default_rdb" "env_ok (rdb_set default_rdb)"
  using default_env_ok by (simp_all add: default_rdb_def htab_ok_def mem_enough_def)

theorem rdb_string_roundtrip_witness:
  "\<exists>bs r r'. rdbSaveRawString default_rdb (ascii ''-129'') (Some (rioInitWithBuffer [])) = Some (Some (length bs), Some r) \<and> buffer_ptr r = bs \<and>
    rdbSaveRawString default_rdb (ascii ''-129'') None = Some (Some (length bs), None) \<and>
    rdbGenericLoadStringObject default_rdb RDB_LOAD_SDS (rioInitWithBuffer (bs @ [7])) = Some (Some (ascii ''-129''), r') \<and> rio_rest r' = [7]"
  using rdb_string_roundtrip [OF default_rdb_ok(1), of "ascii ''-129''" "[7]" default_rdb RDB_LOAD_SDS] default_rdb_ok(2) by (simp add: ascii_def)

end
