(* ===== verification/Rdb_Set.thy ===== *)
theory Rdb_Set
  imports Rdb_String
begin

text \<open>
  Loading a set in the general format: each member is added to the object, which starts as an intset or a hash table
  and changes its encoding as the limits ask for. The loop ends on every input, because each member takes a byte of the
  stream.
\<close>

section \<open>Conversion to a hash table that may fail\<close>

lemma dictTryExpand_ok:
  assumes "dict_inv T d"
  shows "\<exists>ok d'. dictTryExpand T cr alloc d sz = Some (ok, d') \<and> resized T d d' \<and> ((\<forall>n. alloc n) \<longrightarrow> ok)"
proof (cases "dictIsRehashing d \<or> ht_used (ht0 d) > sz \<or> DICTHT_SIZE (ht_size_exp (ht0 d)) \<ge> sz")
  case True
  then show ?thesis using assms by (auto simp: dictTryExpand_def dictExpand_raw_def)
next
  case False
  then obtain ok failed d' where d': "dictResize T cr d sz (Some alloc) = Some (ok, failed, d')" "resized T d d'"
    using dictResize_ok [OF assms, of cr sz "Some alloc"] by blast
  have "\<not> failed" if "\<forall>n. alloc n"
    using d'(1) that by (auto simp: dictResize_def Let_def split: if_splits)
  then show ?thesis using False d' by (auto simp: dictTryExpand_def dictExpand_raw_def)
qed

lemma ht_try_expand_new:
  "\<exists>ok d. dictTryExpand (setDictType h) cr alloc dictCreate n = Some (ok, d) \<and> ht_ok h d \<and> ht_keys d = {} \<and> ((\<forall>n. alloc n) \<longrightarrow> ok)"
proof -
  have "dict_inv (setDictType h) (dictCreate :: (bytes, unit) dict)" using ht_create_ok(1) [of h] by (simp add: ht_ok_def dict_wf_def)
  from dictTryExpand_ok [OF this, of cr alloc n] show ?thesis using ht_resized [OF ht_create_ok(1), of h] ht_create_ok(2) by metis
qed

lemma convert_try_ok:
  assumes "set_lists (gen_hash env) so es" and "encoding so \<noteq> OBJ_ENCODING_HT"
  shows "\<exists>ok so'. setTypeConvertAndExpand env so OBJ_ENCODING_HT cap False = Some (ok, so') \<and> ((\<forall>n. try_alloc env n) \<longrightarrow> ok) \<and>
    (ok \<longrightarrow> (\<exists>d. so' = SetHT d \<and> ht_ok (gen_hash env) d \<and> ht_keys d = ele_str ` set es))"
proof -
  obtain ok d where d: "dictTryExpand (setDictType (gen_hash env)) (can_resize env) (try_alloc env) dictCreate cap = Some (ok, d)"
      "ht_ok (gen_hash env) d" "ht_keys d = {}" "(\<forall>n. try_alloc env n) \<longrightarrow> ok"
    using ht_try_expand_new by blast
  obtain d' where "fold_until (ht_put env) es d = Some d'" "ht_ok (gen_hash env) d'" "ht_keys d' = ele_str ` set es"
    using ht_fill [OF d(2), of es] set_lists_ok [OF assms(1)] d(3) by auto
  then show ?thesis
    using d(1,4) assms(2) by (cases ok) (auto simp: setTypeConvertAndExpand_def convert_to_ht_def set_each_ok [OF assms(1)])
qed

section \<open>The size of an intset as a listpack\<close>

text \<open>The code checks the sum of the lengths of the decimal forms. An integer takes at most twice as much in a listpack.\<close>

lemma dec_length_ge: "(10 :: int) ^ k \<le> \<bar>v\<bar> \<Longrightarrow> k < length (ll_dec v)"
  using length_dec_ge [of k "nat \<bar>v\<bar>"] by (auto simp: ll_dec_def nat_le_iff le_nat_iff zle_int of_nat_power)

lemma int_entry_twice: "in_s 64 v \<Longrightarrow> lpEntrySizeInteger v \<le> 2 * length (ll_dec v)"
proof -
  assume v: "in_s 64 v"
  have neg: "2 \<le> length (ll_dec v)" if "v < 0" using that by (cases "dec (nat (- v))") (simp_all add: ll_dec_def)
  have one: "1 \<le> length (ll_dec v)" by (simp add: ll_dec_def Suc_le_eq)
  have three: "3 \<le> length (ll_dec v)" if "100 \<le> \<bar>v\<bar>" using dec_length_ge [of 2 v] that by simp
  have five: "5 \<le> length (ll_dec v)" if "10000 \<le> \<bar>v\<bar>" using dec_length_ge [of 4 v] that by simp
  consider "0 \<le> v \<and> v \<le> 127" | "\<not> (0 \<le> v \<and> v \<le> 127)" "-4096 \<le> v \<and> v \<le> 4095" | "\<not> (-4096 \<le> v \<and> v \<le> 4095)" "in_s 32 v"
    | "\<not> in_s 32 v" by blast
  then show ?thesis
  proof cases
    case 1
    then show ?thesis using one unfolding int_entry_size [OF v] by simp
  next
    case 2
    then have "2 \<le> length (ll_dec v)" using neg three by (cases "v < 0") auto
    then show ?thesis using 2 unfolding int_entry_size [OF v] by simp
  next
    case 3
    then have "100 \<le> \<bar>v\<bar>" by auto
    then have "3 \<le> length (ll_dec v)" by (rule three)
    moreover have "lpEntrySizeInteger v \<le> 6" using 3 unfolding int_entry_size [OF v] by simp
    ultimately show ?thesis by simp
  next
    case 4
    then have "10000 \<le> \<bar>v\<bar>" by auto
    then have "5 \<le> length (ll_dec v)" by (rule five)
    moreover have "lpEntrySizeInteger v \<le> 10" unfolding int_entry_size [OF v] by simp
    ultimately show ?thesis by simp
  qed
qed

lemma intset_lp_size:
  assumes "set_lists h (SetIntset iset) es"
  shows "lp_size (map ele_str es) \<le> 7 + 2 * (\<Sum>s\<leftarrow>map ele_str es. length s)"
proof -
  have "lp_len (map lp_val_of (map ll_dec vs)) \<le> 2 * (\<Sum>s\<leftarrow>map ll_dec vs. length s)" if "\<forall>v\<in>set vs. in_s 64 v" for vs
    using that
  proof (induction vs)
    case (Cons v vs)
    have "length (lp_entry (LInt v)) = lpEntrySizeInteger v" by (simp add: entry_size lpEntrySizeInteger_def Let_def)
    then show ?case using Cons int_entry_twice [of v] lp_val_of_dec [of v] by simp
  qed simp
  moreover have "map ele_str es = map ll_dec (intset_elems iset)" using assms by simp
  ultimately show ?thesis using intset_list(5) [OF assms] unfolding lp_size_def by simp
qed

section \<open>One member\<close>

text \<open>The object while the members are loaded: it represents the members so far. An intset is used only for few members, and
  then the counters are exact.\<close>

definition loading_ok :: "set_env \<Rightarrow> nat \<Rightarrow> nat \<Rightarrow> nat \<Rightarrow> set_obj \<Rightarrow> bytes set \<Rightarrow> bool" where
  "loading_ok env len i sumelelen obj A \<longleftrightarrow> set_rep (gen_hash env) obj A \<and>
     (encoding obj = OBJ_ENCODING_INTSET \<longrightarrow> len < 2 ^ 29 \<and> i = card A \<and> i \<le> len \<and> sumelelen = (\<Sum>s\<in>A. length s))"

text \<open>A member is refused only when it is a duplicate or there is no memory.\<close>

definition member_result :: "set_env \<Rightarrow> bytes \<Rightarrow> bytes set \<Rightarrow> bool \<Rightarrow> bool" where
  "member_result env ele A ok \<longleftrightarrow> (ok \<longrightarrow> ele \<notin> A) \<and> (\<not> ok \<longrightarrow> ele \<in> A \<or> \<not> (\<forall>n. try_alloc env n))"

lemma load_to_ht_ok:
  assumes "ht_ok (gen_hash env) d" and "\<forall>s\<in>ht_keys d. length s < 2 ^ 31" and "length ele < 2 ^ 31"
  shows "\<exists>ok so'. load_to_ht env ele (SetHT d) = Some (ok, so') \<and> member_result env ele (ht_keys d) ok \<and>
    encoding so' = OBJ_ENCODING_HT \<and> (ok \<longrightarrow> set_rep (gen_hash env) so' (insert ele (ht_keys d)))"
proof -
  obtain d' where d': "dictAdd (setDictType (gen_hash env)) (can_resize env) d ele () = Some (ele \<notin> ht_keys d, d')"
      "ht_ok (gen_hash env) d'" "ht_keys d' = insert ele (ht_keys d)"
    using ht_add_ok [OF assms(1)] by blast
  have "set_rep (gen_hash env) (SetHT d') (ht_keys d')" using d' assms(2,3) by (intro set_rep_ht) auto
  then show ?thesis using d' by (auto simp: load_to_ht_def member_result_def)
qed

text \<open>The steps of \<^verbatim>\<open>load_member\<close> from a given step on.\<close>

definition from_listpack :: "set_env \<Rightarrow> nat \<Rightarrow> bytes \<Rightarrow> set_obj \<Rightarrow> set_obj option option" where
  "from_listpack env len ele obj = do {
     (ok, obj) \<leftarrow> load_to_listpack env len ele obj;
     if \<not> ok then Some None
     else do {
       (ok, obj) \<leftarrow> load_to_ht env ele obj;
       Some (if ok then Some obj else None) } }"

definition member_done :: "set_env \<Rightarrow> bytes \<Rightarrow> bytes set \<Rightarrow> set_obj option option \<Rightarrow> bool" where
  "member_done env ele A res \<longleftrightarrow> (\<exists>x. res = Some x \<and> member_result env ele A (x \<noteq> None) \<and>
     (\<forall>so'. x = Some so' \<longrightarrow> set_rep (gen_hash env) so' (insert ele A) \<and> encoding so' \<noteq> OBJ_ENCODING_INTSET))"

lemma from_ht:
  assumes "ht_ok (gen_hash env) d" and "\<forall>s\<in>ht_keys d. length s < 2 ^ 31" and "length ele < 2 ^ 31"
  shows "member_done env ele (ht_keys d) (from_listpack env len ele (SetHT d))"
proof -
  obtain ok so' where "load_to_ht env ele (SetHT d) = Some (ok, so')" "member_result env ele (ht_keys d) ok"
      "encoding so' = OBJ_ENCODING_HT" "ok \<longrightarrow> set_rep (gen_hash env) so' (insert ele (ht_keys d))"
    using load_to_ht_ok [OF assms] by blast
  then show ?thesis by (cases ok) (auto simp: from_listpack_def load_to_listpack_def member_done_def)
qed

lemma from_listpack_ok:
  assumes env: "env_ok env" and lp: "lp_list lp ss" "distinct ss" "\<forall>s\<in>set ss. length s < 2 ^ 31" and ele: "length ele < 2 ^ 31"
  shows "member_done env ele (set ss) (from_listpack env len ele (SetListpack lp))"
proof -
  obtain lp1 where lp1: "lpLength lp = Some (length ss, lp1)" "lp_list lp1 ss" using lpLength_list [OF lp(1)] by blast
  have bytes: "lpGetTotalBytes lp1 = Some (lp_size ss)" using lp_rep_bytes lp1(2) by (simp add: lp_list_def lp_size_def)
  define room where "room \<longleftrightarrow> length ss < set_max_listpack_entries env \<and> length ele \<le> set_max_listpack_value env \<and> \<not> lp_size ss + length ele > 2 ^ 30"
  have eq: "load_to_listpack env len ele (SetListpack lp) =
      (if room then do { p \<leftarrow> lp_member lp1 ele; if p \<noteq> None then Some (False, SetListpack lp1)
            else map_option (\<lambda>lp. (True, SetListpack lp)) (lp_append_ele env lp1 (SetStr ele)) }
       else setTypeConvertAndExpand env (SetListpack lp1) OBJ_ENCODING_HT len False)"
    using lp1(1) bytes by (simp add: load_to_listpack_def lpSafeToAdd_def room_def)
  have l1: "set_lists (gen_hash env) (SetListpack lp1) (map lp_ele_of ss)" using lp lp1(2) by auto
  show ?thesis
  proof (cases room)
    case True
    have mem: "lp_member lp1 ele = Some (map_option (lp_pos ss) (list_search ss 0 0 ele))" using lp_member_ok [OF lp1(2)] .
    show ?thesis
    proof (cases "ele \<in> set ss")
      case dup: True
      then show ?thesis using eq True mem list_search_mem [of ss ele] by (auto simp: from_listpack_def member_done_def member_result_def)
    next
      case False
      have "lp_size (ss @ [ele]) \<le> UINT32_MAX" using True lp_size_snoc [of ss ele] by (simp add: room_def)
      then obtain lp' where lp': "lp_append_ele env lp1 (SetStr ele) = Some lp'" "lp_list lp' (ss @ [ele])"
        using lp_append_ele_ok [OF _ lp1(2), of env "SetStr ele"] env ele by (auto simp: env_ok_def)
      have "set_rep (gen_hash env) (SetListpack lp') (set (ss @ [ele]))" using lp False ele by (intro set_rep_listpack [OF lp'(2)]) auto
      then show ?thesis
        using eq True mem False list_search_mem [of ss ele] lp'(1)
        by (simp add: from_listpack_def load_to_ht_def member_done_def member_result_def)
    qed
  next
    case False
    obtain ok so' where c: "setTypeConvertAndExpand env (SetListpack lp1) OBJ_ENCODING_HT len False = Some (ok, so')"
        "(\<forall>n. try_alloc env n) \<longrightarrow> ok" "ok \<longrightarrow> (\<exists>d. so' = SetHT d \<and> ht_ok (gen_hash env) d \<and> ht_keys d = set ss)"
      using convert_try_ok [OF l1, of len] by (auto simp: image_image)
    show ?thesis
    proof (cases ok)
      case True
      then obtain d where d: "so' = SetHT d" "ht_ok (gen_hash env) d" "ht_keys d = set ss" using c(3) by blast
      have "from_listpack env len ele (SetListpack lp) = from_listpack env len ele (SetHT d)"
        using eq False c(1) True d(1) by (simp add: from_listpack_def) (simp add: load_to_listpack_def)
      then show ?thesis using from_ht [OF d(2), of ele len] d(3) lp(3) ele by simp
    next
      case failed: False
      then show ?thesis using eq False c by (auto simp: from_listpack_def member_done_def member_result_def)
    qed
  qed
qed

text \<open>An intset: an integer is added, and another string turns the intset into a listpack or a hash table.\<close>

lemma intset_card: "intset_wf iset \<Longrightarrow> card (ll_dec ` set (intset_elems iset)) = is_length iset"
  using intset_elems_range [of iset] ll_dec_inj by (subst card_image) (auto simp: inj_on_def intset_wf_length)

lemma intset_sum:
  assumes "intset_wf iset" and "is_length iset < 2 ^ 29"
  shows "(\<Sum>s\<in>ll_dec ` set (intset_elems iset). length s) < 2 ^ 34"
proof -
  have "length s \<le> 20" if "s \<in> ll_dec ` set (intset_elems iset)" for s
    using that intset_elems_range [OF assms(1)] length_ll_dec by auto
  then have "(\<Sum>s\<in>ll_dec ` set (intset_elems iset). length s) \<le> card (ll_dec ` set (intset_elems iset)) * 20"
    using sum_bounded_above [of "ll_dec ` set (intset_elems iset)" length 20] by simp
  also have "\<dots> < 2 ^ 34" using assms intset_card [OF assms(1)] by simp
  finally show ?thesis .
qed

lemma load_integer_ok:
  assumes wf: "intset_wf iset" "is_length iset < 2 ^ 29" and v: "string2ll ele = Some v"
  shows "\<exists>is'. intsetAdd iset v = Some (is', ele \<notin> ll_dec ` set (intset_elems iset)) \<and> intset_wf is' \<and>
    ll_dec ` set (intset_elems is') = insert ele (ll_dec ` set (intset_elems iset)) \<and> is_length is' \<le> is_length iset + 1"
proof -
  have v': "in_s 64 v" "ele = ll_dec v" using v string2ll_iff by blast+
  obtain is' where is': "intsetAdd iset v = Some (is', v \<notin> set (intset_elems iset))" "intset_wf is'"
      "set (intset_elems is') = insert v (set (intset_elems iset))"
    using intset_set.add_ok [OF wf(1) intset_wf_card29 [OF wf] v'(1)] by blast
  have "is_length is' \<le> is_length iset + 1"
    using is'(3) intset_wf_length [OF is'(2)] intset_wf_length [OF wf(1)] by (metis card_insert_le_m1 card_insert_if finite_set le_add1 Suc_eq_plus1 order_refl)
  then show ?thesis using is' v'(2) ll_dec_mem [OF wf(1) v'(1)] by auto
qed

lemma intset_to_listpack:
  assumes env: "env_ok env" and wf: "intset_wf iset" "is_length iset < 2 ^ 29"
    and sum: "(\<Sum>s\<in>ll_dec ` set (intset_elems iset). length s) \<le> 2 ^ 30"
  shows "\<exists>lp ss. setTypeConvert env (SetIntset iset) OBJ_ENCODING_LISTPACK = Some (SetListpack lp) \<and> lp_list lp ss \<and> distinct ss \<and>
    (\<forall>s\<in>set ss. length s < 2 ^ 31) \<and> set ss = ll_dec ` set (intset_elems iset)"
proof -
  let ?es = "map SetLl (intset_elems iset)"
  have l: "set_lists (gen_hash env) (SetIntset iset) ?es" using wf by simp
  note es = set_lists_ok [OF l]
  have "(\<Sum>s\<leftarrow>map ele_str ?es. length s) = (\<Sum>s\<in>set (map ele_str ?es). length s)"
    using es by (intro sum_list_distinct_conv_sum_set) blast
  also have "\<dots> = (\<Sum>s\<in>ll_dec ` set (intset_elems iset). length s)" by (simp add: image_image)
  finally have "lp_size (map ele_str ?es) \<le> UINT32_MAX" using intset_lp_size [OF l] sum by simp
  then obtain lp where lp: "convert_to_listpack env (SetIntset iset) (intsetLen iset) = Some (True, SetListpack lp)" "lp_list lp (map ele_str ?es)"
    using convert_to_listpack_ok [OF _ l] env by (auto simp: env_ok_def)
  have "\<forall>s\<in>set (map ele_str ?es). length s < 2 ^ 31" "set (map ele_str ?es) = ll_dec ` set (intset_elems iset)"
    using set_lists_short [OF l] by (simp_all add: image_image)
  then show ?thesis using lp es
    by (intro exI [of _ lp] exI [of _ "map ele_str ?es"]) (simp add: setTypeConvert_def setTypeConvertAndExpand_def)
qed

lemma load_string_ok:
  assumes env: "env_ok env" and wf: "intset_wf iset" "is_length iset < 2 ^ 29"
    and sum: "(\<Sum>s\<in>ll_dec ` set (intset_elems iset). length s) \<le> sumelelen" and ele: "string2ll ele = None" "length ele < 2 ^ 31"
  shows "member_done env ele (ll_dec ` set (intset_elems iset)) (load_member env len maxelelen sumelelen ele (SetIntset iset))"
proof -
  have l: "set_lists (gen_hash env) (SetIntset iset) (map SetLl (intset_elems iset))" using wf by simp
  define room where "room \<longleftrightarrow> intsetLen iset < set_max_listpack_entries env \<and> maxelelen \<le> set_max_listpack_value env \<and> \<not> sumelelen > 2 ^ 30"
  have eq: "load_to_intset env len maxelelen sumelelen ele (SetIntset iset) =
      (if room then map_option (\<lambda>obj. (True, obj)) (setTypeConvert env (SetIntset iset) OBJ_ENCODING_LISTPACK)
       else setTypeConvertAndExpand env (SetIntset iset) OBJ_ENCODING_HT len False)"
    using ele(1) by (simp add: load_to_intset_def lpSafeToAdd_def room_def)
  show ?thesis
  proof (cases room)
    case True
    then obtain lp ss where lp: "setTypeConvert env (SetIntset iset) OBJ_ENCODING_LISTPACK = Some (SetListpack lp)" "lp_list lp ss" "distinct ss"
        "\<forall>s\<in>set ss. length s < 2 ^ 31" "set ss = ll_dec ` set (intset_elems iset)"
      using intset_to_listpack [OF env wf] sum by (auto simp: room_def)
    then have "load_member env len maxelelen sumelelen ele (SetIntset iset) = from_listpack env len ele (SetListpack lp)"
      using eq True by (simp add: load_member_def from_listpack_def)
    then show ?thesis using from_listpack_ok [OF env lp(2-4) ele(2)] lp(5) by simp
  next
    case False
    obtain ok so' where c: "setTypeConvertAndExpand env (SetIntset iset) OBJ_ENCODING_HT len False = Some (ok, so')"
        "(\<forall>n. try_alloc env n) \<longrightarrow> ok"
        "ok \<longrightarrow> (\<exists>d. so' = SetHT d \<and> ht_ok (gen_hash env) d \<and> ht_keys d = ll_dec ` set (intset_elems iset))"
      using convert_try_ok [OF l, of len] by (auto simp: image_image)
    show ?thesis
    proof (cases ok)
      case True
      then obtain d where d: "so' = SetHT d" "ht_ok (gen_hash env) d" "ht_keys d = ll_dec ` set (intset_elems iset)" using c(3) by blast
      have "load_member env len maxelelen sumelelen ele (SetIntset iset) = from_listpack env len ele (SetHT d)"
        using eq False c(1) True d(1) by (simp add: load_member_def from_listpack_def)
      then show ?thesis using from_ht [OF d(2), of ele len] d(3) set_lists_short [OF l] ele(2) by (simp add: image_image)
    next
      case failed: False
      then show ?thesis using eq False c by (auto simp: load_member_def member_done_def member_result_def)
    qed
  qed
qed

lemma load_member_ok:
  assumes env: "env_ok env" and obj: "loading_ok env len i sumelelen obj A" and i: "i < len" and ele: "length ele < 2 ^ 31"
  shows "\<exists>x. load_member env len maxelelen ((sumelelen + length ele) mod 2 ^ 64) ele obj = Some x \<and> member_result env ele A (x \<noteq> None) \<and>
    (\<forall>so'. x = Some so' \<longrightarrow> loading_ok env len ((i + 1) mod 2 ^ 32) ((sumelelen + length ele) mod 2 ^ 64) so' (insert ele A))"
proof -
  have rep: "set_rep (gen_hash env) obj A" using obj by (simp add: loading_ok_def)
  have fin: ?thesis if "member_done env ele A (load_member env len maxelelen ((sumelelen + length ele) mod 2 ^ 64) ele obj)"
    using that by (auto simp: member_done_def loading_ok_def)
  show ?thesis
    using rep
  proof (cases rule: set_rep_cases)
    case (intset iset)
    have cnt: "len < 2 ^ 29" "i = card A" "sumelelen = (\<Sum>s\<in>A. length s)" using obj intset(1) by (simp_all add: loading_ok_def)
    have sum: "(sumelelen + length ele) mod 2 ^ 64 = sumelelen + length ele"
      using intset_sum [OF intset(2,3)] cnt(3) intset(4) ele by (intro mod_less) simp
    show ?thesis
    proof (cases "string2ll ele")
      case None
      show ?thesis using load_string_ok [OF env intset(2,3) _ None ele, of "sumelelen + length ele" len maxelelen] cnt(3) intset(1,4) sum
        by (intro fin) simp
    next
      case (Some v)
      obtain is' where is': "intsetAdd iset v = Some (is', ele \<notin> A)" "intset_wf is'" "ll_dec ` set (intset_elems is') = insert ele A"
          "is_length is' \<le> is_length iset + 1"
        using load_integer_ok [OF intset(2,3) Some] intset(4) by auto
      have "is_length iset < 2 ^ 29 - 1" using intset_card [OF intset(2)] intset(4) cnt i by simp
      then have "set_rep (gen_hash env) (SetIntset is') (insert ele A)" using set_rep_intset [OF is'(2)] is'(3,4) by simp
      then have "loading_ok env len ((i + 1) mod 2 ^ 32) (sumelelen + length ele) (SetIntset is') (insert ele A)" if "ele \<notin> A"
        using that cnt i set_rep_finite [OF rep] by (simp add: loading_ok_def)
      moreover have "load_member env len maxelelen (sumelelen + length ele) ele obj = Some (if ele \<notin> A then Some (SetIntset is') else None)"
        using is'(1) Some intset(1) by (simp add: load_member_def load_to_intset_def load_to_listpack_def load_to_ht_def)
      ultimately show ?thesis unfolding sum by (auto simp: member_result_def)
    qed
  next
    case (listpack lp ss)
    then show ?thesis using from_listpack_ok [OF env listpack(2-4) ele, of len]
      by (intro fin) (simp add: load_member_def load_to_intset_def from_listpack_def)
  next
    case (ht d)
    then show ?thesis using from_ht [OF ht(2,3) ele, of len]
      by (intro fin) (simp add: load_member_def load_to_intset_def from_listpack_def)
  qed
qed

section \<open>All members\<close>

text \<open>The members saved by another server are loaded.\<close>

lemma load_members_ok:
  assumes env: "env_ok (rdb_set env)" "mem_enough env" "\<forall>n. try_alloc (rdb_set env) n" and len: "len < 2 ^ 32"
  shows "loading_ok (rdb_set env) len i sumelelen obj A \<Longrightarrow> i + length ss = len \<Longrightarrow> distinct ss \<Longrightarrow> set ss \<inter> A = {} \<Longrightarrow>
    \<forall>s\<in>set ss. length s < 2 ^ 31 \<Longrightarrow> list_all2 (string_codec env0) ss bss \<Longrightarrow>
    rio_ok r \<Longrightarrow> \<not> rio_read_error r \<Longrightarrow> rio_rest r = concat bss @ cs \<Longrightarrow>
    \<exists>obj' r'. load_members env len i maxelelen sumelelen obj r = Some (Inr obj', r') \<and> set_rep (gen_hash (rdb_set env)) obj' (A \<union> set ss)"
proof (induction ss arbitrary: i maxelelen sumelelen obj A bss r)
  case Nil
  then show ?case by (subst load_members.simps) (simp add: loading_ok_def)
next
  case (Cons s ss)
  obtain bs bss' where b: "bss = bs # bss'" "string_codec env0 s bs" "list_all2 (string_codec env0) ss bss'"
    using Cons.prems(6) by (cases bss) auto
  then have "loads (rdbGenericLoadStringObject env RDB_LOAD_SDS) bs s" using env(2) by (simp add: string_codec_def)
  then obtain r1 where r1: "rdbGenericLoadStringObject env RDB_LOAD_SDS r = Some (Some s, r1)" "consumed r bs r1"
    using Cons.prems(7-9) b(1) unfolding loads_def by fastforce
  have r1': "rio_ok r1" "\<not> rio_read_error r1" "rio_rest r1 = concat bss' @ cs"
    using consumed_next [OF _ r1(2) Cons.prems(8), of "concat bss' @ cs"] Cons.prems(9) b(1) by simp_all
  have i: "i < len" using Cons.prems(2) by simp
  obtain x where x: "load_member (rdb_set env) len (max maxelelen (length s)) ((sumelelen + length s) mod 2 ^ 64) s obj = Some x"
      "member_result (rdb_set env) s A (x \<noteq> None)"
      "\<forall>so'. x = Some so' \<longrightarrow> loading_ok (rdb_set env) len ((i + 1) mod 2 ^ 32) ((sumelelen + length s) mod 2 ^ 64) so' (insert s A)"
    using load_member_ok [OF env(1) Cons.prems(1) i, of s "max maxelelen (length s)"] Cons.prems(5) unfolding list.set ball_simps by blast
  have "x \<noteq> None" using x(2) env(3) Cons.prems(4) by (auto simp: member_result_def)
  then obtain so' where so': "x = Some so'" by blast
  have "(i + 1) mod 2 ^ 32 = i + 1" using i len by simp
  then have "\<exists>obj' r'. load_members env len (i + 1) (max maxelelen (length s)) ((sumelelen + length s) mod 2 ^ 64) so' r1 = Some (Inr obj', r') \<and>
      set_rep (gen_hash (rdb_set env)) obj' (insert s A \<union> set ss)"
    using Cons.IH [of "i + 1" "(sumelelen + length s) mod 2 ^ 64" so' "insert s A" bss' r1 "max maxelelen (length s)"]
      x(3) so' Cons.prems(2-5) b(3) r1' by simp
  then show ?case
    using r1(1) x(1) so' i \<open>(i + 1) mod 2 ^ 32 = i + 1\<close> by (subst load_members.simps) (simp add: Let_def)
qed

text \<open>On arbitrary bytes the loop ends with an error or a set. Nothing is assumed of the allocator. The strings have fewer than \<open>2 ^ 31\<close>
  bytes when the buffer is shorter than 16 MiB, since compression gains at most a factor of 88.\<close>

definition short_payload :: "u8 list \<Rightarrow> bool" where
  "short_payload p \<longleftrightarrow> length p < 2 ^ 24"

definition loaded_ok :: "set_env \<Rightarrow> rdb_loaded \<Rightarrow> bool" where
  "loaded_ok env res \<longleftrightarrow> (\<exists>x r'. res = Some (x, r') \<and> (\<forall>obj. x = Inr obj \<longrightarrow> (\<exists>A. A \<noteq> {} \<and> set_rep (gen_hash env) obj A)))"

lemma bound_short: "short_payload p \<Longrightarrow> string_bound p s \<Longrightarrow> length s < 2 ^ 31"
  by (simp add: short_payload_def string_bound_def)

lemma load_members_total:
  assumes env: "env_ok (rdb_set env)"
  shows "loading_ok (rdb_set env) len i sumelelen obj A \<Longrightarrow> i < len \<or> A \<noteq> {} \<Longrightarrow> rio_ok r \<Longrightarrow> huge_free (buffer_ptr r) \<Longrightarrow> short_payload (buffer_ptr r) \<Longrightarrow>
    loaded_ok (rdb_set env) (load_members env len i maxelelen sumelelen obj r)"
proof (induction "length (rio_rest r)" arbitrary: i maxelelen sumelelen obj A r rule: less_induct)
  case less
  show ?case
  proof (cases "i < len")
    case False
    then show ?thesis using less.prems(1,2) by (subst load_members.simps) (auto simp: loaded_ok_def loading_ok_def)
  next
    case True
    obtain v r1 where v: "rdbGenericLoadStringObject env RDB_LOAD_SDS r = Some (v, r1)" "string_result r v r1"
        "v \<noteq> None \<longrightarrow> length (rio_rest r1) < length (rio_rest r)"
      using rdbGenericLoadStringObject_total [OF less.prems(3), of RDB_LOAD_SDS env] less.prems(4) by blast
    show ?thesis
    proof (cases v)
      case None
      then show ?thesis using v(1) True by (subst load_members.simps) (simp add: loaded_ok_def)
    next
      case (Some s)
      then have s: "length s < 2 ^ 31" "rio_ok r1" "buffer_ptr r1 = buffer_ptr r" using v(2) bound_short [OF less.prems(5)] by (auto simp: string_result_def)
      obtain x where x: "load_member (rdb_set env) len (max maxelelen (length s)) ((sumelelen + length s) mod 2 ^ 64) s obj = Some x"
          "\<forall>so'. x = Some so' \<longrightarrow> loading_ok (rdb_set env) len ((i + 1) mod 2 ^ 32) ((sumelelen + length s) mod 2 ^ 64) so' (insert s A)"
        using load_member_ok [OF env less.prems(1) True s(1)] by blast
      show ?thesis
      proof (cases x)
        case None
        then show ?thesis using v(1) Some x(1) True by (subst load_members.simps) (simp add: loaded_ok_def Let_def)
      next
        case so': (Some so')
        have "loaded_ok (rdb_set env) (load_members env len ((i + 1) mod 2 ^ 32) (max maxelelen (length s)) ((sumelelen + length s) mod 2 ^ 64) so' r1)"
          using less.hyps [of r1] v(3) Some x(2) so' s less.prems(4,5) by simp
        then show ?thesis using v(1) Some x(1) so' True by (subst load_members.simps) (simp add: Let_def)
      qed
    qed
  qed
qed

end
