(* ===== verification/Crc64_Correct.thy ===== *)
theory Crc64_Correct
  imports Crc64 Bits
begin

text \<open>
  The fast CRC-64 computes the function of the bit by bit generator. On the reflected register a byte is added to the low end
  and the register is advanced by eight steps of the map \<open>zbit\<close>, which is linear over the field of two elements. Linearity gives
  the tables, the processing of eight bytes at a time and of several parts side by side, and the joining of the parts by the
  matrices of the powers of the map.
\<close>

unbundle bit_operations_syntax

section \<open>Linear maps\<close>

definition lin :: "(u64 \<Rightarrow> u64) \<Rightarrow> bool" where
  "lin f \<longleftrightarrow> (\<forall>x y. f (x XOR y) = f x XOR f y)"

lemma linD: "lin f \<Longrightarrow> f (x XOR y) = f x XOR f y"
  by (simp add: lin_def)

lemma lin_0: "lin f \<Longrightarrow> f 0 = 0"
  using linD [of f 0 0] by simp

lemma lin_funpow: "lin f \<Longrightarrow> lin (f ^^ n)"
  by (induction n) (simp_all add: lin_def)

lemma bit_mult2: "bit (x * 2 :: u64) n \<longleftrightarrow> 0 < n \<and> n < 64 \<and> bit x (n - 1)"
  using bit_double_iff [of x n] by (auto simp: mult.commute)

lemma take_bit_no_bit: "take_bit n (x :: u64) = x \<Longrightarrow> n \<le> i \<Longrightarrow> \<not> bit x i"
  by (metis bit_take_bit_iff linorder_not_less)

text \<open>One step of the reflected register: a zero bit is shifted in.\<close>

definition zbit :: "u64 \<Rightarrow> u64" where
  "zbit x = (if bit x 0 then CRC64_REVERSED_POLY else 0) XOR drop_bit 1 x"

definition zbyte :: "u64 \<Rightarrow> u64" where
  "zbyte = zbit ^^ 8"

lemma lin_zbit: "lin zbit"
  unfolding lin_def zbit_def by (intro allI bit_word_eqI) (auto simp: bit_simps)

lemma lin_zbyte: "lin zbyte"
  unfolding zbyte_def by (rule lin_funpow [OF lin_zbit])

lemma zbit_push: "\<not> bit x 63 \<Longrightarrow> zbit (push_bit 1 x) = x"
proof (rule bit_word_eqI)
  fix n
  assume "\<not> bit x 63" and n: "n < LENGTH(64)"
  then show "bit (zbit (push_bit 1 x)) n = bit x n"
    by (cases "n = 63") (auto simp: zbit_def bit_simps bit_mult2)
qed

lemma zbit_pow_push: "n + k \<le> 64 \<Longrightarrow> take_bit n x = x \<Longrightarrow> (zbit ^^ k) (push_bit k x) = x"
proof (induction k)
  case (Suc k)
  have "\<not> bit (push_bit k x) 63" using take_bit_no_bit [OF Suc.prems(2), of "63 - k"] Suc.prems(1) by (simp add: bit_simps)
  then have "zbit (push_bit 1 (push_bit k x)) = push_bit k x" by (rule zbit_push)
  then have "zbit (push_bit (Suc k) x) = push_bit k x" by (simp only: push_bit_push_bit) simp
  then show ?case using Suc by (simp only: funpow_Suc_right comp_apply)
qed simp

lemma zbyte_push: "take_bit 56 x = x \<Longrightarrow> zbyte (push_bit 8 x) = x"
  unfolding zbyte_def by (rule zbit_pow_push [of 56]) simp_all

lemma mask8: "(0xff :: u64) = mask 8"
  by (simp add: mask_eq_exp_minus_1)

lemma low_high: "(x :: u64) = (x AND 0xff) XOR push_bit 8 (drop_bit 8 x)"
  unfolding mask8 by (rule bit_word_eqI) (auto simp: bit_simps simp del: mask_numeral)

lemma take_drop_bit: "take_bit 56 (drop_bit 8 (x :: u64)) = drop_bit 8 x"
  by (rule bit_word_eqI) (auto simp: bit_simps dest: bit_imp_le_length)

lemma zbyte_split: "zbyte x = zbyte (x AND 0xff) XOR drop_bit 8 x"
  using linD [OF lin_zbyte, of "x AND 0xff" "push_bit 8 (drop_bit 8 x)"] low_high [of x] zbyte_push [OF take_drop_bit, of x] by simp

section \<open>The reference computes the linear map\<close>

definition reflect :: "u64 \<Rightarrow> u64" where
  "reflect v = the (crc_reflect v 64)"

lemma crc_reflect_Some: "crc_reflect v 64 = Some (reflect v)"
  by (simp add: reflect_def crc_reflect_def Let_def)

lemma no_bit: "64 \<le> n \<Longrightarrow> \<not> bit (a :: u64) n"
  using bit_imp_le_length [of a n] by auto

lemma bit_bswap64: "\<forall>i<64. bit (bswap64 a) i = bit a (i XOR 56)"
  unfolding all_lt_64 list.pred_inject by (simp add: bswap64_def bit_simps no_bit) (simp add: numeral_3_eq_3)

lemma swap_push:
  assumes "\<forall>i<64. (bit m i \<longleftrightarrow> i div s mod 2 = 0) \<and> swap_index s i < 64 \<and> (i div s mod 2 = 0 \<or> s \<le> i)"
    and s: "0 < s"
  shows "(drop_bit s v AND m) OR push_bit s (v AND m) = swap_bits s m v"
proof (rule bit_word_eqI)
  fix n
  assume "n < LENGTH(64)"
  then have n: "n < 64" by simp
  note a = assms(1) [rule_format, OF n]
  have "bit m (n - s) \<longleftrightarrow> \<not> bit m n" if "s \<le> n" "n div s mod 2 \<noteq> 0"
  proof -
    have "n - s < 64" using n by simp
    moreover have "(n - s) div s mod 2 = 0"
      using that s by (auto simp: le_div_geq mod2_eq_if split: if_splits)
    ultimately show ?thesis using assms(1) a that(2) by simp
  qed
  moreover have "\<not> bit m (n - s)" if "s \<le> n" "n div s mod 2 = 0"
  proof -
    have "(n - s) div s mod 2 \<noteq> 0" using that s by (auto simp: le_div_geq mod2_eq_if)
    then show ?thesis using assms(1) [rule_format, of "n - s"] n by simp
  qed
  ultimately show "bit ((drop_bit s v AND m) OR push_bit s (v AND m)) n = bit (swap_bits s m v) n"
    using a n by (auto simp: swap_bits_def bit_simps)
qed

lemma reflect_swaps: "reflect v = bswap64 (swap_bits 4 0x0F0F0F0F0F0F0F0F (swap_bits 2 0x3333333333333333 (swap_bits 1 0x5555555555555555 v)))"
  unfolding reflect_def crc_reflect_def Let_def
  using swap_push [OF swap_masks(1), of v] swap_push [OF swap_masks(2), of "swap_bits 1 0x5555555555555555 v"]
    swap_push [OF swap_masks(3), of "swap_bits 2 0x3333333333333333 (swap_bits 1 0x5555555555555555 v)"]
  by simp

lemma xor_lt_64: "\<forall>i<64. i XOR 56 < (64 :: nat) \<and> i XOR 60 < (64 :: nat) \<and> i XOR 62 < (64 :: nat)"
  by (simp add: all_lt_64)

lemma bit_reflect: "bit (reflect v) i \<longleftrightarrow> i < 64 \<and> bit v (63 - i)"
proof (cases "i < 64")
  case True
  note lt = xor_lt_64 [rule_format, OF True]
  have "bit (reflect v) i = bit (swap_bits 4 0x0F0F0F0F0F0F0F0F (swap_bits 2 0x3333333333333333 (swap_bits 1 0x5555555555555555 v))) (i XOR 56)"
    unfolding reflect_swaps using bit_bswap64 True by blast
  also have "\<dots> = bit (swap_bits 2 0x3333333333333333 (swap_bits 1 0x5555555555555555 v)) (i XOR 60)"
    using swap_step(1) [OF swap_masks(3), of "i XOR 56"] swap_index_xor(3) lt by (simp add: xor.assoc)
  also have "\<dots> = bit (swap_bits 1 0x5555555555555555 v) (i XOR 62)"
    using swap_step(1) [OF swap_masks(2), of "i XOR 60"] swap_index_xor(2) lt by (simp add: xor.assoc)
  also have "\<dots> = bit v (i XOR 63)"
    using swap_step(1) [OF swap_masks(1), of "i XOR 62"] swap_index_xor(1) lt by (simp add: xor.assoc)
  finally show ?thesis using xor_63 True by simp
qed (simp add: no_bit)

lemma reflect_xor: "reflect (x XOR y) = reflect x XOR reflect y"
  by (rule bit_word_eqI) (auto simp: bit_reflect bit_simps)

lemma reflect_push: "reflect (push_bit 1 x) = drop_bit 1 (reflect x)"
  by (rule bit_word_eqI) (auto simp: bit_reflect bit_simps bit_mult2 Suc_diff_Suc)

lemma reflect_0 [simp]: "reflect 0 = 0"
  by (rule bit_word_eqI) (simp add: bit_reflect)

lemma reflect_POLY: "reflect POLY = CRC64_REVERSED_POLY"
  by (simp add: reflect_def crc_reflect_def POLY_def CRC64_REVERSED_POLY_def bswap64_def Let_def)

text \<open>The step of the generator, on the reflected register.\<close>

lemma top_bit: "(x :: u64) AND 0x8000000000000000 \<noteq> 0 \<longleftrightarrow> bit x 63"
proof -
  have "(0x8000000000000000 :: u64) = push_bit 63 1" by simp
  then show ?thesis by (metis and_exp_eq_0_iff_not_bit push_bit_of_1)
qed

lemma crc_bit_zbit:
  assumes "k < 8" 
  shows "reflect (crc_bit c (push_bit k 1) x) = zbit (reflect x XOR (if bit c k then 1 else 0))"
proof -
  have "c AND push_bit k 1 \<noteq> 0 \<longleftrightarrow> bit c k" by (metis and_exp_eq_0_iff_not_bit push_bit_of_1)
  then have "reflect (crc_bit c (push_bit k 1) x) = (if bit x 63 \<noteq> bit c k then CRC64_REVERSED_POLY else 0) XOR drop_bit 1 (reflect x)"
    unfolding crc_bit_def Let_def top_bit using reflect_push [of x] by (simp add: reflect_xor reflect_POLY xor.commute del: push_bit_Suc)
  moreover have "drop_bit 1 (reflect x XOR (if bit c k then 1 else 0)) = drop_bit 1 (reflect x)"
    by (rule bit_word_eqI) (auto simp: bit_simps)
  moreover have "bit (reflect x XOR (if bit c k then 1 else 0)) 0 \<longleftrightarrow> bit x 63 \<noteq> bit c k" by (auto simp: bit_reflect bit_simps)
  ultimately show ?thesis unfolding zbit_def by simp
qed

lemma crc_bits_zbit:
  assumes "k \<le> 8"
  shows "reflect (fold (crc_bit c) (map (\<lambda>j. push_bit j 1) [0..<k]) x) = (zbit ^^ k) (reflect x XOR ucast (take_bit k c))"
  using assms
proof (induction k)
  case 0
  then show ?case by simp
next
  case (Suc k)
  let ?b = "if bit c k then 1 else 0 :: u64"
  have b: "take_bit 1 ?b = ?b" by simp
  have split: "ucast (take_bit (Suc k) c) = (ucast (take_bit k c) XOR push_bit k ?b :: u64)"
    using Suc.prems by (intro bit_word_eqI) (auto simp: bit_simps less_Suc_eq)
  have "reflect (fold (crc_bit c) (map (\<lambda>j. push_bit j 1) [0..<Suc k]) x) = zbit ((zbit ^^ k) (reflect x XOR ucast (take_bit k c)) XOR ?b)"
    using crc_bit_zbit [of k c] Suc by simp
  also have "?b = (zbit ^^ k) (push_bit k ?b)" using zbit_pow_push [of 1 k ?b] b Suc.prems by simp
  also have "zbit ((zbit ^^ k) (reflect x XOR ucast (take_bit k c)) XOR (zbit ^^ k) (push_bit k ?b)) =
      (zbit ^^ Suc k) (reflect x XOR ucast (take_bit (Suc k) c))"
    unfolding split by (simp add: linD [OF lin_funpow [OF lin_zbit]] linD [OF lin_zbit] xor.assoc [symmetric])
  finally show ?case .
qed

lemma crc_byte_zbyte: "reflect (crc_byte x c) = zbyte (reflect x XOR ucast c)"
proof -
  have "[1, 2, 4, 8, 16, 32, 64, 128] = map (\<lambda>j. push_bit j (1 :: u8)) [0..<8]" by (simp add: upt_rec)
  moreover have "take_bit 8 c = c" by (rule bit_word_eqI) (simp add: bit_simps)
  ultimately show ?thesis using crc_bits_zbit [of 8 c x] by (simp add: crc_byte_def zbyte_def)
qed

text \<open>The register after a sequence of bytes.\<close>

definition crc_of :: "u64 \<Rightarrow> u8 list \<Rightarrow> u64" where
  "crc_of crc data = foldl (\<lambda>crc c. zbyte (crc XOR ucast c)) crc data"

lemma crc_of_simps [simp]: "crc_of crc [] = crc" "crc_of crc (c # cs) = crc_of (zbyte (crc XOR ucast c)) cs" "crc_of crc (xs @ ys) = crc_of (crc_of crc xs) ys"
  by (simp_all add: crc_of_def)

lemma crc64_bitwise_eq: "crc64_bitwise x data = Some (crc_of (reflect x) data)"
proof -
  have "reflect (foldl crc_byte x data) = crc_of (reflect x) data" by (induction data arbitrary: x) (simp_all add: crc_byte_zbyte)
  then show ?thesis by (simp add: crc64_bitwise_def crc_reflect_Some)
qed

section \<open>The tables hold the linear map\<close>

definition table_ok :: "crc_table \<Rightarrow> bool" where
  "table_ok table \<longleftrightarrow> (\<forall>k<8. \<forall>n<256. table ! k ! n = (zbyte ^^ Suc k) (word_of_nat n))"

lemma and_ff_range: "unat ((x :: u64) AND 0xff) < 256" and and_ff_word: "word_of_nat (unat (x AND 0xff)) = x AND 0xff"
proof -
  have "x AND 0xff \<le> 0xff" by (rule word_and_le1)
  then show "unat (x AND 0xff) < 256" by (simp add: word_le_nat_alt)
qed simp

lemma nest_ok:
  assumes "\<forall>n<256. row ! n = zbyte (word_of_nat n)"
  shows "nest row k x = (zbyte ^^ k) x"
proof (induction k)
  case (Suc k)
  then show ?case using assms and_ff_range [of "(zbyte ^^ k) x"] zbyte_split [of "(zbyte ^^ k) x"] by (simp add: Let_def)
qed simp

lemma crc64_init_ok: "\<exists>table. crc64_init = Some table \<and> table_ok table"
proof -
  define row where "row = map (\<lambda>n. zbyte (word_of_nat n)) [0..<256]"
  have "(ucast (word_of_nat n :: u8) :: u64) = word_of_nat n" if "n < 256" for n
    using that by (simp add: unsigned_of_nat take_bit_nat_eq_self)
  then have "map (\<lambda>n. crc64_bitwise 0 [word_of_nat n]) [0..<256] = map Some row"
    by (simp add: crc64_bitwise_eq row_def)
  then have "crc64_init = Some (map (\<lambda>k. map (\<lambda>n. nest row k (row ! n)) [0..<256]) [0..<8])"
    by (simp add: crc64_init_def crcspeed64little_init_def del: upt_Suc)
  moreover have "\<forall>n<256. row ! n = zbyte (word_of_nat n)" by (simp add: row_def)
  then have "table_ok (map (\<lambda>k. map (\<lambda>n. nest row k (row ! n)) [0..<256]) [0..<8])"
    by (simp add: table_ok_def nest_ok funpow_swap1 del: upt_Suc)
  ultimately show ?thesis by blast
qed

section \<open>Eight bytes at a time\<close>

lemma crc_step_ok: "table_ok table \<Longrightarrow> crc_step table crc c = zbyte (crc XOR ucast c)"
proof -
  assume t: "table_ok table"
  have "drop_bit 8 (ucast c :: u64) = 0"
    by (rule bit_word_eqI) (auto simp: bit_simps dest: bit_imp_le_length)
  then have "drop_bit 8 (crc XOR ucast c) = drop_bit 8 crc" by (simp add: drop_bit_xor)
  then show ?thesis
    using t and_ff_range [of "crc XOR ucast c"] zbyte_split [of "crc XOR ucast c"] by (simp add: crc_step_def table_ok_def)
qed

lemma le64_take: "take_bit (8 * length bs) (le64 bs) = le64 bs"
proof (induction bs)
  case (Cons b bs)
  show ?case
  proof (rule bit_word_eqI)
    fix n
    assume "n < LENGTH(64)"
    have "bit (le64 bs) (n - 8) \<Longrightarrow> n - 8 < 8 * length bs" using Cons by (metis bit_take_bit_iff)
    then show "bit (take_bit (8 * length (b # bs)) (le64 (b # bs))) n = bit (le64 (b # bs)) n"
      by (auto simp: bit_simps dest: bit_imp_le_length)
  qed
qed simp

lemma le64_xor: "le64 (b # bs) = ucast b XOR push_bit 8 (le64 bs)"
  by (rule bit_word_eqI) (auto simp: bit_simps dest: bit_imp_le_length)

lemma crc_of_le64: "length bs \<le> 8 \<Longrightarrow> crc_of crc bs = (zbyte ^^ length bs) (crc XOR le64 bs)"
proof (induction bs arbitrary: crc)
  case (Cons b bs)
  have "take_bit 56 (le64 bs) = le64 bs"
  proof (rule bit_word_eqI)
    fix n
    assume "n < LENGTH(64)"
    have "bit (le64 bs) n \<Longrightarrow> n < 8 * length bs" using le64_take [of bs] by (metis bit_take_bit_iff)
    then show "bit (take_bit 56 (le64 bs)) n = bit (le64 bs) n" using Cons.prems by (auto simp: bit_simps)
  qed
  then have "zbyte (crc XOR ucast b) XOR le64 bs = zbyte (crc XOR ucast b XOR push_bit 8 (le64 bs))"
    by (simp add: linD [OF lin_zbyte] zbyte_push xor.assoc)
  then show ?case using Cons by (simp add: le64_xor xor.assoc funpow_swap1 del: le64.simps)
qed simp

text \<open>A register as the sum of its eight bytes.\<close>

definition byte_of :: "nat \<Rightarrow> u64 \<Rightarrow> u64" where
  "byte_of j x = drop_bit (8 * j) x AND 0xff"

lemma bytes_sum:
  "x = byte_of 0 x XOR push_bit 8 (byte_of 1 x) XOR push_bit 16 (byte_of 2 x) XOR push_bit 24 (byte_of 3 x) XOR push_bit 32 (byte_of 4 x)
    XOR push_bit 40 (byte_of 5 x) XOR push_bit 48 (byte_of 6 x) XOR push_bit 56 (byte_of 7 x)"
proof -
  have "x = byte_of 0 x XOR push_bit 8 (drop_bit 8 x)" using low_high [of x] by (simp add: byte_of_def)
  moreover have "drop_bit (8 * j) x = byte_of j x XOR push_bit 8 (drop_bit (8 * Suc j) x)" for j
    using low_high [of "drop_bit (8 * j) x"] by (simp add: byte_of_def)
  note this [of 1] this [of 2] this [of 3] this [of 4] this [of 5] this [of 6]
  moreover have "drop_bit 56 x = byte_of 7 x" unfolding byte_of_def mask8
    by (rule bit_word_eqI) (auto simp: bit_simps simp del: mask_numeral dest: bit_imp_le_length)
  ultimately show ?thesis by (simp add: push_bit_xor)
qed

lemma byte_of_take: "take_bit 8 (byte_of j x) = byte_of j x"
  unfolding byte_of_def mask8 by (rule bit_word_eqI) (auto simp: bit_simps simp del: mask_numeral)

lemma zbyte_pow_push: "j < 8 \<Longrightarrow> k \<ge> j \<Longrightarrow> (zbyte ^^ k) (push_bit (8 * j) (byte_of i x)) = (zbyte ^^ (k - j)) (byte_of i x)"
proof -
  assume j: "j < 8" "k \<ge> j"
  have p: "(zbyte ^^ j) (push_bit (8 * j) (byte_of i x)) = byte_of i x"
    unfolding zbyte_def funpow_mult using zbit_pow_push [of 8 "8 * j" "byte_of i x"] byte_of_take j by (simp add: mult.commute)
  have "(zbyte ^^ k) (push_bit (8 * j) (byte_of i x)) = (zbyte ^^ (k - j)) ((zbyte ^^ j) (push_bit (8 * j) (byte_of i x)))"
    using j(2) by (metis comp_apply funpow_add le_add_diff_inverse2)
  then show ?thesis unfolding p .
qed

lemma zbyte8_bytes:
  "(zbyte ^^ 8) x = (zbyte ^^ 8) (byte_of 0 x) XOR (zbyte ^^ 7) (byte_of 1 x) XOR (zbyte ^^ 6) (byte_of 2 x) XOR (zbyte ^^ 5) (byte_of 3 x)
    XOR (zbyte ^^ 4) (byte_of 4 x) XOR (zbyte ^^ 3) (byte_of 5 x) XOR (zbyte ^^ 2) (byte_of 6 x) XOR zbyte (byte_of 7 x)"
proof -
  note l = linD [OF lin_funpow [OF lin_zbyte], of 8]
  have "(zbyte ^^ 8) x = (zbyte ^^ 8) (byte_of 0 x XOR push_bit 8 (byte_of 1 x) XOR push_bit 16 (byte_of 2 x) XOR push_bit 24 (byte_of 3 x)
      XOR push_bit 32 (byte_of 4 x) XOR push_bit 40 (byte_of 5 x) XOR push_bit 48 (byte_of 6 x) XOR push_bit 56 (byte_of 7 x))"
    by (simp only: bytes_sum [symmetric])
  also have "\<dots> = (zbyte ^^ 8) (byte_of 0 x) XOR (zbyte ^^ 8) (push_bit 8 (byte_of 1 x)) XOR (zbyte ^^ 8) (push_bit 16 (byte_of 2 x))
      XOR (zbyte ^^ 8) (push_bit 24 (byte_of 3 x)) XOR (zbyte ^^ 8) (push_bit 32 (byte_of 4 x)) XOR (zbyte ^^ 8) (push_bit 40 (byte_of 5 x))
      XOR (zbyte ^^ 8) (push_bit 48 (byte_of 6 x)) XOR (zbyte ^^ 8) (push_bit 56 (byte_of 7 x))"
    by (simp only: l)
  finally show ?thesis
    using zbyte_pow_push [of 1 8 1 x] zbyte_pow_push [of 2 8 2 x] zbyte_pow_push [of 3 8 3 x] zbyte_pow_push [of 4 8 4 x]
      zbyte_pow_push [of 5 8 5 x] zbyte_pow_push [of 6 8 6 x] zbyte_pow_push [of 7 8 7 x] by simp
qed

lemma unat_u8_lt: "unat (b :: u8) < 256"
proof -
  have "unat b < 2 ^ LENGTH(8)" by (rule unsigned_less)
  then show ?thesis by simp
qed

lemma unat_ucast_u8: "unat (ucast (b :: u8) :: u64) = unat b"
  using unat_u8_lt [of b] by (simp add: unsigned_ucast_eq take_bit_nat_eq_self)

lemma table_byte:
  assumes "table_ok table" and "k < 8"
  shows "table ! k ! unat (ucast (drop_bit (8 * j) x) :: u8) = (zbyte ^^ Suc k) (byte_of j x)"
proof -
  let ?b = "ucast (drop_bit (8 * j) x) :: u8"
  have "unat ?b < 256" by (rule unat_u8_lt)
  moreover have "(word_of_nat (unat ?b) :: u64) = byte_of j x"
  proof -
    have "(word_of_nat (unat ?b) :: u64) = ucast ?b" by simp
    also have "\<dots> = byte_of j x" unfolding byte_of_def mask8 by (rule bit_word_eqI) (auto simp: bit_simps simp del: mask_numeral)
    finally show ?thesis .
  qed
  ultimately show ?thesis using assms by (simp add: table_ok_def)
qed

lemma table_top: "table_ok table \<Longrightarrow> table ! 0 ! unat (drop_bit 56 x) = zbyte (byte_of 7 x)"
proof -
  assume t: "table_ok table"
  have "unat (drop_bit 56 x) = unat (ucast (drop_bit 56 x) :: u8)"
  proof -
    have "drop_bit 56 x = ucast (ucast (drop_bit 56 x) :: u8)"
      by (rule bit_word_eqI) (auto simp: bit_simps dest: bit_imp_le_length)
    then show ?thesis by (metis unat_ucast_u8)
  qed
  then show ?thesis using table_byte [OF t, of 0 7 x] by simp
qed

lemma DO_8_ok: "table_ok table \<Longrightarrow> DO_8 table data p crc = (zbyte ^^ 8) (crc XOR le64 (take 8 (drop p data)))"
proof -
  assume t: "table_ok table"
  define x where "x = crc XOR le64 (take 8 (drop p data))"
  note b = table_byte [OF t, of _ _ x]
  have n: "Suc 7 = 8" "Suc 6 = 7" "Suc 5 = 6" "Suc 4 = 5" "Suc 3 = 4" "Suc 2 = 3" "Suc 1 = 2" "8 * 1 = (8 :: nat)" "8 * 2 = (16 :: nat)"
    "8 * 3 = (24 :: nat)" "8 * 4 = (32 :: nat)" "8 * 5 = (40 :: nat)" "8 * 6 = (48 :: nat)" by simp_all
  have "DO_8 table data p crc = (zbyte ^^ 8) (byte_of 0 x) XOR (zbyte ^^ 7) (byte_of 1 x) XOR (zbyte ^^ 6) (byte_of 2 x) XOR (zbyte ^^ 5) (byte_of 3 x)
    XOR (zbyte ^^ 4) (byte_of 4 x) XOR (zbyte ^^ 3) (byte_of 5 x) XOR (zbyte ^^ 2) (byte_of 6 x) XOR zbyte (byte_of 7 x)"
    unfolding DO_8_def Let_def x_def [symmetric]
    using b [of 7 0] b [of 6 1] b [of 5 2] b [of 4 3] b [of 3 4] b [of 2 5] b [of 1 6] table_top [OF t, of x]
    by (simp only: n drop_bit_0 mult_0_right) simp
  then show ?thesis using zbyte8_bytes [of x] by (simp add: x_def del: funpow.simps)
qed

section \<open>The loops\<close>

definition seg :: "u8 list \<Rightarrow> nat \<Rightarrow> nat \<Rightarrow> u8 list" where
  "seg data p n = take n (drop p data)"

lemma seg_append: "seg data p (m + n) = seg data p m @ seg data (p + m) n"
  by (simp add: seg_def take_add add.commute)

lemma seg_0 [simp]: "seg data p 0 = []"
  by (simp add: seg_def)

lemma seg_Suc: "p < length data \<Longrightarrow> seg data p (Suc n) = data ! p # seg data (Suc p) n"
  by (simp add: seg_def Cons_nth_drop_Suc [symmetric])

lemma length_seg: "p + n \<le> length data \<Longrightarrow> length (seg data p n) = n"
  by (simp add: seg_def)

lemma crc_of_8: "table_ok table \<Longrightarrow> p + 8 \<le> length data \<Longrightarrow> DO_8 table data p crc = crc_of crc (seg data p 8)"
  using crc_of_le64 [of "seg data p 8" crc] length_seg [of p 8 data] by (simp add: DO_8_ok seg_def del: funpow.simps)

lemma byte_loop_ok: "table_ok table \<Longrightarrow> p + len \<le> length data \<Longrightarrow> byte_loop table data p len crc = crc_of crc (seg data p len)"
  by (induction len arbitrary: p crc) (simp_all add: crc_step_ok seg_Suc)

lemma align_loop_ok:
  "table_ok table \<Longrightarrow> p + len \<le> length data \<Longrightarrow> \<exists>n \<le> len. align_loop table addr data p len crc = (p + n, len - n, crc_of crc (seg data p n))"
proof (induction len arbitrary: p crc)
  case (Suc len)
  show ?case
  proof (cases "(addr + p) AND 7 \<noteq> 0")
    case True
    obtain n where n: "n \<le> len" "align_loop table addr data (p + 1) len (crc_step table crc (data ! p)) =
        (p + 1 + n, len - n, crc_of (crc_step table crc (data ! p)) (seg data (p + 1) n))"
      using Suc.IH [OF Suc.prems(1), of "p + 1" "crc_step table crc (data ! p)"] Suc.prems(2) by auto
    then have "align_loop table addr data p (Suc len) crc = (p + Suc n, Suc len - Suc n, crc_of crc (seg data p (Suc n)))"
      using True Suc.prems by (simp add: crc_step_ok seg_Suc)
    then show ?thesis using n(1) by (intro exI [of _ "Suc n"]) simp
  next
    case False
    then show ?thesis by (intro exI [of _ 0]) simp
  qed
qed simp

declare loop1.simps [simp del] loop2.simps [simp del] loop3.simps [simp del]

lemma loop1_ok:
  "table_ok table \<Longrightarrow> p + len \<le> length data \<Longrightarrow>
   loop1 table data len p crc = (len mod 8, p + 8 * (len div 8), crc_of crc (seg data p (8 * (len div 8))))"
proof (induction len arbitrary: p crc rule: less_induct)
  case (less len)
  show ?case
  proof (cases "len \<ge> 8")
    case True
    then have e: "8 * (len div 8) = 8 + 8 * ((len - 8) div 8)" "(len - 8) mod 8 = len mod 8" by (simp_all add: le_div_geq le_mod_geq)
    show ?thesis using less.IH [of "len - 8" "p + 8" "DO_8 table data p crc"] less.prems True
      by (subst loop1.simps) (simp add: e crc_of_8 seg_append add.assoc)
  next
    case False
    then show ?thesis by (subst loop1.simps) simp
  qed
qed

text \<open>The loops over several parts are loops over each part.\<close>

lemma loop2_ok:
  "table_ok table \<Longrightarrow> p1 + len \<le> length data \<Longrightarrow> p2 + len \<le> length data \<Longrightarrow> 8 dvd len \<Longrightarrow>
   loop2 table data len p1 p2 crc1 crc2 = (p1 + len, p2 + len, crc_of crc1 (seg data p1 len), crc_of crc2 (seg data p2 len))"
proof (induction len arbitrary: p1 p2 crc1 crc2 rule: less_induct)
  case (less len)
  show ?case
  proof (cases "len \<ge> 8")
    case True
    then obtain n where n: "len = 8 + n" by (metis le_add_diff_inverse)
    then have "8 dvd n" using less.prems(4) by simp
    then show ?thesis using less.IH [of n "p1 + 8" "p2 + 8" "DO_8 table data p1 crc1" "DO_8 table data p2 crc2"] less.prems n
      by (subst loop2.simps) (simp add: crc_of_8 seg_append add.assoc)
  next
    case False
    then have "len = 0" using less.prems(4) by (auto dest: dvd_imp_le)
    then show ?thesis by (subst loop2.simps) simp
  qed
qed

lemma loop3_ok:
  "table_ok table \<Longrightarrow> p1 + len \<le> length data \<Longrightarrow> p2 + len \<le> length data \<Longrightarrow> p3 + len \<le> length data \<Longrightarrow> 8 dvd len \<Longrightarrow>
   loop3 table data len p1 p2 p3 crc1 crc2 crc3 =
     (p1 + len, p2 + len, p3 + len, crc_of crc1 (seg data p1 len), crc_of crc2 (seg data p2 len), crc_of crc3 (seg data p3 len))"
proof (induction len arbitrary: p1 p2 p3 crc1 crc2 crc3 rule: less_induct)
  case (less len)
  show ?case
  proof (cases "len \<ge> 8")
    case True
    then obtain n where n: "len = 8 + n" by (metis le_add_diff_inverse)
    then have "8 dvd n" using less.prems(5) by simp
    then show ?thesis using less.IH [of n "p1 + 8" "p2 + 8" "p3 + 8" "DO_8 table data p1 crc1" "DO_8 table data p2 crc2" "DO_8 table data p3 crc3"] less.prems n
      by (subst loop3.simps) (simp add: crc_of_8 seg_append add.assoc)
  next
    case False
    then have "len = 0" using less.prems(5) by (auto dest: dvd_imp_le)
    then show ?thesis by (subst loop3.simps) simp
  qed
qed

section \<open>Joining the parts\<close>

lemma crc_of_split: "crc_of crc xs = (zbyte ^^ length xs) crc XOR crc_of 0 xs"
proof (induction xs arbitrary: crc)
  case (Cons x xs)
  have "crc_of crc (x # xs) = (zbyte ^^ length xs) (zbyte (crc XOR ucast x)) XOR crc_of 0 xs"
    unfolding crc_of_simps(2) by (rule Cons.IH)
  also have "\<dots> = (zbyte ^^ length (x # xs)) crc XOR ((zbyte ^^ length xs) (zbyte (ucast x)) XOR crc_of 0 xs)"
    by (simp add: linD [OF lin_zbyte] linD [OF lin_funpow [OF lin_zbyte]] funpow_swap1 xor.assoc)
  also have "(zbyte ^^ length xs) (zbyte (ucast x)) XOR crc_of 0 xs = crc_of (zbyte (ucast x)) xs" by (rule Cons.IH [symmetric])
  finally show ?case by simp
qed (simp)

text \<open>The matrix of a linear map.\<close>

definition mat_ok :: "(u64 \<Rightarrow> u64) \<Rightarrow> u64 list \<Rightarrow> bool" where
  "mat_ok f mat \<longleftrightarrow> length mat = 64 \<and> (\<forall>i<64. mat ! i = f (push_bit i 1))"

lemma lin_push: "lin f \<Longrightarrow> lin (\<lambda>x. f (push_bit n x))"
  by (simp add: lin_def push_bit_xor)

lemma nibble_cases:
  assumes "(v :: u64) = x AND 15"
  shows "v \<in> {0, 1, 2, 3, 4, 5, 6, 7, 8, 9, 10, 11, 12, 13, 14, 15}"
proof -
  have m: "(15 :: u64) = mask 4" by (simp add: mask_eq_exp_minus_1)
  have "v = (if bit x 0 then 1 else 0) OR (if bit x 1 then 2 else 0) OR (if bit x 2 then 4 else 0) OR (if bit x 3 then 8 else 0)"
  proof (rule bit_word_eqI)
    fix n :: nat
    consider "n = 0" | "n = 1" | "n = 2" | "n = 3" | "4 \<le> n" by linarith
    then show "bit v n = bit ((if bit x 0 then 1 else 0) OR (if bit x 1 then 2 else 0) OR (if bit x 2 then 4 else 0) OR (if bit x 3 then 8 else (0 :: u64))) n"
      unfolding assms m
    proof cases
      case 5
      have "\<not> bit (2 :: u64) n" "\<not> bit (4 :: u64) n" "\<not> bit (8 :: u64) n"
        using 5 bit_exp_iff [of 1 n, where ?'a = u64] bit_exp_iff [of 2 n, where ?'a = u64] bit_exp_iff [of 3 n, where ?'a = u64] by auto
      then show "bit (x AND mask 4) n = bit ((if bit x 0 then 1 else 0) OR (if bit x 1 then 2 else 0) OR (if bit x 2 then 4 else 0) OR (if bit x 3 then 8 else (0 :: u64))) n"
        using 5 by (auto simp: bit_simps simp del: mask_numeral)
    qed (auto simp: bit_simps simp del: mask_numeral)
  qed
  then show ?thesis by (cases "bit x 0"; cases "bit x 1"; cases "bit x 2"; cases "bit x 3") simp_all
qed

lemma switch15_ok:
  assumes f: "lin f" and v: "v \<in> {0, 1, 2, 3, 4, 5, 6, 7, 8, 9, 10, 11, 12, 13, 14, 15}"
    and m: "\<And>i. bit v i \<Longrightarrow> mat ! i = f (push_bit i 1)"
  shows "switch15 mat v = f v"
proof -
  have x: "3 = (1 XOR 2 :: u64)" "5 = (1 XOR 4 :: u64)" "6 = (2 XOR 4 :: u64)" "7 = (1 XOR 2 XOR 4 :: u64)" "9 = (1 XOR 8 :: u64)" "10 = (2 XOR 8 :: u64)"
    "11 = (1 XOR 2 XOR 8 :: u64)" "12 = (4 XOR 8 :: u64)" "13 = (1 XOR 4 XOR 8 :: u64)" "14 = (2 XOR 4 XOR 8 :: u64)" "15 = (1 XOR 2 XOR 4 XOR 8 :: u64)"
    by simp_all
  have fx: "f 3 = f 1 XOR f 2" "f 5 = f 1 XOR f 4" "f 6 = f 2 XOR f 4" "f 7 = f 1 XOR f 2 XOR f 4" "f 9 = f 1 XOR f 8" "f 10 = f 2 XOR f 8"
    "f 11 = f 1 XOR f 2 XOR f 8" "f 12 = f 4 XOR f 8" "f 13 = f 1 XOR f 4 XOR f 8" "f 14 = f 2 XOR f 4 XOR f 8" "f 15 = f 1 XOR f 2 XOR f 4 XOR f 8"
    unfolding x by (simp_all only: linD [OF f])
  have b: "bit v 0 \<Longrightarrow> mat ! 0 = f 1" "bit v 1 \<Longrightarrow> mat ! 1 = f 2" "bit v 2 \<Longrightarrow> mat ! 2 = f 4" "bit v 3 \<Longrightarrow> mat ! 3 = f 8"
    using m [of 0] m [of 1] m [of 2] m [of 3] by simp_all
  show ?thesis using v b lin_0 [OF f] by (elim insertE) (simp_all add: switch15_def fx)
qed

lemma nibble_split: "(x :: u64) = (x AND 15) XOR push_bit 4 (drop_bit 4 x)"
proof -
  have m: "(15 :: u64) = mask 4" by (simp add: mask_eq_exp_minus_1)
  show ?thesis unfolding m by (rule bit_word_eqI) (auto simp: bit_simps simp del: mask_numeral)
qed

lemma matrix_loop_ok:
  assumes "lin f" and "\<And>i. bit vec i \<Longrightarrow> i < length mat \<and> mat ! i = f (push_bit i 1)" and "4 dvd length mat"
  shows "matrix_loop mat vec acc = acc XOR f vec"
  using assms
proof (induction mat vec acc arbitrary: f rule: matrix_loop.induct)
  case (1 mat vec acc)
  show ?case
  proof (cases "vec = 0")
    case True
    then show ?thesis using lin_0 [OF 1(2)] by simp
  next
    case False
    then obtain i where "bit vec i" using bit_eq_iff [of vec 0] by auto
    then have len: "4 \<le> length mat" using 1(3) [of i] 1(4) by (auto dest!: dvd_imp_le)
    let ?g = "\<lambda>x. f (push_bit 4 x)"
    have sub: "i < length (drop 4 mat) \<and> drop 4 mat ! i = ?g (push_bit i 1)" if "bit (drop_bit 4 vec) i" for i
    proof -
      have "push_bit 4 (push_bit i 1) = (push_bit (4 + i) 1 :: u64)" by (simp only: push_bit_push_bit)
      then show ?thesis using that 1(3) [of "4 + i"] len by (auto simp: bit_drop_bit_eq simp del: push_bit_of_1)
    qed
    have ih: "matrix_loop (drop 4 mat) (drop_bit 4 vec) (acc XOR switch15 mat (vec AND 15)) = acc XOR switch15 mat (vec AND 15) XOR ?g (drop_bit 4 vec)"
      using 1(1) [OF False lin_push [OF 1(2)] sub] 1(4) by (simp add: xor.assoc)
    have "switch15 mat (vec AND 15) = f (vec AND 15)"
      using 1(3) by (intro switch15_ok [OF 1(2) nibble_cases [OF refl]]) (simp add: bit_and_iff)
    then have "acc XOR switch15 mat (vec AND 15) XOR ?g (drop_bit 4 vec) = acc XOR f vec"
      using linD [OF 1(2), of "vec AND 15" "push_bit 4 (drop_bit 4 vec)"] nibble_split [of vec] by simp
    then show ?thesis using False ih by (subst matrix_loop.simps) simp
  qed
qed

lemma times_ok: "lin f \<Longrightarrow> mat_ok f mat \<Longrightarrow> gf2_matrix_times_switch mat vec = f vec"
  unfolding gf2_matrix_times_switch_def mat_ok_def
  by (subst matrix_loop_ok [of f]) (auto dest: bit_imp_le_length)

lemma square_ok: "lin f \<Longrightarrow> mat_ok f mat \<Longrightarrow> mat_ok (f ^^ 2) (gf2_matrix_square mat 64)"
proof -
  assume a: "lin f" "mat_ok f mat"
  have "gf2_matrix_square mat 64 ! i = f (f (push_bit i 1))" if "i < 64" for i
    using that a times_ok [OF a] by (simp add: gf2_matrix_square_def mat_ok_def del: upt_Suc)
  then show ?thesis by (simp add: mat_ok_def gf2_matrix_square_def numeral_2_eq_2 del: upt_Suc)
qed

lemma mat_ok_zbit: "mat_ok zbit (CRC64_REVERSED_POLY # map (\<lambda>n. push_bit n 1) [0..<63])"
proof -
  have "(CRC64_REVERSED_POLY # map (\<lambda>n. push_bit n 1) [0..<63]) ! i = zbit (push_bit i 1)" if "i < 64" for i
  proof (cases i)
    case 0
    then show ?thesis by (simp add: zbit_def)
  next
    case (Suc n)
    then have "\<not> bit (push_bit n 1 :: u64) 63" using that by (auto simp: bit_simps)
    then have "zbit (push_bit 1 (push_bit n 1)) = push_bit n 1" by (rule zbit_push)
    then have "zbit (push_bit i 1) = push_bit n 1" unfolding push_bit_push_bit using Suc by simp
    then show ?thesis using Suc that by (simp del: upt_Suc)
  qed
  then show ?thesis by (simp add: mat_ok_def del: upt_Suc)
qed

lemma cache_rows_ok: "lin f \<Longrightarrow> mat_ok f mat \<Longrightarrow> k < n \<Longrightarrow> mat_ok (f ^^ 2 ^ Suc k) (cache_rows 64 n mat ! k)"
proof (induction n arbitrary: f mat k)
  case (Suc n)
  note sq = square_ok [OF Suc.prems(1,2)]
  show ?case
  proof (cases k)
    case 0
    then show ?thesis using sq by (simp add: Let_def)
  next
    case (Suc j)
    then have "mat_ok ((f ^^ 2) ^^ 2 ^ Suc j) (cache_rows 64 n (gf2_matrix_square mat 64) ! j)"
      using Suc.IH [OF lin_funpow [OF Suc.prems(1)] sq] Suc.prems(3) by simp
    then show ?thesis using Suc by (simp add: Let_def funpow_mult)
  qed
qed simp

definition cache_ok :: "u64 list list \<Rightarrow> bool" where
  "cache_ok cache \<longleftrightarrow> (\<forall>k<64. mat_ok (zbyte ^^ 2 ^ k) (cache ! k))"

lemma init_combine_cache_ok: "cache_ok (init_combine_cache CRC64_REVERSED_POLY 64)"
proof -
  let ?o = "CRC64_REVERSED_POLY # map (\<lambda>n. push_bit n 1) [0..<63]"
  have e: "mat_ok (zbit ^^ 2) (gf2_matrix_square ?o 64)" using square_ok [OF lin_zbit mat_ok_zbit] .
  have o: "mat_ok ((zbit ^^ 2) ^^ 2) (gf2_matrix_square (gf2_matrix_square ?o 64) 64)" using square_ok [OF lin_funpow [OF lin_zbit] e] .
  have "init_combine_cache CRC64_REVERSED_POLY 64 = cache_rows 64 64 (gf2_matrix_square (gf2_matrix_square ?o 64) 64)"
    by (simp add: init_combine_cache_def Let_def del: upt_Suc cache_rows.simps)
  moreover have "(((zbit ^^ 2) ^^ 2) ^^ 2 ^ Suc k) = zbyte ^^ 2 ^ k" for k
    by (simp add: zbyte_def funpow_mult mult.commute)
  ultimately show ?thesis unfolding cache_ok_def
    using cache_rows_ok [OF lin_funpow [OF lin_funpow [OF lin_zbit]] o, of _ 64] by (simp del: cache_rows.simps)
qed

lemma mod64: "(n + 1) AND 63 = (n + 1) mod 64" for n :: nat
  using take_bit_eq_mask [of 6 "n + 1"] by (simp add: take_bit_eq_mod mask_eq_exp_minus_1)

declare combine_loop.simps [simp del]

lemma combine_loop_ok:
  "cache_ok cache \<Longrightarrow> 0 < len \<Longrightarrow> 2 ^ num * len < 2 ^ 64 \<Longrightarrow> combine_loop cache num crc len = (zbyte ^^ (2 ^ num * len)) crc"
proof (induction len arbitrary: num crc rule: less_induct)
  case (less len)
  have num: "num < 64"
  proof (rule ccontr)
    assume "\<not> num < 64"
    then have "(2 :: nat) ^ 64 \<le> 2 ^ num" by (intro power_increasing) auto
    then show False using less.prems(2,3) by (metis le_trans linorder_not_less mult_le_mono2 nat_mult_1_right Suc_leI One_nat_def)
  qed
  have m: "gf2_matrix_times_switch (cache ! num) crc = (zbyte ^^ 2 ^ num) crc"
    using less.prems(1) num times_ok [OF lin_funpow [OF lin_zbyte]] by (simp add: cache_ok_def)
  define crc' where "crc' = (if odd len then (zbyte ^^ 2 ^ num) crc else crc)"
  have eq: "(zbyte ^^ (2 ^ num * len)) crc = (zbyte ^^ (2 ^ Suc num * (len div 2))) crc'"
  proof -
    have "2 ^ num * len = 2 ^ Suc num * (len div 2) + (if odd len then 2 ^ num else 0)"
      by (cases "odd len") (auto elim!: oddE evenE simp: algebra_simps)
    then show ?thesis by (simp add: crc'_def funpow_add)
  qed
  show ?case
  proof (cases "len div 2 = 0")
    case True
    then show ?thesis using eq m by (subst combine_loop.simps) (simp add: crc'_def Let_def)
  next
    case False
    have bound: "2 ^ Suc num * (len div 2) < 2 ^ 64"
    proof -
      have "2 ^ Suc num * (len div 2) \<le> 2 ^ num * len" by simp
      then show ?thesis using less.prems(3) by linarith
    qed
    have "num + 1 < 64"
    proof (rule ccontr)
      assume "\<not> num + 1 < 64"
      then have "(2 :: nat) ^ 64 \<le> 2 ^ Suc num" by (intro power_increasing) auto
      moreover have "2 ^ Suc num * 1 \<le> 2 ^ Suc num * (len div 2)" using False by (intro mult_le_mono2) simp
      ultimately show False using bound by linarith
    qed
    then have "(num + 1) AND 63 = Suc num" by (simp add: mod64 [unfolded Suc_eq_plus1 [symmetric]])
    then have "combine_loop cache num crc len = combine_loop cache (Suc num) crc' (len div 2)"
      using False m by (subst combine_loop.simps) (simp add: crc'_def Let_def)
    then show ?thesis using less.IH [of "len div 2" "Suc num" crc'] less.prems False bound eq by simp
  qed
qed

text \<open>A cache as the program has it: still zero, or filled.\<close>

definition cache_state :: "u64 list list \<Rightarrow> bool" where
  "cache_state cache \<longleftrightarrow> cache = replicate 64 (replicate 64 0) \<or> cache = init_combine_cache CRC64_REVERSED_POLY 64"

lemma combine_ok:
  assumes "cache_state cache" and "length xs < 2 ^ 64"
  shows "crc64_combine cache crc (crc_of 0 xs) (length xs) CRC64_REVERSED_POLY 64 = crc_of crc xs"
proof (cases "xs = []")
  case False
  define cache' where "cache' = (if cache ! 0 ! 0 = 0 then init_combine_cache CRC64_REVERSED_POLY 64 else cache)"
  have "cache_ok cache'" using assms(1) init_combine_cache_ok by (auto simp: cache'_def cache_state_def)
  then have "combine_loop cache' 0 crc (length xs) = (zbyte ^^ length xs) crc"
    using combine_loop_ok [of cache' "length xs" 0 crc] False assms(2) by simp
  then have "crc64_combine cache crc (crc_of 0 xs) (length xs) CRC64_REVERSED_POLY 64 = (zbyte ^^ length xs) crc XOR crc_of 0 xs"
    using False by (simp add: crc64_combine_def cache'_def [symmetric])
  then show ?thesis using crc_of_split [of crc xs] by simp
qed (simp add: crc64_combine_def)

lemma len_mask: "8 dvd (x AND CRC64_LEN_MASK)" "x AND CRC64_LEN_MASK \<le> x"
proof -
  have "take_bit 3 (x AND CRC64_LEN_MASK) = 0" by (simp add: take_bit_and CRC64_LEN_MASK_def)
  then show "8 dvd (x AND CRC64_LEN_MASK)" by (simp add: take_bit_eq_mod mod_eq_0_iff_dvd)
  have "int x AND int CRC64_LEN_MASK \<le> int x" by (rule AND_upper1) simp
  then show "x AND CRC64_LEN_MASK \<le> x" by (simp flip: of_nat_and_eq)
qed

lemma split3_ok:
  assumes t: "table_ok table" and c: "cache_state cache" and p: "p + len \<le> length data" and len: "length data < 2 ^ 64"
  shows "\<exists>n \<le> len. split3 table cache data p len crc = (p + n, len - n, crc_of crc (seg data p n))"
proof -
  define n where "n = (len div 3) AND CRC64_LEN_MASK"
  have n: "8 dvd n" "n \<le> len div 3" using len_mask by (simp_all add: n_def)
  have l: "length (seg data (p + n) n) = n" "length (seg data (p + n + n) n) = n" "n < 2 ^ 64" using n(2) p len by (simp_all add: length_seg)
  have "split3 table cache data p len crc = (p + n + n + n, len - n * 3, crc_of (crc_of (crc_of crc (seg data p n)) (seg data (p + n) n)) (seg data (p + n + n) n))"
    using loop3_ok [OF t, of p n data "p + n" "p + n + n" crc 0 0] n p
      combine_ok [OF c, of "seg data (p + n) n" "crc_of crc (seg data p n)"]
      combine_ok [OF c, of "seg data (p + n + n) n" "crc_of (crc_of crc (seg data p n)) (seg data (p + n) n)"] l
    by (simp add: split3_def n_def [symmetric] Let_def)
  moreover have "seg data p (n + n + n) = seg data p n @ seg data (p + n) n @ seg data (p + n + n) n" by (simp add: seg_append add.assoc)
  moreover have "n + n + n \<le> len" "len - n * 3 = len - (n + n + n)" using n(2) by linarith+
  ultimately show ?thesis by (intro exI [of _ "n + n + n"]) (simp add: add.assoc)
qed

lemma split2_ok:
  assumes t: "table_ok table" and c: "cache_state cache" and p: "p + len \<le> length data" and len: "length data < 2 ^ 64"
  shows "\<exists>n \<le> len. split2 table cache data p len crc = (p + n, len - n, crc_of crc (seg data p n))"
proof -
  define n where "n = (len div 2) AND CRC64_LEN_MASK"
  have n: "8 dvd n" "n \<le> len div 2" using len_mask by (simp_all add: n_def)
  have l: "length (seg data (p + n) n) = n" "n < 2 ^ 64" using n(2) p len by (simp_all add: length_seg)
  have "split2 table cache data p len crc = (p + n + n, len - n * 2, crc_of (crc_of crc (seg data p n)) (seg data (p + n) n))"
    using loop2_ok [OF t, of p n data "p + n" crc 0] n p combine_ok [OF c, of "seg data (p + n) n" "crc_of crc (seg data p n)"] l
    by (simp add: split2_def n_def [symmetric] Let_def)
  moreover have "seg data p (n + n) = seg data p n @ seg data (p + n) n" by (simp add: seg_append)
  moreover have "n + n \<le> len" "len - n * 2 = len - (n + n)" using n(2) by linarith+
  ultimately show ?thesis by (intro exI [of _ "n + n"]) (simp add: add.assoc)
qed

lemma crcspeed64little_ok:
  assumes t: "table_ok table" and c: "cache_state cache" and len: "length data < 2 ^ 64"
  shows "crcspeed64little table cache dual tri addr crc data = crc_of crc data"
proof (cases "dual < 1")
  case True
  then show ?thesis using byte_loop_ok [OF t, of 0 "length data" data crc] by (simp add: crcspeed64little_def seg_def)
next
  case False
  let ?l = "length data"
  obtain n1 where n1: "n1 \<le> ?l" "align_loop table addr data 0 ?l crc = (n1, ?l - n1, crc_of crc (seg data 0 n1))"
    using align_loop_ok [OF t, of 0 ?l data addr crc] by auto
  define mid where "mid = (if ?l - n1 > tri then split3 table cache data n1 (?l - n1) (crc_of crc (seg data 0 n1))
      else if ?l - n1 > dual then split2 table cache data n1 (?l - n1) (crc_of crc (seg data 0 n1)) else (n1, ?l - n1, crc_of crc (seg data 0 n1)))"
  have "\<exists>n2 \<le> ?l - n1. mid = (n1 + n2, ?l - n1 - n2, crc_of (crc_of crc (seg data 0 n1)) (seg data n1 n2))"
    using split3_ok [OF t c _ len, of n1 "?l - n1"] split2_ok [OF t c _ len, of n1 "?l - n1"] n1(1) unfolding mid_def by (auto intro: exI [of _ 0])
  then obtain n2 where n2: "n2 \<le> ?l - n1" "mid = (n1 + n2, ?l - n1 - n2, crc_of (crc_of crc (seg data 0 n1)) (seg data n1 n2))" by blast
  define k r where "k = 8 * ((?l - n1 - n2) div 8)" and "r = (?l - n1 - n2) mod 8"
  have kr: "n1 + n2 + k + r = ?l" unfolding k_def r_def using n1(1) n2(1) by simp
  have "crcspeed64little table cache dual tri addr crc data =
      crc_of (crc_of (crc_of (crc_of crc (seg data 0 n1)) (seg data n1 n2)) (seg data (n1 + n2) k)) (seg data (n1 + n2 + k) r)"
  proof -
    have "loop1 table data (?l - n1 - n2) (n1 + n2) x = (r, n1 + n2 + k, crc_of x (seg data (n1 + n2) k))" for x
      unfolding k_def r_def using n1(1) n2(1) by (intro loop1_ok [OF t]) simp
    moreover have "byte_loop table data (n1 + n2 + k) r x = crc_of x (seg data (n1 + n2 + k) r)" for x
      using kr by (intro byte_loop_ok [OF t]) simp
    ultimately show ?thesis
      using False unfolding crcspeed64little_def n1(2) prod.case Let_def mid_def [symmetric] n2(2) by simp
  qed
  moreover have "seg data 0 (n1 + n2 + k + r) = seg data 0 n1 @ seg data n1 n2 @ seg data (n1 + n2) k @ seg data (n1 + n2 + k) r"
    by (simp add: seg_append add.assoc)
  moreover have "seg data 0 (n1 + n2 + k + r) = data" unfolding kr by (simp add: seg_def)
  ultimately show ?thesis by (metis crc_of_simps(3))
qed

lemma crc64_value: "cache_state cache \<Longrightarrow> length data < 2 ^ 64 \<Longrightarrow> crc64 cache dual tri addr crc data = Some (crc_of crc data)"
proof -
  assume a: "cache_state cache" "length data < 2 ^ 64"
  obtain table where t: "crc64_init = Some table" "table_ok table" using crc64_init_ok by blast
  show ?thesis unfolding crc64_def t(1) using crcspeed64little_ok [OF t(2) a] by simp
qed

section \<open>Properties\<close>

text \<open>C4. The fast CRC-64 is the bit by bit one: for any thresholds, any alignment of the buffer and a cache that is still empty or
  already filled, \<^verbatim>\<open>crc64\<close> with the tables of \<^verbatim>\<open>crc64_init\<close> returns what the generator \<^verbatim>\<open>_crc64\<close> returns.\<close>

theorem crc64_is_bitwise:
  assumes "cache_state cache" and "length data < 2 ^ 64"
  shows "crc64 cache dual_cutoff tri_cutoff addr 0 data = crc64_bitwise 0 data"
  using crc64_value [OF assms] by (simp add: crc64_bitwise_eq)

theorem crc64_is_bitwise_witness:
  "cache_state (replicate 64 (replicate 64 0)) \<and>
   crc64 (replicate 64 (replicate 64 0)) 1 2 3 0 [49, 50, 51, 52, 53, 54, 55, 56, 57] = Some 0xe9c6d914c4b8d9ca"
proof -
  have c: "cache_state (replicate 64 (replicate 64 0))" by (simp add: cache_state_def)
  have "crc64_bitwise 0 [49, 50, 51, 52, 53, 54, 55, 56, 57] = Some 0xe9c6d914c4b8d9ca"
    by (simp add: crc64_bitwise_def crc_byte_def crc_bit_def crc_reflect_def bswap64_def POLY_def Let_def)
  then show ?thesis using crc64_is_bitwise [OF c, of "[49, 50, 51, 52, 53, 54, 55, 56, 57]" 1 2 3] c by simp
qed

text \<open>The checksum can be computed piecewise, as the reader and the writer of RDB files do.\<close>

lemma crc64_pieces:
  assumes "cache_state cache" and "length (xs @ ys) < 2 ^ 64" and "crc64 cache dual_cutoff tri_cutoff addr crc xs = Some crc'"
  shows "crc64 cache dual_cutoff tri_cutoff addr' crc' ys = crc64 cache dual_cutoff tri_cutoff addr crc (xs @ ys)"
  using crc64_value [OF assms(1)] assms(2,3) by simp

end
