(* ===== verification/Rdb_Dump.thy ===== *)
theory Rdb_Dump
  imports Rdb_Set Crc64_Correct
begin

text \<open>
  A set in the payload of \<^verbatim>\<open>DUMP\<close>: the payload is accepted, and loading it on a server with any settings gives a set with the same
  members. Loading a payload that somebody made up gives an error or a set, unless it holds one of the largest 64-bit lengths.
\<close>

section \<open>The general format\<close>

lemma save_loop:
  assumes "list_all2 (string_codec env) ss bss" and "stream_ok rdb"
  shows "\<exists>rdb'. fold_until (save_member env) (map SetStr ss) (Some n, rdb) = Some (Some (n + length (concat bss)), rdb') \<and>
    stream_wrote rdb (concat bss) rdb'"
  using assms
proof (induction ss arbitrary: bss n rdb)
  case Nil
  then show ?case using stream_wrote_Nil by simp
next
  case (Cons s ss)
  obtain bs bss' where b: "bss = bs # bss'" "string_codec env s bs" "list_all2 (string_codec env) ss bss'"
    using Cons.prems(1) by (cases bss) auto
  obtain rdb1 where r1: "rdbSaveRawString env s rdb = Some (Some (length bs), rdb1)" "stream_wrote rdb bs rdb1"
    using b(2) Cons.prems(2) unfolding string_codec_def saves_def by blast
  obtain rdb2 where "fold_until (save_member env) (map SetStr ss) (Some (n + length bs), rdb1) =
      Some (Some (n + length bs + length (concat bss')), rdb2)" "stream_wrote rdb1 (concat bss') rdb2"
    using Cons.IH [OF b(3) stream_wrote_ok [OF r1(2) Cons.prems(2)]] by blast
  moreover have "save_member env (SetStr s) (Some n, rdb) = Some (True, Some (n + length bs), rdb1)" using r1(1) by (simp add: save_member_def)
  ultimately show ?case using b(1) stream_wrote_trans [OF r1(2)] by (auto simp: add.assoc)
qed

lemma save_members_saves:
  assumes "set_lists h (SetHT d) (map SetStr ss)" and "list_all2 (string_codec env) ss bss"
  shows "saves (save_members env d) (concat bss)"
  unfolding saves_def
proof (intro allI impI)
  fix rdb
  assume "stream_ok rdb"
  from save_loop [OF assms(2) this, of 0]
  show "\<exists>rdb'. save_members env d rdb = Some (Some (length (concat bss)), rdb') \<and> stream_wrote rdb (concat bss) rdb'"
    by (auto simp: save_members_def set_each_ok [OF assms(1)])
qed

lemma codecs_exist:
  assumes "\<And>s. htab_ok (lzf_table env s)" and "\<forall>s\<in>set ss. length s < 2 ^ 31"
  shows "\<exists>bss. list_all2 (string_codec env) ss bss \<and> length (concat bss) \<le> (\<Sum>s\<leftarrow>ss. length s + 15)"
  using assms(2)
proof (induction ss)
  case (Cons s ss)
  obtain bs where "string_codec env s bs" using rdbSaveRawString_codec [OF assms(1), of s] Cons.prems by auto
  moreover from this have "length bs \<le> length s + 15" by (simp add: string_codec_def)
  moreover obtain bss where "list_all2 (string_codec env) ss bss" "length (concat bss) \<le> (\<Sum>s\<leftarrow>ss. length s + 15)" using Cons by auto
  ultimately show ?case by (intro exI [of _ "bs # bss"]) simp
qed simp

text \<open>The settings of the server that loads: memory is available.\<close>

definition load_env_ok :: "rdb_env \<Rightarrow> bool" where
  "load_env_ok env \<longleftrightarrow> env_ok (rdb_set env) \<and> mem_enough env \<and> (\<forall>n. try_alloc (rdb_set env) n)"

lemma load_set_start:
  assumes "env_ok (rdb_set env)" and "rdbLoadLen r = Some ((len, e), r1)" and "len \<noteq> 0xFFFFFFFFFFFFFFFF" and "len \<noteq> 0"
  shows "load_set env r = Some (Inl RDB_LOAD_ERR_OTHER, r1) \<and> \<not> (\<forall>n. try_alloc (rdb_set env) n) \<or>
    (\<exists>obj. load_set env r = load_members env (unat len) 0 0 0 obj r1 \<and> loading_ok (rdb_set env) (unat len) 0 0 obj {})"
proof (cases "unat len > set_max_intset_entries (rdb_set env)")
  case False
  have m: "set_max_intset_entries (rdb_set env) < 2 ^ 29" using assms(1) by (simp add: env_ok_def)
  then have "loading_ok (rdb_set env) (unat len) 0 0 createIntsetObject {}" using False set_rep_new(2) by (simp add: loading_ok_def)
  moreover have "load_set env r = load_members env (unat len) 0 0 0 createIntsetObject r1"
    unfolding load_set_def assms(2) Let_def using False assms(3,4) m by simp
  ultimately show ?thesis by blast
next
  case True
  let ?new = "if unat len > DICT_HT_INITIAL_SIZE
    then dictTryExpand (setDictType (gen_hash (rdb_set env))) (can_resize (rdb_set env)) (try_alloc (rdb_set env)) dictCreate (unat len)
    else Some (True, dictCreate)"
  have "\<exists>ok d. ?new = Some (ok, d) \<and> ht_ok (gen_hash (rdb_set env)) d \<and> ht_keys d = {} \<and> ((\<forall>n. try_alloc (rdb_set env) n) \<longrightarrow> ok)"
    using ht_try_expand_new [where n = "unat len" and h = "gen_hash (rdb_set env)"] ht_create_ok(1) [of "gen_hash (rdb_set env)"] ht_create_ok(2)
    by (cases "unat len > DICT_HT_INITIAL_SIZE") auto
  then obtain ok d where d: "?new = Some (ok, d)" "ht_ok (gen_hash (rdb_set env)) d" "ht_keys d = {}" "(\<forall>n. try_alloc (rdb_set env) n) \<longrightarrow> ok"
    by (elim exE conjE)
  have "loading_ok (rdb_set env) (unat len) 0 0 (SetHT d) {}" using set_rep_ht [OF d(2)] d(3) by (simp add: loading_ok_def)
  moreover have "load_set env r = (if \<not> ok then Some (Inl RDB_LOAD_ERR_OTHER, r1) else load_members env (unat len) 0 0 0 (SetHT d) r1)"
    unfolding load_set_def assms(2) Let_def bind.simps prod.case d(1) using True assms(1,3,4) by (simp add: env_ok_def)
  ultimately show ?thesis using d(4) by (cases ok) auto
qed

lemma load_set_ok:
  assumes env: "load_env_ok env" and ss: "ss \<noteq> []" "distinct ss" "\<forall>s\<in>set ss. length s < 2 ^ 31" "length ss < 2 ^ 32" "list_all2 (string_codec env0) ss bss"
    and r: "rio_ok r" "\<not> rio_read_error r" "rio_rest r = len_bytes (of_nat (length ss)) @ concat bss @ cs"
  shows "\<exists>obj r'. load_set env r = Some (Inr obj, r') \<and> set_rep (gen_hash (rdb_set env)) obj (set ss)"
proof -
  have n: "unat (of_nat (length ss) :: u64) = length ss" "(of_nat (length ss) :: u64) \<noteq> 0xFFFFFFFFFFFFFFFF" "(of_nat (length ss) :: u64) \<noteq> 0"
    using unat_small [of "length ss"] ss(1,4) by (auto simp: unat_eq_zero [symmetric])
  obtain r1 where r1: "rdbLoadLen r = Some ((of_nat (length ss), False), r1)" "consumed r (len_bytes (of_nat (length ss))) r1"
    using rdbLoadLen_ok [OF r] by blast
  have r1': "rio_ok r1" "\<not> rio_read_error r1" "rio_rest r1 = concat bss @ cs" using consumed_next [OF r(3) r1(2) r(2)] by simp_all
  obtain obj where obj: "load_set env r = load_members env (length ss) 0 0 0 obj r1" "loading_ok (rdb_set env) (length ss) 0 0 obj {}"
    using load_set_start [OF _ r1(1) n(2,3)] env n(1) by (auto simp: load_env_ok_def)
  then show ?thesis
    using load_members_ok [where env = env and len = "length ss" and ss = ss and bss = bss and A = "{}", OF _ _ _ ss(4) obj(2) _ ss(2) _ ss(3,5) r1'] env
    by (auto simp: load_env_ok_def)
qed

lemma load_set_total:
  assumes "env_ok (rdb_set env)" and "short_payload (buffer_ptr r)" and "rio_ok r" and "huge_free (buffer_ptr r)"
  shows "loaded_ok (rdb_set env) (load_set env r)"
proof -
  obtain len e r1 where l: "rdbLoadLen r = Some ((len, e), r1)" "rio_ok r1" "buffer_ptr r1 = buffer_ptr r"
    using rdbLoadLen_total [OF assms(3)] by blast
  show ?thesis
  proof (cases "len = 0xFFFFFFFFFFFFFFFF \<or> len = 0")
    case True
    then show ?thesis using l(1) by (auto simp: load_set_def loaded_ok_def)
  next
    case False
    then have "0 < unat len" by (simp add: unat_gt_0)
    then show ?thesis
      using load_set_start [OF assms(1) l(1)] False load_members_total [OF assms(1) _ _ l(2), of "unat len" 0 0 _ "{}" 0] assms(2,4) l(3)
      by (auto simp: loaded_ok_def)
  qed
qed

section \<open>Intsets\<close>

lemma intset_raw_ok:
  assumes "intset_wf is" and "is_length is < 2 ^ 29"
  shows "intset_raw is = Some (intset_bytes is)" and "intset_of_bytes (intset_bytes is) = is" and "length (intset_bytes is) \<le> 2 ^ 32"
    and "8 \<le> length (intset_bytes is)"
proof -
  have rep: "intset_rep is (intset_elems is)" using assms(1) by (simp add: intset_wf_def)
  then have e: "is_encoding is \<in> {2, 4, 8}" "is_length is = length (intset_elems is)" "is_contents is = blob (is_encoding is) (intset_elems is)"
    by (simp_all add: intset_rep_def)
  have len: "length (is_contents is) = is_length is * is_encoding is" unfolding e(2,3) by simp
  then have "mem_read (is_contents is) 0 (intsetBlobLen is - sizeof_intset) = those (is_contents is)" by (simp add: mem_read_def intsetBlobLen_def)
  also have "\<dots> = Some (map the (is_contents is))" unfolding e(3) by (simp add: blob_def comp_def)
  finally show "intset_raw is = Some (intset_bytes is)" by (simp add: intset_raw_def intset_bytes_def)
  show "intset_of_bytes (intset_bytes is) = is" using intset_of_bytes_bytes [OF rep] assms(2) e(2) by simp
  have "is_length is * is_encoding is \<le> (2 ^ 29 - 1) * 8" using e(1) assms(2) by (intro mult_le_mono) auto
  then show "length (intset_bytes is) \<le> 2 ^ 32" "8 \<le> length (intset_bytes is)"
    using len by (simp_all add: intset_bytes_def)
qed

lemma intset_shallow:
  assumes "intsetValidateIntegrity p True = Some True"
  shows "intsetValidateIntegrity p deep = Some True"
proof -
  define e c where "e = nat (le_uint (take 4 p))" and "c = nat (le_uint (take 4 (drop 4 p)))"
  define X where "X = (let s = \<lparr>is_encoding = e, is_length = c, is_contents = map Some (drop sizeof_intset p)\<rparr> in
    Option.bind (intsetGet_raw s 0) (\<lambda>prev. validate_loop s prev 1 (c - 1)))"
  have eq: "intsetValidateIntegrity p deep =
     (if length p < 8 then Some False else if \<not> (e = 8 \<or> e = 4 \<or> e = 2) then Some False
      else if 8 + c * e \<noteq> length p then Some False else if c = 0 then Some False else if \<not> deep then Some True else X)" for deep
    unfolding intsetValidateIntegrity_def Let_def e_def [symmetric] c_def [symmetric] X_def by (rule refl)
  show ?thesis using assms unfolding eq by (cases deep) (auto split: if_splits)
qed

lemma load_set_intset_ok:
  assumes env: "load_env_ok env" and wf: "intset_wf is" "is_length is < 2 ^ 29" "is_length is \<noteq> 0" and bs: "string_codec env0 (intset_bytes is) bs"
    and r: "rio_ok r" "\<not> rio_read_error r" "rio_rest r = bs @ cs"
  shows "\<exists>obj r'. load_set_intset env r = Some (Inr obj, r') \<and> set_rep (gen_hash (rdb_set env)) obj (ll_dec ` set (intset_elems is))"
proof -
  note raw = intset_raw_ok [OF wf(1,2)]
  obtain r1 where r1: "rdbGenericLoadStringObject env RDB_LOAD_PLAIN r = Some (Some (intset_bytes is), r1)"
    using bs env r unfolding string_codec_def loads_def load_env_ok_def by blast
  have "intsetValidateIntegrity (intset_bytes is) True = Some True"
    using intsetValidateIntegrity_iff [of "intset_bytes is"] raw wf by simp
  then have v: "intsetValidateIntegrity (intset_bytes is) (deep_integrity_validation env) = Some True" by (rule intset_shallow)
  have rep: "set_rep (gen_hash (rdb_set env)) (SetIntset is) (ll_dec ` set (intset_elems is))" using set_rep_intset [OF wf(1,2)] .
  then obtain so where "setTypeConvert (rdb_set env) (SetIntset is) OBJ_ENCODING_HT = Some so" "set_rep (gen_hash (rdb_set env)) so (ll_dec ` set (intset_elems is))"
    using setTypeConvert_ok [OF rep] by auto
  then show ?thesis using r1 v raw(2) rep by (simp add: load_set_intset_def)
qed

lemma loaded_okI: "A \<noteq> {} \<Longrightarrow> set_rep (gen_hash env) obj A \<Longrightarrow> loaded_ok env (Some (Inr obj, r))"
  by (auto simp: loaded_ok_def)

lemma load_set_intset_total:
  assumes "env_ok (rdb_set env)" and "short_payload (buffer_ptr r)" and "deep_integrity_validation env" and "rio_ok r"
  shows "loaded_ok (rdb_set env) (load_set_intset env r)"
proof -
  obtain v r1 where v: "rdbGenericLoadStringObject env RDB_LOAD_PLAIN r = Some (v, r1)" "string_result r v r1"
    using rdbGenericLoadStringObject_total [OF assms(4), of RDB_LOAD_PLAIN env] by blast
  show ?thesis
  proof (cases v)
    case None
    then show ?thesis using v(1) by (simp add: load_set_intset_def loaded_ok_def)
  next
    case (Some p)
    then have p: "length p < 2 ^ 31" using v(2) bound_short [OF assms(2)] by (simp add: string_result_def)
    let ?is = "intset_of_bytes p"
    define ok where "ok \<longleftrightarrow> 8 \<le> length p \<and> is_length ?is \<noteq> 0 \<and> intset_wf ?is"
    have val: "intsetValidateIntegrity p (deep_integrity_validation env) = Some ok"
      using intsetValidateIntegrity_iff [of p] p assms(3) by (simp add: ok_def)
    show ?thesis
    proof (cases ok)
      case False
      then show ?thesis using v(1) Some val by (simp add: load_set_intset_def loaded_ok_def)
    next
      case True
      then have wf: "intset_wf ?is" "is_length ?is \<noteq> 0" by (simp_all add: ok_def)
      have "length (is_contents ?is) = is_length ?is * is_encoding ?is" "is_encoding ?is \<in> {2, 4, 8}"
        using wf(1) by (auto simp: intset_wf_def intset_rep_def)
      then have len: "is_length ?is < 2 ^ 31" using p by (auto simp: intset_of_bytes_def)
      have ne: "ll_dec ` set (intset_elems ?is) \<noteq> {}" using wf intset_card [OF wf(1)] by (metis card.empty)
      have l: "set_lists (gen_hash (rdb_set env)) (SetIntset ?is) (map SetLl (intset_elems ?is))" using wf(1) len by simp
      obtain d where d: "convert_to_ht (rdb_set env) (SetIntset ?is) (intsetLen ?is) True = Some (True, SetHT d)" "ht_ok (gen_hash (rdb_set env)) d"
          "ht_keys d = ll_dec ` set (intset_elems ?is)"
        using convert_to_ht_ok [OF l, of "intsetLen ?is"] by (auto simp: image_image)
      have "set_rep (gen_hash (rdb_set env)) (SetHT d) (ht_keys d)"
        using set_rep_ht [OF d(2)] set_lists_short [OF l] d(3) by (simp add: image_image)
      moreover have "setTypeConvert (rdb_set env) (SetIntset ?is) OBJ_ENCODING_HT = Some (SetHT d)"
        using d(1) by (simp add: setTypeConvert_def setTypeConvertAndExpand_def)
      moreover have "set_rep (gen_hash (rdb_set env)) (SetIntset ?is) (ll_dec ` set (intset_elems ?is))"
        if "\<not> intsetLen ?is > set_max_intset_entries (rdb_set env)"
        using that assms(1) by (intro set_rep_intset wf(1)) (simp add: env_ok_def intsetLen_def)
      ultimately show ?thesis
        using v(1) Some val True d(3) loaded_okI [OF ne]
        by (cases "intsetLen ?is > set_max_intset_entries (rdb_set env)") (simp_all add: load_set_intset_def)
    qed
  qed
qed

section \<open>Listpacks\<close>

lemma mem_read_size: "mem_read m p n = Some bs \<Longrightarrow> length bs = n"
proof -
  have "those xs = Some ys \<Longrightarrow> length ys = length xs" for xs :: mem and ys
    by (induction xs arbitrary: ys) (auto split: option.splits)
  then show "mem_read m p n = Some bs \<Longrightarrow> length bs = n" by (fastforce simp: mem_read_def split: if_splits)
qed

lemma lp_bytes_ok:
  assumes "lp_list lp ss"
  shows "\<exists>bs. lpBytes lp = Some (lp_size ss) \<and> mem_read lp 0 (lp_size ss) = Some bs \<and> length bs = lp_size ss \<and> lp_size ss < 2 ^ 32 \<and>
    lp_list (map Some bs) ss"
proof -
  have rep: "lp_rep lp (map lp_val_of ss)" using assms by (simp add: lp_list_def)
  have b: "lpBytes lp = Some (lp_size ss)" using lpBytes_rep [OF rep] by (simp add: lp_size_def)
  obtain m' where m': "lpDup id lp = Some m'" "lp_rep m' (map lp_val_of ss)" using lpDup_rep [of id, OF _ rep] by (auto simp: usable_ok_def)
  then obtain bs where bs: "mem_read lp 0 (lp_size ss) = Some bs" "mem_write (replicate (lp_size ss) None) 0 bs = Some m'"
    using b by (auto simp: lpDup_def bind_eq_Some_conv)
  have len: "length bs = lp_size ss" using bs(1) by (rule mem_read_size)
  then have "m' = map Some bs" using bs(2) by (auto simp: mem_write_def split: if_splits)
  moreover have "lp_size ss < 2 ^ 32" using rep by (auto simp: lp_rep_def lp_rep_num_def lp_size_def)
  ultimately show ?thesis using b bs(1) len m'(2) by (auto simp: lp_list_def)
qed

text \<open>The dictionary that detects duplicates.\<close>

definition fields_ok :: "(bytes \<Rightarrow> u64) \<Rightarrow> (bytes, unit) dict \<Rightarrow> bool" where
  "fields_ok h d \<longleftrightarrow> dict_wf (hashDictType h) (\<lambda>k. k) d \<and> pauseAutoResize d \<le> 0"

lemma hashDictType_ok: "dictType_ok (hashDictType h) (\<lambda>k. k)"
  by (auto simp: dictType_ok_def hashDictType_def key_matches_def dictGetCmpFunc_def dictHashKey_def dup_key_def dictSdsKeyCompare_def)

lemma hashDictType_simps [simp]:
  "\<not> no_value (hashDictType h)" "dup_key (hashDictType h) k = k" "dup_val (hashDictType h) v = v"
  by (simp_all add: hashDictType_def dup_key_def dup_val_def)

lemma fields_new: "\<exists>ok d. dictExpand (hashDictType h) cr dictCreate n = Some (ok, d) \<and> fields_ok h d \<and> ht_keys d = {}"
proof -
  have wf: "dict_wf (hashDictType h) (\<lambda>k. k) (dictCreate :: (bytes, unit) dict)" by (rule dictCreate_wf)
  then obtain ok d where d: "dictExpand (hashDictType h) cr (dictCreate :: (bytes, unit) dict) n = Some (ok, d)" "resized (hashDictType h) dictCreate d"
    using dictExpand_ok [of "hashDictType h" dictCreate cr n] by (auto simp: dict_wf_def)
  then have "dict_change (hashDictType h) (\<lambda>k. k) dictCreate {#} {#} d"
    using dict_step_change [OF wf] by (simp add: resized_def)
  then show ?thesis using d(1) by (auto simp: fields_ok_def ht_keys_def dict_change_def same_settings_def dictCreate_def dict_entries_def)
qed

lemma fields_add:
  assumes "fields_ok h d"
  shows "\<exists>d'. dictAdd (hashDictType h) cr d s () = Some (s \<notin> ht_keys d, d') \<and> fields_ok h d' \<and> ht_keys d' = insert s (ht_keys d)"
proof -
  have wf: "dict_wf (hashDictType h) (\<lambda>k. k) d" "pauseAutoResize d \<le> 0 \<or> 0 \<le> ht_size_exp (ht0 d)" using assms by (simp_all add: fields_ok_def)
  obtain added d' where d': "dictAdd (hashDictType h) cr d s () = Some (added, d')" "added \<longleftrightarrow> (\<forall>kv\<in>set (dict_entries d). fst kv \<noteq> s)"
      "dict_change (hashDictType h) (\<lambda>k. k) d {#} (if added then {#(s, Some ())#} else {#}) d'"
    using dictAdd_ok [OF hashDictType_ok wf, of cr s "()"] unfolding hashDictType_simps(2,3) if_not_P [OF hashDictType_simps(1)] by blast
  have "added \<longleftrightarrow> s \<notin> ht_keys d" using d'(2) unfolding fresh_key .
  moreover have "mset (dict_entries d') = mset (dict_entries d) + (if added then {#(s, Some ())#} else {#})"
    using d'(3) by (simp add: dict_change_def)
  then have "set_mset (mset (dict_entries d')) = set_mset (mset (dict_entries d) + (if added then {#(s, Some ())#} else {#}))" by (rule arg_cong)
  then have "set (dict_entries d') = set (dict_entries d) \<union> (if added then {(s, Some ())} else {})" by (cases added) simp_all
  moreover have "fields_ok h d'" using d'(3) assms by (simp add: fields_ok_def dict_change_def same_settings_def)
  ultimately show ?thesis using d'(1) by (auto simp: ht_keys_def)
qed

text \<open>The callback on the members of a set.\<close>

definition dups_ok :: "set_env \<Rightarrow> lp_dup_data \<Rightarrow> bytes set \<Rightarrow> bool" where
  "dups_ok env data A \<longleftrightarrow> tuple_len data = 1 \<and>
     (case dup_fields data of None \<Rightarrow> A = {} | Some d \<Rightarrow> fields_ok (gen_hash env) d \<and> ht_keys d = A)"

lemma dup_dict_ok: "dups_ok env data A \<Longrightarrow> \<exists>d. dup_dict env n data = Some d \<and> fields_ok (gen_hash env) d \<and> ht_keys d = A"
  using fields_new [of "gen_hash env" "can_resize env" n] by (cases "dup_fields data") (auto simp: dups_ok_def dup_dict_def)

lemma lpEntryValidation_ok:
  assumes "dups_ok env data A" and "(lpGet lp p (Some (replicate LP_INTBUF_SIZE None)) \<bind> got_string lp) = Some s"
  shows "\<exists>data'. lpEntryValidation env lp p n data = Some (s \<notin> A, data') \<and> dups_ok env data' (insert s A)"
proof -
  obtain d where d: "dup_dict env n data = Some d" "fields_ok (gen_hash env) d" "ht_keys d = A" using dup_dict_ok [OF assms(1)] by blast
  obtain d' where d': "dictAdd (hashDictType (gen_hash env)) (can_resize env) d s () = Some (s \<notin> A, d')" "fields_ok (gen_hash env) d'"
      "ht_keys d' = insert s A"
    using fields_add [OF d(2), of "can_resize env" s] d(3) by auto
  have "check_field env lp p d = Some (s \<notin> A, d')" using assms(2) d'(1) by (auto simp: check_field_def bind_eq_Some_conv)
  then show ?thesis using assms(1) d(1) d'(2,3) by (auto simp: lpEntryValidation_def dups_ok_def Let_def)
qed

lemma dups_accepted:
  assumes "lp_list lp ss" and "distinct ss"
  shows "lpValidateIntegrityAndDups env lp (lp_size ss) deep 1 = Some True"
proof (cases deep)
  case False
  have "lpValidateIntegrity lp (lp_size ss) False None () = Some (True, ())"
    using lpValidateIntegrity_shallow [of lp "map lp_val_of ss" None "()"] assms(1) by (simp add: lp_list_def lp_size_def)
  then show ?thesis using False by (simp add: lpValidateIntegrityAndDups_def)
next
  case True
  let ?d = "\<lparr>tuple_len = 1, dup_count = 0, dup_fields = None, last_expireat = - 1\<rparr>"
  let ?J = "\<lambda>zs data. dups_ok env data (lp_str ` set zs)"
  have rep: "lp_rep lp (map lp_val_of ss)" using assms(1) by (simp add: lp_list_def)
  have "cb_accepts (Some (lpEntryValidation env lp)) num ?J (map lp_val_of ss)" for num
    unfolding cb_accepts_def
  proof (intro allI impI)
    fix zs e ws data
    assume es: "map lp_val_of ss = zs @ e # ws" and J: "?J zs data"
    have "distinct (map lp_str (zs @ e # ws))" unfolding es [symmetric] using assms(2) by (simp add: comp_def)
    then have new: "lp_str e \<notin> lp_str ` set zs" by auto
    have "entry_at lp (6 + lp_len zs) e" using lp_rep_entry [of lp zs e ws] rep es by simp
    then have "(lpGet lp (6 + lp_len zs) (Some (replicate LP_INTBUF_SIZE None)) \<bind> got_string lp) = Some (lp_str e)" by (rule lpGet_rep) simp
    from lpEntryValidation_ok [OF J this, of num] new
    show "\<exists>d'. call_cb (Some (lpEntryValidation env lp)) (6 + lp_len zs) num data = Some (True, d') \<and> ?J (zs @ [e]) d'"
      by (simp add: call_cb_def)
  qed
  moreover have "?J [] ?d" by (simp add: dups_ok_def)
  ultimately obtain d' where "lpValidateIntegrity lp (lp_size ss) True (Some (lpEntryValidation env lp)) ?d = Some (True, d')"
    using lpValidateIntegrity_rep [OF rep, of "Some (lpEntryValidation env lp)" ?J ?d] by (auto simp: lp_size_def)
  then show ?thesis using True by (simp add: lpValidateIntegrityAndDups_def)
qed

lemma load_set_listpack_ok:
  assumes env: "load_env_ok env" and ss: "ss \<noteq> []" "distinct ss" "\<forall>s\<in>set ss. length s < 2 ^ 31"
    and lp: "lp_list (map Some s) ss" "length s = lp_size ss" and bs: "string_codec env0 s bs"
    and r: "rio_ok r" "\<not> rio_read_error r" "rio_rest r = bs @ cs"
  shows "\<exists>obj r'. load_set_listpack env r = Some (Inr obj, r') \<and> set_rep (gen_hash (rdb_set env)) obj (set ss)"
proof -
  obtain r1 where r1: "rdbGenericLoadStringObject env RDB_LOAD_PLAIN r = Some (Some s, r1)"
    using bs env r unfolding string_codec_def loads_def load_env_ok_def by blast
  have v: "lpValidateIntegrityAndDups (rdb_set env) (map Some s) (length s) (deep_integrity_validation env) 1 = Some True"
    using dups_accepted [OF lp(1) ss(2)] lp(2) by simp
  have rep: "set_rep (gen_hash (rdb_set env)) (SetListpack (map Some s)) (set ss)" using set_rep_listpack [OF lp(1) ss(2,3)] .
  obtain so1 where so1: "setTypeSize (SetListpack (map Some s)) = Some (card (set ss), so1)" "set_rep (gen_hash (rdb_set env)) so1 (set ss)"
      "encoding so1 = OBJ_ENCODING_LISTPACK"
    using setTypeSize_ok [OF rep] by auto
  obtain so2 where so2: "setTypeSize so1 = Some (card (set ss), so2)" "set_rep (gen_hash (rdb_set env)) so2 (set ss)" "encoding so2 = OBJ_ENCODING_LISTPACK"
    using setTypeSize_ok [OF so1(2)] so1(3) by auto
  obtain so3 where "setTypeConvert (rdb_set env) so2 OBJ_ENCODING_HT = Some so3" "set_rep (gen_hash (rdb_set env)) so3 (set ss)"
    using setTypeConvert_ok [OF so2(2)] so2(3) by auto
  moreover have "card (set ss) \<noteq> 0" using ss(1) by simp
  ultimately show ?thesis using r1 v so1(1) so2(1,2) unfolding load_set_listpack_def by (simp del: setTypeSize.simps)
qed

section \<open>A set of any encoding\<close>

text \<open>The bytes of a saved set: they load to a set with the same members.\<close>

definition set_codec :: "rdb_env \<Rightarrow> set_obj \<Rightarrow> bytes set \<Rightarrow> u8 list \<Rightarrow> bool" where
  "set_codec env so A bs \<longleftrightarrow> saves (rdbSaveObject env so) bs \<and> 0 < length bs \<and> length bs \<le> (\<Sum>s\<in>A. length s + 15) + 2 ^ 33 \<and>
     (\<forall>env' r cs. load_env_ok env' \<longrightarrow> rio_ok r \<longrightarrow> \<not> rio_read_error r \<longrightarrow> rio_rest r = bs @ cs \<longrightarrow>
       (\<exists>so' r'. rdbLoadObject env' (rdb_set_type_of so) r = Some (Inr so', r') \<and> set_rep (gen_hash (rdb_set env')) so' A))"

lemma raw_object:
  assumes "htab_ok (lzf_table env s)" and "length s \<le> 2 ^ 32" and "\<And>rdb. rdbSaveObject env so rdb = rdbSaveRawString env s rdb"
    and "\<And>env' r bs cs. load_env_ok env' \<Longrightarrow> string_codec env s bs \<Longrightarrow> rio_ok r \<Longrightarrow> \<not> rio_read_error r \<Longrightarrow> rio_rest r = bs @ cs \<Longrightarrow>
      \<exists>so' r'. rdbLoadObject env' (rdb_set_type_of so) r = Some (Inr so', r') \<and> set_rep (gen_hash (rdb_set env')) so' A"
  shows "\<exists>bs. set_codec env so A bs"
proof -
  obtain bs where bs: "string_codec env s bs" using rdbSaveRawString_codec [OF assms(1)] assms(2) by auto
  then have "saves (rdbSaveObject env so) bs" "0 < length bs" "length bs \<le> length s + 15"
    using saves_cong [OF assms(3)] by (simp_all add: string_codec_def)
  then show ?thesis using assms(2,4) bs unfolding set_codec_def by (intro exI [of _ bs]) auto
qed

lemma rdbSaveObject_codec:
  assumes so: "set_rep h so A" and ne: "A \<noteq> {}" and card: "card A < 2 ^ 32" and h: "\<And>s. htab_ok (lzf_table env s)"
  shows "\<exists>bs. set_codec env so A bs"
  using so
proof (cases rule: set_rep_cases)
  case (intset iset)
  note raw = intset_raw_ok [OF intset(2,3)]
  have "is_length iset \<noteq> 0" using intset_card [OF intset(2)] intset(4) ne by (metis card_0_eq finite_imageI finite_set)
  then show ?thesis
    using raw load_set_intset_ok [OF _ intset(2,3)] intset(1,4) by (intro raw_object [OF h raw(3)]) auto
next
  case (listpack lp ss)
  obtain s where s: "lpBytes lp = Some (lp_size ss)" "mem_read lp 0 (lp_size ss) = Some s" "length s = lp_size ss" "lp_size ss < 2 ^ 32"
      "lp_list (map Some s) ss"
    using lp_bytes_ok [OF listpack(2)] by blast
  have "ss \<noteq> []" using listpack(5) ne by auto
  then show ?thesis
    using s load_set_listpack_ok [OF _ _ listpack(3,4) s(5,3)] listpack(1,5) by (intro raw_object [OF h]) auto
next
  case (ht d)
  define ss where "ss = map fst (dict_entries d)"
  have l: "set_lists h (SetHT d) (map SetStr ss)" using ht by (simp add: ss_def)
  have A: "set ss = A" "distinct ss" using ht by (auto simp: ss_def ht_keys_def ht_ok_def dict_wf_def comp_def)
  then have len: "length ss = card A" using distinct_card by metis
  have n: "dictSize d = length ss" using ht(2) dictSize_entries by (auto simp: ht_ok_def dict_wf_def ss_def)
  have short: "\<forall>s\<in>set ss. length s < 2 ^ 31" using ht(3,4) A(1) by simp
  obtain bss where bss: "list_all2 (string_codec env) ss bss" "length (concat bss) \<le> (\<Sum>s\<leftarrow>ss. length s + 15)"
    using codecs_exist [OF h short] by blast
  have sum: "(\<Sum>s\<leftarrow>ss. length s + 15) = (\<Sum>s\<in>A. length s + 15)" using A sum_list_distinct_conv_sum_set [OF A(2)] by simp
  have "saves (rdbSaveObject env so) (len_bytes (of_nat (length ss)) @ concat bss)"
    using saves_cong [OF _ saves_then [OF rdbSaveLen_saves save_members_saves [OF l bss(1)]], of "rdbSaveObject env so" "of_nat (length ss)"] ht(1) n by simp
  moreover have "ss \<noteq> []" using A(1) ne by auto
  ultimately show ?thesis
    using load_set_ok [OF _ _ A(2) short _ bss(1)] card len A(1) ht(1) bss(2) sum len_bytes_length [of "of_nat (length ss)"]
    unfolding set_codec_def by (intro exI [of _ "len_bytes (of_nat (length ss)) @ concat bss"]) auto
qed

section \<open>The payload\<close>

definition sealed :: "u8 list \<Rightarrow> u8 list" where
  "sealed body = body @ [12, 0] @ le_bytes 8 (uint (crc_of 0 (body @ [12, 0])))"

lemma createDumpPayload_ok:
  assumes bs: "set_codec env so A bs" and "cache_state (crc_cache env)" and "length bs < 2 ^ 63"
  shows "createDumpPayload env so = Some (sealed (rdb_type_byte (rdb_set_type_of so) # bs))"
proof -
  let ?t = "rdb_type_byte (rdb_set_type_of so)"
  have ty: "saves (rdbSaveObjectType so) [?t]" using saves_raw by (simp add: rdbSaveObjectType_def rdbSaveType_def)
  have ok: "stream_ok (Some (rioInitWithBuffer []))" by (simp add: rioInitWithBuffer_def)
  obtain r1 where r1: "rdbSaveObjectType so (Some (rioInitWithBuffer [])) = Some (Some 1, r1)" "stream_wrote (Some (rioInitWithBuffer [])) [?t] r1"
    using ty ok unfolding saves_def by fastforce
  have "saves (rdbSaveObject env so) bs" using bs by (simp add: set_codec_def)
  then obtain r2 where r2: "rdbSaveObject env so r1 = Some (Some (length bs), r2)" "stream_wrote r1 bs r2"
    using stream_wrote_ok [OF r1(2) ok] unfolding saves_def by blast
  obtain r where r: "r2 = Some r" "buffer_ptr r = ?t # bs"
    using stream_wrote_trans [OF r1(2) r2(2)] by (auto simp: wrote_def rioInitWithBuffer_def)
  have "payload_crc env (?t # bs @ [12, 0]) = Some (crc_of 0 (?t # bs @ [12, 0]))"
    using crc64_value [OF assms(2), of "?t # bs @ [12, 0]"] assms(3) by (simp add: payload_crc_def)
  moreover have "0 < length bs" using bs by (simp add: set_codec_def)
  ultimately show ?thesis using r1(1) r2(1) r by (simp add: createDumpPayload_def sealed_def Let_def)
qed

lemma verifyDumpPayload_sealed:
  assumes "cache_state (crc_cache env)" and "length body < 2 ^ 63"
  shows "verifyDumpPayload env (sealed body) = Some (True, Some 12)"
proof -
  have crc: "payload_crc env (body @ [12, 0]) = Some (crc_of 0 (body @ [12, 0]))"
    using crc64_value [OF assms(1), of "body @ [12, 0]"] assms(2) by (simp add: payload_crc_def)
  have "length (sealed body) = length body + 10" by (simp add: sealed_def)
  moreover have "drop (length body) (sealed body) = [12, 0] @ le_bytes 8 (uint (crc_of 0 (body @ [12, 0])))" by (simp add: sealed_def)
  moreover have "take (length body + 2) (sealed body) = body @ [12, 0]" by (simp add: sealed_def)
  ultimately show ?thesis using crc by (simp add: verifyDumpPayload_def Let_def)
qed

lemma load_type:
  assumes "length (b # bs) < 2 ^ 63" and "rdbIsObjectType b"
  shows "\<exists>r. rdbLoadObjectType (rioInitWithBuffer (b # bs)) = Some (Some b, r) \<and> rio_ok r \<and> \<not> rio_read_error r \<and> rio_rest r = bs"
proof -
  let ?r = "rioInitWithBuffer (b # bs)"
  have r: "rio_ok ?r" "\<not> rio_read_error ?r" "rio_rest ?r = [b] @ bs" using assms(1) by (simp_all add: rio_ok_def rio_rest_def rioInitWithBuffer_def)
  obtain r' where "rioRead ?r 1 = Some (Some [b], r')" "consumed ?r [b] r'" "rio_rest r' = bs" using rioRead_ok [OF r] by auto
  then show ?thesis using consumed_next [OF r(3) _ r(2)] assms(2) by (auto simp: rdbLoadObjectType_def rdbLoadType_def load_then_def)
qed

text \<open>C3. A set survives \<^verbatim>\<open>DUMP\<close> and \<^verbatim>\<open>RESTORE\<close>: the payload that \<^verbatim>\<open>createDumpPayload\<close> makes of a set object of any encoding, with or without
  compression, is accepted by \<^verbatim>\<open>verifyDumpPayload\<close> of any server of this version, and there \<^verbatim>\<open>rdbLoadObjectType\<close> and
  \<^verbatim>\<open>rdbLoadObject\<close> give a well-formed set object with the same members, whatever its settings, hash function and level of validation
  are, provided that memory can be allocated. The set is not empty and has fewer than \<open>2 ^ 32\<close> members.\<close>

theorem dump_roundtrip:
  assumes "set_rep h so A" and "A \<noteq> {}" and "card A < 2 ^ 32" and "(\<Sum>s\<in>A. length s + 15) < 2 ^ 62"
    and "\<And>s. htab_ok (lzf_table env s)" and "cache_state (crc_cache env)" and "cache_state (crc_cache env')" and "load_env_ok env'"
  shows "\<exists>p r so' r'. createDumpPayload env so = Some p \<and> verifyDumpPayload env' p = Some (True, Some 12) \<and>
    rdbLoadObjectType (rioInitWithBuffer p) = Some (Some (rdb_type_byte (rdb_set_type_of so)), r) \<and>
    rdbLoadObject env' (rdb_set_type_of so) r = Some (Inr so', r') \<and> set_rep (gen_hash (rdb_set env')) so' A"
proof -
  obtain bs where bs: "set_codec env so A bs" using rdbSaveObject_codec [OF assms(1-3,5)] by blast
  then have len: "length bs < 2 ^ 62 + 2 ^ 33" using assms(4) by (simp add: set_codec_def)
  let ?b = "rdb_type_byte (rdb_set_type_of so)"
  have "rdbIsObjectType ?b" by (cases so) (simp_all add: rdbIsObjectType_def)
  moreover obtain foot where foot: "sealed (?b # bs) = ?b # bs @ foot" "length foot = 10" by (simp add: sealed_def)
  ultimately obtain r where r: "rdbLoadObjectType (rioInitWithBuffer (sealed (?b # bs))) = Some (Some ?b, r)" "rio_ok r" "\<not> rio_read_error r"
      "rio_rest r = bs @ foot"
    using load_type [of ?b "bs @ foot"] len by auto
  then obtain so' r' where "rdbLoadObject env' (rdb_set_type_of so) r = Some (Inr so', r')" "set_rep (gen_hash (rdb_set env')) so' A"
    using bs assms(8) unfolding set_codec_def by blast
  then show ?thesis
    using createDumpPayload_ok [OF bs assms(6)] verifyDumpPayload_sealed [OF assms(7), of "?b # bs"] r(1) len by auto
qed

definition sample_intset :: intset where
  "sample_intset = \<lparr>is_encoding = 2, is_length = 1, is_contents = [Some 5, Some 0]\<rparr>"

lemma sample_intset_rep: "set_rep h (SetIntset sample_intset) {ll_dec 5}"
proof -
  have e: "intset_elems sample_intset = [5]"
    by (simp add: intset_elems_def sample_intset_def intsetGet_raw_def intsetGetEncoded_def mem_read_def le_sint_def wrap_s_def)
  then have "intset_wf sample_intset" by (simp add: intset_wf_def intset_rep_def blob_def sample_intset_def numeral_2_eq_2)
  then show ?thesis using set_rep_intset [of sample_intset h] e by (simp add: sample_intset_def)
qed

lemma default_load_env: "load_env_ok default_rdb" "cache_state (crc_cache default_rdb)"
  using default_rdb_ok by (simp_all add: load_env_ok_def default_rdb_def default_env_def cache_state_def)

theorem dump_roundtrip_witness:
  "\<exists>p r so' r'. createDumpPayload default_rdb (SetIntset sample_intset) = Some p \<and> verifyDumpPayload default_rdb p = Some (True, Some 12) \<and>
    rdbLoadObjectType (rioInitWithBuffer p) = Some (Some 11, r) \<and>
    rdbLoadObject default_rdb RDB_TYPE_SET_INTSET r = Some (Inr so', r') \<and> set_rep (gen_hash (rdb_set default_rdb)) so' {ll_dec 5}"
  using dump_roundtrip [OF sample_intset_rep _ _ _ default_rdb_ok(1) default_load_env(2) default_load_env(2,1)] by (simp add: ll_dec_def)

text \<open>C38. A made-up payload does no harm: with deep validation, loading a set in the general or the intset format from otherwise arbitrary bytes ends
  without an invalid access or a failed assertion, and gives an error or a well-formed set that is not empty, whichever allocations
  succeed. The payload is shorter than 16 MiB, and the bytes of no length from \<open>2 ^ 64 - 18\<close> to \<open>2 ^ 64 - 2\<close> occur in it: on such a length the
  code aborts.\<close>

theorem rdb_load_safe:
  assumes "env_ok (rdb_set env)" and "short_payload (buffer_ptr r)" and "deep_integrity_validation env" and "t \<noteq> RDB_TYPE_SET_LISTPACK"
    and "rio_ok r" and "huge_free (buffer_ptr r)"
  shows "\<exists>res r'. rdbLoadObject env t r = Some (res, r') \<and>
    (\<forall>so. res = Inr so \<longrightarrow> (\<exists>A. A \<noteq> {} \<and> set_rep (gen_hash (rdb_set env)) so A))"
  using load_set_total [OF assms(1,2,5,6)] load_set_intset_total [OF assms(1,2,3,5)] assms(4)
  by (cases t) (simp_all add: loaded_ok_def)

lemma sample_huge_free: "huge_free [1, 1, 97]"
proof -
  have "length (len_bytes n) = 9" if "2 ^ 64 - 18 \<le> unat n" for n
    using that by (simp add: len_bytes_def word_less_nat_alt word_le_nat_alt)
  then show "huge_free [1, 1, 97]" unfolding huge_free_def by (auto dest!: arg_cong [where f = length])
qed

theorem rdb_load_safe_witness:
  "\<exists>res r'. rdbLoadObject default_rdb RDB_TYPE_SET (rioInitWithBuffer [1, 1, 97]) = Some (res, r')"
  using rdb_load_safe [of default_rdb "rioInitWithBuffer [1, 1, 97]" RDB_TYPE_SET] sample_huge_free default_rdb_ok(3)
  by (auto simp: deep_integrity_validation_def default_rdb_def short_payload_def rio_ok_def rioInitWithBuffer_def)

lemma sdstrynewlen_overflow:
  assumes "2 ^ 64 - 18 \<le> k" and "k < 2 ^ 64"
  shows "sdstrynewlen env k = None"
proof -
  have "sdsReqType k = SDS_TYPE_64" using assms by (simp add: sdsReqType_def)
  moreover have "(k + 17 + 1) mod 2 ^ 64 = k + 18 - 2 ^ 64" using assms by (simp add: mod_if)
  ultimately show ?thesis using assms by (simp add: sdstrynewlen_def Let_def)
qed

text \<open>C40. The excluded lengths abort the server: the length of a member of a set is passed on to \<^verbatim>\<open>sdstrynewlen\<close>, whose assertion
  fails instead of reporting that the string cannot be allocated.\<close>

theorem rdb_huge_length_aborts:
  assumes "2 ^ 64 - 18 \<le> unat n" and "n \<noteq> 0xFFFFFFFFFFFFFFFF"
  shows "rdbLoadObject env RDB_TYPE_SET (rioInitWithBuffer (1 # len_bytes n)) = None"
proof -
  let ?r = "rioInitWithBuffer (1 # len_bytes n)"
  have r: "rio_ok ?r" "\<not> rio_read_error ?r" "rio_rest ?r = len_bytes 1 @ len_bytes n"
    using len_bytes_length [of n] by (simp_all add: rio_ok_def rio_rest_def rioInitWithBuffer_def len_bytes_def [of 1])
  obtain r1 where r1: "rdbLoadLen ?r = Some ((1, False), r1)" "consumed ?r (len_bytes 1) r1" using rdbLoadLen_ok [OF r] by blast
  obtain r2 where "rdbLoadLen r1 = Some ((n, False), r2)"
    using rdbLoadLen_ok [of r1 n "[]"] consumed_next [OF r(3) r1(2) r(2)] by auto
  moreover have "sdstrynewlen env (unat n) = None" using assms(1) unsigned_less [of n] by (intro sdstrynewlen_overflow) simp_all
  ultimately have "rdbGenericLoadStringObject env RDB_LOAD_SDS r1 = None"
    using assms(2) by (simp add: rdbGenericLoadStringObject_def try_string_def)
  then have "load_members env 1 0 0 0 obj r1 = None" for obj by (subst load_members.simps) simp
  then show ?thesis using r1(1) by (simp add: load_set_def Let_def)
qed

theorem rdb_huge_length_aborts_witness:
  "rdbLoadObject default_rdb RDB_TYPE_SET (rioInitWithBuffer [1, 0x81, 0xFF, 0xFF, 0xFF, 0xFF, 0xFF, 0xFF, 0xFF, 0xF0]) = None"
proof -
  have "len_bytes 0xFFFFFFFFFFFFFFF0 = [0x81, 0xFF, 0xFF, 0xFF, 0xFF, 0xFF, 0xFF, 0xFF, 0xF0]" by code_simp
  then show ?thesis using rdb_huge_length_aborts [of "0xFFFFFFFFFFFFFFF0" default_rdb] by simp
qed

end
