(* ===== verification/Spec2Isabelle.thy ===== *)
theory Spec2Isabelle
  imports Intset Numbers Dict_Scan Dict_Iter Lzf_Roundtrip Listpack_List Set_Server Rdb_Dump
begin

text \<open>
  Verification of the core of the Redis server, version 8.2.1, that the repository carries under \<^verbatim>\<open>backend/redis-stable/src\<close>
  (all file names below are relative to it). The modelled part is what stores and computes a set of strings: the byte-level
  structures, the hash table, the set objects built on them, the set commands on the keyspace, and the codecs that persistence
  applies to such data.

  \<^bold>\<open>Method.\<close> Every C function is one definition with the name it has in C, where HOL allows; a loop is a recursive
  definition of its own, named after the function. Definitions compute, so the witnesses evaluate them. Blocks of memory that the
  code addresses byte by byte are lists of cells (theory \<^verbatim>\<open>Prelude\<close>): an access outside a block or of a byte never written makes
  the result \<open>None\<close>, and so does a failed assertion. A statement that an operation returns therefore includes that it accesses
  memory correctly and fails no assertion. Loops whose end depends on data are \<^verbatim>\<open>partial_function (option)\<close> where \<open>None\<close> also
  covers not ending; the theorems about them state that they return. No model uses fuel; some recursions carry the
  number of remaining elements, as the code does. Integers of C are words where the code works on bits, and otherwise \<^verbatim>\<open>int\<close> or
  \<^verbatim>\<open>nat\<close>. Unsigned wrap-around is written out where it can happen, and a signed overflow, undefined in C, gives \<open>None\<close>. Counters of things that lie
  in memory or are arguments of a command are unbounded.

  \<^bold>\<open>Parts, theories and correspondence.\<close>

  \<^item> \<^verbatim>\<open>Prelude\<close>: machine integers, memory (\<^verbatim>\<open>mem_read\<close>, \<^verbatim>\<open>mem_write\<close>, \<^verbatim>\<open>mem_move\<close> for \<^verbatim>\<open>memcpy\<close> and \<^verbatim>\<open>memmove\<close>), little-endian
    encodings, shared lemmas. \<^verbatim>\<open>Bits\<close>: reversal of words by exchanging blocks, used by \<^verbatim>\<open>Dict_Scan\<close> and \<^verbatim>\<open>Crc64_Correct\<close>.
  \<^item> \<^verbatim>\<open>Interfaces\<close>: the locales \<open>set_ops\<close>, \<open>set_store\<close> (a set of values under add, remove, membership and size) and \<open>map_store\<close>
    (a finite map under add, replace, delete and fetch). They are interpreted on the intset (\<open>intset_set\<close>), on the set objects
    (\<open>set_objs\<close>) and on the hash table (\<open>dict_map_store\<close>); \<open>lp_comparator\<close> of \<^verbatim>\<open>Listpack_Read\<close> is the contract of the callback of
    the listpack search, interpreted on the comparator of \<^verbatim>\<open>lpFind\<close>.
  \<^item> \<^verbatim>\<open>Numbers\<close> models \<^verbatim>\<open>util.c\<close> (\<^verbatim>\<open>digits10\<close>, \<^verbatim>\<open>sdigits10\<close>, \<^verbatim>\<open>ull2string\<close>, \<^verbatim>\<open>ll2string\<close>, \<^verbatim>\<open>string2ll\<close>, \<^verbatim>\<open>string2l\<close>): the printer
    writes the shortest decimal numeral and the parser accepts exactly these.
  \<^item> \<^verbatim>\<open>Intset\<close> models \<^verbatim>\<open>intset.c\<close> over the bytes of the array. The record \<open>intset\<close> has the fields of the struct. \<open>intset_rep\<close> relates
    an intset to the increasing list of its members. Shown: add, remove, find and get refine the set, validation accepts exactly
    the well-formed blocks. Bound: below \<open>2 ^ 29\<close> members, because the code counts the moved bytes in 32 bits; the wrap-around
    beyond the bound is a theorem too.
  \<^item> \<^verbatim>\<open>Listpack\<close> (definitions of \<^verbatim>\<open>listpack.c\<close>), \<^verbatim>\<open>Listpack_Encoding\<close>, \<^verbatim>\<open>Listpack_Read\<close>, \<^verbatim>\<open>Listpack_Update\<close>, \<^verbatim>\<open>Listpack_Batch\<close>,
    \<^verbatim>\<open>Listpack_Validate\<close>, \<^verbatim>\<open>Listpack_List\<close> (properties). A listpack is its block of memory, a pointer an offset. \<open>lp_rep\<close> relates
    it to the list of its elements. Shown: all operations are list operations on the strings, an oversized result is the null
    pointer, validation ends on arbitrary bytes and what deep validation accepts can be iterated and read safely.
  \<^item> \<^verbatim>\<open>Dict\<close> (definitions of \<^verbatim>\<open>dict.c\<close>, \<^verbatim>\<open>dict.h\<close>), \<^verbatim>\<open>Dict_Correct\<close> (invariant \<open>dict_wf\<close> and the finite map \<open>dict_map\<close> of a
    dictionary; add, replace, delete, unlink, resize and rehash), \<^verbatim>\<open>Dict_Scan\<close> (\<^verbatim>\<open>rev\<close>, \<^verbatim>\<open>dictScan\<close>), \<^verbatim>\<open>Dict_Iter\<close> (safe and unsafe
    iterators with the fingerprint), \<^verbatim>\<open>Dict_Link\<close> (\<^verbatim>\<open>dictFindLink\<close>, \<^verbatim>\<open>dictSetKeyAtLink\<close>). The record \<open>dictType\<close> has the callbacks
    of a dictionary. The tables have at most \<open>2 ^ 60\<close> buckets by the guards of the code. The assertions on the tag bits of entry pointers are
    modelled where they can fail, in \<^verbatim>\<open>dictSetKeyAtLink\<close>.
  \<^item> \<^verbatim>\<open>Lzf\<close> (\<^verbatim>\<open>lzf_c.c\<close>, \<^verbatim>\<open>lzf_d.c\<close>) and \<^verbatim>\<open>Lzf_Roundtrip\<close>: compression is inverted by decompression, whatever the uninitialised hash
    table holds; both stay inside their buffers, and the output is at most 88 times as long as the input.
  \<^item> \<^verbatim>\<open>Crc64\<close> (\<^verbatim>\<open>crc64.c\<close>, \<^verbatim>\<open>crcspeed.c\<close>, \<^verbatim>\<open>crccombine.c\<close>) and \<^verbatim>\<open>Crc64_Correct\<close>: the fast checksum equals the bit by bit one. The
    static cache of matrices is an argument, empty or filled; the tables are those that \<^verbatim>\<open>crc64_init\<close> computes.
  \<^item> \<^verbatim>\<open>Set_Type\<close> (the \<^verbatim>\<open>setType\<close> functions of \<^verbatim>\<open>t_set.c\<close>, the set constructors of \<^verbatim>\<open>object.c\<close>, the dictionary type of \<^verbatim>\<open>server.c\<close>) and
    \<^verbatim>\<open>Set_Correct\<close>: the object is a datatype with a constructor for each encoding. \<open>set_rep\<close> relates an object to a finite set of
    strings. Adding, removing, testing, iterating and converting are correct for every configuration (record \<open>set_env\<close>) within the bounds.
  \<^item> \<^verbatim>\<open>Set_Commands\<close> (the commands of \<^verbatim>\<open>t_set.c\<close> with the functions of \<^verbatim>\<open>db.c\<close>, \<^verbatim>\<open>object.c\<close> and \<^verbatim>\<open>networking.c\<close> they call) on a state
    with the keyspace, \<^verbatim>\<open>server.dirty\<close>, the signalled keys, the keyspace events and the reply. \<^verbatim>\<open>Set_Spec\<close> has the abstract commands on
    a map from keys to sets (\<open>spec_cmd\<close>) and the relation to the states; \<^verbatim>\<open>Set_Refine\<close>, \<^verbatim>\<open>Set_Algebra\<close>, \<^verbatim>\<open>Set_Combine\<close> prove the
    refinement of each command, \<^verbatim>\<open>Set_Server\<close> that of sequences of commands.
  \<^item> \<^verbatim>\<open>Rio\<close> (\<^verbatim>\<open>rio.h\<close>, and the memory buffer of \<^verbatim>\<open>rio.c\<close>), \<^verbatim>\<open>Rdb\<close> (the part of \<^verbatim>\<open>rdb.c\<close> for lengths, strings and sets, with the allocation functions of
    \<^verbatim>\<open>sds.c\<close> and \<^verbatim>\<open>zmalloc.c\<close> it calls, and \<^verbatim>\<open>createDumpPayload\<close> and \<^verbatim>\<open>verifyDumpPayload\<close> of \<^verbatim>\<open>cluster.c\<close>). A stream is the record \<open>rio\<close>; saving takes a stream that may
    be null, loading returns a value or an error. \<^verbatim>\<open>Rdb_String\<close>: every string, saved as an integer, compressed or verbatim, is loaded again.
    \<^verbatim>\<open>Rdb_Set\<close>: the loop that loads members ends on all bytes. \<^verbatim>\<open>Rdb_Dump\<close>: a set of any encoding survives \<^verbatim>\<open>DUMP\<close> and \<^verbatim>\<open>RESTORE\<close> with
    its checksum and validation; loading other bytes in the general or the intset format gives an error or a well-formed set, except for
    the lengths on which an assertion of \<^verbatim>\<open>sds.c\<close> fails, which is a theorem too. What deep validation guarantees for a listpack from a payload is
    shown in \<^verbatim>\<open>Listpack_List\<close>.

  \<^bold>\<open>How the parts interact.\<close> The set objects call the intset, the listpack and the dictionary through the representation
  relations, so the facts about a set command rest on the byte-level facts: a sequence of commands that refines the abstract one makes
  no invalid access in any of the three structures. Strings become integers, and back, by the exact conversions of \<^verbatim>\<open>Numbers\<close>;
  that is why a member keeps its identity when a conversion between encodings rewrites it. The payload of a set combines the codecs: its
  members go through \<^verbatim>\<open>Numbers\<close> or LZF, its intsets and listpacks through their validation, and the whole through the checksum.

  \<^bold>\<open>Parameters.\<close> The hash function, the sizes and addresses the allocator returns and whether a tentative allocation succeeds, the
  order in which \<^verbatim>\<open>qsort\<close> leaves equal elements, the content of uninitialised memory, the addresses of strings, and all settings are arguments; the theorems hold
  for all of them, under the laws stated as hypotheses (an allocation has at least the size asked for).

  \<^bold>\<open>Bounds.\<close> Members of sets are shorter than \<open>2 ^ 31\<close> bytes, as the server's limit of 512 MB for a string gives; the configured limit
  of intset entries is below \<open>2 ^ 29\<close>, although the code admits \<open>2 ^ 30\<close>, because of the wrap-around in \<^verbatim>\<open>intsetMoveTail\<close>. \<^verbatim>\<open>SUNION\<close>, \<^verbatim>\<open>SDIFF\<close> and
  their storing variants count members in an \<^verbatim>\<open>int\<close>: the union, or the first set of the difference, has fewer than \<open>2 ^ 31\<close> members (\<open>cmd_sizes_ok\<close>). A
  command has fewer than \<open>2 ^ 31\<close> arguments. Strings in RDB format are shorter than \<open>2 ^ 62\<close> bytes, and a saved set has fewer than \<open>2 ^ 32\<close> members,
  since the loading loop counts in 32 bits; loading is in the context of \<^verbatim>\<open>RESTORE\<close>. Made-up payloads are shorter than 16 MiB, so that
  no string expands to \<open>2 ^ 31\<close> bytes. The keys of the set commands have no expiry; the size histograms of the keyspace and the hooks of
  modules have no effect on the modelled state. The reply is a sequence of items and not its bytes on the wire.

  \<^bold>\<open>Not modelled.\<close> \<^verbatim>\<open>SPOP\<close>, \<^verbatim>\<open>SRANDMEMBER\<close> and the sampling functions of \<^verbatim>\<open>dict.c\<close> and \<^verbatim>\<open>listpack.c\<close>: they draw from \<^verbatim>\<open>random()\<close> and, for large
  counts, use floating point estimates; \<^verbatim>\<open>SSCAN\<close> formats cursors for \<^verbatim>\<open>scanGenericCommand\<close>, of which only \<^verbatim>\<open>dictScan\<close> is covered. The
  defragmentation and statistics of \<^verbatim>\<open>dict.c\<close>. Big-endian machines, and the vector instructions of \<^verbatim>\<open>crccombine.c\<close>. The other types of RDB objects, the file format
  around them, and the commands \<^verbatim>\<open>DUMP\<close> and \<^verbatim>\<open>RESTORE\<close> around the payload. Sockets, threads,
  files and processes (\<^verbatim>\<open>ae.c\<close>, \<^verbatim>\<open>anet.c\<close>, \<^verbatim>\<open>networking.c\<close> beyond the replies, the other back ends of \<^verbatim>\<open>rio.c\<close>, \<^verbatim>\<open>aof.c\<close>, \<^verbatim>\<open>replication.c\<close>, \<^verbatim>\<open>cluster_legacy.c\<close>, \<^verbatim>\<open>sentinel.c\<close>), because their
  behaviour is that of the operating system and of timers. Scripts and modules (\<^verbatim>\<open>eval.c\<close>, \<^verbatim>\<open>script_lua.c\<close>, \<^verbatim>\<open>module.c\<close>) run foreign code. The other data types
  (strings, lists, hashes, sorted sets, streams) and the services around the keyspace (expiry, eviction, transactions, access
  control) are separate components that the modelled code does not call. The TypeScript application of the repository calls Redis, a
  database and web services through client libraries that are not part of the sources.
\<close>

end
